(* ===== verification/Prelude.thy ===== *)
theory Prelude
  imports Main "HOL-Library.Word" "HOL-Library.Finite_Map" "HOL-Library.Multiset"
    "HOL-Library.Char_ord" "HOL-Library.List_Lexorder"
begin

text \<open>
  What every component of the model shares.

  Go's fixed-width integers are words read with \<open>sint\<close> or \<open>unat\<close>; Go's strings are
  byte lists, ordered lexicographically as Go's \<open><\<close> orders them; a Go map is a finite map
  with the zero value as its default on reads. Go iterates a map in an unspecified order: the
  model iterates in ascending key order, and the lemmas about such loops describe the resulting
  map by its lookups, which do not depend on that order. The theory also holds the two generic
  order-independence facts (folding permuted lists, folding commuting steps) that the CRDT
  proofs rest on.
\<close>

section \<open>Machine integers\<close>

type_synonym int64 = "64 word"
type_synonym uint64 = "64 word"
type_synonym uint32 = "32 word"

abbreviation maxInt64 :: int where
  "maxInt64 \<equiv> 9223372036854775807"

abbreviation minInt64 :: int where
  "minInt64 \<equiv> - 9223372036854775808"

abbreviation maxUint32 :: uint32 where
  "maxUint32 \<equiv> - 1"

named_theorems word_read \<comment> \<open>readings of word operations as integer operations\<close>

lemma sint64_bounds: "minInt64 \<le> sint (w :: int64)" "sint (w :: int64) \<le> maxInt64"
  using sint_range_size [of w] by (simp_all add: word_size)

lemma sint64_of_int:
  "minInt64 \<le> i \<Longrightarrow> i \<le> maxInt64 \<Longrightarrow> sint (word_of_int i :: int64) = i"
  by (simp add: signed_take_bit_int_eq_self sint_sbintrunc')

lemma sint64_eq_iff [word_read]: "sint (a :: int64) = sint b \<longleftrightarrow> a = b"
  by (metis signed_word_eqI)

lemma sint64_total: "a \<noteq> b \<Longrightarrow> \<not> sint (a :: int64) < sint b \<Longrightarrow> sint b < sint a"
  using sint64_eq_iff [of a b] by linarith

lemma sint64_add_one [word_read]:
  "sint (w :: int64) < maxInt64 \<Longrightarrow> sint (w + 1) = sint w + 1"
proof -
  assume *: "sint w < maxInt64"
  have "w + 1 = word_of_int (sint w + 1)" by simp
  also have "sint \<dots> = sint w + 1"
    using * sint64_bounds [of w] by (intro sint64_of_int) simp_all
  finally show ?thesis .
qed

lemma uint32_add_one [word_read]: "(w :: uint32) \<noteq> maxUint32 \<Longrightarrow> w < w + 1"
  by (meson inc_less_eq_triv_imp linorder_not_le)

lemma uint64_of_int: "0 \<le> i \<Longrightarrow> i \<le> 18446744073709551615 \<Longrightarrow> uint (word_of_int i :: uint64) = i"
  by (simp add: uint_word_of_int_eq take_bit_int_eq_self)

text \<open>A \<open>uint64\<close> that converts to \<open>int64\<close> without changing its value.\<close>

definition fitsInt64 :: "uint64 \<Rightarrow> bool" where
  "fitsInt64 w \<longleftrightarrow> uint w \<le> maxInt64"

lemma fitsInt64_sint: "fitsInt64 w \<Longrightarrow> sint w = uint w"
proof -
  assume "fitsInt64 w"
  then have "uint w < 2 ^ 63" by (simp add: fitsInt64_def)
  moreover have "- (2 ^ 63) \<le> uint w" by (rule order_trans [of _ 0]) simp_all
  ultimately have "signed_take_bit 63 (uint w) = uint w"
    by (intro signed_take_bit_int_eq_self)
  then show ?thesis by (simp add: sint_uint)
qed

lemma fitsInt64_zero [simp]: "fitsInt64 0"
  by (simp add: fitsInt64_def)

lemma fitsInt64_mono: "fitsInt64 w \<Longrightarrow> v \<le> w \<Longrightarrow> fitsInt64 v"
  by (simp add: fitsInt64_def word_le_def)

lemma fitsInt64_sint_le: "fitsInt64 v \<Longrightarrow> fitsInt64 w \<Longrightarrow> sint v \<le> sint w \<longleftrightarrow> v \<le> w"
  by (simp add: fitsInt64_sint word_le_def)

lemma fitsInt64_of_int: "0 \<le> i \<Longrightarrow> i \<le> maxInt64 \<Longrightarrow> fitsInt64 (word_of_int i) \<and> sint (word_of_int i :: int64) = i"
  by (simp add: fitsInt64_def uint64_of_int sint64_of_int)

section \<open>Ordering\<close>

text \<open>Go's \<open>cmp.Compare\<close>: -1, 0 or +1.\<close>

definition cmpCompare :: "'a::linorder \<Rightarrow> 'a \<Rightarrow> int" where
  "cmpCompare a b = (if a < b then - 1 else if b < a then 1 else 0)"

lemma cmpCompare_simps [simp]:
  "cmpCompare a b = 0 \<longleftrightarrow> a = b"
  "cmpCompare a b < 0 \<longleftrightarrow> a < b"
  "0 < cmpCompare a b \<longleftrightarrow> b < a"
  by (auto simp: cmpCompare_def)

section \<open>Go maps\<close>

text \<open>\<open>m[k]\<close> on a Go map reads the zero value of the value type where the key is absent.\<close>

definition fm_get :: "'v \<Rightarrow> ('k, 'v) fmap \<Rightarrow> 'k \<Rightarrow> 'v" where
  "fm_get z m k = (case fmlookup m k of None \<Rightarrow> z | Some v \<Rightarrow> v)"

lemma fm_get_empty [simp]: "fm_get z fmempty k = z"
  by (simp add: fm_get_def)

lemma fm_get_upd [simp]: "fm_get z (fmupd k v m) k' = (if k' = k then v else fm_get z m k')"
  by (auto simp: fm_get_def)

lemma fm_get_lookup: "fmlookup m k = Some v \<Longrightarrow> fm_get z m k = v"
  by (simp add: fm_get_def)

lemma set_sorted_list_of_fmap: "(k, v) \<in> set (sorted_list_of_fmap m) \<longleftrightarrow> fmlookup m k = Some v"
  unfolding sorted_list_of_fmap_def
  by (auto simp: fmlookup_dom_iff image_iff)

lemma distinct_sorted_list_of_fmap: "distinct (map fst (sorted_list_of_fmap m))"
  unfolding sorted_list_of_fmap_def by (simp add: comp_def sorted_list_of_fset.rep_eq)

lemma sorted_list_of_fmap_empty [simp]: "sorted_list_of_fmap fmempty = []"
  unfolding sorted_list_of_fmap_def by (simp add: sorted_list_of_fset.rep_eq)

text \<open>A loop that visits every entry of a map once and changes only that entry's key.\<close>

lemma foldl_fm_lookup:
  assumes step: "\<And>out k v k'. fmlookup (f out (k, v)) k' =
      (if k' = k then g (fmlookup out k) k v else fmlookup out k')"
    and dist: "distinct (map fst xs)"
  shows "fmlookup (foldl f m xs) k =
    (case map_of xs k of None \<Rightarrow> fmlookup m k | Some v \<Rightarrow> g (fmlookup m k) k v)"
  using dist
proof (induction xs arbitrary: m)
  case Nil
  then show ?case by simp
next
  case (Cons kv xs)
  obtain k0 v0 where kv: "kv = (k0, v0)" by (cases kv)
  from Cons.prems kv have "map_of xs k0 = None" by (simp add: map_of_eq_None_iff)
  with Cons kv show ?case by (auto simp: step split: option.splits)
qed

text \<open>The sum of a map's values, visited in any order.\<close>

definition fm_sum :: "('k::linorder, 'v::comm_monoid_add) fmap \<Rightarrow> 'v" where
  "fm_sum m = sum_list (map snd (sorted_list_of_fmap m))"

lemma fm_sum_conv: "fm_sum m = (\<Sum>k \<in> fmdom' m. fm_get 0 m k)"
proof -
  have "fm_sum m = sum_list (map (\<lambda>k. the (fmlookup m k)) (sorted_list_of_fset (fmdom m)))"
    by (simp add: fm_sum_def sorted_list_of_fmap_def comp_def)
  also have "\<dots> = (\<Sum>k \<in> fmdom' m. the (fmlookup m k))"
    by (subst sum_list_distinct_conv_sum_set) (simp_all add: sorted_list_of_fset.rep_eq fmdom'_alt_def)
  also have "\<dots> = (\<Sum>k \<in> fmdom' m. fm_get 0 m k)"
    by (rule sum.cong) (auto simp: fm_get_def fmlookup_dom'_iff)
  finally show ?thesis .
qed

lemma fm_sum_empty [simp]: "fm_sum fmempty = 0"
  by (simp add: fm_sum_def)

lemma fm_sum_add: "fm_sum (fmupd k (fm_get 0 m k + d) m) = fm_sum m + d"
proof (cases "k \<in> fmdom' m")
  case True
  have "fm_sum (fmupd k (fm_get 0 m k + d) m) =
      (fm_get 0 m k + d) + (\<Sum>j \<in> fmdom' m - {k}. fm_get 0 m j)"
    using True by (simp add: fm_sum_conv insert_absorb sum.remove [where x = k])
  also have "\<dots> = fm_sum m + d"
    using True by (simp add: fm_sum_conv sum.remove [where x = k] ac_simps)
  finally show ?thesis .
next
  case False
  then have "fm_get 0 m k = 0"
    by (simp add: fm_get_def fmdom'_notD)
  moreover have "(\<Sum>j \<in> fmdom' m. if j = k then d else fm_get 0 m j) = (\<Sum>j \<in> fmdom' m. fm_get 0 m j)"
    using False by (intro sum.cong) auto
  ultimately show ?thesis
    using False by (simp add: fm_sum_conv ac_simps)
qed

lemma fm_sum_diff:
  fixes d :: "'v::ab_group_add"
  shows "fm_sum (fmupd k (fm_get 0 m k - d) m) = fm_sum m - d"
  using fm_sum_add [of k m "- d"] by simp

lemma foldl_snd_sum:
  "foldl (\<lambda>t (k, v). t + v) (z :: 'a::comm_monoid_add) xs = z + sum_list (map snd xs)"
  by (induction xs arbitrary: z) (auto simp: ac_simps)

lemma foldl_snd_diff:
  "foldl (\<lambda>t (k, v). t - v) (z :: 'a::ab_group_add) xs = z - sum_list (map snd xs)"
  by (induction xs arbitrary: z) (auto simp: algebra_simps)

section \<open>Folding in any order\<close>

lemma fold_mset_eq:
  assumes "mset xs = mset ys"
    and "\<And>x y s. x \<in> set xs \<Longrightarrow> y \<in> set xs \<Longrightarrow> f x (f y s) = f y (f x s)"
  shows "fold f xs s = fold f ys s"
  using fold_multiset_equiv [of xs f ys] assms by (metis comp_def ext)

lemma mset_eq_of_distinct: "distinct xs \<Longrightarrow> distinct ys \<Longrightarrow> set xs = set ys \<Longrightarrow> mset xs = mset ys"
  by (simp add: set_eq_iff_mset_eq_distinct)

text \<open>A loop invariant.\<close>

lemma foldl_inv:
  "P a \<Longrightarrow> (\<And>a x. x \<in> set xs \<Longrightarrow> P a \<Longrightarrow> P (f a x)) \<Longrightarrow> P (foldl f a xs)"
  by (induction xs arbitrary: a) auto

section \<open>Error results\<close>

fun is_Inr :: "'e + 'a \<Rightarrow> bool" where
  "is_Inr (Inl _) = False"
| "is_Inr (Inr _) = True"

lemma is_Inr_iff: "is_Inr r \<longleftrightarrow> (\<exists>x. r = Inr x)"
  by (cases r) auto

end
