(* ===== verification/ClockSpec.thy ===== *)
theory ClockSpec
  imports Prelude
begin

text \<open>
  The contract of a hybrid logical clock, as its users see it. The programs of the
  repository have clocks of their own; each is shown to provide this interface under its own side
  condition on the timestamps involved, and the facts about whole runs are proved here once.
\<close>

text \<open>The timestamps issued by a sequence of operations.\<close>

fun stamps :: "('s \<Rightarrow> 'op \<Rightarrow> 't \<times> 's) \<Rightarrow> 's \<Rightarrow> 'op list \<Rightarrow> 't list" where
  "stamps step s [] = []"
| "stamps step s (p # ps) = fst (step s p) # stamps step (snd (step s p)) ps"

lemma length_stamps [simp]: "length (stamps step s ps) = length ps"
  by (induction ps arbitrary: s) auto

locale hybrid_clock =
  fixes step :: "'s \<Rightarrow> 'op \<Rightarrow> 't::linorder \<times> 's"
    and last_issued :: "'s \<Rightarrow> 't"
    and obs :: "'op \<Rightarrow> 't option"
    and ok :: "'t \<Rightarrow> bool"
  assumes last_step: "last_issued (snd (step s p)) = fst (step s p)"
    and step_above_last:
      "ok (last_issued s) \<Longrightarrow> (\<And>r. obs p = Some r \<Longrightarrow> ok r) \<Longrightarrow> last_issued s < fst (step s p)"
    and step_above_observed:
      "ok (last_issued s) \<Longrightarrow> obs p = Some r \<Longrightarrow> ok r \<Longrightarrow> r < fst (step s p)"
begin

lemma stamps_sorted:
  assumes "ok (last_issued s)"
    and "\<forall>h \<in> set (stamps step s ps). ok h"
    and "\<forall>p \<in> set ps. \<forall>r. obs p = Some r \<longrightarrow> ok r"
  shows "sorted_wrt (<) (last_issued s # stamps step s ps)"
  using assms
proof (induction ps arbitrary: s)
  case Nil
  then show ?case by simp
next
  case (Cons p ps)
  let ?s = "snd (step s p)"
  have lt: "last_issued s < fst (step s p)"
    using Cons.prems by (intro step_above_last) auto
  have "sorted_wrt (<) (last_issued ?s # stamps step ?s ps)"
    using Cons.prems by (intro Cons.IH) (auto simp: last_step)
  then show ?case
    using lt by (auto simp: last_step)
qed

lemma stamps_above_observed:
  assumes "ok (last_issued s)"
    and "\<forall>h \<in> set (stamps step s ps). ok h"
    and "\<forall>p \<in> set ps. \<forall>r. obs p = Some r \<longrightarrow> ok r"
    and "i \<le> j" "j < length ps" "obs (ps ! i) = Some r"
  shows "r < stamps step s ps ! j"
  using assms
proof (induction ps arbitrary: s i j)
  case Nil
  then show ?case by simp
next
  case (Cons p ps)
  let ?s = "snd (step s p)"
  show ?case
  proof (cases i)
    case (Suc i')
    with Cons.prems obtain j' where j': "j = Suc j'" by (cases j) auto
    have "r < stamps step ?s ps ! j'"
      using Cons.prems Suc j' by (intro Cons.IH [where i = i']) (auto simp: last_step)
    with j' show ?thesis by simp
  next
    case 0
    have r: "r < fst (step s p)"
      using Cons.prems 0 by (intro step_above_observed [of s p]) auto
    have "sorted_wrt (<) (last_issued ?s # stamps step ?s ps)"
      using Cons.prems by (intro stamps_sorted) (auto simp: last_step)
    with r Cons.prems(5) show ?thesis
      by (cases j) (auto simp: last_step intro: less_trans)
  qed
qed

end

end
