(* ===== verification/LabClock.thy ===== *)
theory LabClock
  imports ClockSpec
begin

text \<open>
  Hybrid logical clocks (\<open>eventlog-lab/clock/clock.go\<close>): the timestamp triple with its order,
  and the clock that issues them. A wall function is an injected \<open>func() int64\<close>; it is modelled
  by the sequence of its readings, and the clock record counts the readings taken, so a stalled,
  skewed or backwards-jumping wall is any such sequence. Mutexes are not modelled: each method
  is one atomic step.
\<close>

type_synonym node_id = string

section \<open>Timestamps\<close>

datatype hlc = HLC (Wall: int64) (Logical: uint32) (NodeID: node_id)

text \<open>\<open>HLC.Compare\<close>: by wall, then logical, then node id.\<close>

definition Compare :: "hlc \<Rightarrow> hlc \<Rightarrow> int" where
  "Compare a b =
    (let c = cmpCompare (sint (Wall a)) (sint (Wall b)) in if c \<noteq> 0 then c else
     let c = cmpCompare (Logical a) (Logical b) in if c \<noteq> 0 then c else
     cmpCompare (NodeID a) (NodeID b))"

definition Before :: "hlc \<Rightarrow> hlc \<Rightarrow> bool" where
  "Before a b \<longleftrightarrow> Compare a b < 0"

text \<open>The order the comparison induces, as an instance of the library's linear orders.\<close>

instantiation hlc :: linorder
begin

definition less_hlc :: "hlc \<Rightarrow> hlc \<Rightarrow> bool" where
  "less_hlc a b \<longleftrightarrow> sint (Wall a) < sint (Wall b) \<or>
    (Wall a = Wall b \<and> (Logical a < Logical b \<or>
      (Logical a = Logical b \<and> NodeID a < NodeID b)))"

definition less_eq_hlc :: "hlc \<Rightarrow> hlc \<Rightarrow> bool" where
  "less_eq_hlc a b \<longleftrightarrow> a < b \<or> a = b"

instance
proof
  fix a b c :: hlc
  show "(a < b) = (a \<le> b \<and> \<not> b \<le> a)"
    by (auto simp: less_eq_hlc_def less_hlc_def)
  show "a \<le> a"
    by (simp add: less_eq_hlc_def)
  show "a \<le> b \<Longrightarrow> b \<le> c \<Longrightarrow> a \<le> c"
    by (cases a; cases b; cases c) (auto simp: less_eq_hlc_def less_hlc_def)
  show "a \<le> b \<Longrightarrow> b \<le> a \<Longrightarrow> a = b"
    by (auto simp: less_eq_hlc_def less_hlc_def)
  show "a \<le> b \<or> b \<le> a"
    by (cases a; cases b) (auto simp: less_eq_hlc_def less_hlc_def sint64_eq_iff dest: neq_iff [THEN iffD1])
qed

end

lemma Compare_iff: "Compare a b = cmpCompare a b"
proof (cases "Wall a = Wall b")
  case True
  then show ?thesis
    by (cases a; cases b) (auto simp: Compare_def less_hlc_def Let_def cmpCompare_def)
next
  case False
  then consider "sint (Wall a) < sint (Wall b)" | "sint (Wall b) < sint (Wall a)"
    using sint64_total by blast
  then show ?thesis
    using False by cases (auto simp: Compare_def less_hlc_def Let_def cmpCompare_def)
qed

lemma Before_iff: "Before a b \<longleftrightarrow> a < b"
  by (simp add: Before_def Compare_iff)

section \<open>The clock\<close>

record clock =
  clk_id :: node_id
  clk_wall :: "nat \<Rightarrow> int64"
  clk_calls :: nat
  clk_last :: hlc

text \<open>\<open>New\<close>: the last timestamp starts at zero, stamped with the node's own id.\<close>

definition newClock :: "node_id \<Rightarrow> (nat \<Rightarrow> int64) \<Rightarrow> clock" where
  "newClock i wall = \<lparr>clk_id = i, clk_wall = wall, clk_calls = 0, clk_last = HLC 0 0 i\<rparr>"

definition readWall :: "clock \<Rightarrow> int64" where
  "readWall c = clk_wall c (clk_calls c)"

definition bumpLogical :: "hlc \<Rightarrow> hlc \<Rightarrow> hlc" where
  "bumpLogical nxt prior =
    (if Logical prior = maxUint32 then HLC (Wall prior + 1) 0 (NodeID nxt)
     else HLC (Wall prior) (Logical prior + 1) (NodeID nxt))"

text \<open>The body of the loop over the last timestamp and the floor.\<close>

definition tickStep :: "hlc \<Rightarrow> hlc \<Rightarrow> hlc" where
  "tickStep nxt prior =
    (if sint (Wall nxt) < sint (Wall prior) then bumpLogical nxt prior
     else if Wall nxt = Wall prior \<and> Logical nxt \<le> Logical prior then bumpLogical nxt prior
     else nxt)"

definition tick :: "clock \<Rightarrow> hlc \<Rightarrow> hlc \<times> clock" where
  "tick c flr =
    (let nxt = foldl tickStep (HLC (readWall c) 0 (clk_id c)) [clk_last c, flr]
     in (nxt, c\<lparr>clk_calls := Suc (clk_calls c), clk_last := nxt\<rparr>))"

definition Now :: "clock \<Rightarrow> hlc \<times> clock" where
  "Now c = tick c (HLC 0 0 (clk_id c))"

definition Observe :: "clock \<Rightarrow> hlc \<Rightarrow> hlc \<times> clock" where
  "Observe c remote = tick c remote"

definition Last :: "clock \<Rightarrow> hlc" where
  "Last c = clk_last c"

section \<open>Monotonicity\<close>

text \<open>
  The one timestamp the counter cannot be carried past: both components at their maximum. The
  carry of \<open>bumpLogical\<close> then wraps the wall component round to the least \<open>int64\<close>.
\<close>

definition saturated :: "hlc \<Rightarrow> bool" where
  "saturated h \<longleftrightarrow> sint (Wall h) = maxInt64 \<and> Logical h = maxUint32"

lemma NodeID_bumpLogical [simp]: "NodeID (bumpLogical n p) = NodeID n"
  by (simp add: bumpLogical_def)

lemma NodeID_tickStep [simp]: "NodeID (tickStep n p) = NodeID n"
  by (simp add: tickStep_def)

lemma bumpLogical_gt: "\<not> saturated p \<Longrightarrow> p < bumpLogical n p"
  using sint64_bounds(2) [of "Wall p"]
  by (auto simp: bumpLogical_def less_hlc_def saturated_def sint64_add_one uint32_add_one)

lemma tickStep_gt: "\<not> saturated p \<Longrightarrow> p < tickStep n p"
  by (auto simp: tickStep_def bumpLogical_gt) (auto simp: less_hlc_def dest: sint64_total)

text \<open>Advancing past \<open>p\<close> never goes below where the reading already was.\<close>

lemma tickStep_ge: "\<not> saturated p \<Longrightarrow> n \<le> tickStep n p"
proof (cases "tickStep n p = n")
  case False
  assume p: "\<not> saturated p"
  from False have "sint (Wall n) < sint (Wall p) \<or> Wall n = Wall p \<and> Logical n \<le> Logical p"
    and t: "tickStep n p = bumpLogical n p"
    by (auto simp: tickStep_def split: if_splits)
  with p sint64_bounds(2) [of "Wall p"] show ?thesis
    unfolding t
    by (auto simp: less_eq_hlc_def less_hlc_def bumpLogical_def saturated_def sint64_add_one
        dest: uint32_add_one)
qed simp

lemma tick_result:
  "fst (tick c f) = tickStep (tickStep (HLC (readWall c) 0 (clk_id c)) (clk_last c)) f"
  "clk_last (snd (tick c f)) = fst (tick c f)"
  "clk_id (snd (tick c f)) = clk_id c"
  "clk_wall (snd (tick c f)) = clk_wall c"
  "NodeID (fst (tick c f)) = clk_id c"
  by (simp_all add: tick_def Let_def)

lemma tick_gt_last:
  assumes "\<not> saturated (clk_last c)" "\<not> saturated f"
  shows "clk_last c < fst (tick c f)"
  using tickStep_gt [OF assms(1)] tickStep_ge [OF assms(2)]
  unfolding tick_result by (rule less_le_trans)

lemma tick_gt_floor: "\<not> saturated f \<Longrightarrow> f < fst (tick c f)"
  unfolding tick_result by (rule tickStep_gt)

text \<open>How far one tick can run ahead of the timestamps and wall readings it has seen.\<close>

lemma tickStep_wall:
  "sint (Wall p) \<le> b \<Longrightarrow> b < maxInt64 \<Longrightarrow>
    sint (Wall (tickStep n p)) \<le> max (sint (Wall n)) (sint (Wall p) + 1)"
  by (auto simp: tickStep_def bumpLogical_def sint64_add_one)

lemma tickStep_wall_bump:
  "sint (Wall p) \<le> b \<Longrightarrow> b < maxInt64 \<Longrightarrow> sint (Wall n) \<le> b + 1 \<Longrightarrow>
    sint (Wall (tickStep n p)) \<le> b + 1"
  using tickStep_wall [of p b n] by simp

lemma tick_wall:
  assumes "sint (readWall c) \<le> b" "sint (Wall (clk_last c)) \<le> b" "sint (Wall f) \<le> b" "b < maxInt64"
  shows "sint (Wall (fst (tick c f))) \<le> b + 1"
  using assms unfolding tick_result by (intro tickStep_wall_bump) auto

lemma not_saturated_below: "sint (Wall h) \<le> b \<Longrightarrow> b < maxInt64 \<Longrightarrow> \<not> saturated h"
  by (simp add: saturated_def)

text \<open>A clock in use: any sequence of \<open>Now\<close> and \<open>Observe\<close> calls.\<close>

datatype clock_op = NowOp | ObserveOp hlc

fun clockStep :: "clock \<Rightarrow> clock_op \<Rightarrow> hlc \<times> clock" where
  "clockStep c NowOp = Now c"
| "clockStep c (ObserveOp r) = Observe c r"

fun observed :: "clock_op \<Rightarrow> hlc option" where
  "observed NowOp = None"
| "observed (ObserveOp r) = Some r"

lemma not_saturated_zero [simp]: "\<not> saturated (HLC 0 l n)"
  by (simp add: saturated_def)

interpretation lab_clock: hybrid_clock clockStep clk_last observed "\<lambda>h. \<not> saturated h"
proof
  show "clk_last (snd (clockStep s p)) = fst (clockStep s p)" for s p
    by (cases p) (simp_all add: Now_def Observe_def tick_result)
  show "clk_last s < fst (clockStep s p)"
    if "\<not> saturated (clk_last s)" "\<And>r. observed p = Some r \<Longrightarrow> \<not> saturated r" for s p
    using that by (cases p) (auto simp: Now_def Observe_def intro: tick_gt_last)
  show "r < fst (clockStep s p)" if "observed p = Some r" "\<not> saturated r" for s p r
    using that by (cases p) (auto simp: Observe_def intro: tick_gt_floor)
qed

text \<open>
  However the wall clock behaves, the timestamps a node issues are strictly increasing over
  any sequence of local and observing calls, and each is above every timestamp observed up to
  then, as long as neither a stored nor an observed timestamp is the saturated one.
\<close>

lemma clock_stamps_increase:
  assumes "\<not> saturated (clk_last c)"
    and "\<forall>h \<in> set (stamps clockStep c ops). \<not> saturated h"
    and "\<forall>r. ObserveOp r \<in> set ops \<longrightarrow> \<not> saturated r"
  shows "sorted_wrt (<) (clk_last c # stamps clockStep c ops) \<and>
    (\<forall>i j r. i \<le> j \<longrightarrow> j < length ops \<longrightarrow> ops ! i = ObserveOp r \<longrightarrow> r < stamps clockStep c ops ! j)"
proof (intro conjI allI impI)
  have ok: "\<forall>p \<in> set ops. \<forall>r. observed p = Some r \<longrightarrow> \<not> saturated r"
    using assms(3) by (auto elim: observed.elims)
  show "sorted_wrt (<) (clk_last c # stamps clockStep c ops)"
    using assms(1,2) ok by (rule lab_clock.stamps_sorted)
  fix i j r assume "i \<le> j" "j < length ops" "ops ! i = ObserveOp r"
  then show "r < stamps clockStep c ops ! j"
    using lab_clock.stamps_above_observed [OF assms(1,2) ok, of i j r] by simp
qed

text \<open>
  The bound is needed: the saturated timestamp passes every check on remote input, and a clock
  that observes it issues a timestamp below it.
\<close>

lemma observe_saturated_wraps:
  "let c = newClock ''B'' (\<lambda>_. 1700000000000);
       r = HLC (word_of_int maxInt64) maxUint32 ''A''
   in fst (Observe c r) < r \<and> fst (Observe c r) < clk_last c"
  by (simp add: Let_def Observe_def tick_def newClock_def readWall_def tickStep_def bumpLogical_def
      less_hlc_def)

end
