(* ===== verification/GoJson.thy ===== *)
theory GoJson
  imports Prelude
begin

text \<open>
  The part of Go's \<open>encoding/json\<close> the logs use: a document is a tree, an object is its list of
  members in the order they are written (struct fields in declaration order, map keys sorted).
  Decoding follows \<open>json.Unmarshal\<close>: unknown members are ignored, a missing or \<open>null\<close> member
  leaves the field's zero value, the last of several members with one name wins, and a value of
  the wrong kind or out of range is an error; a \<open>null\<close> array is the nil slice. A number written
  with a fraction or an exponent is the fraction it denotes. Text is taken to be valid UTF-8, which protobuf
  enforces on every string that crosses the wire; the case-insensitive match \<open>json.Unmarshal\<close>
  falls back to is never needed on documents these programs write and is left out.
\<close>

datatype json = JNull | JBool bool | JNum int | JFrac int int | JStr string | JArr "json list"
  | JObj "(string \<times> json) list"

fun jBool :: "json \<Rightarrow> bool option" where
  "jBool (JBool b) = Some b"
| "jBool _ = None"

fun jStr :: "json \<Rightarrow> string option" where
  "jStr (JStr s) = Some s"
| "jStr _ = None"

fun jInt64 :: "json \<Rightarrow> int64 option" where
  "jInt64 (JNum i) = (if minInt64 \<le> i \<and> i \<le> maxInt64 then Some (word_of_int i) else None)"
| "jInt64 _ = None"

fun jUint64 :: "json \<Rightarrow> uint64 option" where
  "jUint64 (JNum i) = (if 0 \<le> i \<and> i < 2 ^ 64 then Some (word_of_int i) else None)"
| "jUint64 _ = None"

fun jUint32 :: "json \<Rightarrow> uint32 option" where
  "jUint32 (JNum i) = (if 0 \<le> i \<and> i < 2 ^ 32 then Some (word_of_int i) else None)"
| "jUint32 _ = None"

fun jArr :: "json \<Rightarrow> json list option" where
  "jArr (JArr js) = Some js"
| "jArr JNull = Some []"
| "jArr _ = None"

text \<open>One member: \<open>None\<close> is a decoding error, \<open>Some None\<close> a member that is absent or null.\<close>

definition jField :: "(json \<Rightarrow> 'a option) \<Rightarrow> (string \<times> json) list \<Rightarrow> string \<Rightarrow> 'a option option" where
  "jField dec fs k = (case map_of (rev fs) k of
      None \<Rightarrow> Some None
    | Some JNull \<Rightarrow> Some None
    | Some j \<Rightarrow> map_option Some (dec j))"

text \<open>The value of a field that may be absent.\<close>

definition orZero :: "'a \<Rightarrow> 'a option \<Rightarrow> 'a" where
  "orZero z x = (case x of None \<Rightarrow> z | Some v \<Rightarrow> v)"

text \<open>The members of an object: \<open>null\<close> decodes into any Go struct or map as a no-op.\<close>

fun jMembers :: "json \<Rightarrow> (string \<times> json) list option" where
  "jMembers (JObj fs) = Some fs"
| "jMembers JNull = Some []"
| "jMembers _ = None"

text \<open>A Go map with string keys: the value decoder is applied to every member, a null member is
  the zero value.\<close>

definition jMap :: "'v \<Rightarrow> (json \<Rightarrow> 'v option) \<Rightarrow> json \<Rightarrow> (string, 'v) fmap option" where
  "jMap z dec j = (case jMembers j of None \<Rightarrow> None | Some fs \<Rightarrow>
    foldl (\<lambda>r (k, v). case r of None \<Rightarrow> None | Some m \<Rightarrow>
        (if v = JNull then Some (fmupd k z m)
         else map_option (\<lambda>x. fmupd k x m) (dec v)))
      (Some fmempty) fs)"

definition jOfMap :: "('v \<Rightarrow> json) \<Rightarrow> (string, 'v) fmap \<Rightarrow> json" where
  "jOfMap enc m = JObj (map (\<lambda>(k, v). (k, enc v)) (sorted_list_of_fmap m))"

named_theorems json_simps \<comment> \<open>decoding what was encoded\<close>

lemma jInt64_sint [json_simps]: "jInt64 (JNum (sint w)) = Some w"
  using sint64_bounds [of w] by simp

lemma jUint64_uint [json_simps]: "jUint64 (JNum (uint w)) = Some w"
  using uint_bounded [of w] by simp

lemma jUint32_uint [json_simps]: "jUint32 (JNum (uint w)) = Some w"
  using uint_bounded [of w] by simp

declare jInt64.simps(1) [simp del] jUint64.simps(1) [simp del] jUint32.simps(1) [simp del]

lemma jField_Cons [json_simps]:
  "k \<notin> fst ` set fs \<Longrightarrow> j \<noteq> JNull \<Longrightarrow> jField dec ((k, j) # fs) k = map_option Some (dec j)"
  "k \<noteq> k' \<Longrightarrow> jField dec ((k', j) # fs) k = jField dec fs k"
  "jField dec [] k = Some None"
proof -
  assume k: "k \<notin> fst ` set fs" and j: "j \<noteq> JNull"
  have "map_of (rev fs) k = None"
    using k by (simp add: map_of_eq_None_iff)
  with j show "jField dec ((k, j) # fs) k = map_option Some (dec j)"
    by (cases j) (simp_all add: jField_def map_add_def)
qed (auto simp: jField_def map_add_def split: option.splits)

lemma foldl_jMap:
  assumes "\<And>x. dec (enc x) = Some x" "\<And>x. enc x \<noteq> JNull"
  shows "foldl (\<lambda>r (k, v). case r of None \<Rightarrow> None | Some m \<Rightarrow>
        (if v = JNull then Some (fmupd k z m) else map_option (\<lambda>x. fmupd k x m) (dec v)))
      (Some m) (map (\<lambda>(k, v). (k, enc v)) xs) = Some (foldl (\<lambda>m (k, v). fmupd k v m) m xs)"
  by (induction xs arbitrary: m) (auto simp: assms)

lemma foldl_fmupd_lookup:
  "fmlookup (foldl (\<lambda>m (k, v). fmupd k v m) m xs) k =
    (case map_of (rev xs) k of None \<Rightarrow> fmlookup m k | Some v \<Rightarrow> Some v)"
  by (induction xs arbitrary: m) (auto simp: map_add_def split: option.splits)

text \<open>A map survives the trip through its document.\<close>

lemma jMap_jOfMap [json_simps]:
  assumes "\<And>x. dec (enc x) = Some x" "\<And>x. enc x \<noteq> JNull"
  shows "jMap z dec (jOfMap enc m) = Some m"
proof -
  have rev: "map_of (rev (sorted_list_of_fmap m)) = map_of (sorted_list_of_fmap m)"
    by (rule map_of_inject_set [THEN iffD2])
      (simp_all add: rev_map [symmetric] distinct_sorted_list_of_fmap)
  have "foldl (\<lambda>m (k, v). fmupd k v m) fmempty (sorted_list_of_fmap m) = m"
    by (rule fmap_ext) (simp add: foldl_fmupd_lookup rev split: option.splits)
  then show ?thesis
    by (simp add: jMap_def jOfMap_def foldl_jMap [OF assms])
qed

end
