(* ===== verification/LabEvent.thy ===== *)
theory LabEvent
  imports LabClock GoJson "HOL-Library.Product_Lexorder"
begin

text \<open>
  Events and version vectors (\<open>eventlog-lab/eventlog/event.go\<close>): identities, the kind-specific
  payload and its stored form, the validation that guards every path into a log, and the
  lattice of version vectors.
\<close>

section \<open>Identities\<close>

type_synonym seq = uint64
type_synonym sku = string

datatype event_id = EventID (idNode: node_id) (idSeq: seq)

instantiation event_id :: linorder
begin

definition less_event_id :: "event_id \<Rightarrow> event_id \<Rightarrow> bool" where
  "less_event_id a b \<longleftrightarrow> (idNode a, idSeq a) < (idNode b, idSeq b)"

definition less_eq_event_id :: "event_id \<Rightarrow> event_id \<Rightarrow> bool" where
  "less_eq_event_id a b \<longleftrightarrow> (idNode a, idSeq a) \<le> (idNode b, idSeq b)"

instance
  by standard (auto simp: less_event_id_def less_eq_event_id_def less_le_not_le
      simp del: less_prod_simp less_eq_prod_simp intro: event_id.expand)

end

section \<open>Kinds and payloads\<close>

type_synonym kind = int64

abbreviation KindQuantityDelta :: kind where "KindQuantityDelta \<equiv> 1"
abbreviation KindMetaSet :: kind where "KindMetaSet \<equiv> 2"
abbreviation KindDeleteSet :: kind where "KindDeleteSet \<equiv> 3"

definition kindValid :: "kind \<Rightarrow> bool" where
  "kindValid k \<longleftrightarrow> k = KindQuantityDelta \<or> k = KindMetaSet \<or> k = KindDeleteSet"

record meta_set =
  msName :: "string option"
  msReorderPoint :: "int64 option"

text \<open>\<open>MetaSet.Empty\<close>, whose receiver may be nil.\<close>

fun metaEmpty :: "meta_set option \<Rightarrow> bool" where
  "metaEmpty None = True"
| "metaEmpty (Some m) = (msName m = None \<and> msReorderPoint m = None)"

record event =
  eID :: event_id
  eHLC :: hlc
  eSKU :: sku
  eKind :: kind
  eDelta :: int64
  eMeta :: "meta_set option"
  eDeletedTo :: "bool option"

record payload =
  pDelta :: int64
  pMeta :: "meta_set option"
  pDeletedTo :: "bool option"

definition payloadOf :: "event \<Rightarrow> payload" where
  "payloadOf e = \<lparr>pDelta = eDelta e, pMeta = eMeta e, pDeletedTo = eDeletedTo e\<rparr>"

definition setPayload :: "payload \<Rightarrow> event \<Rightarrow> event" where
  "setPayload p e = e\<lparr>eDelta := pDelta p, eMeta := pMeta p, eDeletedTo := pDeletedTo p\<rparr>"

datatype malformed =
    EmptyNodeID | ZeroSeq | EmptySKU | HLCNodeMismatch | UnknownKind
  | DeltaOnKind | MetaOnKind | DeletedToOnKind
  | ZeroDelta | DeltaCannotBeNegated | MetaWritesNothing | DeleteWithoutValue
  | UnparseablePayload | LogicalOutOfRange | NilEventFrame

text \<open>The stored payload: every field is \<open>omitempty\<close>, so zero values are not written.\<close>

definition marshalMeta :: "meta_set \<Rightarrow> json" where
  "marshalMeta m = JObj (
    (case msName m of None \<Rightarrow> [] | Some s \<Rightarrow> [(''name'', JStr s)]) @
    (case msReorderPoint m of None \<Rightarrow> [] | Some r \<Rightarrow> [(''reorder_point'', JNum (sint r))]))"

definition marshalPayload :: "event \<Rightarrow> json" where
  "marshalPayload e = JObj (
    (if eDelta e = 0 then [] else [(''delta'', JNum (sint (eDelta e)))]) @
    (case eMeta e of None \<Rightarrow> [] | Some m \<Rightarrow> [(''meta'', marshalMeta m)]) @
    (case eDeletedTo e of None \<Rightarrow> [] | Some b \<Rightarrow> [(''deleted_to'', JBool b)]))"

definition jMeta :: "json \<Rightarrow> meta_set option" where
  "jMeta j = (case jMembers j of None \<Rightarrow> None | Some fs \<Rightarrow>
    (case (jField jStr fs ''name'', jField jInt64 fs ''reorder_point'') of
      (Some n, Some r) \<Rightarrow> Some \<lparr>msName = n, msReorderPoint = r\<rparr>
    | _ \<Rightarrow> None))"

definition unmarshalPayload :: "json \<Rightarrow> event \<Rightarrow> malformed + event" where
  "unmarshalPayload b e = (case jMembers b of None \<Rightarrow> Inl UnparseablePayload | Some fs \<Rightarrow>
    (case (jField jInt64 fs ''delta'', jField jMeta fs ''meta'', jField jBool fs ''deleted_to'') of
      (Some d, Some m, Some t) \<Rightarrow>
        Inr (setPayload \<lparr>pDelta = (case d of None \<Rightarrow> 0 | Some v \<Rightarrow> v), pMeta = m, pDeletedTo = t\<rparr> e)
    | _ \<Rightarrow> Inl UnparseablePayload))"

lemma jMeta_marshalMeta [json_simps]: "jMeta (marshalMeta m) = Some m"
  by (cases m) (auto simp: jMeta_def marshalMeta_def json_simps split: option.splits)

lemma unmarshal_marshal_payload:
  "unmarshalPayload (marshalPayload e) e0 = Inr (setPayload (payloadOf e) e0)"
  by (cases "eMeta e"; cases "eDeletedTo e")
    (auto simp: unmarshalPayload_def marshalPayload_def payloadOf_def marshalMeta_def [abs_def]
      json_simps jMeta_marshalMeta [unfolded marshalMeta_def])

section \<open>Validation\<close>

definition validate :: "event \<Rightarrow> malformed option" where
  "validate e =
    (if idNode (eID e) = [] then Some EmptyNodeID
     else if idSeq (eID e) = 0 then Some ZeroSeq
     else if eSKU e = [] then Some EmptySKU
     else if NodeID (eHLC e) \<noteq> idNode (eID e) then Some HLCNodeMismatch
     else if \<not> kindValid (eKind e) then Some UnknownKind
     else if eKind e \<noteq> KindQuantityDelta \<and> eDelta e \<noteq> 0 then Some DeltaOnKind
     else if eKind e \<noteq> KindMetaSet \<and> eMeta e \<noteq> None then Some MetaOnKind
     else if eKind e \<noteq> KindDeleteSet \<and> eDeletedTo e \<noteq> None then Some DeletedToOnKind
     else if eKind e = KindQuantityDelta then
       (if eDelta e = 0 then Some ZeroDelta
        else if sint (eDelta e) = minInt64 then Some DeltaCannotBeNegated else None)
     else if eKind e = KindMetaSet then
       (if metaEmpty (eMeta e) then Some MetaWritesNothing else None)
     else if eKind e = KindDeleteSet then
       (if eDeletedTo e = None then Some DeleteWithoutValue else None)
     else None)"

abbreviation valid_event :: "event \<Rightarrow> bool" where
  "valid_event e \<equiv> validate e = None"

text \<open>What a valid event looks like, kind by kind.\<close>

lemma valid_event_kinds:
  assumes "valid_event e"
  obtains (delta) "eKind e = KindQuantityDelta" "eDelta e \<noteq> 0" "sint (eDelta e) \<noteq> minInt64"
      "eMeta e = None" "eDeletedTo e = None"
    | (meta) m where "eKind e = KindMetaSet" "eDelta e = 0" "eMeta e = Some m"
      "msName m \<noteq> None \<or> msReorderPoint m \<noteq> None" "eDeletedTo e = None"
    | (delete) b where "eKind e = KindDeleteSet" "eDelta e = 0" "eMeta e = None" "eDeletedTo e = Some b"
  using assms
  by (cases "eMeta e"; cases "eDeletedTo e") (auto simp: validate_def kindValid_def split: if_splits)

lemma valid_event_header:
  "valid_event e \<Longrightarrow> idNode (eID e) \<noteq> [] \<and> idSeq (eID e) \<noteq> 0 \<and> eSKU e \<noteq> [] \<and>
    NodeID (eHLC e) = idNode (eID e)"
  by (auto simp: validate_def split: if_splits)

section \<open>Version vectors\<close>

type_synonym version_vector = "(node_id, seq) fmap"

abbreviation vv_get :: "version_vector \<Rightarrow> node_id \<Rightarrow> seq" where
  "vv_get vv n \<equiv> fm_get 0 vv n"

definition vvClone :: "version_vector \<Rightarrow> version_vector" where
  "vvClone vv = foldl (\<lambda>out (k, v). fmupd k v out) fmempty (sorted_list_of_fmap vv)"

definition vvObserve :: "version_vector \<Rightarrow> event_id \<Rightarrow> version_vector" where
  "vvObserve vv i =
    (if vv_get vv (idNode i) < idSeq i then fmupd (idNode i) (idSeq i) vv else vv)"

definition vvContains :: "version_vector \<Rightarrow> event_id \<Rightarrow> bool" where
  "vvContains vv i \<longleftrightarrow> idSeq i \<le> vv_get vv (idNode i)"

definition vvDominates :: "version_vector \<Rightarrow> version_vector \<Rightarrow> bool" where
  "vvDominates vv other \<longleftrightarrow> list_all (\<lambda>(k, v). \<not> vv_get vv k < v) (sorted_list_of_fmap other)"

definition vvMerge :: "version_vector \<Rightarrow> version_vector \<Rightarrow> version_vector" where
  "vvMerge vv other = foldl (\<lambda>out (k, v). if vv_get out k < v then fmupd k v out else out)
     (vvClone vv) (sorted_list_of_fmap other)"

lemma vvClone_id [simp]: "vvClone vv = vv"
proof (rule fmap_ext)
  fix k
  have "fmlookup (vvClone vv) k = (case map_of (sorted_list_of_fmap vv) k of
      None \<Rightarrow> fmlookup fmempty k | Some v \<Rightarrow> (\<lambda>_ _ v. Some v) (fmlookup (fmempty :: version_vector) k) k v)"
    unfolding vvClone_def
    by (rule foldl_fm_lookup) (auto simp: distinct_sorted_list_of_fmap)
  then show "fmlookup (vvClone vv) k = fmlookup vv k"
    by (simp split: option.splits)
qed

lemma vv_get_observe [simp]:
  "vv_get (vvObserve vv i) n = (if n = idNode i then max (vv_get vv n) (idSeq i) else vv_get vv n)"
  by (auto simp: vvObserve_def max_def)

lemma vvDominates_iff: "vvDominates vv other \<longleftrightarrow> (\<forall>n. vv_get other n \<le> vv_get vv n)"
proof -
  have "vvDominates vv other \<longleftrightarrow> (\<forall>k v. fmlookup other k = Some v \<longrightarrow> v \<le> vv_get vv k)"
    by (simp add: vvDominates_def fmpred_iff curry_def not_less)
  also have "\<dots> \<longleftrightarrow> (\<forall>n. vv_get other n \<le> vv_get vv n)"
    by (auto simp: fm_get_def split: option.splits)
  finally show ?thesis .
qed

lemma vv_get_merge [simp]: "vv_get (vvMerge vv other) n = max (vv_get vv n) (vv_get other n)"
proof -
  have "fmlookup (vvMerge vv other) n = (case map_of (sorted_list_of_fmap other) n of
      None \<Rightarrow> fmlookup (vvClone vv) n
    | Some v \<Rightarrow> (\<lambda>o' _ v. if (case o' of None \<Rightarrow> 0 | Some u \<Rightarrow> u) < v then Some v else o')
        (fmlookup (vvClone vv) n) n v)"
    unfolding vvMerge_def
    by (rule foldl_fm_lookup) (auto simp: fm_get_def distinct_sorted_list_of_fmap split: option.splits)
  then show ?thesis
    by (auto simp: fm_get_def max_def not_less split: option.splits if_splits)
qed

text \<open>
  Domination compares two vectors pointwise, and \<open>Merge\<close> is the least upper bound for it: it
  dominates both arguments, and whatever dominates both dominates it.
\<close>

lemma vv_merge_least_upper_bound:
  "vvDominates (vvMerge a b) a \<and> vvDominates (vvMerge a b) b \<and>
   (vvDominates c (vvMerge a b) \<longleftrightarrow> vvDominates c a \<and> vvDominates c b)"
  by (auto simp: vvDominates_iff)

lemma vvContains_observe:
  "vvContains (vvObserve vv i) j \<longleftrightarrow> vvContains vv j \<or> idNode j = idNode i \<and> idSeq j \<le> idSeq i"
  by (auto simp: vvContains_def le_max_iff_disj)

text \<open>
  An event's payload survives its stored form: whatever event the decoded blob is written
  into, the kind-specific fields read back are the ones that were stored.
\<close>

lemma payload_roundtrip:
  "unmarshalPayload (marshalPayload e) e0 =
     Inr (e0\<lparr>eDelta := eDelta e, eMeta := eMeta e, eDeletedTo := eDeletedTo e\<rparr>)"
  by (simp add: unmarshal_marshal_payload setPayload_def payloadOf_def)

end
