(* ===== verification/ConvergenceSpec.thy ===== *)
theory ConvergenceSpec
  imports Prelude
begin

text \<open>
  The contract between an event log and the state derived from it: events carry a stamp, and
  applying two events with different stamps gives the same state in either order. Everything
  that lets a replica read its log in any order, from a snapshot, or in pieces follows from
  this one law.
\<close>

locale commuting_fold =
  fixes apply_event :: "'s \<Rightarrow> 'e \<Rightarrow> 's"
    and stamp :: "'e \<Rightarrow> 't"
  assumes commute: "stamp a \<noteq> stamp b \<Longrightarrow>
    apply_event (apply_event s a) b = apply_event (apply_event s b) a"
begin

lemma fold_perm:
  assumes "mset xs = mset ys" "inj_on stamp (set xs)"
  shows "foldl apply_event s xs = foldl apply_event s ys"
proof -
  have "fold (\<lambda>x s. apply_event s x) xs s = fold (\<lambda>x s. apply_event s x) ys s"
    using assms(1)
  proof (rule fold_mset_eq)
    fix x y t assume "x \<in> set xs" "y \<in> set xs"
    with assms(2) have "x = y \<or> stamp x \<noteq> stamp y" by (auto dest: inj_onD)
    then show "apply_event (apply_event t y) x = apply_event (apply_event t x) y"
      using commute by metis
  qed
  then show ?thesis by (simp add: foldl_conv_fold)
qed

lemma fold_same_set:
  assumes "distinct xs" "distinct ys" "set xs = set ys" "inj_on stamp (set xs)"
  shows "foldl apply_event s xs = foldl apply_event s ys"
  using assms by (intro fold_perm mset_eq_of_distinct)

text \<open>A fold may be stopped at any set of events and resumed with the rest.\<close>

lemma fold_resume:
  assumes "distinct zs" "distinct xs" "distinct ys" "set zs = set xs \<union> set ys"
    "set xs \<inter> set ys = {}" "inj_on stamp (set zs)"
  shows "foldl apply_event (foldl apply_event s xs) ys = foldl apply_event s zs"
proof -
  have "foldl apply_event s (xs @ ys) = foldl apply_event s zs"
    using assms by (intro fold_same_set) auto
  then show ?thesis by simp
qed

end

end
