(* ===== verification/LabCrdt.thy ===== *)
theory LabCrdt
  imports LabEvent ConvergenceSpec
begin

text \<open>
  The merge semantics of one stock item (\<open>eventlog-lab/crdt/lww.go\<close>, \<open>crdt/item.go\<close>): a
  PN-counter quantity, kept as two maps from node to total, and last-writer-wins metadata.
  Counter arithmetic is that of \<open>int64\<close>, wrap-around included.
\<close>

section \<open>Last-writer-wins registers\<close>

datatype 'a lww = LWW (lwwValue: 'a) (lwwAt: hlc)

text \<open>\<open>LWW.Set\<close>: the result also says whether the write was accepted.\<close>

definition lwwSet :: "'a lww \<Rightarrow> 'a \<Rightarrow> hlc \<Rightarrow> bool \<times> 'a lww" where
  "lwwSet r v t = (if \<not> Before (lwwAt r) t then (False, r) else (True, LWW v t))"

lemma lwwSet_commute:
  "t \<noteq> u \<Longrightarrow> snd (lwwSet (snd (lwwSet r v t)) w u) = snd (lwwSet (snd (lwwSet r w u)) v t)"
  by (auto simp: lwwSet_def Before_iff)

section \<open>Item state\<close>

record item_state =
  isPos :: "(node_id, int64) fmap"
  isNeg :: "(node_id, int64) fmap"
  isName :: "string lww"
  isReorderPoint :: "int64 lww"
  isDeleted :: "bool lww"

abbreviation zeroHLC :: hlc where
  "zeroHLC \<equiv> HLC 0 0 []"

definition newItemState :: item_state where
  "newItemState = \<lparr>isPos = fmempty, isNeg = fmempty, isName = LWW [] zeroHLC,
     isReorderPoint = LWW 0 zeroHLC, isDeleted = LWW False zeroHLC\<rparr>"

definition addTo :: "node_id \<Rightarrow> int64 \<Rightarrow> (node_id, int64) fmap \<Rightarrow> (node_id, int64) fmap" where
  "addTo n d m = fmupd n (fm_get 0 m n + d) m"

text \<open>\<open>ItemState.Apply\<close>. An event of another kind, or without its payload, is ignored.\<close>

definition applyItem :: "item_state \<Rightarrow> event \<Rightarrow> item_state" where
  "applyItem s e =
    (if eKind e = KindQuantityDelta then
       (if 0 \<le> sint (eDelta e)
        then s\<lparr>isPos := addTo (idNode (eID e)) (eDelta e) (isPos s)\<rparr>
        else s\<lparr>isNeg := addTo (idNode (eID e)) (- eDelta e) (isNeg s)\<rparr>)
     else if eKind e = KindMetaSet then
       (case eMeta e of None \<Rightarrow> s | Some m \<Rightarrow>
         (let s = (case msName m of None \<Rightarrow> s
                   | Some v \<Rightarrow> s\<lparr>isName := snd (lwwSet (isName s) v (eHLC e))\<rparr>)
          in (case msReorderPoint m of None \<Rightarrow> s
              | Some v \<Rightarrow> s\<lparr>isReorderPoint := snd (lwwSet (isReorderPoint s) v (eHLC e))\<rparr>)))
     else if eKind e = KindDeleteSet then
       (case eDeletedTo e of None \<Rightarrow> s
        | Some v \<Rightarrow> s\<lparr>isDeleted := snd (lwwSet (isDeleted s) v (eHLC e))\<rparr>)
     else s)"

text \<open>\<open>ItemState.Fold\<close> over a stream that may end in an error.\<close>

fun foldItem :: "item_state \<Rightarrow> ('e + event) list \<Rightarrow> 'e + item_state" where
  "foldItem s [] = Inr s"
| "foldItem s (Inl err # _) = Inl err"
| "foldItem s (Inr e # es) = foldItem (applyItem s e) es"

definition quantity :: "item_state \<Rightarrow> int64" where
  "quantity s = foldl (\<lambda>total (_, v). total - v)
     (foldl (\<lambda>total (_, v). total + v) 0 (sorted_list_of_fmap (isPos s)))
     (sorted_list_of_fmap (isNeg s))"

text \<open>\<open>ItemState.Equal\<close>, whose argument may be nil.\<close>

definition equalItem :: "item_state \<Rightarrow> item_state option \<Rightarrow> bool" where
  "equalItem s other = (case other of None \<Rightarrow> False | Some t \<Rightarrow>
     isPos s = isPos t \<and> isNeg s = isNeg t \<and> isName s = isName t \<and>
     isReorderPoint s = isReorderPoint t \<and> isDeleted s = isDeleted t)"

section \<open>Stored form of a state\<close>

definition jOfHLC :: "hlc \<Rightarrow> json" where
  "jOfHLC h = JObj [(''Wall'', JNum (sint (Wall h))), (''Logical'', JNum (uint (Logical h))),
     (''NodeID'', JStr (NodeID h))]"

definition jHLC :: "json \<Rightarrow> hlc option" where
  "jHLC j = (case jMembers j of None \<Rightarrow> None | Some fs \<Rightarrow>
    (case (jField jInt64 fs ''Wall'', jField jUint32 fs ''Logical'', jField jStr fs ''NodeID'') of
      (Some w, Some l, Some n) \<Rightarrow> Some (HLC (orZero 0 w) (orZero 0 l) (orZero [] n))
    | _ \<Rightarrow> None))"

definition jOfLWW :: "('a \<Rightarrow> json) \<Rightarrow> 'a lww \<Rightarrow> json" where
  "jOfLWW enc r = JObj [(''value'', enc (lwwValue r)), (''at'', jOfHLC (lwwAt r))]"

definition jLWW :: "'a \<Rightarrow> (json \<Rightarrow> 'a option) \<Rightarrow> json \<Rightarrow> 'a lww option" where
  "jLWW z dec j = (case jMembers j of None \<Rightarrow> None | Some fs \<Rightarrow>
    (case (jField dec fs ''value'', jField jHLC fs ''at'') of
      (Some v, Some t) \<Rightarrow> Some (LWW (orZero z v) (orZero zeroHLC t))
    | _ \<Rightarrow> None))"

definition marshalItem :: "item_state \<Rightarrow> json" where
  "marshalItem s = JObj [
     (''pos'', jOfMap (\<lambda>w. JNum (sint w)) (isPos s)),
     (''neg'', jOfMap (\<lambda>w. JNum (sint w)) (isNeg s)),
     (''name'', jOfLWW JStr (isName s)),
     (''reorder_point'', jOfLWW (\<lambda>w. JNum (sint w)) (isReorderPoint s)),
     (''deleted'', jOfLWW JBool (isDeleted s))]"

text \<open>\<open>Unmarshal\<close>: a nil map, from a null or missing member, is normalised to the empty map.\<close>

definition unmarshalItem :: "json \<Rightarrow> item_state option" where
  "unmarshalItem b = (case jMembers b of None \<Rightarrow> None | Some fs \<Rightarrow>
    (case (jField (jMap 0 jInt64) fs ''pos'', jField (jMap 0 jInt64) fs ''neg'',
           jField (jLWW [] jStr) fs ''name'', jField (jLWW 0 jInt64) fs ''reorder_point'',
           jField (jLWW False jBool) fs ''deleted'') of
      (Some p, Some n, Some nm, Some rp, Some d) \<Rightarrow>
        Some \<lparr>isPos = orZero fmempty p, isNeg = orZero fmempty n,
          isName = orZero (LWW [] zeroHLC) nm, isReorderPoint = orZero (LWW 0 zeroHLC) rp,
          isDeleted = orZero (LWW False zeroHLC) d\<rparr>
    | _ \<Rightarrow> None))"

lemma jHLC_jOfHLC [json_simps]: "jHLC (jOfHLC h) = Some h"
  by (cases h) (simp add: jHLC_def jOfHLC_def json_simps orZero_def)

lemma json_not_null [json_simps]:
  "jOfMap enc m \<noteq> JNull" "jOfLWW enc' r \<noteq> JNull" "jOfHLC h \<noteq> JNull"
  by (simp_all add: jOfMap_def jOfLWW_def jOfHLC_def)

lemma jLWW_jOfLWW [json_simps]:
  assumes "\<And>x. dec (enc x) = Some x" "\<And>x. enc x \<noteq> JNull"
  shows "jLWW z dec (jOfLWW enc r) = Some r"
  using assms json_not_null(3)
  by (cases r) (simp add: jLWW_def jOfLWW_def json_simps orZero_def)

lemma unmarshal_marshal_item: "unmarshalItem (marshalItem s) = Some s"
  by (simp add: unmarshalItem_def marshalItem_def json_simps orZero_def)

section \<open>Order independence\<close>

text \<open>
  The state is a product of five independent parts, and an event acts on each of them
  separately. Stating the effect part by part makes commutation a matter of one counter and one
  register.
\<close>

definition writesName :: "event \<Rightarrow> string option" where
  "writesName e = (if eKind e = KindMetaSet then Option.bind (eMeta e) msName else None)"

definition writesReorderPoint :: "event \<Rightarrow> int64 option" where
  "writesReorderPoint e =
    (if eKind e = KindMetaSet then Option.bind (eMeta e) msReorderPoint else None)"

definition writesDeleted :: "event \<Rightarrow> bool option" where
  "writesDeleted e = (if eKind e = KindDeleteSet then eDeletedTo e else None)"

definition register :: "'a lww \<Rightarrow> 'a option \<Rightarrow> hlc \<Rightarrow> 'a lww" where
  "register r w t = (case w of None \<Rightarrow> r | Some v \<Rightarrow> snd (lwwSet r v t))"

definition credit :: "event \<Rightarrow> (node_id, int64) fmap \<Rightarrow> (node_id, int64) fmap" where
  "credit e m = (if eKind e = KindQuantityDelta \<and> 0 \<le> sint (eDelta e)
     then addTo (idNode (eID e)) (eDelta e) m else m)"

definition debit :: "event \<Rightarrow> (node_id, int64) fmap \<Rightarrow> (node_id, int64) fmap" where
  "debit e m = (if eKind e = KindQuantityDelta \<and> sint (eDelta e) < 0
     then addTo (idNode (eID e)) (- eDelta e) m else m)"

lemma applyItem_parts:
  "applyItem s e = \<lparr>isPos = credit e (isPos s), isNeg = debit e (isNeg s),
     isName = register (isName s) (writesName e) (eHLC e),
     isReorderPoint = register (isReorderPoint s) (writesReorderPoint e) (eHLC e),
     isDeleted = register (isDeleted s) (writesDeleted e) (eHLC e)\<rparr>"
  by (cases s) (auto simp: applyItem_def credit_def debit_def register_def writesName_def
      writesReorderPoint_def writesDeleted_def Let_def split: option.splits)

lemma addTo_commute: "addTo n d (addTo k c m) = addTo k c (addTo n d m)"
  by (rule fmap_ext) (auto simp: addTo_def ac_simps)

lemma register_commute:
  "t \<noteq> u \<Longrightarrow> register (register r w t) x u = register (register r x u) w t"
  by (auto simp: register_def lwwSet_commute split: option.splits)

lemma applyItem_commute:
  assumes "eHLC a \<noteq> eHLC b"
  shows "applyItem (applyItem s a) b = applyItem (applyItem s b) a"
  using assms
  by (simp add: applyItem_parts register_commute [OF assms] credit_def debit_def addTo_commute)

interpretation lab_crdt: commuting_fold applyItem eHLC
  by unfold_locales (rule applyItem_commute)

text \<open>Two events the examples use: stock received at one node, and picked at another.\<close>

definition demoA :: event where
  "demoA = \<lparr>eID = EventID ''A'' 1, eHLC = HLC 5 0 ''A'', eSKU = ''S'', eKind = KindQuantityDelta,
     eDelta = 7, eMeta = None, eDeletedTo = None\<rparr>"

definition demoB :: event where
  "demoB = \<lparr>eID = EventID ''B'' 1, eHLC = HLC 5 1 ''B'', eSKU = ''S'', eKind = KindQuantityDelta,
     eDelta = - 2, eMeta = None, eDeletedTo = None\<rparr>"

text \<open>
  Strong eventual consistency of one item: two replicas that hold the same events, with one
  timestamp per event, compute the same state whatever order they fold them in. \<open>Equal\<close> is the
  predicate the harness compares replicas with.
\<close>

lemma crdt_order_independent:
  assumes "mset xs = mset ys" "inj_on eHLC (set xs)"
  shows "foldl applyItem newItemState xs = foldl applyItem newItemState ys \<and>
    equalItem (foldl applyItem newItemState xs) (Some (foldl applyItem newItemState ys))"
  using lab_crdt.fold_perm [OF assms] by (simp add: equalItem_def)

text \<open>
  One timestamp per event is needed, and \<open>Validate\<close> does not enforce it: two valid events of one
  node may carry the same timestamp, and then the first one folded wins.
\<close>

definition sameStampEvent :: "seq \<Rightarrow> string \<Rightarrow> event" where
  "sameStampEvent n v = \<lparr>eID = EventID ''A'' n, eHLC = HLC 5 0 ''A'', eSKU = ''SKU'',
     eKind = KindMetaSet, eDelta = 0, eMeta = Some \<lparr>msName = Some v, msReorderPoint = None\<rparr>,
     eDeletedTo = None\<rparr>"

text \<open>
  Two valid events of one node that carry the same timestamp and write different names are
  folded into different states in the two orders: the first write wins.
\<close>

lemma same_stamp_order_matters:
  "valid_event (sameStampEvent 1 ''x'') \<and> valid_event (sameStampEvent 2 ''y'') \<and>
   lwwValue (isName (foldl applyItem newItemState [sameStampEvent 1 ''x'', sameStampEvent 2 ''y''])) = ''x'' \<and>
   lwwValue (isName (foldl applyItem newItemState [sameStampEvent 2 ''y'', sameStampEvent 1 ''x''])) = ''y''"
  by code_simp

section \<open>The value of the counter and of the registers\<close>

lemma quantity_conv: "quantity s = fm_sum (isPos s) - fm_sum (isNeg s)"
  unfolding quantity_def
  using foldl_snd_sum [of 0 "sorted_list_of_fmap (isPos s)"]
    foldl_snd_diff [of _ "sorted_list_of_fmap (isNeg s)"]
  by (simp add: fm_sum_def case_prod_unfold)

lemma quantity_applyItem:
  "quantity (applyItem s e) = quantity s + (if eKind e = KindQuantityDelta then eDelta e else 0)"
  by (auto simp: quantity_conv applyItem_parts credit_def debit_def addTo_def fm_sum_add fm_sum_diff)

lemma quantity_fold:
  "quantity (foldl applyItem s es) =
    quantity s + (\<Sum>e \<leftarrow> es. if eKind e = KindQuantityDelta then eDelta e else 0)"
  by (induction es arbitrary: s) (simp_all add: quantity_applyItem ac_simps)

text \<open>The integer reading of a sum of words, as long as no partial magnitude overflows.\<close>

lemma sint_sum_list:
  "(\<Sum>w \<leftarrow> ws. \<bar>sint w\<bar>) \<le> maxInt64 \<Longrightarrow> sint (\<Sum>w \<leftarrow> ws. w :: int64) = (\<Sum>w \<leftarrow> ws. sint w)"
proof -
  assume b: "(\<Sum>w \<leftarrow> ws. \<bar>sint w\<bar>) \<le> maxInt64"
  have "\<bar>\<Sum>w \<leftarrow> ws. sint w\<bar> \<le> (\<Sum>w \<leftarrow> ws. \<bar>sint w\<bar>)"
    by (induction ws) (auto intro: order_trans [OF abs_triangle_ineq])
  with b have "minInt64 \<le> (\<Sum>w \<leftarrow> ws. sint w)" "(\<Sum>w \<leftarrow> ws. sint w) \<le> maxInt64"
    by linarith+
  moreover have "(\<Sum>w \<leftarrow> ws. w) = word_of_int (\<Sum>w \<leftarrow> ws. sint w)"
    by (induction ws) (simp_all add: wi_hom_add [symmetric])
  ultimately show ?thesis
    by (simp add: sint64_of_int)
qed

text \<open>
  The quantity of a folded history is the sum of its quantity deltas: in \<open>int64\<close> arithmetic
  always, and as an integer whenever the magnitudes of the deltas add up to an \<open>int64\<close>.
\<close>

lemma quantity_is_sum_of_deltas:
  assumes "\<forall>e \<in> set es. valid_event e"
  shows "quantity (foldl applyItem newItemState es) = (\<Sum>e \<leftarrow> es. eDelta e) \<and>
    ((\<Sum>e \<leftarrow> es. \<bar>sint (eDelta e)\<bar>) \<le> maxInt64 \<longrightarrow>
      sint (quantity (foldl applyItem newItemState es)) = (\<Sum>e \<leftarrow> es. sint (eDelta e)))"
proof -
  have "(\<Sum>e \<leftarrow> es. if eKind e = KindQuantityDelta then eDelta e else 0) = (\<Sum>e \<leftarrow> es. eDelta e)"
    using assms by (intro arg_cong [where f = sum_list] map_cong) (auto elim: valid_event_kinds)
  then have q: "quantity (foldl applyItem newItemState es) = (\<Sum>e \<leftarrow> es. eDelta e)"
    unfolding quantity_fold by (simp add: newItemState_def quantity_conv)
  show ?thesis
    unfolding q using sint_sum_list [of "map eDelta es"] by (simp add: comp_def)
qed

text \<open>A register folded over a history holds the write with the greatest timestamp.\<close>

lemma lwwAt_register: "lwwAt (register r w t) = (if w = None then lwwAt r else max (lwwAt r) t)"
  by (auto simp: register_def lwwSet_def Before_iff max_def split: option.splits)

lemma register_fold_at:
  "lwwAt (foldl (\<lambda>r e. register r (w e) (eHLC e)) r es) =
    Max (insert (lwwAt r) (eHLC ` {e \<in> set es. w e \<noteq> None}))"
proof (induction es rule: rev_induct)
  case Nil
  then show ?case by simp
next
  case (snoc e es)
  let ?r = "foldl (\<lambda>r e. register r (w e) (eHLC e)) r es"
  let ?T = "insert (lwwAt r) (eHLC ` {e \<in> set es. w e \<noteq> None})"
  have fin: "finite ?T" "?T \<noteq> {}" by auto
  have "lwwAt (register ?r (w e) (eHLC e)) = (if w e = None then Max ?T else max (Max ?T) (eHLC e))"
    by (simp add: lwwAt_register snoc)
  also have "\<dots> = Max (if w e = None then ?T else insert (eHLC e) ?T)"
    using fin by (simp add: Max_insert max.commute)
  also have "(if w e = None then ?T else insert (eHLC e) ?T) =
      insert (lwwAt r) (eHLC ` {x \<in> set (es @ [e]). w x \<noteq> None})"
    by auto
  finally show ?case by simp
qed

lemma register_fold_value:
  "let r' = foldl (\<lambda>r e. register r (w e) (eHLC e)) r es in
    r' = r \<or> (\<exists>e \<in> set es. w e = Some (lwwValue r') \<and> eHLC e = lwwAt r')"
  by (induction es rule: rev_induct)
    (auto simp: Let_def register_def lwwSet_def split: option.splits)

lemma isName_fold:
  "isName (foldl applyItem s es) = foldl (\<lambda>r e. register r (writesName e) (eHLC e)) (isName s) es"
  by (induction es arbitrary: s) (simp_all add: applyItem_parts)

text \<open>
  Last writer wins: after folding a history, the item's name is the one written by the event
  with the greatest timestamp among those that write a name above the zero stamp, and empty if
  there is none.
\<close>

lemma name_is_last_write:
  fixes es :: "event list"
  defines "r \<equiv> isName (foldl applyItem newItemState es)"
  shows "(\<forall>e \<in> set es. writesName e \<noteq> None \<longrightarrow> eHLC e \<le> lwwAt r) \<and>
    (r = LWW [] zeroHLC \<or> (\<exists>e \<in> set es. writesName e = Some (lwwValue r) \<and> eHLC e = lwwAt r))"
proof
  have r: "r = foldl (\<lambda>r e. register r (writesName e) (eHLC e)) (LWW [] zeroHLC) es"
    by (simp add: r_def isName_fold newItemState_def)
  show "\<forall>e \<in> set es. writesName e \<noteq> None \<longrightarrow> eHLC e \<le> lwwAt r"
    unfolding r register_fold_at by (auto intro!: Max_ge)
  show "r = LWW [] zeroHLC \<or> (\<exists>e \<in> set es. writesName e = Some (lwwValue r) \<and> eHLC e = lwwAt r)"
    using register_fold_value [of writesName "LWW [] zeroHLC" es] by (simp add: Let_def r)
qed

text \<open>
  A snapshot restores exactly the state it was taken from, per-node counters and stamps
  included.
\<close>

lemma snapshot_roundtrip: "unmarshalItem (marshalItem s) = Some s"
  by (rule unmarshal_marshal_item)

end
