(* ===== verification/LabLog.thy ===== *)
theory LabLog
  imports LabCrdt
begin

text \<open>
  The append-only log of one replica (\<open>eventlog-lab/eventlog/log.go\<close>, \<open>eventlog/sqlite.go\<close>).
  The database is its four tables, each a finite map from primary key to row; the statements the
  methods run are written out on these tables. A \<open>Seq\<close> is stored as \<open>int64(seq)\<close>, and SQL compares
  the stored values as signed integers. A transaction that fails leaves the tables as they
  were, so an operation returns either an error or the new tables. Failures of the driver itself
  (I/O, cancellation) are not modelled. SQL leaves the order of rows that tie on the
  \<open>ORDER BY\<close> key open; the model lists them by primary key.
\<close>

section \<open>Tables\<close>

record row =
  rWall :: int64
  rLogical :: int64
  rSku :: sku
  rKind :: int64
  rPayload :: json

text \<open>The reporting table exists at the Postgres-backed central store only.\<close>

record projection_row =
  prQuantity :: int64
  prName :: string
  prReorderPoint :: int64
  prDeleted :: bool

record event_log =
  elEvents :: "(event_id, row) fmap"
  elSnapshots :: "(sku, json \<times> json) fmap"
  elCursors :: "(node_id, int64) fmap"
  elWatermark :: "(node_id, int64) fmap"
  elProjections :: "(sku, projection_row) fmap option"

datatype log_error =
    ErrMalformedEvent malformed | ErrNoSnapshot sku | ErrDecodeCovers sku
  | ErrUnmarshalState sku | ErrAllocateSeq node_id

definition openSQLite :: event_log where
  "openSQLite = \<lparr>elEvents = fmempty, elSnapshots = fmempty, elCursors = fmempty,
     elWatermark = fmempty, elProjections = None\<rparr>"

text \<open>The central store runs on the same tables, plus the reporting table.\<close>

definition openPostgres :: event_log where
  "openPostgres = openSQLite\<lparr>elProjections := Some fmempty\<rparr>"

section \<open>Appending\<close>

definition rowOf :: "event \<Rightarrow> row" where
  "rowOf e = \<lparr>rWall = Wall (eHLC e), rLogical = ucast (Logical (eHLC e)), rSku = eSKU e,
     rKind = eKind e, rPayload = marshalPayload e\<rparr>"

text \<open>\<open>INSERT ... ON CONFLICT (node_id, seq) DO NOTHING\<close>\<close>

definition insertEvent :: "event \<Rightarrow> event_log \<Rightarrow> event_log" where
  "insertEvent e l = (if fmlookup (elEvents l) (eID e) \<noteq> None then l
     else l\<lparr>elEvents := fmupd (eID e) (rowOf e) (elEvents l)\<rparr>)"

definition logAppend :: "event_log \<Rightarrow> event \<Rightarrow> log_error + event_log" where
  "logAppend l e = (case validate e of Some m \<Rightarrow> Inl (ErrMalformedEvent m)
     | None \<Rightarrow> Inr (insertEvent e l))"

definition rowList :: "event_log \<Rightarrow> (event_id \<times> row) list" where
  "rowList l = sorted_list_of_fmap (elEvents l)"

text \<open>SQL's \<open>MAX\<close> over the selected values: null on an empty selection.\<close>

definition sqlMax :: "int list \<Rightarrow> int option" where
  "sqlMax xs = (case xs of [] \<Rightarrow> None | x # xs \<Rightarrow> Some (foldl max x xs))"

definition seqsOf :: "event_log \<Rightarrow> node_id \<Rightarrow> int list" where
  "seqsOf l n = map (\<lambda>(i, _). sint (idSeq i)) (filter (\<lambda>(i, _). idNode i = n) (rowList l))"

definition watermarkOf :: "event_log \<Rightarrow> node_id \<Rightarrow> int" where
  "watermarkOf l n = orZero 0 (map_option sint (fmlookup (elWatermark l) n))"

definition highWater :: "event_log \<Rightarrow> node_id \<Rightarrow> int" where
  "highWater l n = max (orZero 0 (sqlMax (seqsOf l n))) (watermarkOf l n)"

definition appendLocal :: "event_log \<Rightarrow> (seq \<Rightarrow> event) \<Rightarrow> log_error + (event \<times> event_log)" where
  "appendLocal l mint =
    (let probe = mint 0; nxt = highWater l (idNode (eID probe)) + 1 in
     if maxInt64 < nxt then Inl (ErrAllocateSeq (idNode (eID probe)))
     else (let e = mint (word_of_int nxt) in
       case validate e of Some m \<Rightarrow> Inl (ErrMalformedEvent m)
       | None \<Rightarrow> Inr (e, insertEvent e l)))"

section \<open>Reading\<close>

definition scanEvent :: "event_id \<times> row \<Rightarrow> malformed + event" where
  "scanEvent = (\<lambda>(i, r).
    if sint (rLogical r) < 0 \<or> uint maxUint32 < sint (rLogical r) then Inl LogicalOutOfRange
    else (let e = \<lparr>eID = i, eHLC = HLC (rWall r) (ucast (rLogical r)) (idNode i), eSKU = rSku r,
                   eKind = rKind r, eDelta = 0, eMeta = None, eDeletedTo = None\<rparr> in
      case unmarshalPayload (rPayload r) e of Inl m \<Rightarrow> Inl m
      | Inr e \<Rightarrow> (case validate e of Some m \<Rightarrow> Inl m | None \<Rightarrow> Inr e)))"

text \<open>\<open>stream\<close>: rows are decoded in order, those the vector covers are skipped, and the first row
  that does not decode ends the stream with its error.\<close>

fun streamRows :: "version_vector \<Rightarrow> (event_id \<times> row) list \<Rightarrow> (log_error + event) list" where
  "streamRows skip [] = []"
| "streamRows skip (ir # rows) =
    (case scanEvent ir of Inl m \<Rightarrow> [Inl (ErrMalformedEvent m)]
     | Inr e \<Rightarrow> if vvContains skip (eID e) then streamRows skip rows
               else Inr e # streamRows skip rows)"

definition orderByHLC :: "(event_id \<times> row) list \<Rightarrow> (event_id \<times> row) list" where
  "orderByHLC = sort_key (\<lambda>(i, r). (sint (rWall r), sint (rLogical r), idNode i))"

definition since :: "event_log \<Rightarrow> version_vector \<Rightarrow> (log_error + event) list" where
  "since l vv = streamRows vv (orderByHLC (rowList l))"

definition eventsForSKU :: "event_log \<Rightarrow> sku \<Rightarrow> version_vector \<Rightarrow> (log_error + event) list" where
  "eventsForSKU l k aft =
    streamRows aft (orderByHLC (filter (\<lambda>(_, r). rSku r = k) (rowList l)))"

definition countForSKU :: "event_log \<Rightarrow> sku \<Rightarrow> nat" where
  "countForSKU l k = length (filter (\<lambda>(_, r). rSku r = k) (rowList l))"

section \<open>The version vector query\<close>

text \<open>
  The inner query numbers a node's rows above its watermark in ascending \<open>seq\<close> order and keeps
  those whose \<open>seq - ROW_NUMBER() - watermark\<close> is zero.
\<close>

definition contiguousRun :: "int \<Rightarrow> int list \<Rightarrow> int list" where
  "contiguousRun w seqs =
    map snd (filter (\<lambda>(i, s). s - int i - w = 0) (enumerate 1 (sort (filter (\<lambda>s. w < s) seqs))))"

definition frontierOf :: "event_log \<Rightarrow> node_id \<Rightarrow> int option" where
  "frontierOf l n = sqlMax
    ((case fmlookup (elWatermark l) n of None \<Rightarrow> [] | Some w \<Rightarrow> [sint w]) @
     (case sqlMax (contiguousRun (watermarkOf l n) (seqsOf l n)) of None \<Rightarrow> [] | Some m \<Rightarrow> [m]))"

definition logNodes :: "event_log \<Rightarrow> node_id list" where
  "logNodes l = sorted_list_of_fset (fmdom (elWatermark l) |\<union>| idNode |`| fmdom (elEvents l))"

definition versionVector :: "event_log \<Rightarrow> version_vector" where
  "versionVector l = foldl (\<lambda>vv n. case frontierOf l n of None \<Rightarrow> vv
     | Some s \<Rightarrow> fmupd n (word_of_int s) vv) fmempty (logNodes l)"

section \<open>Cursors and snapshots\<close>

definition cursor :: "event_log \<Rightarrow> node_id \<Rightarrow> seq" where
  "cursor l peer = fm_get 0 (elCursors l) peer"

definition setCursor :: "event_log \<Rightarrow> node_id \<Rightarrow> seq \<Rightarrow> event_log" where
  "setCursor l peer lst = l\<lparr>elCursors := fmupd peer
     (case fmlookup (elCursors l) peer of None \<Rightarrow> lst
      | Some old \<Rightarrow> if sint old < sint lst then lst else old) (elCursors l)\<rparr>"

definition marshalVV :: "version_vector \<Rightarrow> json" where
  "marshalVV vv = jOfMap (\<lambda>w. JNum (uint w)) vv"

definition jVV :: "json \<Rightarrow> version_vector option" where
  "jVV = jMap 0 jUint64"

definition loadSnapshot :: "event_log \<Rightarrow> sku \<Rightarrow> log_error + (json \<times> version_vector)" where
  "loadSnapshot l k = (case fmlookup (elSnapshots l) k of None \<Rightarrow> Inl (ErrNoSnapshot k)
     | Some (st, covers) \<Rightarrow> (case jVV covers of None \<Rightarrow> Inl (ErrDecodeCovers k)
        | Some vv \<Rightarrow> Inr (st, vv)))"

definition saveSnapshot :: "event_log \<Rightarrow> sku \<Rightarrow> json \<Rightarrow> version_vector \<Rightarrow> event_log" where
  "saveSnapshot l k st covers =
     l\<lparr>elSnapshots := fmupd k (st, marshalVV covers) (elSnapshots l)\<rparr>"

section \<open>Compaction\<close>

text \<open>\<open>snapshotCoverage\<close>, then the intersection with the vector every peer has acknowledged.\<close>

definition snapshotCoverage :: "event_log \<Rightarrow> log_error + (sku, version_vector) fmap" where
  "snapshotCoverage l = foldl (\<lambda>r (k, (_, covers)). case r of Inl e \<Rightarrow> Inl e
     | Inr out \<Rightarrow> (case jVV covers of None \<Rightarrow> Inl (ErrDecodeCovers k)
        | Some vv \<Rightarrow> Inr (fmupd k vv out)))
     (Inr fmempty) (sorted_list_of_fmap (elSnapshots l))"

definition safeVector :: "version_vector \<Rightarrow> version_vector \<Rightarrow> version_vector" where
  "safeVector snapVV upTo = foldl (\<lambda>safe (n, s). case fmlookup upTo n of None \<Rightarrow> safe
     | Some peerSeq \<Rightarrow> fmupd n (min s peerSeq) safe) fmempty (sorted_list_of_fmap snapVV)"

definition stranded :: "event_log \<Rightarrow> node_id \<Rightarrow> seq \<Rightarrow> bool" where
  "stranded l n s \<longleftrightarrow> list_ex (\<lambda>s'. sint s < s') (seqsOf l n)"

text \<open>The two statements of the loop body.\<close>

definition raiseWatermark :: "node_id \<Rightarrow> seq \<Rightarrow> event_log \<Rightarrow> event_log" where
  "raiseWatermark n s l = l\<lparr>elWatermark := fmupd n
     (case fmlookup (elWatermark l) n of None \<Rightarrow> s
      | Some old \<Rightarrow> if sint old < sint s then s else old) (elWatermark l)\<rparr>"

definition deleteCovered :: "sku \<Rightarrow> node_id \<Rightarrow> seq \<Rightarrow> event_log \<Rightarrow> event_log" where
  "deleteCovered k n s l = l\<lparr>elEvents := fmfilter (\<lambda>i. \<not> (idNode i = n \<and>
     sint (idSeq i) \<le> sint s \<and> map_option rSku (fmlookup (elEvents l) i) = Some k)) (elEvents l)\<rparr>"

text \<open>The loop body for one node of one snapshot: unless a later event of the node survives, the
  watermark is raised and the covered rows of the snapshot's item are deleted.\<close>

definition compactNode :: "sku \<Rightarrow> event_log \<Rightarrow> node_id \<times> seq \<Rightarrow> event_log" where
  "compactNode k l = (\<lambda>(n, s). if stranded l n s then l
     else deleteCovered k n s (raiseWatermark n s l))"

definition compact :: "event_log \<Rightarrow> version_vector \<Rightarrow> log_error + event_log" where
  "compact l upTo = (case snapshotCoverage l of Inl e \<Rightarrow> Inl e
     | Inr covered \<Rightarrow> Inr (foldl (\<lambda>l (k, snapVV).
         foldl (compactNode k) l (sorted_list_of_fmap (safeVector snapVV upTo)))
         l (sorted_list_of_fmap covered)))"

section \<open>The reporting table\<close>

definition upsertProjection :: "event_log \<Rightarrow> sku \<Rightarrow> projection_row \<Rightarrow> event_log" where
  "upsertProjection l k p = l\<lparr>elProjections := map_option (fmupd k p) (elProjections l)\<rparr>"

definition anomalies :: "event_log \<Rightarrow> (sku \<times> int64) list" where
  "anomalies l = (case elProjections l of None \<Rightarrow> []
     | Some t \<Rightarrow> map (\<lambda>(k, p). (k, prQuantity p))
         (filter (\<lambda>(k, p). sint (prQuantity p) < 0) (sorted_list_of_fmap t)))"

section \<open>Rows and events\<close>

lemma scanEvent_rowOf: "valid_event e \<Longrightarrow> scanEvent (eID e, rowOf e) = Inr e"
proof -
  assume v: "valid_event e"
  obtain w l n where h: "eHLC e = HLC w l n" by (cases "eHLC e")
  have n: "n = idNode (eID e)"
    using valid_event_header [OF v] h by simp
  have up: "uint (ucast l :: int64) = uint l"
    by (rule uint_up_ucast) (simp add: is_up)
  have "uint l < 2 ^ LENGTH(32)"
    by (rule unsigned_less)
  then have "fitsInt64 (ucast l)"
    by (simp add: fitsInt64_def up)
  then have u: "sint (ucast l :: int64) = uint l"
    using up by (simp add: fitsInt64_sint)
  have c: "(ucast (ucast l :: int64) :: uint32) = l"
    by (rule ucast_up_ucast_id) (simp add: is_up)
  have "uint l \<le> uint maxUint32"
    by (simp only: word_le_def [symmetric]) simp
  then have "scanEvent (eID e, rowOf e) =
      (case Inr e of Inl m \<Rightarrow> Inl m | Inr e \<Rightarrow> (case validate e of Some m \<Rightarrow> Inl m | None \<Rightarrow> Inr e))"
    using h n c
    by (cases e) (simp add: scanEvent_def rowOf_def u unmarshal_marshal_payload setPayload_def
        payloadOf_def not_less split: option.split)
  then show ?thesis
    using v by simp
qed

lemma set_orderByHLC [simp]: "set (orderByHLC rs) = set rs"
  by (simp add: orderByHLC_def)

lemma distinct_orderByHLC [simp]: "distinct (orderByHLC rs) = distinct rs"
  by (simp add: orderByHLC_def)

lemma set_rowList: "(i, r) \<in> set (rowList l) \<longleftrightarrow> fmlookup (elEvents l) i = Some r"
  by (simp add: rowList_def set_sorted_list_of_fmap)

lemma distinct_rowList: "distinct (rowList l)"
  using distinct_sorted_list_of_fmap [of "elEvents l"] by (simp add: rowList_def distinct_map)

lemma streamRows_decoded:
  "map scanEvent rows = map Inr es \<Longrightarrow>
    streamRows vv rows = map Inr (filter (\<lambda>e. \<not> vvContains vv (eID e)) es)"
  by (induction rows arbitrary: es) (auto simp: Cons_eq_map_conv)

lemma set_seqsOf:
  "set (seqsOf l n) = {sint s | s. fmlookup (elEvents l) (EventID n s) \<noteq> None}"
proof -
  have "set (seqsOf l n) = {sint (idSeq i) | i r. (i, r) \<in> set (rowList l) \<and> idNode i = n}"
    by (force simp: seqsOf_def)
  also have "\<dots> = {sint s | s. fmlookup (elEvents l) (EventID n s) \<noteq> None}"
    unfolding set_rowList by (auto; metis event_id.collapse event_id.sel)
  finally show ?thesis .
qed

lemma distinct_seqsOf: "distinct (seqsOf l n)"
proof -
  have "distinct (map fst (filter (\<lambda>(i, _). idNode i = n) (rowList l)))"
    using distinct_sorted_list_of_fmap [of "elEvents l"]
    by (simp add: rowList_def distinct_map_filter)
  then have "distinct (map (\<lambda>i. sint (idSeq i)) (map fst (filter (\<lambda>(i, _). idNode i = n) (rowList l))))"
    by (subst distinct_map) (auto simp: sint64_eq_iff inj_on_def event_id.expand)
  then show ?thesis
    by (simp add: seqsOf_def comp_def case_prod_unfold)
qed

section \<open>The frontier query finds the gap-free prefix\<close>

text \<open>Where a strictly ascending list stops counting up from \<open>w\<close>.\<close>

fun runEnd :: "int \<Rightarrow> int list \<Rightarrow> int" where
  "runEnd w [] = w"
| "runEnd w (x # xs) = (if x = w + 1 then runEnd x xs else w)"

lemma runEnd_ge: "w \<le> runEnd w xs"
  by (induction xs arbitrary: w) (auto, smt)

lemma runEnd_prefix: "w < s \<Longrightarrow> s \<le> runEnd w xs \<Longrightarrow> s \<in> set xs"
  by (induction xs arbitrary: w) (auto split: if_splits, smt)

lemma runEnd_gap: "sorted_wrt (<) xs \<Longrightarrow> \<forall>x \<in> set xs. w < x \<Longrightarrow> runEnd w xs + 1 \<notin> set xs"
proof (induction xs arbitrary: w)
  case Nil
  then show ?case by simp
next
  case (Cons x xs)
  have "x \<le> runEnd x xs" by (rule runEnd_ge)
  with Cons show ?case by (auto simp: not_le)
qed

lemma numbered_above:
  "sorted_wrt (<) ys \<Longrightarrow> \<forall>y \<in> set ys. w + int j < y \<Longrightarrow>
    \<forall>(i, s) \<in> set (enumerate j ys). s - int i - w \<noteq> 0"
  by (induction ys arbitrary: j) (auto, force)

lemma numbered_run:
  assumes "sorted_wrt (<) xs" "\<forall>x \<in> set xs. v < x" "v = w + int k"
  shows "map snd (filter (\<lambda>(i, s). s - int i - w = 0) (enumerate (Suc k) xs)) =
    [v + 1 .. runEnd v xs]"
  using assms
proof (induction xs arbitrary: k v)
  case Nil
  then show ?case by simp
next
  case (Cons x xs)
  show ?case
  proof (cases "x = v + 1")
    case True
    have "x \<le> runEnd x xs" by (rule runEnd_ge)
    then have "[x .. runEnd x xs] = x # [x + 1 .. runEnd x xs]"
      by (simp add: upto_rec1)
    moreover have "map snd (filter (\<lambda>(i, s). s - int i - w = 0) (enumerate (Suc (Suc k)) xs)) =
        [x + 1 .. runEnd x xs]"
      using Cons.prems True by (intro Cons.IH) auto
    ultimately show ?thesis
      using True Cons.prems(3) by simp
  next
    case False
    then have "w + int (Suc k) < x" using Cons.prems(2,3) by auto
    then have "\<forall>(i, s) \<in> set (enumerate (Suc k) (x # xs)). s - int i - w \<noteq> 0"
      using Cons.prems(1) by (intro numbered_above) (auto intro: less_trans)
    then have "filter (\<lambda>(i, s). s - int i - w = 0) (enumerate (Suc k) (x # xs)) = []"
      by (auto simp: filter_empty_conv)
    then show ?thesis using False by simp
  qed
qed

lemma sorted_wrt_sort: "distinct xs \<Longrightarrow> sorted_wrt (<) (sort xs)" for xs :: "int list"
  by (simp add: strict_sorted_iff)

lemma sqlMax_upto: "sqlMax [a .. b] = (if a \<le> b then Some b else None)"
proof (cases "a \<le> b")
  case True
  have "foldl max a [a + 1 .. b] = b" if "a \<le> b" for a
    using that
  proof (induction "nat (b - a)" arbitrary: a)
    case (Suc n)
    then have "[a + 1 .. b] = (a + 1) # [a + 1 + 1 .. b]" by (intro upto_rec1) simp
    moreover have "foldl max (a + 1) [a + 1 + 1 .. b] = b"
      using Suc(2,3) by (intro Suc(1)) simp_all
    ultimately show ?case by simp
  qed simp
  with True show ?thesis by (simp add: sqlMax_def upto_rec1)
qed (simp add: sqlMax_def)

lemma sqlMax_simps [simp]: "sqlMax [] = None" "sqlMax [a] = Some a" "sqlMax [a, b] = Some (max a b)"
  by (simp_all add: sqlMax_def)

text \<open>\<open>sqlMax\<close> is the maximum of the selected values.\<close>

lemma sqlMax_Max: "xs \<noteq> [] \<Longrightarrow> sqlMax xs = Some (Max (set xs))"
proof -
  assume "xs \<noteq> []"
  then obtain y ys where xs: "xs = y # ys" by (cases xs) auto
  have "foldl max y ys = fold max ys y"
    by (induction ys arbitrary: y) (simp_all add: max.commute)
  then show ?thesis
    by (simp only: xs sqlMax_def list.case Max.set_eq_fold)
qed

text \<open>The reported frontier of a node, zero where the vector has no entry.\<close>

definition frontier :: "event_log \<Rightarrow> node_id \<Rightarrow> int" where
  "frontier l n = orZero 0 (frontierOf l n)"

lemma frontier_runEnd:
  "frontier l n = runEnd (watermarkOf l n) (sort (filter (\<lambda>s. watermarkOf l n < s) (seqsOf l n)))"
    (is "_ = runEnd ?w ?xs")
proof -
  have "contiguousRun ?w (seqsOf l n) = [?w + 1 .. runEnd ?w ?xs]"
    unfolding contiguousRun_def One_nat_def
    by (rule numbered_run) (auto intro: sorted_wrt_sort simp: distinct_seqsOf)
  then have run: "sqlMax (contiguousRun ?w (seqsOf l n)) =
      (if ?w < runEnd ?w ?xs then Some (runEnd ?w ?xs) else None)"
    by (simp add: sqlMax_upto)
  have ge: "?w \<le> runEnd ?w ?xs" by (rule runEnd_ge)
  show ?thesis
  proof (cases "fmlookup (elWatermark l) n")
    case None
    then have w: "?w = 0" by (simp add: watermarkOf_def orZero_def)
    show ?thesis
      using ge by (simp add: frontier_def frontierOf_def run [unfolded w] None orZero_def w)
  next
    case (Some w)
    then have w: "?w = sint w" by (simp add: watermarkOf_def orZero_def)
    show ?thesis
      using ge by (simp add: frontier_def frontierOf_def run [unfolded w] Some orZero_def w)
  qed
qed

lemma frontier_ge_watermark: "watermarkOf l n \<le> frontier l n"
  unfolding frontier_runEnd by (rule runEnd_ge)

lemma frontier_prefix: "watermarkOf l n < s \<Longrightarrow> s \<le> frontier l n \<Longrightarrow> s \<in> set (seqsOf l n)"
  unfolding frontier_runEnd by (drule (1) runEnd_prefix) simp

lemma frontier_gap: "frontier l n + 1 \<notin> set (seqsOf l n)"
proof
  let ?w = "watermarkOf l n"
  let ?xs = "sort (filter (\<lambda>s. ?w < s) (seqsOf l n))"
  assume "frontier l n + 1 \<in> set (seqsOf l n)"
  with frontier_ge_watermark [of l n] have "frontier l n + 1 \<in> set ?xs" by simp
  moreover have "runEnd ?w ?xs + 1 \<notin> set ?xs"
    by (rule runEnd_gap) (auto intro: sorted_wrt_sort simp: distinct_seqsOf)
  ultimately show False by (simp add: frontier_runEnd)
qed

lemma foldl_upd_lookup:
  "distinct xs \<Longrightarrow> fmlookup (foldl (\<lambda>m k. case f k of None \<Rightarrow> m | Some v \<Rightarrow> fmupd k (g v) m) m0 xs) k =
    (if k \<in> set xs \<and> f k \<noteq> None then map_option g (f k) else fmlookup m0 k)"
  by (induction xs arbitrary: m0) (auto split: option.splits)

lemma lookup_versionVector: "fmlookup (versionVector l) n = map_option word_of_int (frontierOf l n)"
proof -
  have d: "distinct (logNodes l)"
    by (simp add: logNodes_def sorted_list_of_fset.rep_eq)
  have "frontierOf l n = None" if "n \<notin> set (logNodes l)"
  proof -
    from that have out: "n |\<notin>| fmdom (elWatermark l)" "n |\<notin>| idNode |`| fmdom (elEvents l)"
      by (simp_all add: logNodes_def sorted_list_of_fset.rep_eq)
    have "EventID n s |\<notin>| fmdom (elEvents l)" for s
      using out(2) by (metis event_id.sel(1) fimageI)
    then have "set (seqsOf l n) = {}"
      by (simp add: set_seqsOf fmdom_notD)
    moreover have "fmlookup (elWatermark l) n = None"
      using out(1) by (rule fmdom_notD)
    ultimately have "seqsOf l n = []" "fmlookup (elWatermark l) n = None" by simp_all
    then show ?thesis
      by (simp add: frontierOf_def sqlMax_def contiguousRun_def)
  qed
  then show ?thesis
    unfolding versionVector_def foldl_upd_lookup [OF d] by auto
qed

lemma vv_get_versionVector: "vv_get (versionVector l) n = word_of_int (frontier l n)"
  by (simp add: fm_get_def lookup_versionVector frontier_def orZero_def split: option.split)

section \<open>Stored vectors\<close>

lemma jVV_marshalVV [json_simps]: "jVV (marshalVV vv) = Some vv"
  by (simp add: jVV_def marshalVV_def json_simps)

lemma loadSnapshot_save [simp]:
  "loadSnapshot (saveSnapshot l k st vv) k' = (if k' = k then Inr (st, vv) else loadSnapshot l k')"
  by (simp add: loadSnapshot_def saveSnapshot_def json_simps)

end
