(* ===== verification/LabProjector.thy ===== *)
theory LabProjector
  imports LabLog
begin

text \<open>
  The projector (\<open>eventlog-lab/crdt/projector.go\<close>): the state of an item as a fold over its
  events, resumed from the latest snapshot, and the writing of snapshots. A projector is the log
  it reads and its \<open>SnapshotEvery\<close> setting.
\<close>

text \<open>The switch on \<open>LoadSnapshot\<close> that both methods open with.\<close>

definition loadState :: "event_log \<Rightarrow> sku \<Rightarrow> log_error + (item_state \<times> version_vector)" where
  "loadState l k = (case loadSnapshot l k of
      Inr (blob, vv) \<Rightarrow> (case unmarshalItem blob of None \<Rightarrow> Inl (ErrUnmarshalState k)
                        | Some st \<Rightarrow> Inr (st, vv))
    | Inl (ErrNoSnapshot _) \<Rightarrow> Inr (newItemState, fmempty)
    | Inl err \<Rightarrow> Inl err)"

definition project :: "event_log \<Rightarrow> sku \<Rightarrow> log_error + item_state" where
  "project l k = (case loadState l k of Inl err \<Rightarrow> Inl err
     | Inr (st, covered) \<Rightarrow> foldItem st (eventsForSKU l k covered))"

text \<open>The loop of \<open>MaybeSnapshot\<close>: events above their node's frontier are left for later.\<close>

fun snapFold :: "version_vector \<Rightarrow> item_state \<Rightarrow> version_vector \<Rightarrow> (log_error + event) list \<Rightarrow>
    log_error + (item_state \<times> version_vector)" where
  "snapFold tf st covers [] = Inr (st, covers)"
| "snapFold tf st covers (Inl err # _) = Inl err"
| "snapFold tf st covers (Inr e # es) =
    (if vv_get tf (idNode (eID e)) < idSeq (eID e) then snapFold tf st covers es
     else snapFold tf (applyItem st e) (vvObserve covers (eID e)) es)"

definition maybeSnapshot :: "int \<Rightarrow> event_log \<Rightarrow> sku \<Rightarrow> log_error + event_log" where
  "maybeSnapshot every l k =
    (if every \<le> 0 then Inr l
     else if int (countForSKU l k) < every then Inr l
     else (let trueFrontier = versionVector l in
       case loadState l k of Inl err \<Rightarrow> Inl err
       | Inr (st, covers) \<Rightarrow>
         (case snapFold trueFrontier st covers (eventsForSKU l k covers) of Inl err \<Rightarrow> Inl err
          | Inr (st, covers) \<Rightarrow> Inr (saveSnapshot l k (marshalItem st) covers))))"

lemma foldItem_Inr: "foldItem st (map Inr es) = Inr (foldl applyItem st es)"
  by (induction es arbitrary: st) simp_all

lemma snapFold_Inr:
  "snapFold tf st covers (map Inr es) =
    (let es' = filter (\<lambda>e. vvContains tf (eID e)) es
     in Inr (foldl applyItem st es', foldl vvObserve covers (map eID es')))"
  by (induction es arbitrary: st covers) (auto simp: Let_def vvContains_def)

lemma foldl_vvObserve_ge: "vv_get covers n \<le> vv_get (foldl vvObserve covers ids) n"
proof (induction ids arbitrary: covers)
  case (Cons i ids)
  have "vv_get covers n \<le> vv_get (vvObserve covers i) n" by simp
  also note Cons.IH
  finally show ?case by simp
qed simp

text \<open>Observing a list of ids covers those ids and what lies below one of them.\<close>

lemma vvContains_foldl_observe:
  "vvContains (foldl vvObserve covers ids) j \<longleftrightarrow>
    vvContains covers j \<or> (\<exists>i \<in> set ids. idNode i = idNode j \<and> idSeq j \<le> idSeq i)"
  by (induction ids arbitrary: covers) (auto simp: vvContains_observe)

end
