(* ===== verification/LabReplica.thy ===== *)
theory LabReplica
  imports LabProjector
begin

text \<open>
  What a replica's log stands for. Compaction deletes rows, so the tables alone do not say which
  events a replica has taken in; the abstract state is the list of all of them, in order of
  arrival. \<open>represents\<close> relates the tables to that list, every log operation preserves it, and
  the properties of the log and of the projector are stated on the list.
\<close>

section \<open>The abstraction\<close>

text \<open>The gap-free prefix: every event of node \<open>n\<close> up to \<open>s\<close> has been taken in.\<close>

definition heldPrefix :: "event list \<Rightarrow> node_id \<Rightarrow> seq \<Rightarrow> bool" where
  "heldPrefix h n s \<longleftrightarrow> (\<forall>j. 0 < j \<longrightarrow> j \<le> s \<longrightarrow> EventID n j \<in> eID ` set h)"

definition coveredBy :: "version_vector \<Rightarrow> sku \<Rightarrow> event list \<Rightarrow> event list" where
  "coveredBy vv k h = filter (\<lambda>e. eSKU e = k \<and> vvContains vv (eID e)) h"

abbreviation eventsOf :: "sku \<Rightarrow> event list \<Rightarrow> event list" where
  "eventsOf k h \<equiv> filter (\<lambda>e. eSKU e = k) h"

text \<open>Identities are unique, and every sequence number fits the stored column.\<close>

definition wf_history :: "event list \<Rightarrow> bool" where
  "wf_history h \<longleftrightarrow> distinct (map eID h) \<and>
    (\<forall>e \<in> set h. valid_event e \<and> fitsInt64 (idSeq (eID e)))"

definition rowsOk :: "event_log \<Rightarrow> event list \<Rightarrow> bool" where
  "rowsOk l h \<longleftrightarrow>
    (\<forall>i r. fmlookup (elEvents l) i = Some r \<longrightarrow> (\<exists>e \<in> set h. eID e = i \<and> r = rowOf e))"

definition watermarksOk :: "event_log \<Rightarrow> event list \<Rightarrow> bool" where
  "watermarksOk l h \<longleftrightarrow> (\<forall>n w. fmlookup (elWatermark l) n = Some w \<longrightarrow> heldPrefix h n w)"

definition snapshotsOk :: "event_log \<Rightarrow> event list \<Rightarrow> bool" where
  "snapshotsOk l h \<longleftrightarrow> (\<forall>k st c. fmlookup (elSnapshots l) k = Some (st, c) \<longrightarrow>
    (\<exists>vv. c = marshalVV vv \<and> st = marshalItem (foldl applyItem newItemState (coveredBy vv k h)) \<and>
      (\<forall>n. heldPrefix h n (vv_get vv n))))"

lemma snapshotsOkD:
  assumes "snapshotsOk l h" "fmlookup (elSnapshots l) k = Some (st, c)"
  obtains vv where "c = marshalVV vv" "\<forall>n. heldPrefix h n (vv_get vv n)"
    "st = marshalItem (foldl applyItem newItemState (coveredBy vv k h))"
  using assms unfolding snapshotsOk_def by blast

text \<open>An event without a row is folded into its item's snapshot and implied by the watermark.\<close>

definition goneOk :: "event_log \<Rightarrow> event list \<Rightarrow> bool" where
  "goneOk l h \<longleftrightarrow> (\<forall>e \<in> set h. fmlookup (elEvents l) (eID e) = None \<longrightarrow>
    sint (idSeq (eID e)) \<le> watermarkOf l (idNode (eID e)) \<and>
    (\<exists>st vv. fmlookup (elSnapshots l) (eSKU e) = Some (st, marshalVV vv) \<and> vvContains vv (eID e)))"

definition represents :: "event_log \<Rightarrow> event list \<Rightarrow> bool" where
  "represents l h \<longleftrightarrow> wf_history h \<and> rowsOk l h \<and> watermarksOk l h \<and> snapshotsOk l h \<and> goneOk l h"

lemma representsI:
  "wf_history h \<Longrightarrow> rowsOk l h \<Longrightarrow> watermarksOk l h \<Longrightarrow> snapshotsOk l h \<Longrightarrow> goneOk l h \<Longrightarrow> represents l h"
  by (simp add: represents_def)

lemma represents_parts:
  assumes "represents l h"
  shows "wf_history h" "rowsOk l h" "watermarksOk l h" "snapshotsOk l h" "goneOk l h"
  using assms by (simp_all add: represents_def)

lemma wf_history_eq: "wf_history h \<Longrightarrow> e \<in> set h \<Longrightarrow> e' \<in> set h \<Longrightarrow> eID e = eID e' \<Longrightarrow> e = e'"
  by (auto simp: wf_history_def distinct_map dest: inj_onD)

lemma wf_history_distinct: "wf_history h \<Longrightarrow> distinct h"
  by (simp add: wf_history_def distinct_map)

section \<open>Prefixes\<close>

lemma heldPrefix_mono: "heldPrefix h n s \<Longrightarrow> j \<le> s \<Longrightarrow> heldPrefix h n j"
  by (auto simp: heldPrefix_def)

lemma heldPrefix_append: "heldPrefix h n s \<Longrightarrow> heldPrefix (h @ h') n s"
  by (auto simp: heldPrefix_def)

lemma heldPrefix_in: "heldPrefix h (idNode i) s \<Longrightarrow> idSeq i \<le> s \<Longrightarrow> idSeq i \<noteq> 0 \<Longrightarrow> i \<in> eID ` set h"
  by (cases i) (auto simp: heldPrefix_def word_neq_0_conv)

lemma heldPrefix_fits:
  assumes "wf_history h" "heldPrefix h n s"
  shows "fitsInt64 s"
proof (cases "s = 0")
  case True
  then show ?thesis by simp
next
  case False
  then have "EventID n s \<in> eID ` set h"
    using heldPrefix_in [of h "EventID n s" s] assms(2) by simp
  then obtain e where "e \<in> set h" "EventID n s = eID e" by auto
  then show ?thesis
    using assms(1) by (metis wf_history_def event_id.sel(2))
qed

lemma watermarkOf_Some: "fmlookup (elWatermark l) n = Some w \<Longrightarrow> watermarkOf l n = sint w"
  by (simp add: watermarkOf_def orZero_def)

lemma watermarkOf_None: "fmlookup (elWatermark l) n = None \<Longrightarrow> watermarkOf l n = 0"
  by (simp add: watermarkOf_def orZero_def)

lemma watermark_reading:
  assumes "represents l h"
  obtains w where "watermarkOf l n = uint w" "heldPrefix h n w"
proof (cases "fmlookup (elWatermark l) n")
  case None
  have "heldPrefix h n 0" by (simp add: heldPrefix_def)
  with None show ?thesis using that [of 0] by (simp add: watermarkOf_None)
next
  case (Some w)
  then have "heldPrefix h n w"
    using represents_parts(3) [OF assms] by (simp add: watermarksOk_def)
  moreover from this have "fitsInt64 w"
    by (rule heldPrefix_fits [OF represents_parts(1) [OF assms]])
  ultimately show ?thesis
    using Some that [of w] by (simp add: watermarkOf_Some fitsInt64_sint)
qed

section \<open>The version vector is the gap-free prefix\<close>

lemma seqs_held:
  assumes "represents l h" "s \<in> set (seqsOf l n)"
  obtains j where "s = sint j" "EventID n j \<in> eID ` set h" "fitsInt64 j"
proof -
  from assms(2) obtain j r where j: "s = sint j" "fmlookup (elEvents l) (EventID n j) = Some r"
    by (auto simp: set_seqsOf)
  then obtain e where e: "e \<in> set h" "eID e = EventID n j"
    using represents_parts(2) [OF assms(1)] by (auto simp: rowsOk_def)
  then have "fitsInt64 j"
    using represents_parts(1) [OF assms(1)] by (metis wf_history_def event_id.sel(2))
  with j e that show ?thesis by (metis imageI)
qed

lemma frontier_bounds:
  assumes "represents l h"
  shows "0 \<le> frontier l n" "frontier l n \<le> maxInt64"
proof -
  obtain w where w: "watermarkOf l n = uint w" "heldPrefix h n w"
    using watermark_reading [OF assms] .
  have "0 \<le> uint w" by simp
  then show "0 \<le> frontier l n"
    using frontier_ge_watermark [of l n] w by linarith
  show "frontier l n \<le> maxInt64"
  proof (cases "frontier l n = watermarkOf l n")
    case True
    then show ?thesis
      using heldPrefix_fits [OF represents_parts(1) [OF assms] w(2)] w(1) by (simp add: fitsInt64_def)
  next
    case False
    then have "frontier l n \<in> set (seqsOf l n)"
      using frontier_ge_watermark [of l n] by (intro frontier_prefix) simp_all
    then obtain j where "frontier l n = sint j" "fitsInt64 j"
      using seqs_held [OF assms] by metis
    then show ?thesis by (simp add: fitsInt64_sint fitsInt64_def)
  qed
qed

lemma frontier_word:
  assumes "represents l h"
  shows "uint (vv_get (versionVector l) n) = frontier l n"
  using frontier_bounds [OF assms, of n]
  by (simp add: vv_get_versionVector uint64_of_int)

lemma versionVector_prefix:
  assumes "represents l h"
  shows "vvContains (versionVector l) (EventID n s) \<longleftrightarrow> heldPrefix h n s"
proof
  let ?f = "vv_get (versionVector l) n"
  obtain w where w: "watermarkOf l n = uint w" "heldPrefix h n w"
    using watermark_reading [OF assms] .
  {
    assume "vvContains (versionVector l) (EventID n s)"
    then have le: "s \<le> ?f" by (simp add: vvContains_def)
    have "EventID n j \<in> eID ` set h" if j: "0 < j" "j \<le> s" for j
    proof (cases "j \<le> w")
      case True
      with w(2) j show ?thesis by (simp add: heldPrefix_def)
    next
      case False
      have "j \<le> ?f" using j(2) le by simp
      then have f: "uint j \<le> frontier l n"
        by (simp add: word_le_def frontier_word [OF assms])
      have "watermarkOf l n < uint j"
        using False w(1) by (simp add: word_le_def)
      then have "uint j \<in> set (seqsOf l n)"
        using f by (rule frontier_prefix)
      then obtain j' where j': "uint j = sint j'" "EventID n j' \<in> eID ` set h" "fitsInt64 j'"
        using seqs_held [OF assms] by metis
      then have "j = j'" by (simp add: fitsInt64_sint word_uint_eqI)
      with j'(2) show ?thesis by simp
    qed
    then show "heldPrefix h n s" by (simp add: heldPrefix_def)
  next
    assume s: "heldPrefix h n s"
    show "vvContains (versionVector l) (EventID n s)"
    proof (rule ccontr)
      assume "\<not> vvContains (versionVector l) (EventID n s)"
      then have lt: "frontier l n < uint s"
        by (simp add: vvContains_def word_le_def frontier_word [OF assms])
      have sm: "fitsInt64 s"
        by (rule heldPrefix_fits [OF represents_parts(1) [OF assms] s])
      define j :: seq where "j = word_of_int (frontier l n + 1)"
      have uj: "uint j = frontier l n + 1"
        using frontier_bounds [OF assms, of n] unfolding j_def by (intro uint64_of_int) simp_all
      then have j: "j \<le> s" "j \<noteq> 0"
        using lt frontier_bounds(1) [OF assms, of n] by (auto simp: word_le_def)
      then obtain e where e: "e \<in> set h" "eID e = EventID n j"
        using heldPrefix_in [of h "EventID n j" s] s by auto
      have sj: "sint j = frontier l n + 1"
        using fitsInt64_mono [OF sm j(1)] uj by (simp add: fitsInt64_sint)
      then have "\<not> sint (idSeq (eID e)) \<le> watermarkOf l (idNode (eID e))"
        using frontier_ge_watermark [of l n] e by simp
      then have "fmlookup (elEvents l) (EventID n j) \<noteq> None"
        using represents_parts(5) [OF assms] e by (auto simp: goneOk_def)
      then have "frontier l n + 1 \<in> set (seqsOf l n)"
        using sj by (auto simp: set_seqsOf intro!: exI [of _ j])
      then show False using frontier_gap by blast
    qed
  }
qed

section \<open>What the queries return\<close>

lemma decode_rows:
  assumes "represents l h" "set rows \<subseteq> set (rowList l)" "distinct rows"
  obtains es where "map scanEvent rows = map Inr es" "distinct es"
    "set es = {e \<in> set h. (eID e, rowOf e) \<in> set rows}"
proof -
  let ?es = "map (projr \<circ> scanEvent) rows"
  have row: "\<exists>e \<in> set h. ir = (eID e, rowOf e) \<and> scanEvent ir = Inr e" if "ir \<in> set rows" for ir
  proof -
    obtain i r where ir: "ir = (i, r)" by (cases ir)
    then have "fmlookup (elEvents l) i = Some r"
      using that assms(2) by (auto simp: set_rowList [symmetric])
    then obtain e where "e \<in> set h" "eID e = i" "r = rowOf e"
      using represents_parts(2) [OF assms(1)] by (auto simp: rowsOk_def)
    with ir show ?thesis
      using represents_parts(1) [OF assms(1)] by (auto simp: wf_history_def scanEvent_rowOf)
  qed
  have "map scanEvent rows = map Inr ?es"
    using row by force
  moreover have "distinct ?es"
  proof -
    have "inj_on (projr \<circ> scanEvent) (set rows)"
      unfolding inj_on_def comp_def using row by (metis sum.sel(2))
    with assms(3) show ?thesis by (simp add: distinct_map)
  qed
  moreover have "set ?es = {e \<in> set h. (eID e, rowOf e) \<in> set rows}"
  proof (rule set_eqI)
    fix e
    have "e \<in> set ?es \<longleftrightarrow> (\<exists>ir \<in> set rows. projr (scanEvent ir) = e)" by auto
    also have "\<dots> \<longleftrightarrow> e \<in> set h \<and> (eID e, rowOf e) \<in> set rows"
    proof
      assume "\<exists>ir \<in> set rows. projr (scanEvent ir) = e"
      with row show "e \<in> set h \<and> (eID e, rowOf e) \<in> set rows" by (metis sum.sel(2))
    next
      assume e: "e \<in> set h \<and> (eID e, rowOf e) \<in> set rows"
      then have "valid_event e"
        using represents_parts(1) [OF assms(1)] by (auto simp: wf_history_def)
      with e show "\<exists>ir \<in> set rows. projr (scanEvent ir) = e"
        by (auto simp: scanEvent_rowOf intro!: bexI [of _ "(eID e, rowOf e)"])
    qed
    finally show "e \<in> set ?es \<longleftrightarrow> e \<in> {e \<in> set h. (eID e, rowOf e) \<in> set rows}" by simp
  qed
  ultimately show ?thesis by (rule that)
qed

lemma row_present:
  assumes "represents l h" "e \<in> set h"
  shows "(eID e, rowOf e) \<in> set (rowList l) \<longleftrightarrow> fmlookup (elEvents l) (eID e) \<noteq> None"
proof
  assume "fmlookup (elEvents l) (eID e) \<noteq> None"
  then obtain r where r: "fmlookup (elEvents l) (eID e) = Some r" by auto
  then obtain e' where "e' \<in> set h" "eID e' = eID e" "r = rowOf e'"
    using represents_parts(2) [OF assms(1)] by (auto simp: rowsOk_def)
  then have "r = rowOf e"
    using wf_history_eq [OF represents_parts(1) [OF assms(1)]] assms(2) by blast
  with r show "(eID e, rowOf e) \<in> set (rowList l)" by (simp add: set_rowList)
qed (simp add: set_rowList)

lemma stream_events:
  assumes "represents l h"
  obtains es where "streamRows vv (orderByHLC (filter P (rowList l))) = map Inr es" "distinct es"
    "set es = {e \<in> set h. fmlookup (elEvents l) (eID e) \<noteq> None \<and> P (eID e, rowOf e) \<and>
      \<not> vvContains vv (eID e)}"
proof -
  obtain es where es: "map scanEvent (orderByHLC (filter P (rowList l))) = map Inr es" "distinct es"
    "set es = {e \<in> set h. (eID e, rowOf e) \<in> set (orderByHLC (filter P (rowList l)))}"
    using decode_rows [OF assms, of "orderByHLC (filter P (rowList l))"]
    by (auto simp: distinct_rowList)
  let ?es = "filter (\<lambda>e. \<not> vvContains vv (eID e)) es"
  have "set ?es = {e \<in> set h. fmlookup (elEvents l) (eID e) \<noteq> None \<and> P (eID e, rowOf e) \<and>
      \<not> vvContains vv (eID e)}"
    using es(3) row_present [OF assms] by auto
  with es show ?thesis
    using that [of ?es] streamRows_decoded [OF es(1)] by auto
qed

lemma eventsForSKU_events:
  assumes "represents l h"
  obtains es where "eventsForSKU l k vv = map Inr es" "distinct es"
    "set es = {e \<in> set h. fmlookup (elEvents l) (eID e) \<noteq> None \<and> eSKU e = k \<and> \<not> vvContains vv (eID e)}"
  using stream_events [OF assms, of vv "\<lambda>(_, r). rSku r = k"]
  by (auto simp: eventsForSKU_def rowOf_def)

lemma since_events:
  assumes "represents l h"
  obtains es where "since l vv = map Inr es" "distinct es"
    "set es = {e \<in> set h. fmlookup (elEvents l) (eID e) \<noteq> None \<and> \<not> vvContains vv (eID e)}"
  using stream_events [OF assms, of vv "\<lambda>_. True"] by (auto simp: since_def)

section \<open>Projecting\<close>

text \<open>The state a reader starts from and the events it has not yet folded are the whole item.\<close>

lemma loadState_covered:
  assumes "represents l h"
  obtains vv where "loadState l k = Inr (foldl applyItem newItemState (coveredBy vv k h), vv)"
    "\<And>n. heldPrefix h n (vv_get vv n)"
    "\<And>e. e \<in> set h \<Longrightarrow> eSKU e = k \<Longrightarrow> fmlookup (elEvents l) (eID e) = None \<Longrightarrow> vvContains vv (eID e)"
proof (cases "fmlookup (elSnapshots l) k")
  case None
  have "coveredBy fmempty k h = []"
    using represents_parts(1) [OF assms] valid_event_header
    by (auto simp: coveredBy_def filter_empty_conv vvContains_def wf_history_def)
  moreover have "loadState l k = Inr (newItemState, fmempty)"
    by (simp add: loadState_def loadSnapshot_def None)
  moreover have "heldPrefix h n (vv_get fmempty n)" for n
    by (simp add: heldPrefix_def)
  ultimately show ?thesis
    using that [of fmempty] represents_parts(5) [OF assms] None by (fastforce simp: goneOk_def)
next
  case (Some sc)
  obtain st c where sc: "sc = (st, c)" by (cases sc)
  then obtain vv where vv: "c = marshalVV vv"
    "st = marshalItem (foldl applyItem newItemState (coveredBy vv k h))"
    "\<And>n. heldPrefix h n (vv_get vv n)"
    using snapshotsOkD [OF represents_parts(4) [OF assms]] Some by metis
  have inj: "marshalVV v = marshalVV vv \<Longrightarrow> v = vv" for v
    by (metis jVV_marshalVV option.inject)
  have "vvContains vv (eID e)"
    if "e \<in> set h" "eSKU e = k" "fmlookup (elEvents l) (eID e) = None" for e
    using represents_parts(5) [OF assms] that Some sc vv(1) inj unfolding goneOk_def by fastforce
  moreover have "loadState l k = Inr (foldl applyItem newItemState (coveredBy vv k h), vv)"
    by (simp add: loadState_def loadSnapshot_def Some sc vv json_simps unmarshal_marshal_item)
  ultimately show ?thesis
    using that vv(3) by blast
qed

lemma project_history:
  assumes "represents l h" "inj_on eHLC (set h)"
  shows "project l k = Inr (foldl applyItem newItemState (eventsOf k h))"
proof -
  obtain vv where vv: "loadState l k = Inr (foldl applyItem newItemState (coveredBy vv k h), vv)"
    "\<And>e. e \<in> set h \<Longrightarrow> eSKU e = k \<Longrightarrow> fmlookup (elEvents l) (eID e) = None \<Longrightarrow> vvContains vv (eID e)"
    using loadState_covered [OF assms(1)] by metis
  obtain es where es: "eventsForSKU l k vv = map Inr es" "distinct es"
    "set es = {e \<in> set h. fmlookup (elEvents l) (eID e) \<noteq> None \<and> eSKU e = k \<and> \<not> vvContains vv (eID e)}"
    using eventsForSKU_events [OF assms(1)] .
  have d: "distinct h" by (rule wf_history_distinct [OF represents_parts(1) [OF assms(1)]])
  have "foldl applyItem (foldl applyItem newItemState (coveredBy vv k h)) es =
      foldl applyItem newItemState (eventsOf k h)"
  proof (rule lab_crdt.fold_resume)
    show "inj_on eHLC (set (eventsOf k h))"
      using assms(2) by (rule inj_on_subset) auto
    show "set (eventsOf k h) = set (coveredBy vv k h) \<union> set es"
      using vv(2) by (auto simp: coveredBy_def es(3))
  qed (use d es in \<open>auto simp: coveredBy_def\<close>)
  then show ?thesis
    by (simp add: project_def vv(1) es(1) foldItem_Inr)
qed

end
