(* ===== verification/LabRuns.thy ===== *)
theory LabRuns
  imports LabReplica
begin

text \<open>
  Every operation of the log keeps the tables in agreement with the history they stand for, so
  along any run of appends, local writes, snapshots and compactions, in any order, readers see
  the whole history. This theory has the preservation lemmas, the runs and the properties of the
  log and the projector.
\<close>

section \<open>Appending\<close>

lemma highWater_ge:
  assumes "represents l h" "e \<in> set h"
  shows "uint (idSeq (eID e)) \<le> highWater l (idNode (eID e))"
proof (cases "fmlookup (elEvents l) (eID e) = None")
  case True
  then have "sint (idSeq (eID e)) \<le> watermarkOf l (idNode (eID e))"
    using represents_parts(5) [OF assms(1)] assms(2) by (auto simp: goneOk_def)
  moreover have "fitsInt64 (idSeq (eID e))"
    using represents_parts(1) [OF assms(1)] assms(2) by (simp add: wf_history_def)
  ultimately show ?thesis
    by (simp add: highWater_def fitsInt64_sint)
next
  case False
  let ?n = "idNode (eID e)"
  have "EventID ?n (idSeq (eID e)) = eID e" by simp
  with False have in_seqs: "sint (idSeq (eID e)) \<in> set (seqsOf l ?n)"
    by (auto simp: set_seqsOf)
  then have "seqsOf l ?n \<noteq> []" by auto
  then have "sqlMax (seqsOf l ?n) = Some (Max (set (seqsOf l ?n)))" by (rule sqlMax_Max)
  moreover have "sint (idSeq (eID e)) \<le> Max (set (seqsOf l ?n))"
    using in_seqs by (intro Max_ge) auto
  moreover have "fitsInt64 (idSeq (eID e))"
    using represents_parts(1) [OF assms(1)] assms(2) by (simp add: wf_history_def)
  ultimately show ?thesis
    by (simp add: highWater_def orZero_def fitsInt64_sint)
qed

lemma highWater_nonneg: "represents l h \<Longrightarrow> 0 \<le> highWater l n"
  by (rule watermark_reading [of l h n]) (auto simp: highWater_def le_max_iff_disj)

lemma not_covered_new:
  assumes "heldPrefix h (idNode i) (vv_get vv (idNode i))" "i \<notin> eID ` set h" "idSeq i \<noteq> 0"
  shows "\<not> vvContains vv i"
  using heldPrefix_in [OF assms(1)] assms(2,3) by (auto simp: vvContains_def)

lemma represents_insert_new:
  assumes rep: "represents l h"
    and e: "valid_event e" "fitsInt64 (idSeq (eID e))" "eID e \<notin> eID ` set h"
  shows "represents (insertEvent e l) (h @ [e])"
proof -
  have none: "fmlookup (elEvents l) (eID e) = None"
    using represents_parts(2) [OF rep] e(3)
    unfolding rowsOk_def by (metis imageI not_None_eq)
  let ?l = "l\<lparr>elEvents := fmupd (eID e) (rowOf e) (elEvents l)\<rparr>"
  have l': "insertEvent e l = ?l" by (simp add: insertEvent_def none)
  have w: "watermarkOf ?l = watermarkOf l" by (simp add: watermarkOf_def fun_eq_iff)
  have "wf_history (h @ [e])"
    using represents_parts(1) [OF rep] e by (auto simp: wf_history_def)
  moreover have "rowsOk ?l (h @ [e])"
    using represents_parts(2) [OF rep] by (auto simp: rowsOk_def)
  moreover have "watermarksOk ?l (h @ [e])"
    using represents_parts(3) [OF rep] by (auto simp: watermarksOk_def intro: heldPrefix_append)
  moreover have "snapshotsOk ?l (h @ [e])"
    unfolding snapshotsOk_def
  proof (intro allI impI)
    fix k st c assume "fmlookup (elSnapshots ?l) k = Some (st, c)"
    then have "fmlookup (elSnapshots l) k = Some (st, c)" by simp
    with represents_parts(4) [OF rep] obtain vv where vv: "c = marshalVV vv" "\<forall>n. heldPrefix h n (vv_get vv n)"
      "st = marshalItem (foldl applyItem newItemState (coveredBy vv k h))"
      by (rule snapshotsOkD)
    have "\<not> vvContains vv (eID e)"
      using vv(2) e valid_event_header by (intro not_covered_new [of h]) auto
    then have "coveredBy vv k (h @ [e]) = coveredBy vv k h"
      by (simp add: coveredBy_def)
    with vv show "\<exists>vv. c = marshalVV vv \<and>
        st = marshalItem (foldl applyItem newItemState (coveredBy vv k (h @ [e]))) \<and>
        (\<forall>n. heldPrefix (h @ [e]) n (vv_get vv n))"
      by (intro exI [of _ vv]) (auto intro: heldPrefix_append)
  qed
  moreover have "goneOk ?l (h @ [e])"
    using represents_parts(5) [OF rep] by (auto simp: goneOk_def w)
  ultimately show ?thesis
    unfolding l' by (intro representsI)
qed

text \<open>Delivering an event again changes nothing, even if its row has been compacted away.\<close>

lemma represents_insert_again:
  assumes rep: "represents l h" and e: "e \<in> set h"
  shows "represents (insertEvent e l) h"
proof (cases "fmlookup (elEvents l) (eID e) = None")
  case False
  then show ?thesis using rep by (simp add: insertEvent_def)
next
  case True
  let ?l = "l\<lparr>elEvents := fmupd (eID e) (rowOf e) (elEvents l)\<rparr>"
  have w: "watermarkOf ?l = watermarkOf l" by (simp add: watermarkOf_def fun_eq_iff)
  have "represents ?l h"
    using represents_parts [OF rep] e
    by (intro representsI) (auto simp: rowsOk_def watermarksOk_def snapshotsOk_def goneOk_def w)
  then show ?thesis by (simp add: insertEvent_def True)
qed

lemma appendLocal_result:
  assumes "appendLocal l mint = Inr (e, l')" "\<And>s. eID (mint s) = EventID n s"
  shows "eID e = EventID n (word_of_int (highWater l n + 1))" "highWater l n + 1 \<le> maxInt64"
    "valid_event e" "l' = insertEvent e l" "e = mint (idSeq (eID e))"
  using assms(1) unfolding appendLocal_def Let_def assms(2)
  by (auto simp: assms(2) split: if_splits option.splits)

lemma appendLocal_above:
  assumes "represents l h" "appendLocal l mint = Inr (e, l')" "\<And>s. eID (mint s) = EventID n s"
  shows "fitsInt64 (idSeq (eID e))"
    "\<forall>e' \<in> set h. idNode (eID e') = n \<longrightarrow> idSeq (eID e') < idSeq (eID e)"
    "eID e \<notin> eID ` set h"
proof -
  note r = appendLocal_result [OF assms(2,3)]
  have b: "0 \<le> highWater l n + 1" "highWater l n + 1 \<le> maxInt64"
    using highWater_nonneg [OF assms(1), of n] r(2) by simp_all
  show "fitsInt64 (idSeq (eID e))"
    using fitsInt64_of_int [OF b] by (simp add: r(1))
  have u: "uint (idSeq (eID e)) = highWater l n + 1"
    using b unfolding r(1) event_id.sel by (intro uint64_of_int) simp_all
  show above: "\<forall>e' \<in> set h. idNode (eID e') = n \<longrightarrow> idSeq (eID e') < idSeq (eID e)"
    using highWater_ge [OF assms(1)] u by (fastforce simp: word_less_def)
  show "eID e \<notin> eID ` set h"
  proof
    assume "eID e \<in> eID ` set h"
    then obtain e' where "e' \<in> set h" "eID e' = eID e" by auto
    with above r(1) show False by auto
  qed
qed

lemma represents_appendLocal:
  assumes "represents l h" "appendLocal l mint = Inr (e, l')" "\<And>s. eID (mint s) = EventID n s"
  shows "represents l' (h @ [e])"
  unfolding appendLocal_result(4) [OF assms(2,3)]
  by (rule represents_insert_new [OF assms(1) appendLocal_result(3) [OF assms(2,3)]
      appendLocal_above(1,3) [OF assms]])

section \<open>Snapshots\<close>

lemma represents_saveSnapshot:
  assumes rep: "represents l h"
    and vv: "\<And>n. heldPrefix h n (vv_get vv n)"
    and gone: "\<And>e. e \<in> set h \<Longrightarrow> eSKU e = k \<Longrightarrow> fmlookup (elEvents l) (eID e) = None \<Longrightarrow> vvContains vv (eID e)"
    and st: "st = foldl applyItem newItemState (coveredBy vv k h)"
  shows "represents (saveSnapshot l k (marshalItem st) vv) h" (is "represents ?l h")
proof -
  have w: "watermarkOf ?l = watermarkOf l" by (simp add: saveSnapshot_def watermarkOf_def fun_eq_iff)
  have "rowsOk ?l h" "watermarksOk ?l h" "snapshotsOk ?l h"
    using represents_parts(2,3,4) [OF rep] vv st
    by (auto simp: saveSnapshot_def rowsOk_def watermarksOk_def snapshotsOk_def)
  moreover have "goneOk ?l h"
    using represents_parts(5) [OF rep] gone unfolding goneOk_def w
    by (fastforce simp: saveSnapshot_def)
  ultimately show ?thesis
    using represents_parts(1) [OF rep] by (intro representsI)
qed

lemma maybeSnapshot_represents:
  assumes rep: "represents l h" and inj: "inj_on eHLC (set h)"
  shows "\<exists>l'. maybeSnapshot every l k = Inr l' \<and> represents l' h"
proof -
  let ?tf = "versionVector l"
  have d: "distinct h" by (rule wf_history_distinct [OF represents_parts(1) [OF rep]])
  obtain vv where vv: "loadState l k = Inr (foldl applyItem newItemState (coveredBy vv k h), vv)"
    "\<And>n. heldPrefix h n (vv_get vv n)"
    "\<And>e. e \<in> set h \<Longrightarrow> eSKU e = k \<Longrightarrow> fmlookup (elEvents l) (eID e) = None \<Longrightarrow> vvContains vv (eID e)"
    using loadState_covered [OF rep] by metis
  obtain es where es: "eventsForSKU l k vv = map Inr es" "distinct es"
    "set es = {e \<in> set h. fmlookup (elEvents l) (eID e) \<noteq> None \<and> eSKU e = k \<and> \<not> vvContains vv (eID e)}"
    using eventsForSKU_events [OF rep] .
  let ?es = "filter (\<lambda>e. vvContains ?tf (eID e)) es"
  let ?vv = "foldl vvObserve vv (map eID ?es)"
  have cov: "vvContains ?vv i \<longleftrightarrow> vvContains vv i \<or>
      (\<exists>e \<in> set ?es. idNode (eID e) = idNode i \<and> idSeq i \<le> idSeq (eID e))" for i
    unfolding vvContains_foldl_observe by auto
  have held: "heldPrefix h n (vv_get ?vv n)" for n
  proof -
    have "vvContains ?vv (EventID n (vv_get ?vv n))" by (simp add: vvContains_def)
    then consider "vvContains vv (EventID n (vv_get ?vv n))"
      | "vvContains ?tf (EventID n (vv_get ?vv n))"
      unfolding cov by (auto simp: vvContains_def)
    then show ?thesis
    proof cases
      case 1
      then show ?thesis
        using vv(2) [of n] by (auto simp: vvContains_def intro: heldPrefix_mono)
    qed (simp add: versionVector_prefix [OF rep])
  qed
  have "foldl applyItem (foldl applyItem newItemState (coveredBy vv k h)) ?es =
      foldl applyItem newItemState (coveredBy ?vv k h)"
  proof (rule lab_crdt.fold_resume)
    show "inj_on eHLC (set (coveredBy ?vv k h))"
      using inj by (rule inj_on_subset) (auto simp: coveredBy_def)
    have "e \<in> set ?es"
      if "e \<in> set h" "eSKU e = k" "vvContains ?vv (eID e)" "\<not> vvContains vv (eID e)" for e
      using that vv(3) [of e] es(3) unfolding cov by (auto simp: vvContains_def)
    then show "set (coveredBy ?vv k h) = set (coveredBy vv k h) \<union> set ?es"
      using es(3) by (auto simp: coveredBy_def cov)
  qed (use d es in \<open>auto simp: coveredBy_def\<close>)
  then have "represents (saveSnapshot l k
      (marshalItem (foldl applyItem (foldl applyItem newItemState (coveredBy vv k h)) ?es)) ?vv) h"
    using held vv(3) by (intro represents_saveSnapshot [OF rep]) (auto simp: cov)
  then show ?thesis
    using rep by (simp add: maybeSnapshot_def Let_def vv(1) es(1) snapFold_Inr)
qed

section \<open>Compaction\<close>

lemma lookup_safeVector:
  "fmlookup (safeVector snapVV upTo) n = (case fmlookup snapVV n of None \<Rightarrow> None
     | Some s \<Rightarrow> map_option (min s) (fmlookup upTo n))"
proof -
  have "fmlookup (safeVector snapVV upTo) n = (case map_of (sorted_list_of_fmap snapVV) n of
      None \<Rightarrow> fmlookup fmempty n
    | Some s \<Rightarrow> (\<lambda>o' k v. case fmlookup upTo k of None \<Rightarrow> o' | Some p \<Rightarrow> Some (min v p)) (fmlookup fmempty n) n s)"
    unfolding safeVector_def
    by (rule foldl_fm_lookup) (auto simp: distinct_sorted_list_of_fmap split: option.splits)
  then show ?thesis
    by (auto split: option.splits)
qed

lemma snapshotCoverage_ok:
  assumes "snapshotsOk l h"
  obtains covered where "snapshotCoverage l = Inr covered"
    "\<And>k vv. fmlookup covered k = Some vv \<Longrightarrow> \<exists>st. fmlookup (elSnapshots l) k = Some (st, marshalVV vv)"
proof -
  let ?step = "\<lambda>r (k, (_ :: json, covers)). case r of Inl e \<Rightarrow> Inl e
     | Inr out \<Rightarrow> (case jVV covers of None \<Rightarrow> Inl (ErrDecodeCovers k) | Some vv \<Rightarrow> Inr (fmupd k vv out))"
  let ?P = "\<lambda>r :: log_error + _. \<exists>covered. r = Inr covered \<and>
    (\<forall>k vv. fmlookup covered k = Some vv \<longrightarrow> (\<exists>st. fmlookup (elSnapshots l) k = Some (st, marshalVV vv)))"
  have "?P (foldl ?step (Inr fmempty) (sorted_list_of_fmap (elSnapshots l)))"
  proof (rule foldl_inv)
    fix r kc assume kc: "kc \<in> set (sorted_list_of_fmap (elSnapshots l))" and r: "?P r"
    obtain k st c where k: "kc = (k, st, c)" by (cases kc)
    then have look: "fmlookup (elSnapshots l) k = Some (st, c)"
      using kc by (simp add: set_sorted_list_of_fmap)
    obtain vv where "c = marshalVV vv"
      using snapshotsOkD [OF assms look] .
    with r k look show "?P (?step r kc)"
      by (auto simp: json_simps)
  qed simp
  with that show ?thesis by (auto simp: snapshotCoverage_def)
qed

lemma compactNode_simps:
  "elSnapshots (compactNode k l ns) = elSnapshots l"
  "elCursors (compactNode k l ns) = elCursors l"
  by (simp_all add: compactNode_def raiseWatermark_def deleteCovered_def split: prod.split)

lemma lookup_compactNode:
  "fmlookup (elEvents (compactNode k l (n, s))) i =
    (if \<not> stranded l n s \<and> idNode i = n \<and> sint (idSeq i) \<le> sint s \<and>
        map_option rSku (fmlookup (elEvents l) i) = Some k
     then None else fmlookup (elEvents l) i)"
  by (auto simp: compactNode_def raiseWatermark_def deleteCovered_def)

lemma lookup_watermark_compactNode:
  "fmlookup (elWatermark (compactNode k l (n, s))) n' =
    (if \<not> stranded l n s \<and> n' = n
     then Some (case fmlookup (elWatermark l) n of None \<Rightarrow> s
       | Some old \<Rightarrow> if sint old < sint s then s else old)
     else fmlookup (elWatermark l) n')"
  by (simp add: compactNode_def raiseWatermark_def deleteCovered_def)

lemma represents_compactNode:
  assumes rep: "represents l h"
    and snap: "fmlookup (elSnapshots l) k = Some (st, marshalVV vv)" and s: "s \<le> vv_get vv n"
  shows "represents (compactNode k l (n, s)) h" (is "represents ?l h")
proof -
  obtain vv' where "marshalVV vv = marshalVV vv'" "\<forall>n. heldPrefix h n (vv_get vv' n)"
    using snapshotsOkD [OF represents_parts(4) [OF rep] snap] by metis
  then have "heldPrefix h n (vv_get vv n)"
    by (metis jVV_marshalVV option.inject)
  then have held: "heldPrefix h n s"
    using s by (rule heldPrefix_mono)
  then have sfit: "fitsInt64 s"
    by (rule heldPrefix_fits [OF represents_parts(1) [OF rep]])
  have wm: "watermarkOf l n' \<le> watermarkOf ?l n'" for n'
    by (auto simp: lookup_watermark_compactNode watermarkOf_def orZero_def fitsInt64_sint [OF sfit]
        split: option.splits)
  have "rowsOk ?l h"
    using represents_parts(2) [OF rep] by (auto simp: rowsOk_def lookup_compactNode split: if_splits)
  moreover have "watermarksOk ?l h"
    using represents_parts(3) [OF rep] held
    by (auto simp: watermarksOk_def lookup_watermark_compactNode split: if_splits option.splits)
  moreover have "snapshotsOk ?l h"
    using represents_parts(4) [OF rep] by (simp add: snapshotsOk_def compactNode_simps)
  moreover have "goneOk ?l h"
    unfolding goneOk_def
  proof (intro ballI impI)
    fix e assume e: "e \<in> set h" "fmlookup (elEvents ?l) (eID e) = None"
    show "sint (idSeq (eID e)) \<le> watermarkOf ?l (idNode (eID e)) \<and>
      (\<exists>st vv. fmlookup (elSnapshots ?l) (eSKU e) = Some (st, marshalVV vv) \<and> vvContains vv (eID e))"
    proof (cases "fmlookup (elEvents l) (eID e) = None")
      case True
      then show ?thesis
        using represents_parts(5) [OF rep] e wm [of "idNode (eID e)"]
        unfolding goneOk_def compactNode_simps by (meson order_trans)
    next
      case False
      then have del: "\<not> stranded l n s" "idNode (eID e) = n" "sint (idSeq (eID e)) \<le> sint s"
        "map_option rSku (fmlookup (elEvents l) (eID e)) = Some k"
        using e(2) by (auto simp: lookup_compactNode split: if_splits)
      have "fmlookup (elEvents l) (eID e) = Some (rowOf e)"
        using row_present [OF rep e(1)] False by (simp add: set_rowList)
      then have "eSKU e = k"
        using del(4) by (simp add: rowOf_def)
      moreover have "fitsInt64 (idSeq (eID e))"
        using represents_parts(1) [OF rep] e(1) by (simp add: wf_history_def)
      then have "idSeq (eID e) \<le> s"
        using del(3) sfit by (simp add: fitsInt64_sint_le)
      moreover have "sint s \<le> watermarkOf ?l n"
        using del(1) by (auto simp: lookup_watermark_compactNode watermarkOf_def orZero_def split: option.splits)
      ultimately show ?thesis
        using snap s del(2,3) by (auto simp: compactNode_simps vvContains_def)
    qed
  qed
  ultimately show ?thesis
    using represents_parts(1) [OF rep] by (intro representsI)
qed

text \<open>What compaction leaves: the history unchanged, and every dropped row acknowledged.\<close>

definition compactedFrom :: "version_vector \<Rightarrow> event_log \<Rightarrow> event list \<Rightarrow> event_log \<Rightarrow> bool" where
  "compactedFrom upTo l h l' \<longleftrightarrow> represents l' h \<and> elSnapshots l' = elSnapshots l \<and>
    (\<forall>i. fmlookup (elEvents l') i = fmlookup (elEvents l) i \<or>
       fmlookup (elEvents l') i = None \<and> vvContains upTo i)"

lemma compactNode_compactedFrom:
  assumes c: "compactedFrom upTo l h l'"
    and snap: "fmlookup (elSnapshots l) k = Some (st, marshalVV vv)"
    and s: "fmlookup (safeVector vv upTo) n = Some s"
  shows "compactedFrom upTo l h (compactNode k l' (n, s))"
proof -
  from s obtain p where p: "fmlookup upTo n = Some p" "s \<le> p" "s \<le> vv_get vv n"
    by (auto simp: lookup_safeVector fm_get_lookup split: option.splits)
  have rep: "represents l' h" and snap': "fmlookup (elSnapshots l') k = Some (st, marshalVV vv)"
    using c snap by (simp_all add: compactedFrom_def)
  have rep': "represents (compactNode k l' (n, s)) h"
    using rep snap' p(3) by (rule represents_compactNode)
  obtain vv' where "marshalVV vv = marshalVV vv'" "\<forall>n. heldPrefix h n (vv_get vv' n)"
    using snapshotsOkD [OF represents_parts(4) [OF rep] snap'] by metis
  then have "heldPrefix h n (vv_get vv n)"
    by (metis jVV_marshalVV option.inject)
  then have "heldPrefix h n s"
    using p(3) by (rule heldPrefix_mono)
  then have sfit: "fitsInt64 s"
    by (rule heldPrefix_fits [OF represents_parts(1) [OF rep]])
  have "vvContains upTo i"
    if i: "fmlookup (elEvents l') i \<noteq> None" "fmlookup (elEvents (compactNode k l' (n, s))) i = None" for i
  proof -
    from i have "idNode i = n" "sint (idSeq i) \<le> sint s"
      by (auto simp: lookup_compactNode split: if_splits)
    moreover obtain e where "e \<in> set h" "eID e = i"
      using i(1) represents_parts(2) [OF rep] by (auto simp: rowsOk_def)
    then have "fitsInt64 (idSeq i)"
      using represents_parts(1) [OF rep] by (auto simp: wf_history_def)
    ultimately show ?thesis
      using p sfit by (simp add: vvContains_def fm_get_lookup fitsInt64_sint_le)
  qed
  moreover have "fmlookup (elEvents (compactNode k l' (n, s))) i = fmlookup (elEvents l') i \<or>
      fmlookup (elEvents (compactNode k l' (n, s))) i = None" for i
    by (simp add: lookup_compactNode)
  ultimately show ?thesis
    using c rep' unfolding compactedFrom_def compactNode_simps by metis
qed

lemma compact_compactedFrom:
  assumes "represents l h"
  shows "\<exists>l'. compact l upTo = Inr l' \<and> compactedFrom upTo l h l'"
proof -
  obtain covered where cov: "snapshotCoverage l = Inr covered"
    "\<And>k vv. fmlookup covered k = Some vv \<Longrightarrow> \<exists>st. fmlookup (elSnapshots l) k = Some (st, marshalVV vv)"
    using snapshotCoverage_ok [OF represents_parts(4) [OF assms]] by metis
  have "compactedFrom upTo l h (foldl (\<lambda>l (k, snapVV).
      foldl (compactNode k) l (sorted_list_of_fmap (safeVector snapVV upTo))) l (sorted_list_of_fmap covered))"
  proof (rule foldl_inv)
    show "compactedFrom upTo l h l" using assms by (simp add: compactedFrom_def)
    fix l1 kv assume kv: "kv \<in> set (sorted_list_of_fmap covered)" and l1: "compactedFrom upTo l h l1"
    obtain k vv where k: "kv = (k, vv)" by (cases kv)
    then obtain st where st: "fmlookup (elSnapshots l) k = Some (st, marshalVV vv)"
      using kv cov(2) by (auto simp: set_sorted_list_of_fmap)
    have "compactedFrom upTo l h (foldl (compactNode k) l1 (sorted_list_of_fmap (safeVector vv upTo)))"
      using l1 by (rule foldl_inv) (auto simp: set_sorted_list_of_fmap intro: compactNode_compactedFrom [OF _ st])
    with k show "compactedFrom upTo l h (case kv of (k, snapVV) \<Rightarrow>
        foldl (compactNode k) l1 (sorted_list_of_fmap (safeVector snapVV upTo)))" by simp
  qed
  then show ?thesis by (simp add: compact_def cov(1))
qed

section \<open>Runs of a log\<close>

text \<open>
  A log in use, with the history it has taken in. The premises of a delivery are what the system
  guarantees of an event: its identity names one event only, and its sequence number was
  allocated by \<open>appendLocal\<close> somewhere, so it fits the column. A minting function stamps the
  sequence number it is given.
\<close>

inductive log_run :: "int \<Rightarrow> event_log \<Rightarrow> event list \<Rightarrow> bool" for every where
  run_open: "log_run every openSQLite []"
| run_open_central: "log_run every openPostgres []"
| run_append: "log_run every l h \<Longrightarrow> logAppend l e = Inr l' \<Longrightarrow> fitsInt64 (idSeq (eID e)) \<Longrightarrow>
    (\<forall>e' \<in> set h. eID e' = eID e \<longrightarrow> e' = e) \<Longrightarrow>
    log_run every l' (if e \<in> set h then h else h @ [e])"
| run_local: "log_run every l h \<Longrightarrow> (\<forall>s. eID (mint s) = EventID n s) \<Longrightarrow>
    appendLocal l mint = Inr (e, l') \<Longrightarrow> log_run every l' (h @ [e])"
| run_snapshot: "log_run every l h \<Longrightarrow> maybeSnapshot every l k = Inr l' \<Longrightarrow> log_run every l' h"
| run_compact: "log_run every l h \<Longrightarrow> compact l upTo = Inr l' \<Longrightarrow> log_run every l' h"
| run_cursor: "log_run every l h \<Longrightarrow> log_run every (setCursor l n s) h"
| run_report: "log_run every l h \<Longrightarrow> log_run every (upsertProjection l k p) h"

lemma represents_openSQLite: "represents openSQLite []"
  by (simp add: represents_def wf_history_def rowsOk_def watermarksOk_def snapshotsOk_def goneOk_def
      openSQLite_def)

lemma represents_openPostgres: "represents openPostgres []"
  by (simp add: represents_def wf_history_def rowsOk_def watermarksOk_def snapshotsOk_def goneOk_def
      openSQLite_def openPostgres_def)

lemma represents_upsertProjection: "represents (upsertProjection l k p) h = represents l h"
  by (simp add: represents_def rowsOk_def watermarksOk_def snapshotsOk_def goneOk_def
      watermarkOf_def upsertProjection_def)

lemma represents_setCursor: "represents (setCursor l n s) h = represents l h"
  by (simp add: represents_def rowsOk_def watermarksOk_def snapshotsOk_def goneOk_def
      watermarkOf_def setCursor_def)

lemma log_run_represents: "log_run every l h \<Longrightarrow> inj_on eHLC (set h) \<Longrightarrow> represents l h"
proof (induction rule: log_run.induct)
  case run_open
  show ?case by (rule represents_openSQLite)
next
  case run_open_central
  show ?case by (rule represents_openPostgres)
next
  case (run_append l h e l')
  then have rep: "represents l h"
    by (auto split: if_splits)
  have l': "valid_event e" "l' = insertEvent e l"
    using run_append.hyps(2) by (auto simp: logAppend_def split: option.splits)
  show ?case
  proof (cases "e \<in> set h")
    case True
    with rep l' show ?thesis by (simp add: represents_insert_again)
  next
    case False
    then have "eID e \<notin> eID ` set h" using run_append.hyps(4) by auto
    with False rep l' run_append.hyps(3) show ?thesis by (simp add: represents_insert_new)
  qed
next
  case (run_local l h mint n e l')
  then show ?case by (auto intro: represents_appendLocal)
next
  case (run_snapshot l h k l')
  then show ?case by (metis maybeSnapshot_represents sum.inject(2))
next
  case (run_compact l h upTo l')
  then show ?case by (metis compact_compactedFrom compactedFrom_def sum.inject(2))
next
  case (run_cursor l h n s)
  then show ?case by (simp add: represents_setCursor)
next
  case (run_report l h k p)
  then show ?case by (simp add: represents_upsertProjection)
qed

section \<open>Histories determine what readers see\<close>

lemma same_history_same_reading:
  assumes "represents l h" "represents l' h'" "set h = set h'" "inj_on eHLC (set h)"
  shows "project l k = project l' k \<and>
    (vvContains (versionVector l) i \<longleftrightarrow> vvContains (versionVector l') i)"
proof
  have "foldl applyItem newItemState (eventsOf k h) = foldl applyItem newItemState (eventsOf k h')"
  proof (rule lab_crdt.fold_same_set)
    show "distinct (eventsOf k h)" "distinct (eventsOf k h')"
      using wf_history_distinct represents_parts(1) [OF assms(1)] represents_parts(1) [OF assms(2)] by auto
    show "inj_on eHLC (set (eventsOf k h))"
      using assms(4) by (rule inj_on_subset) auto
  qed (simp add: assms(3))
  then show "project l k = project l' k"
    using project_history [OF assms(1)] project_history [OF assms(2)] assms(3,4) by simp
  show "vvContains (versionVector l) i \<longleftrightarrow> vvContains (versionVector l') i"
    using assms(3)
    by (cases i) (simp add: versionVector_prefix [OF assms(1)] versionVector_prefix [OF assms(2)] heldPrefix_def)
qed

section \<open>A concrete run\<close>

text \<open>One event arrives, is folded into a snapshot and compacted away; then another arrives.\<close>

definition demoAppended :: event_log where
  "demoAppended = projr (logAppend openSQLite demoA)"

definition demoSnapshot :: event_log where
  "demoSnapshot = projr (maybeSnapshot 1 demoAppended ''S'')"

definition demoCompacted :: event_log where
  "demoCompacted = projr (compact demoSnapshot (fmupd ''A'' 1 fmempty))"

definition demoLog :: event_log where
  "demoLog = projr (logAppend demoCompacted demoB)"

text \<open>The other replica receives the two events in the opposite order.\<close>

definition demoLog2 :: event_log where
  "demoLog2 = projr (logAppend (projr (logAppend openSQLite demoB)) demoA)"

lemma projr_step: "is_Inr r \<Longrightarrow> r = Inr (projr r)"
  by (cases r) simp_all

lemma run_append_new:
  assumes "log_run every l h" "is_Inr (logAppend l e)" "fitsInt64 (idSeq (eID e))"
    "eID e \<notin> eID ` set h"
  shows "log_run every (projr (logAppend l e)) (h @ [e])"
proof -
  have "\<forall>e' \<in> set h. eID e' = eID e \<longrightarrow> e' = e" "e \<notin> set h"
    using assms(4) by (metis imageI)+
  then show ?thesis
    using run_append [OF assms(1) projr_step [OF assms(2)] assms(3)] by simp
qed

lemma demo_run: "log_run 1 demoLog [demoA, demoB]"
proof -
  have "is_Inr (logAppend openSQLite demoA)" by code_simp
  then have "log_run 1 demoAppended [demoA]"
    using run_append_new [OF run_open] by (fastforce simp: demoAppended_def demoA_def fitsInt64_def)
  moreover have "is_Inr (maybeSnapshot 1 demoAppended ''S'')" by code_simp
  ultimately have "log_run 1 demoSnapshot [demoA]"
    using projr_step run_snapshot unfolding demoSnapshot_def by blast
  moreover have "is_Inr (compact demoSnapshot (fmupd ''A'' 1 fmempty))" by code_simp
  ultimately have "log_run 1 demoCompacted [demoA]"
    using projr_step run_compact unfolding demoCompacted_def by blast
  moreover have "is_Inr (logAppend demoCompacted demoB)" by code_simp
  moreover have "eID demoB \<notin> eID ` set [demoA]" "fitsInt64 (idSeq (eID demoB))"
    by (simp_all add: demoA_def demoB_def fitsInt64_def)
  ultimately show ?thesis
    using run_append_new [of 1 demoCompacted "[demoA]" demoB] by (simp add: demoLog_def)
qed

lemma demo_run2: "log_run 0 demoLog2 [demoB, demoA]"
proof -
  have "is_Inr (logAppend openSQLite demoB)" by code_simp
  then have "log_run 0 (projr (logAppend openSQLite demoB)) [demoB]"
    using run_append_new [OF run_open] by (fastforce simp: demoB_def fitsInt64_def)
  moreover have "is_Inr (logAppend (projr (logAppend openSQLite demoB)) demoA)" by code_simp
  moreover have "eID demoA \<notin> eID ` set [demoB]" "fitsInt64 (idSeq (eID demoA))"
    by (simp_all add: demoA_def demoB_def fitsInt64_def)
  ultimately show ?thesis
    using run_append_new [of 0 "projr (logAppend openSQLite demoB)" "[demoB]" demoA]
    by (simp add: demoLog2_def)
qed

lemma demo_stamps: "inj_on eHLC (set [demoA, demoB])"
  by (simp add: demoA_def demoB_def)

section \<open>Properties of the log and the projector\<close>



text \<open>
  C19. The reported version vector is the gap-free prefix: it covers sequence number \<open>s\<close> of a node
  exactly when every event of that node up to \<open>s\<close> has been taken in, in whatever order the
  events arrived and whichever rows compaction has deleted since.
\<close>

theorem version_vector_is_gap_free_prefix:
  assumes "log_run every l h" "inj_on eHLC (set h)"
  shows "vvContains (versionVector l) (EventID n s) \<longleftrightarrow>
    (\<forall>j. 0 < j \<longrightarrow> j \<le> s \<longrightarrow> EventID n j \<in> eID ` set h)"
  using versionVector_prefix [OF log_run_represents [OF assms]] by (simp add: heldPrefix_def)

theorem version_vector_is_gap_free_prefix_demo:
  "\<not> vvContains (versionVector demoLog) (EventID ''A'' 2)"
proof -
  have "EventID ''A'' 2 \<notin> eID ` set [demoA, demoB]" by (simp add: demoA_def demoB_def)
  moreover have "(0 :: seq) < 2" by simp
  ultimately show ?thesis
    using version_vector_is_gap_free_prefix [OF demo_run demo_stamps, of "''A''" 2] by blast
qed

text \<open>
  C20. A sequence number is never issued twice: a local append gives its event a number above
  every number of the node in the replica's history, compacted events included.
\<close>

theorem append_local_never_reuses_seq:
  assumes "log_run every l h" "inj_on eHLC (set h)" "\<forall>s. eID (mint s) = EventID n s"
    and "appendLocal l mint = Inr (e, l')"
  shows "idNode (eID e) = n \<and>
    (\<forall>e' \<in> set h. idNode (eID e') = n \<longrightarrow> idSeq (eID e') < idSeq (eID e))"
  using appendLocal_above(2) [OF log_run_represents [OF assms(1,2)] assms(4)]
    appendLocal_result(1) [OF assms(4)] assms(3) by simp

theorem append_local_never_reuses_seq_demo:
  "\<exists>e l'. appendLocal demoLog (\<lambda>s. demoA\<lparr>eID := EventID ''A'' s\<rparr>) = Inr (e, l') \<and>
    idSeq (eID demoA) < idSeq (eID e)"
proof -
  let ?mint = "\<lambda>s. demoA\<lparr>eID := EventID ''A'' s\<rparr>"
  have "is_Inr (appendLocal demoLog ?mint)" by code_simp
  then obtain e l' where a: "appendLocal demoLog ?mint = Inr (e, l')"
    by (auto simp: is_Inr_iff)
  have "\<forall>s. eID (?mint s) = EventID ''A'' s" by simp
  from append_local_never_reuses_seq [OF demo_run demo_stamps this a]
  have "idSeq (eID demoA) < idSeq (eID e)" by (simp add: demoA_def)
  with a show ?thesis by blast
qed

text \<open>
  C22. Compaction succeeds on every run, deletes only rows of events the given vector covers,
  and neither changes what a reader sees nor what the replica reports to hold.
\<close>

theorem compact_is_safe:
  assumes "log_run every l h" "inj_on eHLC (set h)"
  shows "\<exists>l'. compact l upTo = Inr l' \<and>
    (\<forall>i. fmlookup (elEvents l') i = fmlookup (elEvents l) i \<or>
      fmlookup (elEvents l') i = None \<and> vvContains upTo i) \<and>
    (\<forall>k. project l' k = project l k) \<and>
    (\<forall>i. vvContains (versionVector l') i = vvContains (versionVector l) i)"
proof -
  have rep: "represents l h" by (rule log_run_represents [OF assms])
  obtain l' where l': "compact l upTo = Inr l'" "compactedFrom upTo l h l'"
    using compact_compactedFrom [OF rep] by metis
  then have rep': "represents l' h" by (simp add: compactedFrom_def)
  have "project l' k = project l k \<and> vvContains (versionVector l') i = vvContains (versionVector l) i" for k i
    by (rule same_history_same_reading [OF rep' rep refl assms(2)])
  then show ?thesis
    using l' by (auto simp: compactedFrom_def)
qed

theorem compact_is_safe_demo:
  "\<exists>l'. compact demoLog (fmupd ''B'' 1 fmempty) = Inr l' \<and> project l' ''S'' = project demoLog ''S''"
  using compact_is_safe [OF demo_run demo_stamps, of "fmupd ''B'' 1 fmempty"] by blast

text \<open>
  Convergence: two replicas that have taken in the same events, in any order, with any
  duplicates, snapshots and compactions in between, read every item in the same state and
  report the same vector.
\<close>

lemma replicas_converge:
  assumes "log_run every l h" "log_run every' l' h'" "set h = set h'" "inj_on eHLC (set h)"
  shows "project l k = project l' k \<and>
    (vvContains (versionVector l) i \<longleftrightarrow> vvContains (versionVector l') i)"
proof -
  have "represents l h" using assms(1,4) by (rule log_run_represents)
  moreover have "represents l' h'" using assms(2,3,4) by (simp add: log_run_represents)
  ultimately show ?thesis using assms(3,4) by (rule same_history_same_reading)
qed

text \<open>
  Duplicate delivery is harmless: appending an event of the history again succeeds and
  changes neither any item's state nor the reported vector, even when the event's row had been
  compacted away and is stored anew.
\<close>

lemma redelivery_is_harmless:
  assumes "log_run every l h" "inj_on eHLC (set h)" "e \<in> set h"
  shows "\<exists>l'. logAppend l e = Inr l' \<and> project l' k = project l k \<and>
    (vvContains (versionVector l') i \<longleftrightarrow> vvContains (versionVector l) i)"
proof -
  have rep: "represents l h" by (rule log_run_represents [OF assms(1,2)])
  have rep': "represents (insertEvent e l) h"
    using rep assms(3) by (rule represents_insert_again)
  have "valid_event e"
    using represents_parts(1) [OF rep] assms(3) by (simp add: wf_history_def)
  then have "logAppend l e = Inr (insertEvent e l)" by (simp add: logAppend_def)
  then show ?thesis
    using same_history_same_reading [OF rep' rep refl assms(2)] by simp
qed

end
