(* ===== verification/LabNode.thy ===== *)
theory LabNode
  imports LabPostgres
begin

text \<open>
  One replica (\<open>eventlog-lab/node/node.go\<close>): its log, its clock and its projector, the local
  operations, and the merge of remote events. An operation returns its result together with the
  node it leaves behind, since a failed operation may already have moved the clock. The reporting
  table is kept current when the log has one.
\<close>

section \<open>State and construction\<close>

record node =
  nId :: node_id
  nLog :: event_log
  nClk :: clock
  nSnapshotEvery :: int

record config =
  cfgID :: node_id
  cfgLog :: "event_log option"
  cfgWall :: "nat \<Rightarrow> int64"
  cfgSnapshotEvery :: int

datatype node_error =
    EmptyNode | NilLog | EmptySku | NonPositiveQuantity int64 | MetaWritesNothingErr
  | NodeLogError node_id log_error

text \<open>The greatest stamp of a stream that may end in an error.\<close>

fun maxStamp :: "hlc \<Rightarrow> ('e + event) list \<Rightarrow> 'e + hlc" where
  "maxStamp m [] = Inr m"
| "maxStamp m (Inl err # _) = Inl err"
| "maxStamp m (Inr e # es) = maxStamp (if Before m (eHLC e) then eHLC e else m) es"

definition recoverClock :: "node \<Rightarrow> node_error + node" where
  "recoverClock n = (case maxStamp zeroHLC (since (nLog n) fmempty) of
      Inl err \<Rightarrow> Inl (NodeLogError (nId n) err)
    | Inr m \<Rightarrow> Inr (if m \<noteq> zeroHLC then n\<lparr>nClk := snd (Observe (nClk n) m)\<rparr> else n))"

definition newNode :: "config \<Rightarrow> node_error + node" where
  "newNode cfg =
    (if cfgID cfg = [] then Inl EmptyNode
     else case cfgLog cfg of None \<Rightarrow> Inl NilLog
     | Some l \<Rightarrow> recoverClock \<lparr>nId = cfgID cfg, nLog = l,
         nClk = newClock (cfgID cfg) (cfgWall cfg), nSnapshotEvery = cfgSnapshotEvery cfg\<rparr>)"

section \<open>Local operations\<close>

text \<open>The event \<open>emit\<close> mints before \<open>fill\<close> sets its kind and payload.\<close>

definition blankEvent :: "node_id \<Rightarrow> hlc \<Rightarrow> sku \<Rightarrow> seq \<Rightarrow> event" where
  "blankEvent i stamp k s = \<lparr>eID = EventID i s, eHLC = stamp, eSKU = k, eKind = 0, eDelta = 0,
     eMeta = None, eDeletedTo = None\<rparr>"

definition emit :: "node \<Rightarrow> sku \<Rightarrow> (event \<Rightarrow> event) \<Rightarrow> (node_error + event_id) \<times> node" where
  "emit n k fill =
    (if k = [] then (Inl EmptySku, n)
     else (let (stamp, clk) = Now (nClk n); n = n\<lparr>nClk := clk\<rparr> in
       case appendLocal (nLog n) (\<lambda>s. fill (blankEvent (nId n) stamp k s)) of
         Inl err \<Rightarrow> (Inl (NodeLogError (nId n) err), n)
       | Inr (e, l) \<Rightarrow> (case maybeSnapshot (nSnapshotEvery n) l k of
           Inl err \<Rightarrow> (Inl (NodeLogError (nId n) err), n\<lparr>nLog := l\<rparr>)
         | Inr l \<Rightarrow> (Inr (eID e), n\<lparr>nLog := l\<rparr>))))"

definition fillDelta :: "int64 \<Rightarrow> event \<Rightarrow> event" where
  "fillDelta d e = e\<lparr>eKind := KindQuantityDelta, eDelta := d\<rparr>"

definition receive :: "node \<Rightarrow> sku \<Rightarrow> int64 \<Rightarrow> (node_error + event_id) \<times> node" where
  "receive n k qty = (if sint qty \<le> 0 then (Inl (NonPositiveQuantity qty), n)
     else emit n k (fillDelta qty))"

definition pick :: "node \<Rightarrow> sku \<Rightarrow> int64 \<Rightarrow> (node_error + event_id) \<times> node" where
  "pick n k qty = (if sint qty \<le> 0 then (Inl (NonPositiveQuantity qty), n)
     else emit n k (fillDelta (- qty)))"

definition setMeta :: "node \<Rightarrow> sku \<Rightarrow> string option \<Rightarrow> int64 option \<Rightarrow> (node_error + event_id) \<times> node" where
  "setMeta n k name rp =
    (let m = \<lparr>msName = name, msReorderPoint = rp\<rparr> in
     if metaEmpty (Some m) then (Inl MetaWritesNothingErr, n)
     else emit n k (\<lambda>e. e\<lparr>eKind := KindMetaSet, eMeta := Some m\<rparr>))"

definition deleteItem :: "node \<Rightarrow> sku \<Rightarrow> bool \<Rightarrow> (node_error + event_id) \<times> node" where
  "deleteItem n k deleted = emit n k (\<lambda>e. e\<lparr>eKind := KindDeleteSet, eDeletedTo := Some deleted\<rparr>)"

section \<open>Merging\<close>

text \<open>The loop over the batch: a malformed event is skipped, every accepted one is observed.\<close>

fun mergeEvents :: "node \<Rightarrow> event list \<Rightarrow> int \<Rightarrow> sku fset \<Rightarrow>
    (node_error option \<times> int \<times> sku fset) \<times> node" where
  "mergeEvents n [] accepted touched = ((None, accepted, touched), n)"
| "mergeEvents n (e # es) accepted touched =
    (case logAppend (nLog n) e of
       Inl (ErrMalformedEvent _) \<Rightarrow> mergeEvents n es accepted touched
     | Inl err \<Rightarrow> ((Some (NodeLogError (nId n) err), accepted, touched), n)
     | Inr l \<Rightarrow> mergeEvents (n\<lparr>nLog := l, nClk := snd (Observe (nClk n) (eHLC e))\<rparr>) es
         (accepted + 1) (finsert (eSKU e) touched))"

definition isSink :: "event_log \<Rightarrow> bool" where
  "isSink l \<longleftrightarrow> elProjections l \<noteq> None"

definition reportRow :: "item_state \<Rightarrow> projection_row" where
  "reportRow s = \<lparr>prQuantity = quantity s, prName = lwwValue (isName s),
     prReorderPoint = lwwValue (isReorderPoint s), prDeleted = lwwValue (isDeleted s)\<rparr>"

fun reconcile :: "node \<Rightarrow> sku list \<Rightarrow> node_error option \<times> node" where
  "reconcile n [] = (None, n)"
| "reconcile n (k # ks) =
    (case maybeSnapshot (nSnapshotEvery n) (nLog n) k of
       Inl err \<Rightarrow> (Some (NodeLogError (nId n) err), n)
     | Inr l \<Rightarrow>
       (let n = n\<lparr>nLog := l\<rparr> in
        if \<not> isSink l then reconcile n ks
        else (case project l k of
            Inl err \<Rightarrow> (Some (NodeLogError (nId n) err), n)
          | Inr st \<Rightarrow> reconcile (n\<lparr>nLog := upsertProjection l k (reportRow st)\<rparr>) ks)))"

definition merge :: "node \<Rightarrow> event list \<Rightarrow> (node_error option \<times> int) \<times> node" where
  "merge n events =
    (let ((err, accepted, touched), n) = mergeEvents n events 0 {||} in
     case err of Some err \<Rightarrow> ((Some err, accepted), n)
     | None \<Rightarrow> (let (err, n) = reconcile n (sorted_list_of_fset touched) in ((err, accepted), n)))"

definition getItem :: "node \<Rightarrow> sku \<Rightarrow> node_error + item_state" where
  "getItem n k = (if k = [] then Inl EmptySku
     else map_sum (NodeLogError (nId n)) id (project (nLog n) k))"

definition nodeVersionVector :: "node \<Rightarrow> version_vector" where
  "nodeVersionVector n = versionVector (nLog n)"

section \<open>The node's invariant\<close>

text \<open>
  The log is a run of the history, no two events of the history share a stamp, and the clock is
  at or above all of them. \<open>b\<close> bounds the wall components met so far.
\<close>

definition node_ok :: "int \<Rightarrow> node \<Rightarrow> event list \<Rightarrow> bool" where
  "node_ok b n h \<longleftrightarrow> log_run (nSnapshotEvery n) (nLog n) h \<and> inj_on eHLC (set h) \<and>
    (\<forall>e \<in> set h. eHLC e \<le> clk_last (nClk n)) \<and> clk_id (nClk n) = nId n \<and>
    sint (Wall (clk_last (nClk n))) \<le> b"

lemma node_okD:
  assumes "node_ok b n h"
  shows "log_run (nSnapshotEvery n) (nLog n) h" "inj_on eHLC (set h)"
    "\<And>e. e \<in> set h \<Longrightarrow> eHLC e \<le> clk_last (nClk n)" "clk_id (nClk n) = nId n"
    "sint (Wall (clk_last (nClk n))) \<le> b"
  using assms by (simp_all add: node_ok_def)

lemma node_ok_represents: "node_ok b n h \<Longrightarrow> represents (nLog n) h"
  by (rule log_run_represents [OF node_okD(1,2)])

lemma getItem_history:
  "node_ok b n h \<Longrightarrow> k \<noteq> [] \<Longrightarrow> getItem n k = Inr (foldl applyItem newItemState (eventsOf k h))"
  by (simp add: getItem_def project_history [OF node_ok_represents node_okD(2)])

definition wallsBelow :: "int \<Rightarrow> node \<Rightarrow> bool" where
  "wallsBelow b n \<longleftrightarrow> (\<forall>i. sint (clk_wall (nClk n) i) \<le> b)"

lemma snapshot_step:
  assumes "log_run every l h" "inj_on eHLC (set h)"
  obtains l' where "maybeSnapshot every l k = Inr l'" "log_run every l' h"
  using maybeSnapshot_represents [OF log_run_represents [OF assms] assms(2), of every k]
    run_snapshot [OF assms(1)] by metis

section \<open>Local operations\<close>

definition keepsHeader :: "(event \<Rightarrow> event) \<Rightarrow> bool" where
  "keepsHeader fill \<longleftrightarrow> (\<forall>e. eID (fill e) = eID e \<and> eHLC (fill e) = eHLC e \<and> eSKU (fill e) = eSKU e)"

lemma Now_result:
  "NodeID (fst (Now c)) = clk_id c" "clk_last (snd (Now c)) = fst (Now c)"
  "clk_id (snd (Now c)) = clk_id c" "clk_wall (snd (Now c)) = clk_wall c"
  by (simp_all add: Now_def tick_result)

lemma Now_above:
  assumes "sint (Wall (clk_last c)) \<le> b" "b < maxInt64"
  shows "clk_last c < fst (Now c)"
  unfolding Now_def by (intro tick_gt_last not_saturated_zero not_saturated_below [OF assms])

lemma Now_wall:
  assumes "\<forall>i. sint (clk_wall c i) \<le> b" "sint (Wall (clk_last c)) \<le> b" "0 \<le> b" "b < maxInt64"
  shows "sint (Wall (fst (Now c))) \<le> b + 1"
  unfolding Now_def using assms by (intro tick_wall) (simp_all add: readWall_def)

lemma emit_result:
  assumes ok: "node_ok b n h" and b: "wallsBelow b n" "0 \<le> b" "b < maxInt64"
    and fill: "keepsHeader fill"
    and res: "emit n k fill = (r, n')"
  shows "nId n' = nId n \<and> wallsBelow b n' \<and>
    (case r of Inl _ \<Rightarrow> node_ok (b + 1) n' h
     | Inr i \<Rightarrow> (let e = fill (blankEvent (nId n) (fst (Now (nClk n))) k (idSeq i)) in
         eID e = i \<and> valid_event e \<and> fitsInt64 (idSeq i) \<and> i \<notin> eID ` set h \<and>
         (\<forall>e' \<in> set h. eHLC e' < eHLC e) \<and> sint (Wall (eHLC e)) \<le> b + 1 \<and> node_ok (b + 1) n' (h @ [e])))"
proof (cases "k = []")
  case True
  with res have "r = Inl EmptySku" "n' = n" by (auto simp: emit_def)
  with ok b show ?thesis by (auto simp: node_ok_def)
next
  case False
  let ?stamp = "fst (Now (nClk n))"
  let ?mint = "\<lambda>s. fill (blankEvent (nId n) ?stamp k s)"
  let ?n = "n\<lparr>nClk := snd (Now (nClk n))\<rparr>"
  have now: "clk_last (nClk n) < ?stamp" "sint (Wall ?stamp) \<le> b + 1"
    using ok b by (auto intro: Now_above Now_wall simp: node_ok_def wallsBelow_def)
  have above: "eHLC e < ?stamp" if "e \<in> set h" for e
    using node_okD(3) [OF ok that] now(1) by simp
  have ok1: "node_ok (b + 1) ?n h"
    using ok now above by (auto simp: node_ok_def Now_result intro: less_imp_le)
  have mint: "eID (?mint s) = EventID (nId n) s" "eHLC (?mint s) = ?stamp" for s
    using fill by (simp_all add: keepsHeader_def blankEvent_def)
  have walls: "wallsBelow b ?n" using b(1) by (simp add: wallsBelow_def Now_result)
  show ?thesis
  proof (cases "appendLocal (nLog n) ?mint")
    case (Inl err)
    with res False have "r = Inl (NodeLogError (nId n) err)" "n' = ?n"
      by (auto simp: emit_def Let_def case_prod_unfold)
    with ok1 walls show ?thesis by simp
  next
    case (Inr el)
    obtain e l where el: "el = (e, l)" by (cases el)
    note al = Inr [unfolded el]
    have rep: "represents (nLog n) h" by (rule node_ok_represents [OF ok])
    note ar = appendLocal_result [OF al mint(1)]
    note ab = appendLocal_above [OF rep al mint(1)]
    have run: "log_run (nSnapshotEvery n) l (h @ [e])"
      using node_okD(1) [OF ok] mint(1) al by (intro run_local) auto
    have stamp: "eHLC e = ?stamp" using ar(5) mint(2) by metis
    have inj: "inj_on eHLC (set (h @ [e]))"
      using node_okD(2) [OF ok] above stamp by (fastforce simp: inj_on_insert)
    obtain l' where l': "maybeSnapshot (nSnapshotEvery n) l k = Inr l'"
      "log_run (nSnapshotEvery n) l' (h @ [e])"
      using snapshot_step [OF run inj] .
    have r: "r = Inr (eID e)" "n' = ?n\<lparr>nLog := l'\<rparr>"
      using res False al l'(1) by (auto simp: emit_def Let_def case_prod_unfold)
    have ok': "node_ok (b + 1) n' (h @ [e])"
      using ok1 l'(2) inj stamp by (auto simp: r(2) node_ok_def Now_result)
    have "?mint (idSeq (eID e)) = e" using ar(5) by simp
    with r ok' walls ar(3) ab(1,3) above stamp now(2) show ?thesis
      by (auto simp: Let_def wallsBelow_def)
  qed
qed

section \<open>Merging\<close>

text \<open>What a replica's history becomes when a batch is delivered.\<close>

definition takeIn :: "event list \<Rightarrow> event list \<Rightarrow> event list" where
  "takeIn h es = foldl (\<lambda>h e. if e \<in> set h \<or> \<not> valid_event e then h else h @ [e]) h es"

lemma set_takeIn: "set (takeIn h es) = set h \<union> {e \<in> set es. valid_event e}"
  unfolding takeIn_def by (induction es arbitrary: h) auto

text \<open>What the system guarantees of the events in flight: unique identities and stamps.\<close>

definition goodEvents :: "int \<Rightarrow> event set \<Rightarrow> bool" where
  "goodEvents b E \<longleftrightarrow> inj_on eID E \<and> inj_on eHLC E \<and>
    (\<forall>e \<in> E. fitsInt64 (idSeq (eID e)) \<and> sint (Wall (eHLC e)) \<le> b)"

lemma Observe_result:
  "clk_last (snd (Observe c r)) = fst (Observe c r)"
  "clk_id (snd (Observe c r)) = clk_id c" "clk_wall (snd (Observe c r)) = clk_wall c"
  by (simp_all add: Observe_def tick_result)

lemma Observe_above:
  assumes "sint (Wall (clk_last c)) \<le> b" "sint (Wall r) \<le> b" "b < maxInt64"
  shows "clk_last c < fst (Observe c r)" "r < fst (Observe c r)"
  unfolding Observe_def
  by (intro tick_gt_last tick_gt_floor not_saturated_below [OF _ assms(3)] assms)+

lemma Observe_wall:
  assumes "\<forall>i. sint (clk_wall c i) \<le> b" "sint (Wall (clk_last c)) \<le> b" "sint (Wall r) \<le> b" "b < maxInt64"
  shows "sint (Wall (fst (Observe c r))) \<le> b + 1"
  unfolding Observe_def using assms by (intro tick_wall) (simp_all add: readWall_def)

lemma logAppend_cases:
  obtains (ok) "valid_event e" "logAppend l e = Inr (insertEvent e l)"
    | (bad) m where "\<not> valid_event e" "logAppend l e = Inl (ErrMalformedEvent m)"
  by (cases "validate e") (auto simp: logAppend_def)

lemma accept_step:
  assumes ok: "node_ok b n h" and w: "wallsBelow b n" "b < maxInt64"
    and good: "goodEvents b (set h \<union> {e})" and v: "valid_event e"
    and h': "h' = (if e \<in> set h then h else h @ [e])"
    and n': "n' = n\<lparr>nLog := insertEvent e (nLog n), nClk := snd (Observe (nClk n) (eHLC e))\<rparr>"
  shows "node_ok (b + 1) n' h' \<and> nId n' = nId n \<and> wallsBelow (b + 1) n'"
proof -
  let ?o = "fst (Observe (nClk n) (eHLC e))"
  have ew: "sint (Wall (eHLC e)) \<le> b" using good by (simp add: goodEvents_def)
  have o: "clk_last (nClk n) < ?o" "eHLC e < ?o" "sint (Wall ?o) \<le> b + 1"
    using Observe_above [OF node_okD(5) [OF ok] ew w(2)] ok w ew
    by (auto intro: Observe_wall simp: node_ok_def wallsBelow_def)
  have same: "\<forall>e' \<in> set h. eID e' = eID e \<longrightarrow> e' = e"
    using good by (auto simp: goodEvents_def inj_on_def)
  have "logAppend (nLog n) e = Inr (insertEvent e (nLog n))" "fitsInt64 (idSeq (eID e))"
    using v good by (simp_all add: logAppend_def goodEvents_def)
  then have "log_run (nSnapshotEvery n) (insertEvent e (nLog n)) h'"
    unfolding h' using node_okD(1) [OF ok] same by (intro run_append)
  then have "log_run (nSnapshotEvery n') (nLog n') h'" by (simp add: n')
  moreover have "inj_on eHLC (set h')"
    using good by (auto simp: h' goodEvents_def inj_on_def)
  moreover have below: "eHLC x < ?o" if "x \<in> set h" for x
    using node_okD(3) [OF ok that] o(1) by (rule le_less_trans)
  have "\<forall>x \<in> set h'. eHLC x \<le> ?o"
    using below o(2) by (auto simp: h' intro: less_imp_le)
  ultimately have "node_ok (b + 1) n' h'"
    using o(3) node_okD(4) [OF ok] by (simp add: node_ok_def n' Observe_result)
  moreover have "wallsBelow (b + 1) n'"
    using w(1) by (auto simp: wallsBelow_def n' Observe_result intro: order_trans)
  ultimately show ?thesis by (simp add: n')
qed

lemma goodEvents_mono: "goodEvents b E \<Longrightarrow> E' \<subseteq> E \<Longrightarrow> b \<le> b' \<Longrightarrow> goodEvents b' E'"
  unfolding goodEvents_def by (meson inj_on_subset order_trans subset_iff)

lemma mergeEvents_result:
  assumes "node_ok b n h" "wallsBelow b n" "b + int (length es) \<le> maxInt64"
    "goodEvents b (set h \<union> set es)"
    "mergeEvents n es acc ks = ((err, acc', ks'), n')"
  shows "err = None \<and> acc' = acc + int (length (filter valid_event es)) \<and>
    fset ks' = fset ks \<union> eSKU ` {e \<in> set es. valid_event e} \<and>
    node_ok (b + int (length es)) n' (takeIn h es) \<and> nId n' = nId n \<and>
    wallsBelow (b + int (length es)) n' \<and> nSnapshotEvery n' = nSnapshotEvery n"
  using assms
proof (induction es arbitrary: b n h acc ks)
  case Nil
  then show ?case by (auto simp: takeIn_def)
next
  case (Cons e es)
  have good: "goodEvents (b + 1) (set h \<union> set (e # es))"
    using Cons.prems(4) by (rule goodEvents_mono) auto
  show ?case
  proof (cases rule: logAppend_cases [of e "nLog n"])
    case ok
    let ?n = "n\<lparr>nLog := insertEvent e (nLog n), nClk := snd (Observe (nClk n) (eHLC e))\<rparr>"
    let ?h = "if e \<in> set h then h else h @ [e]"
    have "goodEvents b (set h \<union> {e})"
      using Cons.prems(4) by (rule goodEvents_mono) auto
    then have step: "node_ok (b + 1) ?n ?h \<and> nId ?n = nId n \<and> wallsBelow (b + 1) ?n"
      using Cons.prems(1,2,3) ok(1) by (intro accept_step) auto
    have "set ?h \<union> set es = set h \<union> set (e # es)" by auto
    moreover have "takeIn h (e # es) = takeIn ?h es"
      using ok(1) by (simp add: takeIn_def)
    ultimately show ?thesis
      using Cons.IH [of "b + 1" ?n ?h "acc + 1" "finsert (eSKU e) ks"] step good Cons.prems ok
      by (auto simp: algebra_simps)
  next
    case (bad m)
    have "goodEvents (b + 1) (set h \<union> set es)"
      using good by (rule goodEvents_mono) auto
    moreover have "takeIn h (e # es) = takeIn h es"
      using bad(1) by (simp add: takeIn_def)
    moreover have "node_ok (b + 1) n h" "wallsBelow (b + 1) n"
      using Cons.prems(1,2) by (auto simp: node_ok_def wallsBelow_def intro: order_trans)
    ultimately show ?thesis
      using Cons.IH [of "b + 1" n h acc ks] Cons.prems bad
      by (auto simp: algebra_simps)
  qed
qed

text \<open>The second loop touches snapshots and the reporting table only.\<close>

lemma reconcile_result:
  assumes "node_ok b n h" "reconcile n ks = (err, n')"
  shows "err = None \<and> node_ok b n' h \<and> nId n' = nId n \<and> nClk n' = nClk n"
  using assms
proof (induction ks arbitrary: n)
  case Nil
  then show ?case by simp
next
  case (Cons k ks)
  obtain l where l: "maybeSnapshot (nSnapshotEvery n) (nLog n) k = Inr l" "log_run (nSnapshotEvery n) l h"
    using snapshot_step node_okD(1,2) [OF Cons.prems(1)] .
  let ?n = "n\<lparr>nLog := l\<rparr>"
  have ok: "node_ok b ?n h"
    using Cons.prems(1) l(2) by (simp add: node_ok_def)
  show ?case
  proof (cases "isSink l")
    case False
    with Cons.IH [OF ok] Cons.prems(2) l(1) show ?thesis by simp
  next
    case True
    have p: "project l k = Inr (foldl applyItem newItemState (eventsOf k h))"
      using project_history node_ok_represents [OF ok] node_okD(2) [OF ok] by simp
    let ?n' = "?n\<lparr>nLog := upsertProjection l k (reportRow (foldl applyItem newItemState (eventsOf k h)))\<rparr>"
    have "node_ok b ?n' h"
      using Cons.prems(1) l(2) by (auto simp: node_ok_def intro: run_report)
    with Cons.IH [of ?n'] Cons.prems(2) l(1) True p show ?thesis by simp
  qed
qed

lemma merge_result:
  assumes "node_ok b n h" "wallsBelow b n" "b + int (length es) \<le> maxInt64"
    "goodEvents b (set h \<union> set es)" "merge n es = ((err, acc), n')"
  shows "err = None \<and> acc = int (length (filter valid_event es)) \<and>
    node_ok (b + int (length es)) n' (takeIn h es) \<and> nId n' = nId n \<and>
    wallsBelow (b + int (length es)) n'"
proof -
  obtain err1 acc1 ks1 n1 where m: "mergeEvents n es 0 {||} = ((err1, acc1, ks1), n1)"
    by (metis prod_cases4 surj_pair)
  note r = mergeEvents_result [OF assms(1-4) m]
  obtain err2 n2 where c: "reconcile n1 (sorted_list_of_fset ks1) = (err2, n2)" by fastforce
  have r2: "err2 = None \<and> node_ok (b + int (length es)) n2 (takeIn h es) \<and> nId n2 = nId n1 \<and> nClk n2 = nClk n1"
    using r by (intro reconcile_result [OF _ c]) simp
  have "n' = n2 \<and> err = err2 \<and> acc = acc1"
    using assms(5) r by (auto simp: merge_def m c Let_def)
  with r r2 show ?thesis by (auto simp: wallsBelow_def)
qed

end
