(* ===== verification/LabCentral.thy ===== *)
theory LabCentral
  imports LabNode
begin

text \<open>
  The central store as a merge participant: a node on the Postgres log that only merges. Its
  reporting table holds the merged state of every item it has heard of, and \<open>Anomalies\<close> lists
  the items whose merged quantity is negative.
\<close>

definition reportsCurrent :: "event_log \<Rightarrow> event list \<Rightarrow> bool" where
  "reportsCurrent l h \<longleftrightarrow> (\<exists>t. elProjections l = Some t \<and>
    (\<forall>k. fmlookup t k = (if eventsOf k h = [] then None
       else Some (reportRow (foldl applyItem newItemState (eventsOf k h))))))"

lemma elProjections_simps [simp]:
  "elProjections (insertEvent e l) = elProjections l"
  "elProjections (saveSnapshot l k st vv) = elProjections l"
  "elProjections (setCursor l n s) = elProjections l"
  by (simp_all add: insertEvent_def saveSnapshot_def setCursor_def)

lemma elProjections_maybeSnapshot: "maybeSnapshot every l k = Inr l' \<Longrightarrow> elProjections l' = elProjections l"
  by (auto simp: maybeSnapshot_def Let_def split: if_splits sum.splits)

lemma elProjections_mergeEvents:
  "mergeEvents n es acc ks = (r, n') \<Longrightarrow> elProjections (nLog n') = elProjections (nLog n)"
proof (induction n es acc ks rule: mergeEvents.induct)
  case (2 n e es acc ks)
  then show ?case
    by (cases rule: logAppend_cases [of e "nLog n"]) auto
qed simp

text \<open>After the second loop every touched item's row is its merged state; others are untouched.\<close>

lemma reconcile_reports:
  assumes "node_ok b n h" "elProjections (nLog n) = Some t" "reconcile n ks = (err, n')"
  shows "\<exists>t'. elProjections (nLog n') = Some t' \<and>
    (\<forall>k. fmlookup t' k = (if k \<in> set ks then Some (reportRow (foldl applyItem newItemState (eventsOf k h)))
       else fmlookup t k))"
  using assms
proof (induction ks arbitrary: n t)
  case Nil
  then show ?case by simp
next
  case (Cons k ks)
  obtain l where l: "maybeSnapshot (nSnapshotEvery n) (nLog n) k = Inr l" "log_run (nSnapshotEvery n) l h"
    using snapshot_step node_okD(1,2) [OF Cons.prems(1)] .
  have t: "elProjections l = Some t"
    using elProjections_maybeSnapshot [OF l(1)] Cons.prems(2) by simp
  let ?row = "reportRow (foldl applyItem newItemState (eventsOf k h))"
  let ?n = "n\<lparr>nLog := upsertProjection l k ?row\<rparr>"
  have p: "project l k = Inr (foldl applyItem newItemState (eventsOf k h))"
    using project_history log_run_represents l(2) node_okD(2) [OF Cons.prems(1)] by simp
  have ok: "node_ok b ?n h"
    using Cons.prems(1) l(2) by (auto simp: node_ok_def intro: run_report)
  have "elProjections (nLog ?n) = Some (fmupd k ?row t)"
    by (simp add: upsertProjection_def t)
  moreover have "reconcile ?n ks = (err, n')"
    using Cons.prems(3) l(1) p t by (simp add: isSink_def)
  ultimately obtain t' where "elProjections (nLog n') = Some t'"
    "\<forall>j. fmlookup t' j = (if j \<in> set ks then Some (reportRow (foldl applyItem newItemState (eventsOf j h)))
       else fmlookup (fmupd k ?row t) j)"
    using Cons.IH [OF ok] by blast
  then show ?case by auto
qed

lemma eventsOf_takeIn:
  "k \<notin> eSKU ` {e \<in> set es. valid_event e} \<Longrightarrow> eventsOf k (takeIn h es) = eventsOf k h"
proof (induction es arbitrary: h)
  case (Cons e es)
  let ?h = "if e \<in> set h \<or> \<not> valid_event e then h else h @ [e]"
  have "eventsOf k (takeIn h (e # es)) = eventsOf k (takeIn ?h es)" by (simp add: takeIn_def)
  also have "\<dots> = eventsOf k ?h" using Cons.prems by (intro Cons.IH) auto
  also have "\<dots> = eventsOf k h" using Cons.prems by auto
  finally show ?case .
qed (simp add: takeIn_def)

lemma merge_reports:
  assumes "node_ok b n h" "wallsBelow b n" "b + int (length es) \<le> maxInt64"
    "goodEvents b (set h \<union> set es)" "merge n es = ((err, acc), n')" "reportsCurrent (nLog n) h"
  shows "reportsCurrent (nLog n') (takeIn h es)"
proof -
  obtain err1 acc1 ks1 n1 where m: "mergeEvents n es 0 {||} = ((err1, acc1, ks1), n1)"
    by (metis prod_cases4 surj_pair)
  note r = mergeEvents_result [OF assms(1-4) m]
  obtain err2 n2 where c: "reconcile n1 (sorted_list_of_fset ks1) = (err2, n2)" by fastforce
  have n2: "n' = n2" using assms(5) r by (auto simp: merge_def m c Let_def)
  obtain t where t: "elProjections (nLog n) = Some t"
    "\<And>k. fmlookup t k = (if eventsOf k h = [] then None
       else Some (reportRow (foldl applyItem newItemState (eventsOf k h))))"
    using assms(6) by (auto simp: reportsCurrent_def)
  have t1: "elProjections (nLog n1) = Some t"
    using elProjections_mergeEvents [OF m] t(1) by simp
  have ok: "node_ok (b + int (length es)) n1 (takeIn h es)" using r by simp
  from reconcile_reports [OF ok t1 c]
  obtain t' where t': "elProjections (nLog n2) = Some t'"
    "\<And>k. fmlookup t' k = (if k \<in> fset ks1 then Some (reportRow (foldl applyItem newItemState (eventsOf k (takeIn h es))))
       else fmlookup t k)"
    by (auto simp: sorted_list_of_fset.rep_eq)
  have ks1: "fset ks1 = eSKU ` {e \<in> set es. valid_event e}" using r by simp
  have "fmlookup t' k = (if eventsOf k (takeIn h es) = [] then None
      else Some (reportRow (foldl applyItem newItemState (eventsOf k (takeIn h es)))))" for k
  proof (cases "k \<in> fset ks1")
    case True
    then have "eventsOf k (takeIn h es) \<noteq> []"
      by (auto simp: ks1 filter_empty_conv set_takeIn)
    with True show ?thesis by (simp add: t'(2))
  next
    case False
    then have "eventsOf k (takeIn h es) = eventsOf k h"
      by (intro eventsOf_takeIn) (simp add: ks1)
    with False show ?thesis by (simp add: t'(2) t(2))
  qed
  with t'(1) show ?thesis by (auto simp: reportsCurrent_def n2)
qed

lemma anomalies_current:
  assumes "reportsCurrent l h"
  shows "(k, q) \<in> set (anomalies l) \<longleftrightarrow>
    eventsOf k h \<noteq> [] \<and> q = quantity (foldl applyItem newItemState (eventsOf k h)) \<and> sint q < 0"
proof -
  obtain t where t: "elProjections l = Some t"
    "\<And>k. fmlookup t k = (if eventsOf k h = [] then None
       else Some (reportRow (foldl applyItem newItemState (eventsOf k h))))"
    using assms by (auto simp: reportsCurrent_def)
  have "(k, q) \<in> set (anomalies l) \<longleftrightarrow>
      (\<exists>p. fmlookup t k = Some p \<and> q = prQuantity p \<and> sint q < 0)"
    by (force simp: anomalies_def t(1) set_sorted_list_of_fmap [symmetric] simp del: set_sorted_list_of_fmap)
  then show ?thesis by (auto simp: t(2) reportRow_def)
qed

section \<open>Central after any sequence of merges\<close>

lemma recoverClock_empty:
  "elEvents (nLog n) = fmempty \<Longrightarrow> recoverClock n = Inr n"
  by (simp add: recoverClock_def since_def rowList_def orderByHLC_def)

lemma newNode_fresh:
  assumes "newNode cfg = Inr n" "cfgLog cfg = Some l" "l = openSQLite \<or> l = openPostgres"
  shows "cfgID cfg \<noteq> []" "n = \<lparr>nId = cfgID cfg, nLog = l,
    nClk = newClock (cfgID cfg) (cfgWall cfg), nSnapshotEvery = cfgSnapshotEvery cfg\<rparr>"
  using assms by (auto simp: newNode_def recoverClock_empty openSQLite_def openPostgres_def split: if_splits)

lemma newNode_ok:
  assumes "newNode cfg = Inr n" "cfgLog cfg = Some l" "l = openSQLite \<or> l = openPostgres" "0 \<le> b"
    "\<forall>i. sint (cfgWall cfg i) \<le> b"
  shows "node_ok b n [] \<and> wallsBelow b n"
  using newNode_fresh [OF assms(1-3)] assms(3-5)
  by (auto simp: node_ok_def wallsBelow_def newClock_def intro: run_open run_open_central)

definition mergeAll :: "node \<Rightarrow> event list list \<Rightarrow> node" where
  "mergeAll n batches = foldl (\<lambda>n es. snd (merge n es)) n batches"

lemma takeIn_append: "takeIn h (es @ fs) = takeIn (takeIn h es) fs"
  by (simp add: takeIn_def)

lemma mergeAll_reports:
  assumes "node_ok b n h" "wallsBelow b n" "b + int (length (concat batches)) \<le> maxInt64"
    "goodEvents b (set h \<union> set (concat batches))" "reportsCurrent (nLog n) h"
  shows "reportsCurrent (nLog (mergeAll n batches)) (takeIn h (concat batches))"
  using assms
proof (induction batches arbitrary: b n h)
  case Nil
  then show ?case by (simp add: mergeAll_def takeIn_def)
next
  case (Cons es batches)
  let ?b = "b + int (length es)"
  obtain r n' where m: "merge n es = (r, n')" by fastforce
  obtain err acc where r: "r = (err, acc)" by fastforce
  have good: "goodEvents b (set h \<union> set es)"
    using Cons.prems(4) by (rule goodEvents_mono) auto
  have le: "b + int (length es) \<le> maxInt64" using Cons.prems(3) by simp
  note mr = merge_result [OF Cons.prems(1,2) le good m [unfolded r]]
  have "goodEvents ?b (set (takeIn h es) \<union> set (concat batches))"
    using Cons.prems(4) by (rule goodEvents_mono) (auto simp: set_takeIn)
  then have "reportsCurrent (nLog (mergeAll n' batches)) (takeIn (takeIn h es) (concat batches))"
    using mr Cons.prems(3) merge_reports [OF Cons.prems(1,2) le good m [unfolded r] Cons.prems(5)]
    by (intro Cons.IH [of ?b]) auto
  then show ?case
    by (simp add: mergeAll_def m takeIn_append)
qed

text \<open>
  Central's anomaly report is right: after any batches of remote events have been merged,
  with duplicates, malformed events and any order, \<open>Anomalies\<close> lists exactly the items whose
  quantity, folded over the distinct valid events received, is negative.
\<close>

lemma anomalies_are_negative_items:
  assumes "newNode cfg = Inr n" "cfgLog cfg = Some openPostgres"
    and "0 \<le> b" "\<forall>i. sint (cfgWall cfg i) \<le> b"
    and "goodEvents b (set (concat batches))" "b + int (length (concat batches)) \<le> maxInt64"
  defines "h \<equiv> takeIn [] (concat batches)"
  shows "(k, q) \<in> set (anomalies (nLog (mergeAll n batches))) \<longleftrightarrow>
    (\<exists>e \<in> set h. eSKU e = k) \<and> q = quantity (foldl applyItem newItemState (eventsOf k h)) \<and> sint q < 0"
proof -
  have ok: "node_ok b n [] \<and> wallsBelow b n"
    by (rule newNode_ok [OF assms(1,2)]) (use assms(3,4) in auto)
  have "reportsCurrent (nLog n) []"
    using newNode_fresh(2) [OF assms(1,2)] by (simp add: reportsCurrent_def openPostgres_def)
  then have "reportsCurrent (nLog (mergeAll n batches)) h"
    unfolding h_def using ok assms(5,6) by (intro mergeAll_reports [of b]) auto
  from anomalies_current [OF this] show ?thesis
    by (auto simp: filter_empty_conv)
qed

definition demoCentral :: config where
  "demoCentral = \<lparr>cfgID = ''C'', cfgLog = Some openPostgres, cfgWall = (\<lambda>_. 5), cfgSnapshotEvery = 1\<rparr>"

end
