(* ===== verification/LabCluster.thy ===== *)
theory LabCluster
  imports LabCentral
begin

text \<open>
  The whole system as a step relation: any number of nodes perform local operations, receive
  each other's events in any order with any duplication and loss, snapshot, compact, record
  cursors and restart. Nothing is assumed of the network except that it delivers events some node
  has emitted. A run is indexed by the clock readings it has taken: the stamps of a run stay below
  the bound of the wall readings plus that number, so no clock overflows while this is an \<open>int64\<close>.
\<close>

section \<open>Local operations as a datatype\<close>

datatype local_op =
    Receive sku int64 | Pick sku int64 | SetMeta sku "string option" "int64 option" | Delete sku bool

fun localStep :: "node \<Rightarrow> local_op \<Rightarrow> (node_error + event_id) \<times> node" where
  "localStep n (Receive k q) = receive n k q"
| "localStep n (Pick k q) = pick n k q"
| "localStep n (SetMeta k nm rp) = setMeta n k nm rp"
| "localStep n (Delete k d) = deleteItem n k d"

text \<open>The event an operation mints at a given sequence number.\<close>

fun opFill :: "local_op \<Rightarrow> event \<Rightarrow> event" where
  "opFill (Receive k q) e = fillDelta q e"
| "opFill (Pick k q) e = fillDelta (- q) e"
| "opFill (SetMeta k nm rp) e =
    e\<lparr>eKind := KindMetaSet, eMeta := Some \<lparr>msName = nm, msReorderPoint = rp\<rparr>\<rparr>"
| "opFill (Delete k d) e = e\<lparr>eKind := KindDeleteSet, eDeletedTo := Some d\<rparr>"

fun opSku :: "local_op \<Rightarrow> sku" where
  "opSku (Receive k q) = k"
| "opSku (Pick k q) = k"
| "opSku (SetMeta k nm rp) = k"
| "opSku (Delete k d) = k"

definition opEvent :: "node \<Rightarrow> local_op \<Rightarrow> event_id \<Rightarrow> event" where
  "opEvent n op i = opFill op (blankEvent (nId n) (fst (Now (nClk n))) (opSku op) (idSeq i))"

lemma keepsHeader_opFill: "keepsHeader (opFill op)"
  by (cases op) (simp_all add: keepsHeader_def fillDelta_def)

text \<open>Every operation is \<open>emit\<close> with its fill, unless its arguments are rejected up front.\<close>

lemma localStep_emit:
  "localStep n op = emit n (opSku op) (opFill op) \<or> (\<exists>err. localStep n op = (Inl err, n))"
  by (cases op)
    (auto simp: receive_def pick_def setMeta_def deleteItem_def Let_def fun_eq_iff
      intro!: arg_cong [where f = "emit n _"])

lemma localStep_result:
  assumes "node_ok b n h" "wallsBelow b n" "0 \<le> b" "b < maxInt64" "localStep n op = (r, n')"
  shows "nId n' = nId n \<and> wallsBelow b n' \<and>
    (case r of Inl _ \<Rightarrow> node_ok (b + 1) n' h
     | Inr i \<Rightarrow> eID (opEvent n op i) = i \<and> valid_event (opEvent n op i) \<and> fitsInt64 (idSeq i) \<and>
         i \<notin> eID ` set h \<and> (\<forall>e' \<in> set h. eHLC e' < eHLC (opEvent n op i)) \<and>
         sint (Wall (eHLC (opEvent n op i))) \<le> b + 1 \<and> node_ok (b + 1) n' (h @ [opEvent n op i]))"
proof -
  consider "emit n (opSku op) (opFill op) = (r, n')" | err where "r = Inl err" "n' = n"
    using localStep_emit [of n op] assms(5) by auto
  then show ?thesis
  proof cases
    case 1
    from emit_result [OF assms(1-4) keepsHeader_opFill 1] show ?thesis
      by (cases r) (simp_all add: Let_def opEvent_def)
  next
    case 2
    with assms(1,2) show ?thesis by (simp add: node_ok_def)
  qed
qed

section \<open>Runs of the system\<close>

text \<open>
  \<open>nodes\<close> are the replicas, \<open>hist i\<close> is what replica \<open>i\<close> has taken in, and the last argument
  lists the events emitted so far. A restart opens the log afresh with a new clock; it requires
  that compaction has not yet deleted rows of the log, as the comment on \<open>recoverClock\<close> says.
\<close>

inductive cluster_run :: "int \<Rightarrow> nat \<Rightarrow> (node_id \<rightharpoonup> node) \<Rightarrow> (node_id \<Rightarrow> event list) \<Rightarrow> event list \<Rightarrow> bool"
  for B where
  c_start: "(\<forall>i n. nodes i = Some n \<longrightarrow> (\<exists>cfg l. newNode cfg = Inr n \<and> cfgID cfg = i \<and>
      cfgLog cfg = Some l \<and> (l = openSQLite \<or> l = openPostgres) \<and> (\<forall>j. sint (cfgWall cfg j) \<le> B))) \<Longrightarrow>
    cluster_run B 0 nodes (\<lambda>_. []) []"
| c_op: "cluster_run B t nodes hist E \<Longrightarrow> nodes i = Some n \<Longrightarrow> localStep n op = (Inr k, n') \<Longrightarrow>
    cluster_run B (t + 1) (nodes(i \<mapsto> n')) (hist(i := hist i @ [opEvent n op k])) (E @ [opEvent n op k])"
| c_op_failed: "cluster_run B t nodes hist E \<Longrightarrow> nodes i = Some n \<Longrightarrow> localStep n op = (Inl err, n') \<Longrightarrow>
    cluster_run B (t + 1) (nodes(i \<mapsto> n')) hist E"
| c_merge: "cluster_run B t nodes hist E \<Longrightarrow> nodes i = Some n \<Longrightarrow> set es \<subseteq> set E \<Longrightarrow>
    merge n es = ((None, acc), n') \<Longrightarrow>
    cluster_run B (t + length es) (nodes(i \<mapsto> n')) (hist(i := takeIn (hist i) es)) E"
| c_compact: "cluster_run B t nodes hist E \<Longrightarrow> nodes i = Some n \<Longrightarrow> compact (nLog n) upTo = Inr l \<Longrightarrow>
    cluster_run B t (nodes(i \<mapsto> n\<lparr>nLog := l\<rparr>)) hist E"
| c_cursor: "cluster_run B t nodes hist E \<Longrightarrow> nodes i = Some n \<Longrightarrow>
    cluster_run B t (nodes(i \<mapsto> n\<lparr>nLog := setCursor (nLog n) peer s\<rparr>)) hist E"
| c_restart: "cluster_run B t nodes hist E \<Longrightarrow> nodes i = Some n \<Longrightarrow>
    newNode cfg = Inr n' \<Longrightarrow> cfgID cfg = nId n \<Longrightarrow> cfgLog cfg = Some (nLog n) \<Longrightarrow>
    cfgSnapshotEvery cfg = nSnapshotEvery n \<Longrightarrow> (\<forall>j. sint (cfgWall cfg j) \<le> B) \<Longrightarrow>
    (\<forall>e \<in> set (hist i). fmlookup (elEvents (nLog n)) (eID e) \<noteq> None) \<Longrightarrow>
    cluster_run B (t + 1) (nodes(i \<mapsto> n')) hist E"

section \<open>The invariant\<close>

definition cluster_inv :: "int \<Rightarrow> (node_id \<rightharpoonup> node) \<Rightarrow> (node_id \<Rightarrow> event list) \<Rightarrow> event list \<Rightarrow> bool" where
  "cluster_inv b nodes hist E \<longleftrightarrow>
    distinct (map eID E) \<and> goodEvents b (set E) \<and> (\<forall>e \<in> set E. valid_event e) \<and>
    (\<forall>i n. nodes i = Some n \<longrightarrow> nId n = i \<and> node_ok b n (hist i) \<and> wallsBelow b n \<and> set (hist i) \<subseteq> set E) \<and>
    (\<forall>e \<in> set E. nodes (idNode (eID e)) \<noteq> None \<and> e \<in> set (hist (idNode (eID e))))"

lemma cluster_invD:
  assumes "cluster_inv b nodes hist E"
  shows "distinct (map eID E)" "goodEvents b (set E)" "\<And>e. e \<in> set E \<Longrightarrow> valid_event e"
    "\<And>i n. nodes i = Some n \<Longrightarrow> nId n = i \<and> node_ok b n (hist i) \<and> wallsBelow b n \<and> set (hist i) \<subseteq> set E"
    "\<And>e. e \<in> set E \<Longrightarrow> nodes (idNode (eID e)) \<noteq> None \<and> e \<in> set (hist (idNode (eID e)))"
  using assms by (auto simp: cluster_inv_def)

lemma node_ok_mono: "node_ok b n h \<Longrightarrow> b \<le> b' \<Longrightarrow> node_ok b' n h"
  by (auto simp: node_ok_def)

lemma wallsBelow_mono: "wallsBelow b n \<Longrightarrow> b \<le> b' \<Longrightarrow> wallsBelow b' n"
  by (auto simp: wallsBelow_def intro: order_trans)

text \<open>Replacing one node, with its history unchanged or extended by events already emitted.\<close>

lemma cluster_inv_update:
  assumes inv: "cluster_inv b nodes hist E" and i: "nodes i = Some n" and b: "b \<le> b'"
    and n': "nId n' = i" "node_ok b' n' h'" "wallsBelow b' n'"
    and h': "set (hist i) \<subseteq> set h'" "set h' \<subseteq> set E"
  shows "cluster_inv b' (nodes(i \<mapsto> n')) (hist(i := h')) E"
  unfolding cluster_inv_def
proof (intro conjI allI impI ballI)
  show "distinct (map eID E)" by (rule cluster_invD(1) [OF inv])
  show "goodEvents b' (set E)"
    using cluster_invD(2) [OF inv] b by (rule goodEvents_mono [OF _ order_refl])
  show "valid_event e" if "e \<in> set E" for e
    using cluster_invD(3) [OF inv that] .
  fix j m assume m: "(nodes(i \<mapsto> n')) j = Some m"
  show "nId m = j" "node_ok b' m ((hist(i := h')) j)" "wallsBelow b' m" "set ((hist(i := h')) j) \<subseteq> set E"
    using m n' h'(2) cluster_invD(4) [OF inv, of j m] b
    by (auto split: if_splits intro: node_ok_mono wallsBelow_mono)
next
  fix e assume e: "e \<in> set E"
  show "(nodes(i \<mapsto> n')) (idNode (eID e)) \<noteq> None" "e \<in> set ((hist(i := h')) (idNode (eID e)))"
    using cluster_invD(5) [OF inv e] h'(1) by auto
qed

lemma cluster_inv_op:
  assumes inv: "cluster_inv b nodes hist E" and i: "nodes i = Some n"
    and b: "0 \<le> b" "b < maxInt64" and op: "localStep n op = (Inr k, n')"
  shows "cluster_inv (b + 1) (nodes(i \<mapsto> n')) (hist(i := hist i @ [opEvent n op k])) (E @ [opEvent n op k])"
proof -
  let ?e = "opEvent n op k"
  have ok: "nId n = i" "node_ok b n (hist i)" "wallsBelow b n" "set (hist i) \<subseteq> set E"
    using cluster_invD(4) [OF inv i] by auto
  have r: "nId n' = i" "wallsBelow b n'" "eID ?e = k" "valid_event ?e" "fitsInt64 (idSeq k)"
    "k \<notin> eID ` set (hist i)" "\<forall>e' \<in> set (hist i). eHLC e' < eHLC ?e"
    "sint (Wall (eHLC ?e)) \<le> b + 1" "node_ok (b + 1) n' (hist i @ [?e])"
    using localStep_result [OF ok(2,3) b op] ok(1) by simp_all
  have own: "idNode (eID ?e) = i"
    using keepsHeader_opFill [of op] ok(1) by (simp add: opEvent_def keepsHeader_def blankEvent_def)
  have hn: "NodeID (eHLC e) = idNode (eID e)" if "valid_event e" for e
    using valid_event_header [OF that] by simp
  have fresh: "eID e \<noteq> eID ?e \<and> eHLC e \<noteq> eHLC ?e" if e: "e \<in> set E" for e
  proof (cases "idNode (eID e) = i")
    case True
    then have "e \<in> set (hist i)" using cluster_invD(5) [OF inv e] by simp
    with r(3,6,7) show ?thesis by fastforce
  next
    case False
    then show ?thesis
      using own hn [OF r(4)] hn [OF cluster_invD(3) [OF inv e]] by metis
  qed
  have "goodEvents (b + 1) (insert ?e (set E))"
  proof -
    have "inj_on eID (insert ?e (set E))" "inj_on eHLC (insert ?e (set E))"
      using cluster_invD(2) [OF inv] fresh by (auto simp: goodEvents_def inj_on_def dest: sym)
    then show ?thesis
      using cluster_invD(2) [OF inv] r(3,5,8) by (auto simp: goodEvents_def intro: order_trans)
  qed
  moreover have "distinct (map eID (E @ [?e]))"
  proof -
    have "eID ?e \<notin> eID ` set E" using fresh by (metis imageE)
    then show ?thesis using cluster_invD(1) [OF inv] by simp
  qed
  moreover have "\<forall>e \<in> set (E @ [?e]). valid_event e"
    using cluster_invD(3) [OF inv] r(4) by auto
  moreover have "nId m = j \<and> node_ok (b + 1) m ((hist(i := hist i @ [?e])) j) \<and> wallsBelow (b + 1) m \<and>
      set ((hist(i := hist i @ [?e])) j) \<subseteq> set (E @ [?e])"
    if m: "(nodes(i \<mapsto> n')) j = Some m" for j m
  proof (cases "j = i")
    case True
    with m r(1,2,9) ok(4) show ?thesis by (auto intro: wallsBelow_mono)
  next
    case False
    with m have "nodes j = Some m" by simp
    from cluster_invD(4) [OF inv this] False show ?thesis
      by (auto intro: wallsBelow_mono node_ok_mono)
  qed
  moreover have "(nodes(i \<mapsto> n')) (idNode (eID e)) \<noteq> None \<and>
      e \<in> set ((hist(i := hist i @ [?e])) (idNode (eID e)))" if e: "e \<in> set (E @ [?e])" for e
  proof (cases "e = ?e")
    case True
    with own show ?thesis by simp
  next
    case False
    with e have "e \<in> set E" by simp
    from cluster_invD(5) [OF inv this] show ?thesis by auto
  qed
  ultimately show ?thesis
    unfolding cluster_inv_def by auto
qed

text \<open>The clock a restarted node recovers is at or above every stamp in its log.\<close>

lemma maxStamp_Inr: "maxStamp m (map Inr es) = Inr (foldl max m (map eHLC es))"
  by (induction es arbitrary: m) (auto simp: Before_iff max_def intro!: arg_cong [where f = "\<lambda>m. foldl max m _"])

lemma foldl_max_start: "(m :: hlc) \<le> foldl max m hs"
  by (induction hs arbitrary: m) (auto intro: order_trans [OF max.cobounded1])

lemma foldl_max_ge: "x \<in> set hs \<Longrightarrow> (x :: hlc) \<le> foldl max m hs"
  by (induction hs arbitrary: m) (auto intro: order_trans [OF max.cobounded2 foldl_max_start])

lemma foldl_max_in: "foldl max m hs = (m :: hlc) \<or> foldl max m hs \<in> set hs"
proof (induction hs arbitrary: m)
  case (Cons a hs)
  from Cons [of "max m a"] show ?case by (auto simp: max_def split: if_splits)
qed simp

lemma restart_ok:
  assumes run: "log_run every l h" "inj_on eHLC (set h)" and good: "goodEvents b (set h)" "b < maxInt64" "0 \<le> b"
    and rows: "\<forall>e \<in> set h. fmlookup (elEvents l) (eID e) \<noteq> None"
    and cfg: "newNode cfg = Inr n'" "cfgLog cfg = Some l" "cfgSnapshotEvery cfg = every"
      "\<forall>j. sint (cfgWall cfg j) \<le> b"
  shows "nId n' = cfgID cfg \<and> node_ok (b + 1) n' h \<and> wallsBelow b n'"
proof -
  have rep: "represents l h" using run by (rule log_run_represents)
  obtain es where es: "since l fmempty = map Inr es" "distinct es"
    "set es = {e \<in> set h. fmlookup (elEvents l) (eID e) \<noteq> None \<and> \<not> vvContains fmempty (eID e)}"
    using since_events [OF rep] .
  have "\<not> vvContains fmempty (eID e)" if "e \<in> set h" for e
    using represents_parts(1) [OF rep] that
    by (auto simp: wf_history_def vvContains_def dest: valid_event_header)
  then have set_es: "set es = set h" using es(3) rows by auto
  let ?m = "foldl max zeroHLC (map eHLC es)"
  let ?n = "\<lparr>nId = cfgID cfg, nLog = l, nClk = newClock (cfgID cfg) (cfgWall cfg), nSnapshotEvery = every\<rparr>"
  have n': "n' = (if ?m \<noteq> zeroHLC then ?n\<lparr>nClk := snd (Observe (nClk ?n) ?m)\<rparr> else ?n)"
    using cfg(1-3) es(1) by (simp add: newNode_def recoverClock_def maxStamp_Inr split: if_splits)
  have above: "eHLC e \<le> ?m" if "e \<in> set h" for e
    using that set_es by (intro foldl_max_ge) auto
  have mw: "sint (Wall ?m) \<le> b"
    using foldl_max_in [of zeroHLC "map eHLC es"] good(1,3) set_es by (auto simp: goodEvents_def)
  have clk: "clk_last (nClk ?n) = HLC 0 0 (cfgID cfg)" by (simp add: newClock_def)
  show ?thesis
  proof (cases "?m = zeroHLC")
    case True
    have "zeroHLC \<le> HLC 0 0 (cfgID cfg)"
      by (cases "cfgID cfg") (auto simp: less_eq_hlc_def less_hlc_def)
    then have "eHLC e \<le> clk_last (nClk ?n)" if "e \<in> set h" for e
      using above [OF that] True unfolding clk by simp
    then show ?thesis
      using True run good cfg(4) clk by (simp add: n' node_ok_def wallsBelow_def newClock_def)
  next
    case False
    have o: "?m < fst (Observe (nClk ?n) ?m)" "sint (Wall (fst (Observe (nClk ?n) ?m))) \<le> b + 1"
      using cfg(4) good mw clk
      by (auto intro!: Observe_above [of _ b] Observe_wall simp: newClock_def)
    then have "eHLC e \<le> fst (Observe (nClk ?n) ?m)" if "e \<in> set h" for e
      using above [OF that] by simp
    with o(2) show ?thesis
      using False run good cfg(4) by (simp add: n' node_ok_def wallsBelow_def Observe_result newClock_def)
  qed
qed

lemma cluster_run_inv:
  "cluster_run B t nodes hist E \<Longrightarrow> 0 \<le> B \<Longrightarrow> B + int t \<le> maxInt64 \<Longrightarrow>
    cluster_inv (B + int t) nodes hist E"
proof (induction rule: cluster_run.induct)
  case (c_start nodes)
  have "nId n = i \<and> node_ok B n [] \<and> wallsBelow B n" if "nodes i = Some n" for i n
  proof -
    from c_start(1) that obtain cfg l where c: "newNode cfg = Inr n" "cfgID cfg = i" "cfgLog cfg = Some l"
      "l = openSQLite \<or> l = openPostgres" "\<forall>j. sint (cfgWall cfg j) \<le> B"
      by blast
    from newNode_ok [OF c(1,3,4) c_start(2) c(5)] newNode_fresh(2) [OF c(1,3,4)] c(2)
    show ?thesis by simp
  qed
  then show ?case by (auto simp: cluster_inv_def goodEvents_def)
next
  case (c_op t nodes hist E i n op k n')
  then have "cluster_inv (B + int t) nodes hist E" by simp
  then have "cluster_inv (B + int t + 1) (nodes(i \<mapsto> n')) (hist(i := hist i @ [opEvent n op k]))
      (E @ [opEvent n op k])"
    using c_op.hyps(2,3) c_op.prems by (intro cluster_inv_op) auto
  then show ?case by (simp only: of_nat_add of_nat_1 add.assoc fun_upd_triv)
next
  case (c_op_failed t nodes hist E i n op err n')
  then have inv: "cluster_inv (B + int t) nodes hist E" by simp
  have ok: "nId n = i \<and> node_ok (B + int t) n (hist i) \<and> wallsBelow (B + int t) n \<and> set (hist i) \<subseteq> set E"
    by (rule cluster_invD(4) [OF inv c_op_failed.hyps(2)])
  then have "nId n' = i \<and> wallsBelow (B + int t) n' \<and> node_ok (B + int t + 1) n' (hist i)"
    using localStep_result [of "B + int t" n "hist i" op "Inl err" n'] c_op_failed.hyps(3) c_op_failed.prems
    by simp
  then have "cluster_inv (B + int t + 1) (nodes(i \<mapsto> n')) (hist(i := hist i)) E"
    using ok c_op_failed.hyps(2) by (intro cluster_inv_update [OF inv]) (auto intro: wallsBelow_mono)
  then show ?case by (simp only: of_nat_add of_nat_1 add.assoc fun_upd_triv)
next
  case (c_merge t nodes hist E i n es acc n')
  then have inv: "cluster_inv (B + int t) nodes hist E" by simp
  have ok: "nId n = i \<and> node_ok (B + int t) n (hist i) \<and> wallsBelow (B + int t) n \<and> set (hist i) \<subseteq> set E"
    by (rule cluster_invD(4) [OF inv c_merge.hyps(2)])
  have good: "goodEvents (B + int t) (set (hist i) \<union> set es)"
    using cluster_invD(2) [OF inv] by (rule goodEvents_mono) (use ok c_merge.hyps(3) in auto)
  have "node_ok (B + int t + int (length es)) n' (takeIn (hist i) es) \<and> nId n' = nId n \<and>
      wallsBelow (B + int t + int (length es)) n'"
    using merge_result [of "B + int t" n "hist i" es None acc n'] ok good c_merge.hyps(4) c_merge.prems by simp
  then have "cluster_inv (B + int t + int (length es)) (nodes(i \<mapsto> n')) (hist(i := takeIn (hist i) es)) E"
    using ok c_merge.hyps(2,3) by (intro cluster_inv_update [OF inv]) (auto simp: set_takeIn)
  then show ?case by (simp only: of_nat_add of_nat_1 add.assoc fun_upd_triv)
next
  case (c_compact t nodes hist E i n upTo l)
  then have inv: "cluster_inv (B + int t) nodes hist E" by simp
  have ok: "nId n = i \<and> node_ok (B + int t) n (hist i) \<and> wallsBelow (B + int t) n \<and> set (hist i) \<subseteq> set E"
    by (rule cluster_invD(4) [OF inv c_compact.hyps(2)])
  then have "node_ok (B + int t) (n\<lparr>nLog := l\<rparr>) (hist i)"
    using c_compact.hyps(3) by (auto simp: node_ok_def intro: run_compact)
  then have "cluster_inv (B + int t) (nodes(i \<mapsto> n\<lparr>nLog := l\<rparr>)) (hist(i := hist i)) E"
    using ok c_compact.hyps(2) by (intro cluster_inv_update [OF inv]) (auto simp: wallsBelow_def)
  then show ?case by (simp only: fun_upd_triv)
next
  case (c_cursor t nodes hist E i n peer s)
  then have inv: "cluster_inv (B + int t) nodes hist E" by simp
  have ok: "nId n = i \<and> node_ok (B + int t) n (hist i) \<and> wallsBelow (B + int t) n \<and> set (hist i) \<subseteq> set E"
    by (rule cluster_invD(4) [OF inv c_cursor.hyps(2)])
  then have "node_ok (B + int t) (n\<lparr>nLog := setCursor (nLog n) peer s\<rparr>) (hist i)"
    by (auto simp: node_ok_def intro: run_cursor)
  then have "cluster_inv (B + int t) (nodes(i \<mapsto> n\<lparr>nLog := setCursor (nLog n) peer s\<rparr>)) (hist(i := hist i)) E"
    using ok c_cursor.hyps(2) by (intro cluster_inv_update [OF inv]) (auto simp: wallsBelow_def)
  then show ?case by (simp only: fun_upd_triv)
next
  case (c_restart t nodes hist E i n cfg n')
  then have inv: "cluster_inv (B + int t) nodes hist E" by simp
  have ok: "nId n = i \<and> node_ok (B + int t) n (hist i) \<and> wallsBelow (B + int t) n \<and> set (hist i) \<subseteq> set E"
    by (rule cluster_invD(4) [OF inv c_restart.hyps(2)])
  have "goodEvents (B + int t) (set (hist i))"
    using cluster_invD(2) [OF inv] by (rule goodEvents_mono) (use ok in auto)
  moreover have "\<forall>j. sint (cfgWall cfg j) \<le> B + int t"
    using c_restart.hyps(7) by (auto intro: order_trans)
  ultimately have "nId n' = cfgID cfg \<and> node_ok (B + int t + 1) n' (hist i) \<and> wallsBelow (B + int t) n'"
    using ok c_restart.hyps(3,5,6,8) c_restart.prems
    by (intro restart_ok [of "nSnapshotEvery n" "nLog n"]) (auto simp: node_ok_def)
  then have "cluster_inv (B + int t + 1) (nodes(i \<mapsto> n')) (hist(i := hist i)) E"
    using ok c_restart.hyps(2,4) by (intro cluster_inv_update [OF inv]) (auto intro: wallsBelow_mono)
  then show ?case by (simp only: of_nat_add of_nat_1 add.assoc fun_upd_triv)
qed

section \<open>A concrete run\<close>

definition demoConfig :: "node_id \<Rightarrow> config" where
  "demoConfig i = \<lparr>cfgID = i, cfgLog = Some openSQLite, cfgWall = (\<lambda>_. 5), cfgSnapshotEvery = 1\<rparr>"

definition demoNodeA :: node where
  "demoNodeA = projr (newNode (demoConfig ''A''))"

definition demoNodeB :: node where
  "demoNodeB = projr (newNode (demoConfig ''B''))"

definition demoReceived :: node where
  "demoReceived = snd (localStep demoNodeA (Receive ''S'' 7))"

definition demoEvent :: event where
  "demoEvent = opEvent demoNodeA (Receive ''S'' 7) (projr (fst (localStep demoNodeA (Receive ''S'' 7))))"

definition demoMerged :: node where
  "demoMerged = snd (merge demoNodeB [demoEvent])"

abbreviation demoNodes :: "node_id \<rightharpoonup> node" where
  "demoNodes \<equiv> [''A'' \<mapsto> demoReceived, ''B'' \<mapsto> demoMerged]"

abbreviation demoHist :: "node_id \<Rightarrow> event list" where
  "demoHist \<equiv> (\<lambda>_. [])(''A'' := [demoEvent], ''B'' := [demoEvent])"

lemma demo_cluster1:
  "cluster_run 5 1 ([''A'' \<mapsto> demoNodeA, ''B'' \<mapsto> demoNodeB](''A'' \<mapsto> demoReceived))
    ((\<lambda>_. [])(''A'' := [demoEvent])) [demoEvent]"
proof -
  have "is_Inr (newNode (demoConfig ''A''))" "is_Inr (newNode (demoConfig ''B''))" by code_simp+
  then have new: "newNode (demoConfig ''A'') = Inr demoNodeA" "newNode (demoConfig ''B'') = Inr demoNodeB"
    by (simp_all add: demoNodeA_def demoNodeB_def projr_step)
  have "sint (5 :: int64) = 5" by (simp add: sint64_of_int [of 5, simplified])
  then have "cluster_run 5 0 [''A'' \<mapsto> demoNodeA, ''B'' \<mapsto> demoNodeB] (\<lambda>_. []) []"
    using new by (intro c_start) (auto simp: demoConfig_def split: if_splits)
  moreover have "is_Inr (fst (localStep demoNodeA (Receive ''S'' 7)))" by code_simp
  then have "localStep demoNodeA (Receive ''S'' 7) =
      (Inr (projr (fst (localStep demoNodeA (Receive ''S'' 7)))), demoReceived)"
    by (metis projr_step demoReceived_def prod.collapse)
  ultimately have "cluster_run 5 (0 + 1) ([''A'' \<mapsto> demoNodeA, ''B'' \<mapsto> demoNodeB](''A'' \<mapsto> demoReceived))
      ((\<lambda>_. [])(''A'' := [] @ [demoEvent])) ([] @ [demoEvent])"
    unfolding demoEvent_def by (intro c_op) auto
  then show ?thesis by simp
qed

lemma demo_cluster: "cluster_run 5 2 demoNodes demoHist [demoEvent]"
proof -
  let ?nodes1 = "[''A'' \<mapsto> demoNodeA, ''B'' \<mapsto> demoNodeB](''A'' \<mapsto> demoReceived)"
  let ?hist1 = "(\<lambda>_. [])(''A'' := [demoEvent])"
  have "fst (fst (merge demoNodeB [demoEvent])) = None" by code_simp
  then have "merge demoNodeB [demoEvent] = ((None, snd (fst (merge demoNodeB [demoEvent]))), demoMerged)"
    by (metis demoMerged_def prod.collapse)
  moreover have "?nodes1 ''B'' = Some demoNodeB" "set [demoEvent] \<subseteq> set [demoEvent]"
    by simp_all
  ultimately have merged: "?nodes1 ''B'' = Some demoNodeB" "set [demoEvent] \<subseteq> set [demoEvent]"
    "merge demoNodeB [demoEvent] = ((None, snd (fst (merge demoNodeB [demoEvent]))), demoMerged)"
    by blast+
  note run2 = c_merge [OF demo_cluster1 merged]
  have "valid_event demoEvent" by code_simp
  then have "takeIn (?hist1 ''B'') [demoEvent] = [demoEvent]" by (simp add: takeIn_def)
  moreover have "?nodes1(''B'' \<mapsto> demoMerged) = demoNodes" by (simp add: fun_eq_iff)
  ultimately show ?thesis
    using run2 by (simp add: numeral_2_eq_2 del: fun_upd_apply)
qed

text \<open>Nodes that have taken in the same events read the same.\<close>

lemma same_events_same_reading:
  assumes "cluster_inv c nodes hist E" "nodes i = Some a" "nodes j = Some b"
    and "set (hist i) = set (hist j)" "k \<noteq> []"
  shows "getItem a k = getItem b k \<and>
    (vvContains (nodeVersionVector a) x \<longleftrightarrow> vvContains (nodeVersionVector b) x)"
proof -
  have a: "node_ok c a (hist i)" and b: "node_ok c b (hist j)"
    using cluster_invD(4) [OF assms(1)] assms(2,3) by auto
  have rep: "represents (nLog a) (hist i)" "represents (nLog b) (hist j)"
    using node_ok_represents a b by auto
  note same = same_history_same_reading [OF rep assms(4) node_okD(2) [OF a]]
  show ?thesis
    using same [of k x] getItem_history [OF a assms(5)] project_history [OF rep(1) node_okD(2) [OF a], of k]
      assms(5)
    by (simp add: getItem_def nodeVersionVector_def) (metis map_sum.simps(2))
qed

section \<open>Properties of the system\<close>

text \<open>
  C2. Strong eventual consistency of the system: whatever operations, deliveries, losses,
  duplicates, reorderings, snapshots, compactions and restarts came before, two nodes that have
  taken in the same set of events read every item in the same state and report the same vector.
\<close>

theorem cluster_converges:
  assumes "cluster_run B t nodes hist E" "0 \<le> B" "B + int t \<le> maxInt64"
    and "nodes i = Some a" "nodes j = Some b" "set (hist i) = set (hist j)" "k \<noteq> []"
  shows "getItem a k = getItem b k \<and>
    (vvContains (nodeVersionVector a) x \<longleftrightarrow> vvContains (nodeVersionVector b) x)"
proof -
  have "cluster_inv (B + int t) nodes hist E" using assms(1-3) by (rule cluster_run_inv)
  then show ?thesis using assms(4-7) by (rule same_events_same_reading)
qed

theorem cluster_converges_demo:
  "getItem demoReceived ''S'' = getItem demoMerged ''S'' \<and> is_Inr (getItem demoMerged ''S'')"
proof -
  have "is_Inr (getItem demoMerged ''S'')" by code_simp
  then show ?thesis
    using cluster_converges [OF demo_cluster, of "''A''" demoReceived "''B''" demoMerged "''S''" "EventID ''A'' 1"]
    by simp
qed

text \<open>
  Identities and stamps are unique: over a whole run of the system no two emitted events
  share a sequence number of a node, and no two share a timestamp, so the order independence of
  the merge applies to everything the system can produce.
\<close>

lemma cluster_stamps_unique:
  assumes "cluster_run B t nodes hist E" "0 \<le> B" "B + int t \<le> maxInt64"
  shows "distinct (map eID E) \<and> distinct (map eHLC E)"
proof -
  have inv: "cluster_inv (B + int t) nodes hist E" using assms by (rule cluster_run_inv)
  have "distinct (map eID E)" "inj_on eHLC (set E)"
    using cluster_invD(1,2) [OF inv] by (simp_all add: goodEvents_def)
  then show ?thesis by (simp add: distinct_map)
qed

text \<open>
  Causality: an operation that a node acknowledges after any run gets a timestamp above that
  of every event the node has seen, its own or remote, so its writes win over all of them.
\<close>

lemma acknowledged_op_sorts_last:
  assumes "cluster_run B t nodes hist E" "0 \<le> B" "B + int t < maxInt64"
    and "nodes i = Some n" "localStep n op = (Inr k, n')" "e \<in> set (hist i)"
  shows "eHLC e < eHLC (opEvent n op k)"
proof -
  have inv: "cluster_inv (B + int t) nodes hist E" using assms(1-3) by (intro cluster_run_inv) auto
  have "node_ok (B + int t) n (hist i)" "wallsBelow (B + int t) n"
    using cluster_invD(4) [OF inv assms(4)] by auto
  from localStep_result [OF this _ _ assms(5)] show ?thesis
    using assms(2,3,6) by simp
qed

text \<open>
  C37. No acknowledged operation is lost at its node: every event a node has emitted is in its
  history, and reading an item of it folds in every event of the item the node has taken in,
  compaction and restarts notwithstanding.
\<close>

theorem acknowledged_op_not_lost:
  assumes "cluster_run B t nodes hist E" "0 \<le> B" "B + int t \<le> maxInt64" "e \<in> set E"
  shows "\<exists>n. nodes (idNode (eID e)) = Some n \<and> e \<in> set (hist (idNode (eID e))) \<and>
    getItem n (eSKU e) =
      Inr (foldl applyItem newItemState (eventsOf (eSKU e) (hist (idNode (eID e)))))"
proof -
  have inv: "cluster_inv (B + int t) nodes hist E" using assms(1-3) by (rule cluster_run_inv)
  from cluster_invD(5) [OF inv assms(4)] obtain n where
    n: "nodes (idNode (eID e)) = Some n" "e \<in> set (hist (idNode (eID e)))" by auto
  have "eSKU e \<noteq> []"
    using valid_event_header [OF cluster_invD(3) [OF inv assms(4)]] by simp
  with cluster_invD(4) [OF inv n(1)] n show ?thesis
    using getItem_history by blast
qed

theorem acknowledged_op_not_lost_demo:
  "map_sum (\<lambda>_. ()) quantity (getItem demoReceived ''S'') = Inr 7"
proof -
  have id: "idNode (eID demoEvent) = ''A''" "eSKU demoEvent = ''S''" by code_simp+
  have "quantity (foldl applyItem newItemState [demoEvent]) = 7" by code_simp
  then show ?thesis
    using acknowledged_op_not_lost [OF demo_cluster, of demoEvent] by (simp add: id)
qed

end
