(* ===== verification/LabSync.thy ===== *)
theory LabSync
  imports LabCluster
begin

text \<open>
  Replication (\<open>eventlog-lab/sync\<close>): the wire form of events and vectors (\<open>codec.go\<close>), the serving
  end of a session (\<open>server.go\<close>), the dialing end and its backoff (\<open>client.go\<close>), and one session
  over the in-memory transport (\<open>memory.go\<close>). An end of a stream is the frames it will still
  receive, what happens after them, the frames it has sent, and how many more it can send; so any
  dropping, duplicating, reordering or cutting off by the network is a choice of that record.
  A session returns its error, if any, together with the replica it leaves behind: what was merged
  before a failure stays merged. The log lines of the code have no counterpart.
\<close>

section \<open>Wire form\<close>

record wire_event =
  peNodeId :: string
  peSeq :: uint64
  peHlcWall :: int64
  peHlcLogical :: uint32
  peSku :: string
  peKind :: "32 word"
  peDelta :: int64
  peName :: "string option"
  peReorderPoint :: "int64 option"
  peDeletedTo :: "bool option"

definition encodeEvent :: "event \<Rightarrow> malformed + wire_event" where
  "encodeEvent e = (case validate e of Some m \<Rightarrow> Inl m | None \<Rightarrow>
     Inr \<lparr>peNodeId = idNode (eID e), peSeq = idSeq (eID e), peHlcWall = Wall (eHLC e),
       peHlcLogical = Logical (eHLC e), peSku = eSKU e, peKind = ucast (eKind e), peDelta = eDelta e,
       peName = Option.bind (eMeta e) msName, peReorderPoint = Option.bind (eMeta e) msReorderPoint,
       peDeletedTo = eDeletedTo e\<rparr>)"

text \<open>A frame's event pointer may be nil.\<close>

definition decodeEvent :: "wire_event option \<Rightarrow> malformed + event" where
  "decodeEvent pe = (case pe of None \<Rightarrow> Inl NilEventFrame | Some pe \<Rightarrow>
     (let n = peNodeId pe;
          e = \<lparr>eID = EventID n (peSeq pe), eHLC = HLC (peHlcWall pe) (peHlcLogical pe) n,
            eSKU = peSku pe, eKind = scast (peKind pe), eDelta = peDelta pe,
            eMeta = (if peName pe \<noteq> None \<or> peReorderPoint pe \<noteq> None
              then Some \<lparr>msName = peName pe, msReorderPoint = peReorderPoint pe\<rparr> else None),
            eDeletedTo = peDeletedTo pe\<rparr>
      in case validate e of Some m \<Rightarrow> Inl m | None \<Rightarrow> Inr e))"

definition encodeVV :: "version_vector \<Rightarrow> (string, uint64) fmap" where
  "encodeVV vv = foldl (\<lambda>out (k, v). fmupd k v out) fmempty (sorted_list_of_fmap vv)"

definition decodeVV :: "(string, uint64) fmap \<Rightarrow> version_vector" where
  "decodeVV m = foldl (\<lambda>out (k, v). fmupd k v out) fmempty (sorted_list_of_fmap m)"

section \<open>Frames and streams\<close>

type_synonym wire_vv = "(string, uint64) fmap"

datatype client_frame =
    CHello string wire_vv | CEvents "wire_event option list" | CAck wire_vv | CNoBody

datatype server_frame =
    SWelcome string wire_vv | SEvents "wire_event option list" | SAck wire_vv | SNoBody

datatype sync_error =
    SyncNodeError node_error | ReadLocal log_error | Unsendable malformed | SendFailed | RecvFailed
  | RecvEOF | ExpectedHello | EmptyHelloNode | DuplicateHello | UnexpectedFrame | ExpectedWelcome
  | DialFailed | CloseFailed | ContextDone | GaveUp

record ('i, 'o) stream =
  stIn :: "'i list"
  stEOF :: bool
  stOut :: "'o list"
  stCanSend :: "nat option" \<comment> \<open>frames it can still send; \<open>None\<close> for no limit\<close>
  stCloseOk :: bool

fun sendFrame :: "('i, 'o) stream \<Rightarrow> 'o \<Rightarrow> sync_error option \<times> ('i, 'o) stream" where
  "sendFrame st f = (if stCanSend st = Some 0 then (Some SendFailed, st)
     else (None, st\<lparr>stCanSend := map_option (\<lambda>n. n - 1) (stCanSend st), stOut := stOut st @ [f]\<rparr>))"

fun recvFrame :: "('i, 'o) stream \<Rightarrow> (sync_error + 'i) \<times> ('i, 'o) stream" where
  "recvFrame st = (case stIn st of [] \<Rightarrow> (Inl (if stEOF st then RecvEOF else RecvFailed), st)
     | f # fs \<Rightarrow> (Inr f, st\<lparr>stIn := fs\<rparr>))"

section \<open>Sending and merging batches\<close>

definition defaultBatchSize :: nat where
  "defaultBatchSize = 64"

definition batchSizeOf :: "int \<Rightarrow> nat" where
  "batchSizeOf n = (if n \<le> 0 then defaultBatchSize else nat n)"

text \<open>\<open>streamEvents\<close>: the loop over the local events with its current batch; \<open>mk\<close> wraps a batch.\<close>

fun streamLoop :: "nat \<Rightarrow> (wire_event option list \<Rightarrow> 'o) \<Rightarrow> wire_event list \<Rightarrow> (log_error + event) list \<Rightarrow>
    ('i, 'o) stream \<Rightarrow> sync_error option \<times> ('i, 'o) stream" where
  "streamLoop sz mk batch [] st =
     (if batch = [] then (None, st) else sendFrame st (mk (map Some batch)))"
| "streamLoop sz mk batch (Inl err # _) st = (Some (ReadLocal err), st)"
| "streamLoop sz mk batch (Inr e # es) st =
     (case encodeEvent e of Inl m \<Rightarrow> (Some (Unsendable m), st)
      | Inr pe \<Rightarrow>
        (let batch = batch @ [pe] in
         if length batch = sz then
           (case sendFrame st (mk (map Some batch)) of
              (Some err, st) \<Rightarrow> (Some err, st)
            | (None, st) \<Rightarrow> streamLoop sz mk [] es st)
         else streamLoop sz mk batch es st))"

definition streamEvents :: "event_log \<Rightarrow> version_vector \<Rightarrow> nat \<Rightarrow> (wire_event option list \<Rightarrow> 'o) \<Rightarrow>
    ('i, 'o) stream \<Rightarrow> sync_error option \<times> ('i, 'o) stream" where
  "streamEvents l peerVV sz mk st = streamLoop sz mk [] (since l peerVV) st"

text \<open>\<open>mergeFrame\<close>: events that do not decode are skipped, the others merged as one batch.\<close>

fun decodeAll :: "wire_event option list \<Rightarrow> event list" where
  "decodeAll [] = []"
| "decodeAll (pe # pes) = (case decodeEvent pe of Inl _ \<Rightarrow> decodeAll pes | Inr e \<Rightarrow> e # decodeAll pes)"

definition mergeFrame :: "node \<Rightarrow> wire_event option list \<Rightarrow> (node_error option \<times> int) \<times> node" where
  "mergeFrame n pes = merge n (decodeAll pes)"

section \<open>The serving end\<close>

record server =
  srvReplica :: node
  srvBatchSize :: nat

definition newServer :: "node \<Rightarrow> int \<Rightarrow> server" where
  "newServer n sz = \<lparr>srvReplica = n, srvBatchSize = batchSizeOf sz\<rparr>"

fun recvHello :: "(client_frame, server_frame) stream \<Rightarrow>
    (sync_error + (string \<times> wire_vv)) \<times> (client_frame, server_frame) stream" where
  "recvHello st = (case recvFrame st of (Inl err, st) \<Rightarrow> (Inl err, st)
     | (Inr (CHello i vv), st) \<Rightarrow> (if i = [] then (Inl EmptyHelloNode, st) else (Inr (i, vv), st))
     | (Inr _, st) \<Rightarrow> (Inl ExpectedHello, st))"

text \<open>\<open>warnOnRegression\<close> only decides whether a warning is logged.\<close>

definition warnOnRegression :: "node \<Rightarrow> node_id \<Rightarrow> version_vector \<Rightarrow> bool" where
  "warnOnRegression n peer peerVV \<longleftrightarrow> vv_get peerVV peer < cursor (nLog n) peer"

text \<open>The loop of \<open>consume\<close>, over the frames still to come.\<close>

fun serverConsume :: "node \<Rightarrow> node_id \<Rightarrow> client_frame list \<Rightarrow> bool \<Rightarrow> sync_error option \<times> node" where
  "serverConsume n peer [] eof = ((if eof then None else Some RecvFailed), n)"
| "serverConsume n peer (CEvents pes # fs) eof =
     (case mergeFrame n pes of
        ((Some err, _), n) \<Rightarrow> (Some (SyncNodeError err), n)
      | ((None, _), n) \<Rightarrow> serverConsume n peer fs eof)"
| "serverConsume n peer (CAck vv # _) eof =
     (None, n\<lparr>nLog := setCursor (nLog n) peer (vv_get (decodeVV vv) peer)\<rparr>)"
| "serverConsume n peer (CHello _ _ # _) eof = (Some DuplicateHello, n)"
| "serverConsume n peer (CNoBody # _) eof = (Some UnexpectedFrame, n)"

definition session :: "server \<Rightarrow> (client_frame, server_frame) stream \<Rightarrow>
    sync_error option \<times> server \<times> (client_frame, server_frame) stream" where
  "session s st =
    (let n = srvReplica s in
     case recvHello st of (Inl err, st) \<Rightarrow> (Some err, s, st)
     | (Inr (peer, helloVV), st) \<Rightarrow>
       (let peerVV = decodeVV helloVV; mine = nodeVersionVector n in
        case sendFrame st (SWelcome (nId n) (encodeVV mine)) of (Some err, st) \<Rightarrow> (Some err, s, st)
        | (None, st) \<Rightarrow>
          (case streamEvents (nLog n) peerVV (srvBatchSize s) SEvents st of (Some err, st) \<Rightarrow> (Some err, s, st)
           | (None, st) \<Rightarrow>
             (case sendFrame st (SAck (encodeVV mine)) of (Some err, st) \<Rightarrow> (Some err, s, st)
              | (None, st) \<Rightarrow>
                (let (err, n) = serverConsume n peer (stIn st) (stEOF st)
                 in (err, s\<lparr>srvReplica := n\<rparr>, st))))))"

section \<open>The dialing end\<close>

record report =
  repSent :: int
  repReceived :: int
  repRejected :: int
  repPeerID :: node_id
  repPeerVV :: version_vector

record client =
  clReplica :: node
  clBatchSize :: nat

definition newClient :: "node \<Rightarrow> int \<Rightarrow> client" where
  "newClient n sz = \<lparr>clReplica = n, clBatchSize = batchSizeOf sz\<rparr>"

text \<open>The loop of the client's \<open>consume\<close>: events are merged until the peer's ack.\<close>

fun clientConsumeLoop :: "node \<Rightarrow> report \<Rightarrow> server_frame list \<Rightarrow> bool \<Rightarrow>
    (sync_error + report) \<times> node \<times> server_frame list" where
  "clientConsumeLoop n rep [] eof = (Inl (if eof then RecvEOF else RecvFailed), n, [])"
| "clientConsumeLoop n rep (SEvents pes # fs) eof =
     (case mergeFrame n pes of
        ((Some err, _), n) \<Rightarrow> (Inl (SyncNodeError err), n, fs)
      | ((None, k), n) \<Rightarrow>
        (let rejected = int (length pes) - k in
         clientConsumeLoop n
           (rep\<lparr>repRejected := (if 0 < rejected then repRejected rep + rejected else repRejected rep),
              repReceived := repReceived rep + k\<rparr>) fs eof))"
| "clientConsumeLoop n rep (SAck _ # fs) eof = (Inr rep, n, fs)"
| "clientConsumeLoop n rep (SWelcome _ _ # fs) eof = (Inl UnexpectedFrame, n, fs)"
| "clientConsumeLoop n rep (SNoBody # fs) eof = (Inl UnexpectedFrame, n, fs)"

definition clientConsume :: "node \<Rightarrow> (server_frame, client_frame) stream \<Rightarrow>
    (sync_error + report) \<times> node \<times> (server_frame, client_frame) stream" where
  "clientConsume n st = (case recvFrame st of (Inl err, st) \<Rightarrow> (Inl err, n, st)
     | (Inr (SWelcome i vv), st) \<Rightarrow>
       (let rep = \<lparr>repSent = 0, repReceived = 0, repRejected = 0, repPeerID = i, repPeerVV = decodeVV vv\<rparr>;
            (r, n, fs) = clientConsumeLoop n rep (stIn st) (stEOF st)
        in (r, n, st\<lparr>stIn := fs\<rparr>))
     | (Inr _, st) \<Rightarrow> (Inl ExpectedWelcome, n, st))"

text \<open>Events put on the wire in the event frames of a stream, which is what \<open>rep.Sent\<close> counts.\<close>

fun countSent :: "client_frame list \<Rightarrow> int" where
  "countSent [] = 0"
| "countSent (CEvents pes # fs) = int (length pes) + countSent fs"
| "countSent (_ # fs) = countSent fs"

text \<open>\<open>SyncOnce\<close>, given the stream the dialer returned, if it returned one.\<close>

definition syncOnce :: "client \<Rightarrow> (server_frame, client_frame) stream option \<Rightarrow>
    (sync_error + report) \<times> client \<times> (server_frame, client_frame) stream option" where
  "syncOnce c dialed =
    (let n = clReplica c; mine = nodeVersionVector n in
     case dialed of None \<Rightarrow> (Inl DialFailed, c, None)
     | Some st \<Rightarrow>
       (case sendFrame st (CHello (nId n) (encodeVV mine)) of (Some err, st) \<Rightarrow> (Inl err, c, Some st)
        | (None, st) \<Rightarrow>
          (case clientConsume n st of
             (Inl err, n, st) \<Rightarrow> (Inl err, c\<lparr>clReplica := n\<rparr>, Some st)
           | (Inr rep, n, st) \<Rightarrow>
             (let c = c\<lparr>clReplica := n\<rparr> in
              case streamEvents (nLog n) (repPeerVV rep) (clBatchSize c) CEvents st of
                (Some err, st) \<Rightarrow> (Inl err, c, Some st)
              | (None, st') \<Rightarrow>
                (let rep = rep\<lparr>repSent := countSent (drop (length (stOut st)) (stOut st'))\<rparr>;
                     aftr = nodeVersionVector n in
                 case sendFrame st' (CAck (encodeVV aftr)) of (Some err, st) \<Rightarrow> (Inl err, c, Some st)
                 | (None, st) \<Rightarrow>
                   (if \<not> stCloseOk st then (Inl CloseFailed, c, Some st)
                    else (Inr rep,
                      c\<lparr>clReplica := n\<lparr>nLog := setCursor (nLog n) (repPeerID rep)
                          (vv_get aftr (repPeerID rep))\<rparr>\<rparr>, Some st)))))))"

section \<open>Backoff\<close>

text \<open>Durations are nanoseconds in an \<open>int64\<close>.\<close>

definition maxBackoff :: int64 where
  "maxBackoff = 30000000000"

fun backoffLoop :: "nat \<Rightarrow> int64 \<Rightarrow> int64" where
  "backoffLoop 0 d = (if sint maxBackoff < sint d then maxBackoff else d)"
| "backoffLoop (Suc i) d = (if sint maxBackoff div 2 \<le> sint d then maxBackoff else backoffLoop i (d * 2))"

definition backoffFor :: "int64 \<Rightarrow> int \<Rightarrow> int64" where
  "backoffFor base attempt = (if sint base \<le> 0 then 0 else backoffLoop (nat attempt) base)"

text \<open>
  \<open>SyncWithBackoff\<close>: \<open>dials\<close> gives each attempt's stream and \<open>ctxErr\<close> whether the context is done
  before it; the third component of the result is the delays slept.
\<close>

fun backoffAttempts :: "nat \<Rightarrow> int \<Rightarrow> client \<Rightarrow> (int \<Rightarrow> (server_frame, client_frame) stream option) \<Rightarrow>
    (int \<Rightarrow> bool) \<Rightarrow> int \<Rightarrow> int64 \<Rightarrow> (sync_error + report) \<times> client \<times> int64 list" where
  "backoffAttempts 0 attempt c dials ctxErr attempts base = (Inl GaveUp, c, [])"
| "backoffAttempts (Suc left) attempt c dials ctxErr attempts base =
    (if ctxErr attempt then (Inl ContextDone, c, [])
     else (case syncOnce c (dials attempt) of
         (Inr rep, c, _) \<Rightarrow> (Inr rep, c, [])
       | (Inl _, c, _) \<Rightarrow>
         (let delay = (if attempt < attempts - 1 then [backoffFor base attempt] else []);
              (r, c, ds) = backoffAttempts left (attempt + 1) c dials ctxErr attempts base
          in (r, c, delay @ ds))))"

definition syncWithBackoff :: "client \<Rightarrow> (int \<Rightarrow> (server_frame, client_frame) stream option) \<Rightarrow>
    (int \<Rightarrow> bool) \<Rightarrow> int \<Rightarrow> int64 \<Rightarrow> (sync_error + report) \<times> client \<times> int64 list" where
  "syncWithBackoff c dials ctxErr attempts base =
     backoffAttempts (nat attempts) 0 c dials ctxErr attempts base"

section \<open>A session over the in-memory transport\<close>

text \<open>
  With the pass-through filter every frame sent is received once and in order. The server's
  frames depend only on the client's first frame, so running the server on the hello alone gives
  the frames the client receives, and running it on everything the client then sends gives its
  final state. The server sees the end of the stream if the client got as far as closing it; its
  error is what the client's close reports.
\<close>

definition serverEnd :: "client_frame list \<Rightarrow> bool \<Rightarrow> (client_frame, server_frame) stream" where
  "serverEnd fs eof = \<lparr>stIn = fs, stEOF = eof, stOut = [], stCanSend = None, stCloseOk = True\<rparr>"

definition clientEnd :: "server_frame list \<Rightarrow> bool \<Rightarrow> (server_frame, client_frame) stream" where
  "clientEnd fs closeOk = \<lparr>stIn = fs, stEOF = True, stOut = [], stCanSend = None, stCloseOk = closeOk\<rparr>"

definition memSession :: "client \<Rightarrow> server \<Rightarrow> (sync_error + report) \<times> client \<times> sync_error option \<times> server" where
  "memSession c s =
    (let n = clReplica c; hello = CHello (nId n) (encodeVV (nodeVersionVector n));
         (_, _, sst) = session s (serverEnd [hello] False);
         (r, _, cst) = syncOnce c (Some (clientEnd (stOut sst) True));
         (err, s', _) = session s (serverEnd (case cst of None \<Rightarrow> [] | Some st \<Rightarrow> stOut st) (is_Inr r));
         (r, c', _) = syncOnce c (Some (clientEnd (stOut sst) (err = None)))
     in (r, c', err, s'))"

section \<open>The codec\<close>

lemma decodeVV_encodeVV [simp]: "decodeVV (encodeVV vv) = vv"
  unfolding encodeVV_def decodeVV_def vvClone_def [symmetric] by simp

lemma wire_kind: "kindValid k \<Longrightarrow> scast (ucast k :: 32 word) = k"
  by (auto simp: kindValid_def)

lemma encode_decode:
  assumes "valid_event e"
  shows "\<exists>pe. encodeEvent e = Inr pe \<and> decodeEvent (Some pe) = Inr e"
proof -
  obtain w l n where h: "eHLC e = HLC w l n" by (cases "eHLC e")
  have n: "n = idNode (eID e)" using valid_event_header [OF assms] h by simp
  have k: "kindValid (eKind e)" using assms by (simp add: validate_def split: if_splits)
  have m: "eMeta e = (if Option.bind (eMeta e) msName \<noteq> None \<or> Option.bind (eMeta e) msReorderPoint \<noteq> None
      then Some \<lparr>msName = Option.bind (eMeta e) msName, msReorderPoint = Option.bind (eMeta e) msReorderPoint\<rparr>
      else None)"
    using assms by (cases rule: valid_event_kinds) auto
  have "\<lparr>eID = EventID (idNode (eID e)) (idSeq (eID e)),
      eHLC = HLC (Wall (eHLC e)) (Logical (eHLC e)) (idNode (eID e)), eSKU = eSKU e,
      eKind = scast (ucast (eKind e) :: 32 word), eDelta = eDelta e,
      eMeta = (if Option.bind (eMeta e) msName \<noteq> None \<or> Option.bind (eMeta e) msReorderPoint \<noteq> None
        then Some \<lparr>msName = Option.bind (eMeta e) msName, msReorderPoint = Option.bind (eMeta e) msReorderPoint\<rparr>
        else None), eDeletedTo = eDeletedTo e\<rparr> = e"
    unfolding wire_kind [OF k] m [symmetric] using h n by (cases e) simp
  then show ?thesis
    using assms by (simp only: encodeEvent_def decodeEvent_def Let_def option.case sum.inject
        wire_event.select_convs simp_thms)
qed

definition wireOf :: "event \<Rightarrow> wire_event" where
  "wireOf e = projr (encodeEvent e)"

lemma wireOf_simps:
  assumes "valid_event e"
  shows "encodeEvent e = Inr (wireOf e)" "decodeEvent (Some (wireOf e)) = Inr e"
  using encode_decode [OF assms] by (auto simp: wireOf_def)

lemma decodeEvent_valid: "decodeEvent pe = Inr e \<Longrightarrow> valid_event e"
  by (auto simp: decodeEvent_def Let_def split: option.splits)

lemma decodeAll_valid: "e \<in> set (decodeAll pes) \<Longrightarrow> valid_event e"
  by (induction pes) (auto split: sum.splits dest: decodeEvent_valid)

lemma decodeAll_wire: "\<forall>e \<in> set es. valid_event e \<Longrightarrow> decodeAll (map (\<lambda>e. Some (wireOf e)) es) = es"
  by (induction es) (auto simp: wireOf_simps)

lemma decodeAll_append: "decodeAll (xs @ ys) = decodeAll xs @ decodeAll ys"
  by (induction xs) (auto split: sum.split)

text \<open>
  C40. The wire form loses nothing: a valid event encodes, and decodes to itself. Whatever decodes is
  valid, so nothing a peer sends can put an invalid event into a merge; and vectors survive the wire.
\<close>

theorem wire_roundtrip:
  "(valid_event e \<longrightarrow> (\<exists>pe. encodeEvent e = Inr pe \<and> decodeEvent (Some pe) = Inr e)) \<and>
   (decodeEvent pe = Inr e \<longrightarrow> valid_event e) \<and> decodeVV (encodeVV vv) = vv"
  using encode_decode decodeEvent_valid by simp

theorem wire_roundtrip_demo:
  "\<exists>pe. encodeEvent demoA = Inr pe \<and> decodeEvent (Some pe) = Inr demoA"
proof -
  have "valid_event demoA" by code_simp
  then show ?thesis using wire_roundtrip [of demoA] by blast
qed

section \<open>Batches\<close>

lemma sendFrame_unlimited:
  "stCanSend st = None \<Longrightarrow> sendFrame st f = (None, st\<lparr>stOut := stOut st @ [f]\<rparr>)"
  by (cases st) simp

lemma streamLoop_batches:
  fixes mk :: "wire_event option list \<Rightarrow> 'o"
  assumes "length batch < sz" "\<forall>e \<in> set es. valid_event e"
  shows "\<exists>bs. (\<forall>st :: ('i, 'o) stream. stCanSend st = None \<longrightarrow> streamLoop sz mk batch (map Inr es) st =
      (None, st\<lparr>stOut := stOut st @ map (\<lambda>b. mk (map Some b)) bs\<rparr>)) \<and>
    concat bs = batch @ map wireOf es \<and> (\<forall>b \<in> set bs. b \<noteq> [] \<and> length b \<le> sz)"
  using assms
proof (induction es arbitrary: batch)
  case Nil
  show ?case
  proof (cases "batch = []")
    case True
    then show ?thesis by (intro exI [of _ "[]"]) simp
  next
    case False
    with Nil show ?thesis
      by (intro exI [of _ "[batch]"]) (simp add: sendFrame_unlimited del: sendFrame.simps)
  qed
next
  case (Cons e es)
  have e: "encodeEvent e = Inr (wireOf e)" using Cons.prems(2) by (simp add: wireOf_simps)
  let ?b = "batch @ [wireOf e]"
  show ?case
  proof (cases "length ?b = sz")
    case True
    obtain bs where bs: "\<forall>st :: ('i, 'o) stream. stCanSend st = None \<longrightarrow> streamLoop sz mk [] (map Inr es) st =
        (None, st\<lparr>stOut := stOut st @ map (\<lambda>b. mk (map Some b)) bs\<rparr>)"
      "concat bs = [] @ map wireOf es" "\<forall>b \<in> set bs. b \<noteq> [] \<and> length b \<le> sz"
      using Cons.IH [of "[]"] Cons.prems by auto
    have "streamLoop sz mk batch (map Inr (e # es)) st =
        (None, st\<lparr>stOut := stOut st @ map (\<lambda>b. mk (map Some b)) (?b # bs)\<rparr>)"
      if "stCanSend st = None" for st :: "('i, 'o) stream"
      using bs(1) that True e by (simp add: Let_def sendFrame_unlimited del: sendFrame.simps)
    then show ?thesis
      using True bs(2,3) by (intro exI [of _ "?b # bs"]) auto
  next
    case False
    then have "length ?b < sz" using Cons.prems(1) by simp
    from Cons.IH [OF this] Cons.prems(2) e False show ?thesis
      by (auto simp: Let_def)
  qed
qed

lemma streamEvents_batches:
  fixes mk :: "wire_event option list \<Rightarrow> 'o"
  assumes rep: "represents l h" and "0 < sz"
  obtains bs es where
    "\<And>st :: ('i, 'o) stream. stCanSend st = None \<Longrightarrow>
      streamEvents l vv sz mk st = (None, st\<lparr>stOut := stOut st @ map mk bs\<rparr>)"
    "concat (map decodeAll bs) = es" "since l vv = map Inr es" "distinct es"
    "set es = {e \<in> set h. fmlookup (elEvents l) (eID e) \<noteq> None \<and> \<not> vvContains vv (eID e)}"
    "\<forall>b \<in> set bs. b \<noteq> [] \<and> length b \<le> sz"
proof -
  obtain es where es: "since l vv = map Inr es" "distinct es"
    "set es = {e \<in> set h. fmlookup (elEvents l) (eID e) \<noteq> None \<and> \<not> vvContains vv (eID e)}"
    using since_events [OF rep] .
  have v: "\<forall>e \<in> set es. valid_event e"
    using es(3) represents_parts(1) [OF rep] by (auto simp: wf_history_def)
  obtain ws where ws: "\<forall>st :: ('i, 'o) stream. stCanSend st = None \<longrightarrow> streamEvents l vv sz mk st =
      (None, st\<lparr>stOut := stOut st @ map (\<lambda>b. mk (map Some b)) ws\<rparr>)"
    "concat ws = map wireOf es" "\<forall>b \<in> set ws. b \<noteq> [] \<and> length b \<le> sz"
    using streamLoop_batches [OF _ v, of "[]" sz mk] assms(2)
    by (auto simp: streamEvents_def es(1))
  have "concat (map decodeAll (map (map Some) ws)) = decodeAll (concat (map (map Some) ws))"
    by (induction ws) (simp_all add: decodeAll_append)
  also have "concat (map (map Some) ws) = map Some (concat ws)"
    by (simp add: map_concat)
  also have "decodeAll (map Some (concat ws)) = es"
    using decodeAll_wire [OF v] by (simp add: ws(2) comp_def)
  finally have "concat (map decodeAll (map (map Some) ws)) = es" .
  moreover have "streamEvents l vv sz mk st = (None, st\<lparr>stOut := stOut st @ map mk (map (map Some) ws)\<rparr>)"
    if "stCanSend st = None" for st :: "('i, 'o) stream"
    using ws(1) that by (simp add: comp_def)
  moreover have "\<forall>b \<in> set (map (map Some) ws). b \<noteq> [] \<and> length b \<le> sz"
    using ws(3) by auto
  ultimately show ?thesis using that es by blast
qed

text \<open>
  What one end streams: every event it holds a row of and the peer's vector does not cover,
  each exactly once, in timestamp order, in frames of at most the batch size and none empty.
\<close>

lemma stream_sends_missing_events:
  assumes "log_run every l h" "inj_on eHLC (set h)" "0 < sz" "stCanSend st = None"
  shows "\<exists>bs es. streamEvents l vv sz mk st = (None, st\<lparr>stOut := stOut st @ map mk bs\<rparr>) \<and>
    concat (map decodeAll bs) = es \<and> since l vv = map Inr es \<and> distinct es \<and>
    set es = {e \<in> set h. fmlookup (elEvents l) (eID e) \<noteq> None \<and> \<not> vvContains vv (eID e)} \<and>
    (\<forall>b \<in> set bs. b \<noteq> [] \<and> length b \<le> sz)"
  by (rule streamEvents_batches [OF log_run_represents [OF assms(1,2)] assms(3), of vv mk])
    (use assms(4) in blast)

section \<open>Merging frames in the system\<close>

lemma cluster_merge_frame:
  assumes run: "cluster_run B t nodes hist E" "0 \<le> B" and i: "nodes i = Some n"
    and pes: "set (decodeAll pes) \<subseteq> set E" "B + int (t + length (decodeAll pes)) \<le> maxInt64"
  shows "\<exists>n'. mergeFrame n pes = ((None, int (length (decodeAll pes))), n') \<and>
    cluster_run B (t + length (decodeAll pes)) (nodes(i \<mapsto> n')) (hist(i := takeIn (hist i) (decodeAll pes))) E \<and>
    nId n' = nId n"
proof -
  let ?es = "decodeAll pes"
  have inv: "cluster_inv (B + int t) nodes hist E" using run pes(2) by (intro cluster_run_inv) auto
  have ok: "node_ok (B + int t) n (hist i)" "wallsBelow (B + int t) n" "set (hist i) \<subseteq> set E"
    using cluster_invD(4) [OF inv i] by auto
  have good: "goodEvents (B + int t) (set (hist i) \<union> set ?es)"
    using cluster_invD(2) [OF inv] by (rule goodEvents_mono) (use ok pes(1) in auto)
  obtain err acc n' where m: "merge n ?es = ((err, acc), n')" by (metis surj_pair)
  have "filter valid_event ?es = ?es" by (rule filter_True) (auto dest: decodeAll_valid)
  with merge_result [OF ok(1,2) _ good m] pes(2)
  have r: "err = None" "acc = int (length ?es)" "nId n' = nId n" by auto
  with c_merge [OF run(1) i pes(1)] m show ?thesis
    by (auto simp: mergeFrame_def)
qed

text \<open>Event frames in a sequence of frames, and the events they decode to.\<close>

fun clientEvents :: "client_frame list \<Rightarrow> event list" where
  "clientEvents [] = []"
| "clientEvents (CEvents pes # fs) = decodeAll pes @ clientEvents fs"
| "clientEvents (_ # fs) = clientEvents fs"

fun serverEvents :: "server_frame list \<Rightarrow> event list" where
  "serverEvents [] = []"
| "serverEvents (SEvents pes # fs) = decodeAll pes @ serverEvents fs"
| "serverEvents (_ # fs) = serverEvents fs"

text \<open>The events of a well-formed sequence: event frames up to an ack.\<close>

fun clientBatches :: "client_frame list \<Rightarrow> event list option" where
  "clientBatches [] = None"
| "clientBatches (CEvents pes # fs) = map_option (\<lambda>es. decodeAll pes @ es) (clientBatches fs)"
| "clientBatches (CAck _ # _) = Some []"
| "clientBatches (_ # _) = None"

fun serverBatches :: "server_frame list \<Rightarrow> event list option" where
  "serverBatches [] = None"
| "serverBatches (SEvents pes # fs) = map_option (\<lambda>es. decodeAll pes @ es) (serverBatches fs)"
| "serverBatches (SAck _ # _) = Some []"
| "serverBatches (_ # _) = None"

lemma clientBatches_frames:
  "clientBatches (map CEvents bs @ CAck vv # fs) = Some (concat (map decodeAll bs))"
  "clientEvents (map CEvents bs @ [CAck vv]) = concat (map decodeAll bs)"
  by (induction bs) simp_all

lemma serverBatches_frames:
  "serverBatches (map SEvents bs @ SAck vv # fs) = Some (concat (map decodeAll bs))"
  "serverEvents (map SEvents bs @ [SAck vv]) = concat (map decodeAll bs)"
  by (induction bs) simp_all

text \<open>
  Whatever frames arrive, in whatever order and however the stream ends, an end of a session
  only takes steps of the system, and keeps what it has merged.
\<close>

definition reaches :: "int \<Rightarrow> nat \<Rightarrow> (node_id \<rightharpoonup> node) \<Rightarrow> (node_id \<Rightarrow> event list) \<Rightarrow> event list \<Rightarrow>
    node_id \<Rightarrow> nat \<Rightarrow> node \<Rightarrow> event set \<Rightarrow> bool" where
  "reaches B t nodes hist E i d n' S \<longleftrightarrow> (\<exists>t' h'. cluster_run B t' (nodes(i \<mapsto> n')) (hist(i := h')) E \<and>
     t' \<le> t + d \<and> nId n' = i \<and> set h' = set (hist i) \<union> S)"

lemma reaches_stay:
  assumes "cluster_run B t (nodes(j \<mapsto> n)) hist E" "nId n = j"
  shows "reaches B t nodes hist E j d n {}"
proof -
  have "cluster_run B t (nodes(j \<mapsto> n)) (hist(j := hist j)) E" using assms(1) by simp
  with assms(2) show ?thesis unfolding reaches_def by fastforce
qed

lemma reaches_refl:
  "cluster_run B t nodes hist E \<Longrightarrow> nodes j = Some n \<Longrightarrow> nId n = j \<Longrightarrow> reaches B t nodes hist E j d n {}"
  by (rule reaches_stay) (simp_all add: map_upd_triv)

lemma reaches_step:
  assumes "reaches B (t + length (decodeAll pes)) (nodes(j \<mapsto> n1))
    (hist(j := takeIn (hist j) (decodeAll pes))) E j d n' S"
  shows "reaches B t nodes hist E j (length (decodeAll pes) + d) n' (set (decodeAll pes) \<union> S)"
proof -
  have "{e \<in> set (decodeAll pes). valid_event e} = set (decodeAll pes)"
    by (auto dest: decodeAll_valid)
  moreover from assms obtain t' h' where r:
    "cluster_run B t' (nodes(j \<mapsto> n')) (hist(j := h')) E" "t' \<le> t + length (decodeAll pes) + d" "nId n' = j"
    "set h' = set (takeIn (hist j) (decodeAll pes)) \<union> S"
    by (auto simp: reaches_def)
  ultimately have "set h' = set (hist j) \<union> (set (decodeAll pes) \<union> S)" by (auto simp: set_takeIn)
  moreover have "t' \<le> t + (length (decodeAll pes) + d)" using r(2) by simp
  ultimately show ?thesis using r(1,3) unfolding reaches_def by blast
qed

lemma serverConsume_reaches:
  assumes "cluster_run B t nodes hist E" "0 \<le> B" "nodes j = Some n" "nId n = j"
    "set (clientEvents fs) \<subseteq> set E" "B + int (t + length (clientEvents fs)) \<le> maxInt64"
    "serverConsume n peer fs eof = (err, n')"
  shows "\<exists>S \<subseteq> set (clientEvents fs). reaches B t nodes hist E j (length (clientEvents fs)) n' S \<and>
    (\<forall>es. clientBatches fs = Some es \<longrightarrow> err = None \<and> S = set es)"
  using assms
proof (induction n peer fs eof arbitrary: t nodes hist rule: serverConsume.induct)
  case (1 n peer eof)
  then show ?case
    by (intro exI [of _ "{}"]) (auto intro: reaches_refl)
next
  case (2 n peer pes fs eof)
  let ?d = "length (decodeAll pes)"
  obtain n1 where n1: "mergeFrame n pes = ((None, int ?d), n1)" "nId n1 = nId n"
    "cluster_run B (t + ?d) (nodes(j \<mapsto> n1)) (hist(j := takeIn (hist j) (decodeAll pes))) E"
    using cluster_merge_frame [OF "2.prems"(1,2,3), of pes] "2.prems"(5,6) by auto
  have "\<exists>S \<subseteq> set (clientEvents fs). reaches B (t + ?d) (nodes(j \<mapsto> n1))
      (hist(j := takeIn (hist j) (decodeAll pes))) E j (length (clientEvents fs)) n' S \<and>
      (\<forall>es. clientBatches fs = Some es \<longrightarrow> err = None \<and> S = set es)"
    using "2.prems" n1 by (intro "2.IH") (auto simp add: fun_upd_same simp del: fun_upd_apply)
  then obtain S where S: "S \<subseteq> set (clientEvents fs)"
    "reaches B (t + ?d) (nodes(j \<mapsto> n1)) (hist(j := takeIn (hist j) (decodeAll pes))) E j (length (clientEvents fs)) n' S"
    "\<forall>es. clientBatches fs = Some es \<longrightarrow> err = None \<and> S = set es"
    by blast
  have "reaches B t nodes hist E j (length (clientEvents (CEvents pes # fs))) n' (set (decodeAll pes) \<union> S)"
    using reaches_step [OF S(2)] by simp
  with S(1,3) show ?case
    by (intro exI [of _ "set (decodeAll pes) \<union> S"]) auto
next
  case (3 n peer vv fs eof)
  let ?n = "n\<lparr>nLog := setCursor (nLog n) peer (vv_get (decodeVV vv) peer)\<rparr>"
  have "cluster_run B t (nodes(j \<mapsto> ?n)) hist E"
    using "3.prems"(1,3) by (rule c_cursor)
  with "3.prems" show ?case
    by (intro exI [of _ "{}"]) (auto intro: reaches_stay)
next
  case (4 n peer i vv fs eof)
  then show ?case
    by (intro exI [of _ "{}"]) (auto intro: reaches_refl)
next
  case (5 n peer fs eof)
  then show ?case
    by (intro exI [of _ "{}"]) (auto intro: reaches_refl)
qed

lemma clientConsumeLoop_reaches:
  assumes "cluster_run B t nodes hist E" "0 \<le> B" "nodes j = Some n" "nId n = j"
    "set (serverEvents fs) \<subseteq> set E" "B + int (t + length (serverEvents fs)) \<le> maxInt64"
    "clientConsumeLoop n rep fs eof = (r, n', rest)"
  shows "\<exists>S \<subseteq> set (serverEvents fs). reaches B t nodes hist E j (length (serverEvents fs)) n' S \<and>
    (\<forall>rep'. r = Inr rep' \<longrightarrow> repPeerVV rep' = repPeerVV rep \<and> repPeerID rep' = repPeerID rep) \<and>
    (\<forall>es. serverBatches fs = Some es \<longrightarrow> is_Inr r \<and> S = set es)"
  using assms
proof (induction n rep fs eof arbitrary: t nodes hist rule: clientConsumeLoop.induct)
  case (1 n rep eof)
  then show ?case
    by (intro exI [of _ "{}"]) (auto intro: reaches_refl)
next
  case (2 n rep pes fs eof)
  let ?d = "length (decodeAll pes)"
  let ?rejected = "int (length pes) - int ?d"
  let ?rep = "rep\<lparr>repRejected := (if 0 < ?rejected then repRejected rep + ?rejected else repRejected rep),
    repReceived := repReceived rep + int ?d\<rparr>"
  obtain n1 where n1: "mergeFrame n pes = ((None, int ?d), n1)" "nId n1 = nId n"
    "cluster_run B (t + ?d) (nodes(j \<mapsto> n1)) (hist(j := takeIn (hist j) (decodeAll pes))) E"
    using cluster_merge_frame [OF "2.prems"(1,2,3), of pes] "2.prems"(5,6) by auto
  have loop: "clientConsumeLoop n1 ?rep fs eof = (r, n', rest)"
    using "2.prems"(7) n1(1) by (simp add: Let_def)
  have "\<exists>S \<subseteq> set (serverEvents fs). reaches B (t + ?d) (nodes(j \<mapsto> n1))
      (hist(j := takeIn (hist j) (decodeAll pes))) E j (length (serverEvents fs)) n' S \<and>
      (\<forall>rep'. r = Inr rep' \<longrightarrow> repPeerVV rep' = repPeerVV ?rep \<and> repPeerID rep' = repPeerID ?rep) \<and>
      (\<forall>es. serverBatches fs = Some es \<longrightarrow> is_Inr r \<and> S = set es)"
  proof (rule "2.IH" [OF n1(1) [symmetric] refl refl refl])
    show "clientConsumeLoop n1 ?rep fs eof = (r, n', rest)" by (rule loop)
  qed (use "2.prems" n1 in \<open>auto simp add: fun_upd_same simp del: fun_upd_apply\<close>)
  then obtain S where S: "S \<subseteq> set (serverEvents fs)"
    "reaches B (t + ?d) (nodes(j \<mapsto> n1)) (hist(j := takeIn (hist j) (decodeAll pes))) E j (length (serverEvents fs)) n' S"
    "\<forall>rep'. r = Inr rep' \<longrightarrow> repPeerVV rep' = repPeerVV rep \<and> repPeerID rep' = repPeerID rep"
    "\<forall>es. serverBatches fs = Some es \<longrightarrow> is_Inr r \<and> S = set es"
    by auto
  have "reaches B t nodes hist E j (length (serverEvents (SEvents pes # fs))) n' (set (decodeAll pes) \<union> S)"
    using reaches_step [OF S(2)] by simp
  with S(1,3,4) show ?case
    by (intro exI [of _ "set (decodeAll pes) \<union> S"]) auto
next
  case (3 n rep vv fs eof)
  then show ?case
    by (intro exI [of _ "{}"]) (auto intro: reaches_refl)
next
  case (4 n rep i vv fs eof)
  then show ?case
    by (intro exI [of _ "{}"]) (auto intro: reaches_refl)
next
  case (5 n rep fs eof)
  then show ?case
    by (intro exI [of _ "{}"]) (auto intro: reaches_refl)
qed

lemma sendFrame_in: "stIn (snd (sendFrame st f)) = stIn st" "stEOF (snd (sendFrame st f)) = stEOF st"
  by simp_all

lemma streamLoop_in: "stIn (snd (streamLoop sz mk batch es st)) = stIn st"
  by (induction sz mk batch es st rule: streamLoop.induct) (auto simp: Let_def split: sum.split)

section \<open>Sessions under faults\<close>

lemma wire_demo: "valid_event demoEvent"
  by code_simp

lemma session_reaches:
  assumes run: "cluster_run B t nodes hist E" "0 \<le> B" and s: "nodes j = Some (srvReplica s)" "nId (srvReplica s) = j"
    and ev: "set (clientEvents (stIn st)) \<subseteq> set E" "B + int (t + length (clientEvents (stIn st))) \<le> maxInt64"
    and res: "session s st = (err, s', st')"
  shows "\<exists>S \<subseteq> set (clientEvents (stIn st)).
    reaches B t nodes hist E j (length (clientEvents (stIn st))) (srvReplica s') S"
proof -
  have stay: ?thesis if "s' = s"
    using that reaches_refl [OF run(1) s] by blast
  obtain r st1 where h: "recvHello st = (r, st1)" by fastforce
  show ?thesis
  proof (cases r)
    case (Inl e)
    with res h stay show ?thesis by (auto simp: session_def Let_def)
  next
    case (Inr hello)
    obtain peer vv where hello: "hello = (peer, vv)" by (cases hello)
    have in1: "stIn st = CHello peer vv # stIn st1"
      using h Inr hello by (auto split: list.splits client_frame.splits if_splits)
    let ?mine = "nodeVersionVector (srvReplica s)"
    obtain e2 st2 where w: "sendFrame st1 (SWelcome (nId (srvReplica s)) (encodeVV ?mine)) = (e2, st2)" by fastforce
    obtain e3 st3 where b: "streamEvents (nLog (srvReplica s)) (decodeVV vv) (srvBatchSize s) SEvents st2 = (e3, st3)"
      by fastforce
    obtain e4 st4 where a: "sendFrame st3 (SAck (encodeVV ?mine)) = (e4, st4)" by fastforce
    obtain e5 n5 where c: "serverConsume (srvReplica s) peer (stIn st4) (stEOF st4) = (e5, n5)" by fastforce
    show ?thesis
    proof (cases "e2 = None \<and> e3 = None \<and> e4 = None")
      case False
      with res h Inr hello w b a have "s' = s"
        by (auto simp: session_def Let_def split: option.splits)
      then show ?thesis by (rule stay)
    next
      case True
      then have s': "srvReplica s' = n5"
        using res h Inr hello w b a c by (auto simp: session_def Let_def)
      have "stIn st4 = stIn st1"
        using sendFrame_in(1) [of st1] streamLoop_in sendFrame_in(1) [of st3] w a b
        unfolding streamEvents_def by (metis snd_conv)
      then have "clientEvents (stIn st) = clientEvents (stIn st4)"
        using in1 by simp
      then show ?thesis
        using serverConsume_reaches [OF run s _ _ c] ev s' by auto
    qed
  qed
qed

lemma reaches_cursor:
  assumes "reaches B t nodes hist E j d n S"
  shows "reaches B t nodes hist E j d (n\<lparr>nLog := setCursor (nLog n) peer x\<rparr>) S"
proof -
  from assms obtain t' h' where r: "cluster_run B t' (nodes(j \<mapsto> n)) (hist(j := h')) E"
    "t' \<le> t + d" "nId n = j" "set h' = set (hist j) \<union> S"
    by (auto simp: reaches_def)
  have "cluster_run B t' ((nodes(j \<mapsto> n))(j \<mapsto> n\<lparr>nLog := setCursor (nLog n) peer x\<rparr>)) (hist(j := h')) E"
    using r(1) by (rule c_cursor) simp
  then have "cluster_run B t' (nodes(j \<mapsto> n\<lparr>nLog := setCursor (nLog n) peer x\<rparr>)) (hist(j := h')) E"
    by (simp only: fun_upd_upd)
  with r(2-4) show ?thesis
    unfolding reaches_def by (intro exI [of _ t'] exI [of _ h']) simp
qed

lemma clientConsume_reaches:
  assumes run: "cluster_run B t nodes hist E" "0 \<le> B" and n: "nodes i = Some n" "nId n = i"
    and ev: "set (serverEvents (stIn st)) \<subseteq> set E" "B + int (t + length (serverEvents (stIn st))) \<le> maxInt64"
    and res: "clientConsume n st = (r, n', st')"
  shows "\<exists>S \<subseteq> set (serverEvents (stIn st)). reaches B t nodes hist E i (length (serverEvents (stIn st))) n' S \<and>
    (\<forall>p vv fs es. stIn st = SWelcome p vv # fs \<longrightarrow> serverBatches fs = Some es \<longrightarrow>
      (\<exists>rep. r = Inr rep \<and> repPeerVV rep = decodeVV vv \<and> repPeerID rep = p) \<and> S = set es)"
proof (cases "\<exists>p vv fs. stIn st = SWelcome p vv # fs")
  case False
  then have "n' = n"
    using res by (cases "stIn st") (auto simp: clientConsume_def split: server_frame.splits)
  with False show ?thesis
    using reaches_refl [OF run(1) n] by blast
next
  case True
  then obtain p vv fs where st: "stIn st = SWelcome p vv # fs" by blast
  let ?rep = "\<lparr>repSent = 0, repReceived = 0, repRejected = 0, repPeerID = p, repPeerVV = decodeVV vv\<rparr>"
  obtain r1 n1 fs1 where loop: "clientConsumeLoop n ?rep fs (stEOF st) = (r1, n1, fs1)"
    by (metis surj_pair)
  have eq: "r = r1" "n' = n1"
    using res loop st by (simp_all add: clientConsume_def Let_def)
  have "serverEvents (stIn st) = serverEvents fs" using st by simp
  moreover from this obtain S where S: "S \<subseteq> set (serverEvents fs)"
    "reaches B t nodes hist E i (length (serverEvents fs)) n1 S"
    "\<forall>rep'. r1 = Inr rep' \<longrightarrow> repPeerVV rep' = decodeVV vv \<and> repPeerID rep' = p"
    "\<forall>es. serverBatches fs = Some es \<longrightarrow> is_Inr r1 \<and> S = set es"
    using clientConsumeLoop_reaches [OF run n _ _ loop] ev by auto
  moreover have "\<exists>rep. r1 = Inr rep \<and> repPeerVV rep = decodeVV vv \<and> repPeerID rep = p"
    if "serverBatches fs = Some es" for es
    using that S(3,4) by (auto simp: is_Inr_iff)
  ultimately show ?thesis
    using st eq by auto
qed

lemma streamEvents_in: "stIn (snd (streamEvents l vv sz mk st)) = stIn st"
  by (simp add: streamEvents_def streamLoop_in)

lemma syncOnce_reaches:
  assumes run: "cluster_run B t nodes hist E" "0 \<le> B" and c: "nodes i = Some (clReplica c)" "nId (clReplica c) = i"
    and ev: "set (serverEvents (stIn st)) \<subseteq> set E" "B + int (t + length (serverEvents (stIn st))) \<le> maxInt64"
    and res: "syncOnce c (Some st) = (r, c', st')"
  shows "\<exists>S \<subseteq> set (serverEvents (stIn st)).
    reaches B t nodes hist E i (length (serverEvents (stIn st))) (clReplica c') S"
proof -
  let ?n = "clReplica c"
  let ?hello = "CHello (nId ?n) (encodeVV (nodeVersionVector ?n))"
  obtain e1 st1 where h: "sendFrame st ?hello = (e1, st1)" by fastforce
  have in1: "stIn st1 = stIn st" using sendFrame_in(1) [of st ?hello] h by simp
  obtain r2 n2 st2 where k: "clientConsume ?n st1 = (r2, n2, st2)" by (metis surj_pair)
  obtain S where S: "S \<subseteq> set (serverEvents (stIn st))"
    "reaches B t nodes hist E i (length (serverEvents (stIn st))) n2 S"
    using clientConsume_reaches [OF run c _ _ k] ev in1 by metis
  have "clReplica c' = ?n \<or> clReplica c' = n2 \<or>
      (\<exists>peer x. clReplica c' = n2\<lparr>nLog := setCursor (nLog n2) peer x\<rparr>)"
    using res h k
    by (auto simp: syncOnce_def Let_def split: option.splits sum.splits prod.splits if_splits) blast
  moreover have "reaches B t nodes hist E i (length (serverEvents (stIn st))) ?n {}"
    using run(1) c by (rule reaches_refl)
  ultimately show ?thesis
    using S reaches_cursor [OF S(2)] by (metis empty_subsetI)
qed



section \<open>A session without faults\<close>

lemma nodes_named: "cluster_run B t nodes hist E \<Longrightarrow> nodes i = Some n \<Longrightarrow> i \<noteq> []"
proof (induction arbitrary: n rule: cluster_run.induct)
  case (c_start nodes)
  then show ?case by (auto simp: newNode_def split: if_splits)
qed (auto split: if_splits)

text \<open>Merging stores rows and never deletes one.\<close>

definition keepsRows :: "node \<Rightarrow> node \<Rightarrow> bool" where
  "keepsRows n n' \<longleftrightarrow> (\<forall>i. fmlookup (elEvents (nLog n)) i \<noteq> None \<longrightarrow> fmlookup (elEvents (nLog n')) i \<noteq> None)"

lemma keepsRows_refl: "keepsRows n n"
  by (simp add: keepsRows_def)

lemma keepsRows_trans: "keepsRows n n' \<Longrightarrow> keepsRows n' n'' \<Longrightarrow> keepsRows n n''"
  by (simp add: keepsRows_def)

lemma maybeSnapshot_rows: "maybeSnapshot every l k = Inr l' \<Longrightarrow> elEvents l' = elEvents l"
  by (auto simp: maybeSnapshot_def saveSnapshot_def Let_def split: if_splits sum.splits)

lemma mergeEvents_rows: "mergeEvents n es acc ks = (r, n') \<Longrightarrow> keepsRows n n'"
proof (induction n es acc ks rule: mergeEvents.induct)
  case (1 n acc ks)
  then show ?case by (simp add: keepsRows_refl)
next
  case (2 n e es acc ks)
  then show ?case
    by (cases rule: logAppend_cases [of e "nLog n"])
      (auto simp: keepsRows_def insertEvent_def split: if_splits)
qed

lemma reconcile_rows: "reconcile n ks = (r, n') \<Longrightarrow> keepsRows n n'"
proof (induction ks arbitrary: n)
  case (Cons k ks)
  then show ?case
    by (auto simp: keepsRows_def upsertProjection_def Let_def dest!: maybeSnapshot_rows
        split: sum.splits if_splits)
qed (simp add: keepsRows_refl)

lemma mergeFrame_rows: "mergeFrame n pes = (r, n') \<Longrightarrow> keepsRows n n'"
  by (auto simp: mergeFrame_def merge_def Let_def split: prod.splits option.splits
      dest!: mergeEvents_rows reconcile_rows intro: keepsRows_trans)

lemma clientConsumeLoop_rows: "clientConsumeLoop n rep fs eof = (r, n', rest) \<Longrightarrow> keepsRows n n'"
proof (induction n rep fs eof rule: clientConsumeLoop.induct)
  case (2 n rep pes fs eof)
  obtain e k n1 where m: "mergeFrame n pes = ((e, k), n1)" by (metis surj_pair)
  show ?case
  proof (cases e)
    case None
    then have "keepsRows n1 n'"
      using "2.prems" m by (intro "2.IH" [OF m [symmetric] refl None refl]) (simp add: Let_def)
    then show ?thesis using mergeFrame_rows [OF m] by (rule keepsRows_trans [rotated])
  next
    case (Some err)
    with "2.prems" m have "n' = n1" by simp
    then show ?thesis using mergeFrame_rows [OF m] by simp
  qed
qed (auto simp: keepsRows_refl)

text \<open>What the server sends and how it ends, from its hello and the frames after it.\<close>

lemma session_answer:
  assumes "p \<noteq> []"
    and "\<forall>st :: (client_frame, server_frame) stream. stCanSend st = None \<longrightarrow>
      streamEvents (nLog (srvReplica s)) (decodeVV w) (srvBatchSize s) SEvents st =
      (None, st\<lparr>stOut := stOut st @ map SEvents bs\<rparr>)"
    and "serverConsume (srvReplica s) p fs eof = (err, m)"
  shows "\<exists>st'. session s (serverEnd (CHello p w # fs) eof) = (err, s\<lparr>srvReplica := m\<rparr>, st') \<and>
    stOut st' = SWelcome (nId (srvReplica s)) (encodeVV (nodeVersionVector (srvReplica s))) # map SEvents bs @
      [SAck (encodeVV (nodeVersionVector (srvReplica s)))]"
  using assms by (simp add: session_def serverEnd_def Let_def)

text \<open>What the client does with such an answer.\<close>

lemma syncOnce_answer:
  assumes "clientConsumeLoop (clReplica c) \<lparr>repSent = 0, repReceived = 0, repRejected = 0, repPeerID = p,
      repPeerVV = decodeVV w\<rparr> fs True = (Inr rep, n, rest)"
    and "\<forall>st :: (server_frame, client_frame) stream. stCanSend st = None \<longrightarrow>
      streamEvents (nLog n) (repPeerVV rep) (clBatchSize c) CEvents st =
      (None, st\<lparr>stOut := stOut st @ map CEvents bs\<rparr>)"
  shows "\<exists>r c' st'. syncOnce c (Some (clientEnd (SWelcome p w # fs) close)) = (r, c', Some st') \<and>
    (is_Inr r \<longleftrightarrow> close) \<and>
    (close \<longrightarrow> clReplica c' = n\<lparr>nLog := setCursor (nLog n) (repPeerID rep)
      (vv_get (nodeVersionVector n) (repPeerID rep))\<rparr>) \<and>
    stOut st' = CHello (nId (clReplica c)) (encodeVV (nodeVersionVector (clReplica c))) #
      map CEvents bs @ [CAck (encodeVV (nodeVersionVector n))]"
  using assms by (simp add: syncOnce_def clientEnd_def clientConsume_def Let_def)

text \<open>Both ends together: the server answers, the client merges and answers back, the server merges.\<close>

lemma memSession_phases:
  assumes ids: "nId (clReplica c) \<noteq> []"
    and srv: "\<forall>st :: (client_frame, server_frame) stream. stCanSend st = None \<longrightarrow>
      streamEvents (nLog (srvReplica s)) (nodeVersionVector (clReplica c)) (srvBatchSize s) SEvents st =
        (None, st\<lparr>stOut := stOut st @ map SEvents bs\<rparr>)"
    and loop: "clientConsumeLoop (clReplica c) \<lparr>repSent = 0, repReceived = 0, repRejected = 0,
        repPeerID = nId (srvReplica s), repPeerVV = nodeVersionVector (srvReplica s)\<rparr>
        (map SEvents bs @ [SAck (encodeVV (nodeVersionVector (srvReplica s)))]) True = (Inr rep, n, rest)"
    and cl: "\<forall>st :: (server_frame, client_frame) stream. stCanSend st = None \<longrightarrow>
      streamEvents (nLog n) (repPeerVV rep) (clBatchSize c) CEvents st =
        (None, st\<lparr>stOut := stOut st @ map CEvents cs\<rparr>)"
    and ret: "serverConsume (srvReplica s) (nId (clReplica c))
        (map CEvents cs @ [CAck (encodeVV (nodeVersionVector n))]) True = (None, m)"
  shows "\<exists>r c'. memSession c s = (r, c', None, s\<lparr>srvReplica := m\<rparr>) \<and> is_Inr r \<and>
    clReplica c' = n\<lparr>nLog := setCursor (nLog n) (repPeerID rep)
      (vv_get (nodeVersionVector n) (repPeerID rep))\<rparr>"
proof -
  let ?vc = "encodeVV (nodeVersionVector (clReplica c))"
  let ?vs = "encodeVV (nodeVersionVector (srvReplica s))"
  let ?hello = "CHello (nId (clReplica c)) ?vc"
  let ?answer = "SWelcome (nId (srvReplica s)) ?vs # map SEvents bs @ [SAck ?vs]"
  let ?ret = "map CEvents cs @ [CAck (encodeVV (nodeVersionVector n))]"
  note answer = session_answer [OF ids, where w = ?vc, unfolded decodeVV_encodeVV, OF srv]
  obtain e0 m0 where "serverConsume (srvReplica s) (nId (clReplica c)) [] False = (e0, m0)" by fastforce
  from answer [OF this] obtain s0 t0 where 0: "session s (serverEnd [?hello] False) = (e0, s0, t0)"
    "stOut t0 = ?answer" by auto
  obtain t2 where 2: "session s (serverEnd (?hello # ?ret) True) = (None, s\<lparr>srvReplica := m\<rparr>, t2)"
    using answer [OF ret] by blast
  note reply = syncOnce_answer [where p = "nId (srvReplica s)" and w = ?vs, unfolded decodeVV_encodeVV, OF loop cl]
  obtain r c1 t1 where 1: "syncOnce c (Some (clientEnd ?answer True)) = (r, c1, Some t1)" "is_Inr r"
    "clReplica c1 = n\<lparr>nLog := setCursor (nLog n) (repPeerID rep) (vv_get (nodeVersionVector n) (repPeerID rep))\<rparr>"
    "stOut t1 = ?hello # ?ret"
    using reply [of True] by auto
  show ?thesis
    using 0 1 2 by (simp add: memSession_def Let_def)
qed

lemma distinct_length_le: "distinct xs \<Longrightarrow> set xs \<subseteq> set ys \<Longrightarrow> length xs \<le> length ys"
  by (metis card_mono distinct_card finite_set card_length order_trans)

lemma covered_held:
  assumes "cluster_inv b nodes hist E" "nodes j = Some n" "e \<in> set E"
    "vvContains (nodeVersionVector n) (eID e)"
  shows "e \<in> set (hist j)"
proof -
  have ok: "node_ok b n (hist j)" "set (hist j) \<subseteq> set E"
    using cluster_invD(4) [OF assms(1,2)] by auto
  have "heldPrefix (hist j) (idNode (eID e)) (idSeq (eID e))"
    using assms(4) versionVector_prefix [OF node_ok_represents [OF ok(1)]]
    by (simp add: nodeVersionVector_def) (metis event_id.collapse)
  moreover have "idSeq (eID e) \<noteq> 0"
    using valid_event_header [OF cluster_invD(3) [OF assms(1,3)]] by simp
  ultimately obtain e' where "e' \<in> set (hist j)" "eID e' = eID e"
    using heldPrefix_in [of "hist j" "eID e" "idSeq (eID e)"] by auto
  moreover from this have "e' = e"
    using cluster_invD(1) [OF assms(1)] ok(2) assms(3) by (auto simp: distinct_map dest: inj_onD)
  ultimately show ?thesis by simp
qed

text \<open>First half: the client takes in everything the server holds.\<close>

lemma client_phase:
  assumes run: "cluster_run B t nodes hist E" "0 \<le> B" "B + int (t + length E) \<le> maxInt64"
    and ends: "nodes i = Some n" "nodes j = Some m" "0 < sz"
    and gone: "\<forall>e \<in> set (hist j). fmlookup (elEvents (nLog m)) (eID e) = None \<longrightarrow> e \<in> set (hist i)"
  obtains bs rep n1 rest t1 h1 where
    "\<forall>st :: (client_frame, server_frame) stream. stCanSend st = None \<longrightarrow>
      streamEvents (nLog m) (nodeVersionVector n) sz SEvents st = (None, st\<lparr>stOut := stOut st @ map SEvents bs\<rparr>)"
    "clientConsumeLoop n \<lparr>repSent = 0, repReceived = 0, repRejected = 0, repPeerID = nId m,
      repPeerVV = nodeVersionVector m\<rparr> (map SEvents bs @ [SAck w]) True = (Inr rep, n1, rest)"
    "repPeerVV rep = nodeVersionVector m" "keepsRows n n1" "t1 \<le> t + length E"
    "cluster_run B t1 (nodes(i \<mapsto> n1)) (hist(i := h1)) E" "set h1 = set (hist i) \<union> set (hist j)"
proof -
  let ?rep0 = "\<lparr>repSent = 0, repReceived = 0, repRejected = 0, repPeerID = nId m, repPeerVV = nodeVersionVector m\<rparr>"
  have inv: "cluster_inv (B + int t) nodes hist E"
    using run by (intro cluster_run_inv) auto
  have n: "nId n = i" and m: "represents (nLog m) (hist j)" "set (hist j) \<subseteq> set E"
    using cluster_invD(4) [OF inv ends(1)] cluster_invD(4) [OF inv ends(2)]
    by (auto dest: node_ok_represents)
  obtain bs es where bs: "\<And>st :: (client_frame, server_frame) stream. stCanSend st = None \<Longrightarrow>
      streamEvents (nLog m) (nodeVersionVector n) sz SEvents st = (None, st\<lparr>stOut := stOut st @ map SEvents bs\<rparr>)"
    and es: "concat (map decodeAll bs) = es" "distinct es"
    "set es = {e \<in> set (hist j). fmlookup (elEvents (nLog m)) (eID e) \<noteq> None \<and>
      \<not> vvContains (nodeVersionVector n) (eID e)}"
    by (rule streamEvents_batches [OF m(1) ends(3)]) blast
  have es_E: "set es \<subseteq> set E" using es(3) m(2) by auto
  then have es_len: "length es \<le> length E" by (rule distinct_length_le [OF es(2)])
  let ?frames = "map SEvents bs @ [SAck w]"
  have frames: "serverEvents ?frames = es" "serverBatches ?frames = Some es"
    by (simp_all add: serverBatches_frames es(1))
  obtain r1 n1 rest where loop: "clientConsumeLoop n ?rep0 ?frames True = (r1, n1, rest)"
    by (metis surj_pair)
  have bound: "B + int (t + length (serverEvents ?frames)) \<le> maxInt64" "set (serverEvents ?frames) \<subseteq> set E"
    using run(3) es_len frames(1) es_E by simp_all
  from clientConsumeLoop_reaches [OF run(1,2) ends(1) n bound(2,1) loop] frames
  obtain rep where r1: "r1 = Inr rep" "repPeerVV rep = nodeVersionVector m"
    and reach: "reaches B t nodes hist E i (length es) n1 (set es)"
    by (auto simp: is_Inr_iff)
  then obtain t1 h1 where run1: "cluster_run B t1 (nodes(i \<mapsto> n1)) (hist(i := h1)) E"
    and t1: "t1 \<le> t + length es" and h1: "set h1 = set (hist i) \<union> set es"
    by (auto simp: reaches_def)
  have "set h1 = set (hist i) \<union> set (hist j)"
    using h1 es(3) gone covered_held [OF inv ends(1)] m(2) by auto
  with bs loop r1 t1 es_len run1 clientConsumeLoop_rows [OF loop] show ?thesis
    by (intro that [of bs rep n1 rest t1 h1]) auto
qed

text \<open>Second half: the server takes in everything it still lacks.\<close>

lemma server_phase:
  assumes run: "cluster_run B t nodes hist E" "0 \<le> B" "B + int (t + length E) \<le> maxInt64"
    and ends: "nodes i = Some n" "nodes j = Some m" "0 < sz"
    and rows: "\<forall>e \<in> set (hist i). fmlookup (elEvents (nLog n)) (eID e) = None \<longrightarrow> e \<in> set (hist j)"
  obtains cs m1 t1 h1 where
    "\<forall>st :: (server_frame, client_frame) stream. stCanSend st = None \<longrightarrow>
      streamEvents (nLog n) (nodeVersionVector m) sz CEvents st = (None, st\<lparr>stOut := stOut st @ map CEvents cs\<rparr>)"
    "serverConsume m p (map CEvents cs @ [CAck w]) True = (None, m1)" "t1 \<le> t + length E"
    "cluster_run B t1 (nodes(j \<mapsto> m1)) (hist(j := h1)) E" "set h1 = set (hist i) \<union> set (hist j)"
proof -
  have inv: "cluster_inv (B + int t) nodes hist E"
    using run by (intro cluster_run_inv) auto
  have m: "nId m = j" and n: "represents (nLog n) (hist i)" "set (hist i) \<subseteq> set E"
    using cluster_invD(4) [OF inv ends(1)] cluster_invD(4) [OF inv ends(2)]
    by (auto dest: node_ok_represents)
  obtain cs es where cs: "\<And>st :: (server_frame, client_frame) stream. stCanSend st = None \<Longrightarrow>
      streamEvents (nLog n) (nodeVersionVector m) sz CEvents st = (None, st\<lparr>stOut := stOut st @ map CEvents cs\<rparr>)"
    and es: "concat (map decodeAll cs) = es" "distinct es"
    "set es = {e \<in> set (hist i). fmlookup (elEvents (nLog n)) (eID e) \<noteq> None \<and>
      \<not> vvContains (nodeVersionVector m) (eID e)}"
    by (rule streamEvents_batches [OF n(1) ends(3)]) blast
  have es_E: "set es \<subseteq> set E" using es(3) n(2) by auto
  then have es_len: "length es \<le> length E" by (rule distinct_length_le [OF es(2)])
  let ?frames = "map CEvents cs @ [CAck w]"
  have frames: "clientEvents ?frames = es" "clientBatches ?frames = Some es"
    by (simp_all add: clientBatches_frames es(1))
  obtain e1 m1 where loop: "serverConsume m p ?frames True = (e1, m1)" by fastforce
  have bound: "B + int (t + length (clientEvents ?frames)) \<le> maxInt64" "set (clientEvents ?frames) \<subseteq> set E"
    using run(3) es_len frames(1) es_E by simp_all
  from serverConsume_reaches [OF run(1,2) ends(2) m bound(2,1) loop] frames
  have e1: "e1 = None" and reach: "reaches B t nodes hist E j (length es) m1 (set es)" by auto
  from reach obtain t1 h1 where run1: "cluster_run B t1 (nodes(j \<mapsto> m1)) (hist(j := h1)) E"
    and t1: "t1 \<le> t + length es" and h1: "set h1 = set (hist j) \<union> set es"
    by (auto simp: reaches_def)
  have "set h1 = set (hist i) \<union> set (hist j)"
    using h1 es(3) rows covered_held [OF inv ends(2)] n(2) by auto
  with cs loop e1 t1 es_len run1 show ?thesis
    by (intro that [of cs m1 t1 h1]) auto
qed



section \<open>Backoff\<close>

lemma sint_maxBackoff: "sint maxBackoff = 30000000000"
  unfolding maxBackoff_def using sint64_of_int [of 30000000000] by simp

lemma backoffLoop_value:
  "0 < sint d \<Longrightarrow> sint (backoffLoop i d) = min (sint d * 2 ^ i) 30000000000"
proof (induction i arbitrary: d)
  case 0
  then show ?case by (simp add: sint_maxBackoff)
next
  case (Suc i)
  show ?case
  proof (cases "15000000000 \<le> sint d")
    case True
    have "(30000000000 :: int) \<le> sint d * 2" using True by simp
    also have "\<dots> * 1 \<le> sint d * 2 * 2 ^ i"
      using Suc.prems by (intro mult_left_mono) simp_all
    finally show ?thesis using True by (simp add: sint_maxBackoff mult.assoc)
  next
    case False
    have "d * 2 = word_of_int (sint d * 2)" by simp
    then have "sint (d * 2) = sint d * 2"
      using False Suc.prems by (simp only: sint64_of_int)
    then show ?thesis
      using Suc.IH [of "d * 2"] Suc.prems False by (simp add: sint_maxBackoff ac_simps)
  qed
qed

text \<open>
  The delay doubles from the base and is clamped at thirty seconds: for any attempt number the
  computation ends and no product overflows on the way.
\<close>

lemma backoff_doubles_and_clamps:
  "sint (backoffFor base attempt) =
    (if sint base \<le> 0 then 0 else min (sint base * 2 ^ nat attempt) 30000000000)"
  by (simp add: backoffFor_def backoffLoop_value)

lemma backoffAttempts_delays:
  "backoffAttempts left attempt c dials ctxErr (attempt + int left) base = (r, c', ds) \<Longrightarrow>
    \<exists>k. length ds = k \<and> (0 < left \<longrightarrow> k < left) \<and> (left = 0 \<longrightarrow> k = 0) \<and>
      ds = map (\<lambda>i. backoffFor base (attempt + int i)) [0..<k]"
proof (induction left arbitrary: attempt c ds r c')
  case 0
  then show ?case by simp
next
  case (Suc left)
  obtain r1 c1 st1 where once: "syncOnce c (dials attempt) = (r1, c1, st1)" by (metis surj_pair)
  show ?case
  proof (cases "ctxErr attempt \<or> is_Inr r1")
    case True
    with Suc.prems once have "ds = []" by (cases r1) (auto split: if_splits)
    then show ?thesis by simp
  next
    case False
    then obtain err where r1: "r1 = Inl err" by (cases r1) auto
    obtain r2 c2 ds2 where rec: "backoffAttempts left (attempt + 1) c1 dials ctxErr (attempt + 1 + int left) base =
        (r2, c2, ds2)" by (metis surj_pair)
    have ds: "ds = (if 0 < left then [backoffFor base attempt] else []) @ ds2"
      using Suc.prems False once r1 rec by (auto simp: Let_def add.assoc split: if_splits)
    have ds2: "map (\<lambda>i. backoffFor base (attempt + 1 + int i)) [0..<length ds2] = ds2"
      "0 < left \<longrightarrow> length ds2 < left" "left = 0 \<longrightarrow> length ds2 = 0"
      using Suc.IH [OF rec] by auto
    have "map (\<lambda>i. backoffFor base (attempt + int i)) [0..<Suc (length ds2)] =
        backoffFor base attempt # map (\<lambda>i. backoffFor base (attempt + 1 + int i)) [0..<length ds2]"
      by (simp add: upt_conv_Cons map_Suc_upt [symmetric] comp_def add.assoc del: upt_Suc)
    then have "map (\<lambda>i. backoffFor base (attempt + int i)) [0..<Suc (length ds2)] = backoffFor base attempt # ds2"
      unfolding ds2(1) .
    with ds2(2,3) show ?thesis
      unfolding ds by (cases "0 < left") auto
  qed
qed

text \<open>
  A sync that retries sleeps the prefix of the backoff sequence: the delays are those of
  attempts 0, 1, 2 and so on in order, and there is always one fewer than attempts at most.
\<close>

lemma retry_delays_follow_backoff:
  assumes "syncWithBackoff c dials ctxErr attempts base = (r, c', ds)"
  shows "ds = map (\<lambda>i. backoffFor base (int i)) [0..<length ds] \<and> (int (length ds) < attempts \<or> ds = [])"
proof -
  have "backoffAttempts (nat attempts) 0 c dials ctxErr (0 + int (nat attempts)) base = (r, c', ds)
      \<or> attempts \<le> 0 \<and> ds = []"
    using assms by (cases "attempts \<le> 0") (auto simp: syncWithBackoff_def)
  then show ?thesis
    using backoffAttempts_delays [of "nat attempts" 0 c dials ctxErr base r c' ds] by auto
qed

end
