(* ===== verification/LfClock.thy ===== *)
theory LfClock
  imports LabClock
begin

text \<open>
  The clock of the second program (\<open>localfirst-go/clock/hlc.go\<close>). Its timestamp struct has the
  fields of the first program's and shares its type, with the library order on it, but its
  comparison subtracts the walls and takes the sign, its update rule increments the counter
  without a carry, and a new clock starts at the zero timestamp with an empty node id.
\<close>

section \<open>Comparison\<close>

definition lfSign :: "int64 \<Rightarrow> int" where
  "lfSign d = (if sint d < 0 then - 1 else 1)"

definition lfCompare :: "hlc \<Rightarrow> hlc \<Rightarrow> int" where
  "lfCompare h r =
    (if Wall h \<noteq> Wall r then lfSign (Wall h - Wall r)
     else if Logical h \<noteq> Logical r then lfSign (ucast (Logical h) - ucast (Logical r))
     else if NodeID h \<noteq> NodeID r then (if NodeID h < NodeID r then - 1 else 1)
     else 0)"

definition lfBefore :: "hlc \<Rightarrow> hlc \<Rightarrow> bool" where
  "lfBefore h r \<longleftrightarrow> lfCompare h r < 0"

text \<open>Walls of the same sign cannot overflow the subtraction; times since 1970 are not negative.\<close>

definition wallOk :: "hlc \<Rightarrow> bool" where
  "wallOk h \<longleftrightarrow> 0 \<le> sint (Wall h)"

lemma lfSign_wall:
  assumes "wallOk h" "wallOk r" "Wall h \<noteq> Wall r"
  shows "lfSign (Wall h - Wall r) = (if sint (Wall h) < sint (Wall r) then - 1 else 1)"
proof -
  have "sint (Wall h - Wall r) = sint (word_of_int (sint (Wall h) - sint (Wall r)) :: int64)"
    by simp
  also have "\<dots> = sint (Wall h) - sint (Wall r)"
    using assms sint64_bounds [of "Wall h"] sint64_bounds [of "Wall r"]
    by (intro sint64_of_int) (simp_all add: wallOk_def)
  finally show ?thesis by (simp add: lfSign_def)
qed

lemma lfSign_logical:
  fixes a b :: uint32
  assumes "a \<noteq> b"
  shows "lfSign (ucast a - ucast b) = (if a < b then - 1 else 1)"
proof -
  have u: "sint (ucast w :: int64) = uint w" for w :: uint32
  proof -
    have up: "uint (ucast w :: int64) = uint w" by (rule uint_up_ucast) (simp add: is_up)
    have "uint w < 2 ^ LENGTH(32)" by (rule unsigned_less)
    then have "fitsInt64 (ucast w)" by (simp add: fitsInt64_def up)
    then show ?thesis by (simp add: fitsInt64_sint up)
  qed
  have b: "uint a < 2 ^ LENGTH(32)" "uint b < 2 ^ LENGTH(32)" by (rule unsigned_less)+
  have nn: "0 \<le> uint a" "0 \<le> uint b" by simp_all
  have "ucast a - ucast b = (word_of_int (uint a - uint b) :: int64)"
    by (simp add: wi_hom_sub [symmetric])
  also have "sint \<dots> = uint a - uint b"
  proof (rule sint64_of_int)
    have b': "uint a < 4294967296" "uint b < 4294967296" using b by simp_all
    show "minInt64 \<le> uint a - uint b" using b' nn by linarith
    show "uint a - uint b \<le> maxInt64" using b' nn by linarith
  qed
  finally have "lfSign (ucast a - ucast b) = (if uint a < uint b then - 1 else 1)"
    by (simp add: lfSign_def)
  then show ?thesis by (simp add: word_less_def)
qed

text \<open>On such timestamps the comparison is the lexicographic order of the triple.\<close>

lemma lfCompare_iff: "wallOk h \<Longrightarrow> wallOk r \<Longrightarrow> lfCompare h r = cmpCompare h r"
proof -
  assume ok: "wallOk h" "wallOk r"
  show ?thesis
  proof (cases "Wall h = Wall r")
    case False
    then show ?thesis
      using ok sint64_total [OF False]
      by (auto simp: lfCompare_def lfSign_wall cmpCompare_def less_hlc_def)
  next
    case True
    then show ?thesis
      by (cases h; cases r) (auto simp: lfCompare_def lfSign_logical cmpCompare_def less_hlc_def)
  qed
qed

lemma lfBefore_iff: "wallOk h \<Longrightarrow> wallOk r \<Longrightarrow> lfBefore h r \<longleftrightarrow> h < r"
  by (simp add: lfBefore_def lfCompare_iff)

section \<open>The clock\<close>

record lf_clock =
  lcId :: node_id
  lcWall :: "nat \<Rightarrow> int64"
  lcCalls :: nat
  lcLast :: hlc

definition lfNewClock :: "node_id \<Rightarrow> (nat \<Rightarrow> int64) \<Rightarrow> lf_clock" where
  "lfNewClock i wall = \<lparr>lcId = i, lcWall = wall, lcCalls = 0, lcLast = HLC 0 0 []\<rparr>"

text \<open>The body of the loop over the observed timestamps and the last one.\<close>

definition lfAdvanceStep :: "hlc \<Rightarrow> hlc \<Rightarrow> hlc" where
  "lfAdvanceStep nxt p =
    (if sint (Wall nxt) < sint (Wall p) then HLC (Wall p) (Logical p + 1) (NodeID nxt)
     else if Wall p = Wall nxt \<and> Logical nxt \<le> Logical p
       then HLC (Wall nxt) (Logical p + 1) (NodeID nxt)
     else nxt)"

definition lfAdvance :: "lf_clock \<Rightarrow> hlc list \<Rightarrow> hlc \<times> lf_clock" where
  "lfAdvance c peers =
    (let nxt = foldl lfAdvanceStep (HLC (lcWall c (lcCalls c)) 0 (lcId c)) (peers @ [lcLast c])
     in (nxt, c\<lparr>lcCalls := Suc (lcCalls c), lcLast := nxt\<rparr>))"

definition lfNow :: "lf_clock \<Rightarrow> hlc \<times> lf_clock" where
  "lfNow c = lfAdvance c []"

definition lfObserveClock :: "lf_clock \<Rightarrow> hlc \<Rightarrow> hlc \<times> lf_clock" where
  "lfObserveClock c remote = lfAdvance c [remote]"

section \<open>Monotonicity\<close>

text \<open>The counter is not carried: incrementing it at its maximum wraps it to zero.\<close>

definition tickable :: "hlc \<Rightarrow> bool" where
  "tickable h \<longleftrightarrow> Logical h \<noteq> maxUint32"

lemma lfAdvanceStep_gt: "tickable p \<Longrightarrow> p < lfAdvanceStep n p"
  by (auto simp: lfAdvanceStep_def tickable_def less_hlc_def uint32_add_one dest: sint64_total)

lemma lfAdvanceStep_ge: "tickable p \<Longrightarrow> n \<le> lfAdvanceStep n p"
  using uint32_add_one [of "Logical p"]
  by (auto simp: lfAdvanceStep_def tickable_def less_eq_hlc_def less_hlc_def)

lemma lfAdvance_last [simp]:
  "lcLast (snd (lfAdvance c ps)) = fst (lfAdvance c ps)"
  "lcId (snd (lfAdvance c ps)) = lcId c"
  "lcWall (snd (lfAdvance c ps)) = lcWall c"
  by (simp_all add: lfAdvance_def Let_def)

lemma lfAdvance_gt_last: "tickable (lcLast c) \<Longrightarrow> lcLast c < fst (lfAdvance c ps)"
  by (simp add: lfAdvance_def Let_def lfAdvanceStep_gt)

lemma lfAdvance_gt_peer: "tickable p \<Longrightarrow> tickable (lcLast c) \<Longrightarrow> p < fst (lfAdvance c [p])"
  using less_le_trans [OF lfAdvanceStep_gt lfAdvanceStep_ge]
  by (simp add: lfAdvance_def Let_def)

lemma NodeID_lfAdvance [simp]: "NodeID (fst (lfAdvance c ps)) = lcId c"
proof -
  have "NodeID (lfAdvanceStep n p) = NodeID n" for n p by (simp add: lfAdvanceStep_def)
  then have "NodeID (foldl lfAdvanceStep n xs) = NodeID n" for n xs
    by (induction xs arbitrary: n) auto
  from this [of "HLC (lcWall c (lcCalls c)) 0 (lcId c)" "ps @ [lcLast c]"]
  show ?thesis by (simp add: lfAdvance_def Let_def)
qed

text \<open>A clock in use.\<close>

fun lfClockStep :: "lf_clock \<Rightarrow> clock_op \<Rightarrow> hlc \<times> lf_clock" where
  "lfClockStep c NowOp = lfNow c"
| "lfClockStep c (ObserveOp r) = lfObserveClock c r"

interpretation lf_clock: hybrid_clock lfClockStep lcLast observed tickable
proof
  show "lcLast (snd (lfClockStep s p)) = fst (lfClockStep s p)" for s p
    by (cases p) (simp_all add: lfNow_def lfObserveClock_def)
  show "lcLast s < fst (lfClockStep s p)"
    if "tickable (lcLast s)" "\<And>r. observed p = Some r \<Longrightarrow> tickable r" for s p
    using that by (cases p) (simp_all add: lfNow_def lfObserveClock_def lfAdvance_gt_last)
  show "r < fst (lfClockStep s p)"
    if "tickable (lcLast s)" "observed p = Some r" "tickable r" for s p r
    using that by (cases p) (simp_all add: lfObserveClock_def lfAdvance_gt_peer)
qed

lemma wallOk_lfAdvance:
  assumes "0 \<le> sint (lcWall c (lcCalls c))"
  shows "wallOk (fst (lfAdvance c ps))"
proof -
  have step: "wallOk n \<Longrightarrow> wallOk (lfAdvanceStep n p)" for n p
    by (auto simp: lfAdvanceStep_def wallOk_def)
  have "wallOk n \<Longrightarrow> wallOk (foldl lfAdvanceStep n xs)" for n xs
    by (induction xs arbitrary: n) (auto intro: step)
  from this [of "HLC (lcWall c (lcCalls c)) 0 (lcId c)" "ps @ [lcLast c]"] assms show ?thesis
    by (simp add: lfAdvance_def Let_def wallOk_def)
qed

lemma wallOk_stamps:
  assumes "\<And>n. 0 \<le> sint (lcWall c n)" "h \<in> set (stamps lfClockStep c ops)"
  shows "wallOk h"
  using assms
proof (induction ops arbitrary: c)
  case (Cons p ops)
  then have *: "lcWall (snd (lfClockStep c p)) = lcWall c" "wallOk (fst (lfClockStep c p))"
    by (cases p; simp add: lfNow_def lfObserveClock_def wallOk_lfAdvance)+
  show ?case
    using Cons.IH [of "snd (lfClockStep c p)"] Cons.prems * by auto
qed simp

text \<open>
  Whatever the host clock does, even standing still or jumping back, each timestamp a clock
  issues is \<open>Before\<close> all later ones, and each observed timestamp is \<open>Before\<close> all issued from then
  on, provided no wall is negative and no counter involved has reached its maximum.
\<close>

lemma lf_clock_stamps_increase:
  assumes "\<And>n. 0 \<le> sint (lcWall c n)" "tickable (lcLast c)" "wallOk (lcLast c)"
    and "\<forall>h \<in> set (stamps lfClockStep c ops). tickable h"
    and "\<forall>r. ObserveOp r \<in> set ops \<longrightarrow> tickable r \<and> wallOk r"
  shows "sorted_wrt lfBefore (lcLast c # stamps lfClockStep c ops) \<and>
    (\<forall>i j r. i \<le> j \<longrightarrow> j < length ops \<longrightarrow> ops ! i = ObserveOp r \<longrightarrow>
      lfBefore r (stamps lfClockStep c ops ! j))"
proof (intro conjI allI impI)
  let ?hs = "stamps lfClockStep c ops"
  have ok: "\<forall>p \<in> set ops. \<forall>r. observed p = Some r \<longrightarrow> tickable r"
    using assms(5) by (auto elim: observed.elims)
  have w: "wallOk h" if "h \<in> set ?hs" for h using assms(1) that by (rule wallOk_stamps)
  have "sorted_wrt (<) (lcLast c # ?hs)"
    using assms(2,4) ok by (rule lf_clock.stamps_sorted)
  then show "sorted_wrt lfBefore (lcLast c # ?hs)"
    by (rule sorted_wrt_mono_rel [rotated]) (use w assms(3) in \<open>auto simp: lfBefore_iff\<close>)
  fix i j r assume ij: "i \<le> j" "j < length ops" "ops ! i = ObserveOp r"
  then have "r < ?hs ! j"
    using lf_clock.stamps_above_observed [OF assms(2,4) ok, of i j r] by simp
  moreover have "ObserveOp r \<in> set ops" using ij nth_mem [of i ops] by simp
  ultimately show "lfBefore r (?hs ! j)"
    using assms(5) w ij(2) by (simp add: lfBefore_iff)
qed

text \<open>
  Both provisos are needed. The subtraction in \<open>Compare\<close> overflows for walls far apart: the two
  timestamps below are each \<open>Before\<close> the other, and the first is a value any peer can send. And a
  clock that observes a timestamp whose counter is at its maximum issues one \<open>Before\<close> it.
\<close>

lemma lf_compare_and_counter_wrap:
  "let a = HLC (word_of_int minInt64) 0 ''A''; b = HLC 0 0 ''B'';
       c = lfNewClock ''B'' (\<lambda>n. 1700000000000); r = HLC 1800000000000 maxUint32 ''A''
   in lfBefore a b \<and> lfBefore b a \<and> lfBefore (fst (lfObserveClock c r)) r"
  by code_simp

end
