(* ===== verification/LfLog.thy ===== *)
theory LfLog
  imports LfClock LabEvent ConvergenceSpec
begin

text \<open>
  The domain-agnostic log of the second program (\<open>localfirst-go/eventlog/record.go\<close>,
  \<open>eventlog/store.go\<close>): opaque records, version vectors, and one node's store with its two SQL
  tables. Every transaction takes a \<open>db_fault\<close> saying whether the database fails it and where,
  so the rollback paths are branches of the model. A validator and a projector are functions on
  the state they close over; a projector returns the state it leaves behind at once and the
  commit closure separately, as in the code, because the store runs the closure only after the
  database commit. Failures of the read queries are not modelled.
\<close>

section \<open>Records\<close>

text \<open>A byte slice: nil, the text of a JSON document, or bytes that are no such document. The empty
  slice is of the last kind.\<close>

datatype bytes = NilBytes | JsonBytes json | OtherBytes string

abbreviation emptyBytes :: bytes where
  "emptyBytes \<equiv> OtherBytes []"

record lf_record =
  recNode :: node_id
  recSeq :: uint64
  recClock :: hlc
  recType :: string
  recPayload :: bytes

definition lfLess :: "lf_record \<Rightarrow> lf_record \<Rightarrow> bool" where
  "lfLess r s = (let c = lfCompare (recClock r) (recClock s) in
     if c \<noteq> 0 then c < 0 else recSeq r < recSeq s)"

section \<open>Version vectors\<close>

type_synonym lf_vv = "(node_id, uint64) fmap"

definition lfGet :: "lf_vv \<Rightarrow> node_id \<Rightarrow> uint64" where
  "lfGet v n = fm_get 0 v n"

definition lfObserve :: "lf_vv \<Rightarrow> node_id \<Rightarrow> uint64 \<Rightarrow> lf_vv" where
  "lfObserve v n s = (if lfGet v n < s then fmupd n s v else v)"

definition lfClone :: "lf_vv \<Rightarrow> lf_vv" where
  "lfClone v = foldl (\<lambda>out (k, s). fmupd k s out) fmempty (sorted_list_of_fmap v)"

definition lfEqual :: "lf_vv \<Rightarrow> lf_vv \<Rightarrow> bool" where
  "lfEqual v w = (if fcard (fmdom v) \<noteq> fcard (fmdom w) then False
     else list_all (\<lambda>(k, s). lfGet w k = s) (sorted_list_of_fmap v))"

section \<open>The store\<close>

datatype lf_error =
    UnknownType string | BadPayload string | BadQty int64 | NotOwned string
  | NegativeBalance string string int64
  | BeginFailed | InsertFailed node_id uint64 | CommitFailed
  | AppendRejected lf_error | ProjectFailed lf_error | ReplayFailed node_id uint64 lf_error

datatype db_fault = DbOk | FailBegin | FailInsert | FailCommit

type_synonym 's validator = "'s \<Rightarrow> lf_record \<Rightarrow> lf_error option"
type_synonym 's projector = "'s \<Rightarrow> lf_record \<Rightarrow> (lf_error + ('s \<Rightarrow> 's)) \<times> 's"

record lf_row =
  lrWall :: int64
  lrLogical :: uint32
  lrType :: string
  lrPayload :: bytes

type_synonym lf_rows = "(event_id, lf_row) fmap"

text \<open>What the file holds; the sequence column is a signed 64-bit integer.\<close>

record lf_db =
  dbRows :: lf_rows
  dbCursors :: "(string, uint64) fmap"

definition lfSchema :: lf_db where
  "lfSchema = \<lparr>dbRows = fmempty, dbCursors = fmempty\<rparr>"

record lf_store =
  lsNode :: node_id
  lsDb :: lf_db
  lsNextSeq :: uint64

text \<open>\<open>MAX(seq)\<close> over the rows of one author.\<close>

definition lfMaxSeq :: "lf_rows \<Rightarrow> node_id \<Rightarrow> uint64 option" where
  "lfMaxSeq rows n =
    (case map (\<lambda>(i, _). idSeq i) (filter (\<lambda>(i, _). idNode i = n) (sorted_list_of_fmap rows)) of
       [] \<Rightarrow> None | x # xs \<Rightarrow> Some (foldl max x xs))"

definition lfOpen :: "lf_db \<Rightarrow> node_id \<Rightarrow> lf_store" where
  "lfOpen db n = \<lparr>lsNode = n, lsDb = db,
     lsNextSeq = (case lfMaxSeq (dbRows db) n of None \<Rightarrow> 0 | Some s \<Rightarrow> s)\<rparr>"

definition lfNonNil :: "bytes \<Rightarrow> bytes" where
  "lfNonNil b = (if b = NilBytes then emptyBytes else b)"

text \<open>
  \<open>exec\<close>: \<open>INSERT OR IGNORE\<close>, with the number of rows affected. Go's database driver interface
  refuses a \<open>uint64\<close> argument with the high bit set.
\<close>

definition lfExec :: "db_fault \<Rightarrow> lf_rows \<Rightarrow> lf_record \<Rightarrow> lf_error + (nat \<times> lf_rows)" where
  "lfExec f rows r =
    (let i = EventID (recNode r) (recSeq r) in
     if f = FailInsert \<or> \<not> fitsInt64 (recSeq r) then Inl (InsertFailed (recNode r) (recSeq r))
     else if fmlookup rows i \<noteq> None then Inr (0, rows)
     else Inr (1, fmupd i \<lparr>lrWall = Wall (recClock r), lrLogical = Logical (recClock r),
       lrType = recType r, lrPayload = lfNonNil (recPayload r)\<rparr> rows))"

definition lfInsert :: "db_fault \<Rightarrow> lf_rows \<Rightarrow> lf_record \<Rightarrow> lf_error + lf_rows" where
  "lfInsert f rows r = (case lfExec f rows r of Inl e \<Rightarrow> Inl e | Inr (_, rows) \<Rightarrow> Inr rows)"

definition setRows :: "lf_rows \<Rightarrow> lf_store \<Rightarrow> lf_store" where
  "setRows rows st = st\<lparr>lsDb := (lsDb st)\<lparr>dbRows := rows\<rparr>\<rparr>"

text \<open>The projector may be nil.\<close>

definition runProject :: "'s projector option \<Rightarrow> 's \<Rightarrow> lf_record \<Rightarrow> (lf_error + ('s \<Rightarrow> 's)) \<times> 's" where
  "runProject p s r = (case p of None \<Rightarrow> (Inr (\<lambda>s. s), s) | Some prj \<Rightarrow> prj s r)"

definition lfAppend :: "'s validator option \<Rightarrow> 's projector option \<Rightarrow> db_fault \<Rightarrow> lf_store \<Rightarrow> 's \<Rightarrow>
    string \<Rightarrow> bytes \<Rightarrow> hlc \<Rightarrow> (lf_error + lf_record) \<times> lf_store \<times> 's" where
  "lfAppend v p f st s typ payload ts =
    (let r = \<lparr>recNode = lsNode st, recSeq = lsNextSeq st + 1, recClock = ts, recType = typ,
              recPayload = payload\<rparr>
     in if f = FailBegin then (Inl BeginFailed, st, s)
     else case (case v of None \<Rightarrow> None | Some chk \<Rightarrow> chk s r) of
       Some e \<Rightarrow> (Inl (AppendRejected e), st, s)
     | None \<Rightarrow>
       (case lfInsert f (dbRows (lsDb st)) r of Inl e \<Rightarrow> (Inl e, st, s)
        | Inr rows \<Rightarrow>
          (case runProject p s r of
             (Inl e, s) \<Rightarrow> (Inl (ProjectFailed e), st, s)
           | (Inr commit, s) \<Rightarrow>
             (if f = FailCommit then (Inl CommitFailed, st, s)
              else (Inr r, (setRows rows st)\<lparr>lsNextSeq := recSeq r\<rparr>, commit s)))))"

definition lfMergeOne :: "'s projector option \<Rightarrow> db_fault \<Rightarrow> lf_store \<Rightarrow> 's \<Rightarrow> lf_record \<Rightarrow>
    (lf_error + nat) \<times> lf_store \<times> 's" where
  "lfMergeOne p f st s r =
    (if f = FailBegin then (Inl BeginFailed, st, s)
     else case lfExec f (dbRows (lsDb st)) r of Inl e \<Rightarrow> (Inl e, st, s)
     | Inr (n, rows) \<Rightarrow>
       (if n = 0 then (Inr 0, st, s)
        else case runProject p s r of
          (Inl e, s) \<Rightarrow> (Inl (ProjectFailed e), st, s)
        | (Inr commit, s) \<Rightarrow>
          (if f = FailCommit then (Inl CommitFailed, st, s)
           else (Inr 1, setRows rows st, commit s))))"

text \<open>The loop of \<open>Merge\<close>: \<open>fs i\<close> is what the database does to the transaction of record \<open>i\<close>.\<close>

fun lfMergeLoop :: "'s projector option \<Rightarrow> (nat \<Rightarrow> db_fault) \<Rightarrow> nat \<Rightarrow> uint64 \<Rightarrow> lf_store \<Rightarrow> 's \<Rightarrow>
    lf_record list \<Rightarrow> (nat \<times> lf_error option) \<times> lf_store \<times> 's" where
  "lfMergeLoop p fs inserted highestOwn st s [] = ((inserted, None), st, s)"
| "lfMergeLoop p fs inserted highestOwn st s (r # rs) =
    (case lfMergeOne p (fs 0) st s r of
       (Inl e, st, s) \<Rightarrow> ((inserted, Some e), st, s)
     | (Inr n, st, s) \<Rightarrow>
       (if n = 0 then lfMergeLoop p (\<lambda>i. fs (Suc i)) inserted highestOwn st s rs
        else (let highestOwn = (if recNode r = lsNode st \<and> highestOwn < recSeq r then recSeq r else highestOwn)
              in lfMergeLoop p (\<lambda>i. fs (Suc i)) (inserted + 1) highestOwn (st\<lparr>lsNextSeq := highestOwn\<rparr>) s rs)))"

definition lfMerge :: "'s projector option \<Rightarrow> (nat \<Rightarrow> db_fault) \<Rightarrow> lf_store \<Rightarrow> 's \<Rightarrow> lf_record list \<Rightarrow>
    (nat \<times> lf_error option) \<times> lf_store \<times> 's" where
  "lfMerge p fs st s recs =
    (if recs = [] then ((0, None), st, s) else lfMergeLoop p fs 0 (lsNextSeq st) st s recs)"

section \<open>Reading\<close>

text \<open>A row is read back with its clock's node id set to its author.\<close>

definition lfScan :: "event_id \<times> lf_row \<Rightarrow> lf_record" where
  "lfScan = (\<lambda>(i, w). \<lparr>recNode = idNode i, recSeq = idSeq i,
     recClock = HLC (lrWall w) (lrLogical w) (idNode i), recType = lrType w, recPayload = lrPayload w\<rparr>)"

definition heldRecords :: "lf_rows \<Rightarrow> lf_record list" where
  "heldRecords rows = map lfScan (sorted_list_of_fmap rows)"

text \<open>\<open>sort.Slice\<close>; its result is determined when the comparison is a strict total order on the slice.\<close>

fun insortBy :: "('a \<Rightarrow> 'a \<Rightarrow> bool) \<Rightarrow> 'a \<Rightarrow> 'a list \<Rightarrow> 'a list" where
  "insortBy lt x [] = [x]"
| "insortBy lt x (y # ys) = (if lt y x then y # insortBy lt x ys else x # y # ys)"

definition sortSlice :: "('a \<Rightarrow> 'a \<Rightarrow> bool) \<Rightarrow> 'a list \<Rightarrow> 'a list" where
  "sortSlice lt xs = foldr (insortBy lt) xs []"

definition lfSinceRows :: "lf_rows \<Rightarrow> lf_vv \<Rightarrow> lf_record list" where
  "lfSinceRows rows vv =
    sortSlice lfLess (filter (\<lambda>r. lfGet vv (recNode r) < recSeq r) (heldRecords rows))"

definition lfSince :: "lf_store \<Rightarrow> lf_vv \<Rightarrow> lf_record list" where
  "lfSince st vv = lfSinceRows (dbRows (lsDb st)) vv"

definition lfVersionRows :: "lf_rows \<Rightarrow> lf_vv" where
  "lfVersionRows rows = foldl (\<lambda>vv n. case lfMaxSeq rows n of None \<Rightarrow> vv | Some s \<Rightarrow> lfObserve vv n s)
     fmempty (sorted_list_of_fset (idNode |`| fmdom rows))"

definition lfVersion :: "lf_store \<Rightarrow> lf_vv" where
  "lfVersion st = lfVersionRows (dbRows (lsDb st))"

definition lfCursor :: "lf_store \<Rightarrow> string \<Rightarrow> uint64" where
  "lfCursor st peer = fm_get 0 (dbCursors (lsDb st)) peer"

text \<open>\<open>SetCursor\<close>; a mark with the high bit set is refused like any such argument.\<close>

definition lfSetCursor :: "lf_store \<Rightarrow> string \<Rightarrow> uint64 \<Rightarrow> lf_error + lf_store" where
  "lfSetCursor st peer s = (if \<not> fitsInt64 s then Inl (InsertFailed peer s)
     else Inr (st\<lparr>lsDb := (lsDb st)\<lparr>dbCursors := fmupd peer s (dbCursors (lsDb st))\<rparr>\<rparr>))"

section \<open>Version vectors: lemmas\<close>

lemma lfGet_empty [simp]: "lfGet fmempty n = 0"
  by (simp add: lfGet_def)

lemma lfGet_observe: "lfGet (lfObserve v n s) m = (if m = n then max (lfGet v n) s else lfGet v m)"
  by (auto simp: lfGet_def lfObserve_def max_def)

lemma lfClone_id [simp]: "lfClone v = v"
proof (rule fmap_ext)
  fix k
  have "fmlookup (lfClone v) k = (case map_of (sorted_list_of_fmap v) k of None \<Rightarrow> fmlookup fmempty k | Some s \<Rightarrow> Some s)"
    unfolding lfClone_def by (rule foldl_fm_lookup) (auto simp: distinct_sorted_list_of_fmap)
  then show "fmlookup (lfClone v) k = fmlookup v k"
    by (simp add: map_of_sorted_list split: option.split)
qed

text \<open>
  A mark never decreases, observing is idempotent and insensitive to order, and \<open>Equal\<close> decides
  equality of vectors without zero marks.
\<close>

lemma lf_vv_laws:
  "lfGet v m \<le> lfGet (lfObserve v n s) m \<and>
   s \<le> lfGet (lfObserve v n s) n \<and>
   lfObserve (lfObserve v n s) n s = lfObserve v n s \<and>
   (\<forall>k. lfGet (lfObserve (lfObserve v n s) n' s') k = lfGet (lfObserve (lfObserve v n' s') n s) k) \<and>
   lfClone v = v \<and>
   ((\<forall>k. fmlookup v k \<noteq> Some 0) \<longrightarrow> (lfEqual v w \<longleftrightarrow> v = w))"
proof -
  have "v = w" if nz: "\<forall>k. fmlookup v k \<noteq> Some 0" and eq: "lfEqual v w"
  proof -
    have look: "lfGet w k = s" if "fmlookup v k = Some s" for k s
      using eq that set_sorted_list_of_fmap [of k s v]
      by (auto simp: lfEqual_def list_all_iff split: if_splits)
    have "fmlookup w k = Some s" if "fmlookup v k = Some s" for k s
      using look [OF that] nz that by (cases "fmlookup w k") (auto simp: lfGet_def fm_get_def)
    moreover from this have "fmdom v |\<subseteq>| fmdom w"
      by (auto intro!: fmdomI dest: fmdomE elim!: fmdomE)
    moreover have "fcard (fmdom v) = fcard (fmdom w)" using eq by (simp add: lfEqual_def split: if_splits)
    ultimately have "fmdom v = fmdom w" "\<And>k s. fmlookup v k = Some s \<Longrightarrow> fmlookup w k = Some s"
      using fcard_seteq by (metis order_refl, blast)
    then show "v = w"
      by (intro fmap_ext) (metis fmdom_notD fmdom_notI option.exhaust)
  qed
  moreover have "lfEqual v v"
    unfolding lfEqual_def list_all_iff
    by (auto simp: set_sorted_list_of_fmap lfGet_def fm_get_def split: option.splits)
  moreover have "lfObserve (lfObserve v n s) n s = lfObserve v n s"
    by (simp add: lfObserve_def [of "lfObserve v n s"] lfGet_observe)
  ultimately show ?thesis
    by (intro conjI allI impI iffI) (simp_all add: lfGet_observe max.left_commute max.commute)
qed

section \<open>Sorting\<close>

lemma mset_insortBy [simp]: "mset (insortBy lt x ys) = add_mset x (mset ys)"
  by (induction ys) auto

lemma mset_sortSlice [simp]: "mset (sortSlice lt xs) = mset xs"
  by (induction xs) (auto simp: sortSlice_def)

lemma set_sortSlice [simp]: "set (sortSlice lt xs) = set xs"
  by (metis mset_sortSlice set_mset_mset)

lemma distinct_sortSlice [simp]: "distinct (sortSlice lt xs) = distinct xs"
  by (metis mset_sortSlice mset_eq_imp_distinct_iff)

lemma sorted_sortSlice:
  assumes "\<And>a b. a \<in> set xs \<Longrightarrow> b \<in> set xs \<Longrightarrow> lt a b \<longleftrightarrow> (f a :: 'k::linorder) < f b"
  shows "sorted (map f (sortSlice lt xs))"
proof -
  have ins: "sorted (map f (insortBy lt x ys))"
    if "sorted (map f ys)" "x \<in> set xs" "set ys \<subseteq> set xs" for x ys
    using that
  proof (induction ys)
    case (Cons y ys)
    have "set (insortBy lt x ys) = insert x (set ys)"
      by (metis mset_insortBy set_mset_add_mset_insert set_mset_mset)
    with Cons assms [of y x] show ?case by (auto simp: not_less intro: order_trans)
  qed simp
  have "set zs \<subseteq> set xs \<Longrightarrow> sorted (map f (sortSlice lt zs))" for zs
  proof (induction zs)
    case (Cons z zs)
    have "set (foldr (insortBy lt) zs []) = set zs"
      using set_sortSlice [of lt zs] by (simp add: sortSlice_def)
    with Cons ins [of "foldr (insortBy lt) zs []" z] show ?case by (simp add: sortSlice_def)
  qed (simp add: sortSlice_def)
  then show ?thesis by simp
qed

section \<open>Held records\<close>

text \<open>The record a stored record is read back as.\<close>

definition recId :: "lf_record \<Rightarrow> event_id" where
  "recId r = EventID (recNode r) (recSeq r)"

definition readBack :: "lf_record \<Rightarrow> lf_record" where
  "readBack r = r\<lparr>recClock := HLC (Wall (recClock r)) (Logical (recClock r)) (recNode r),
     recPayload := lfNonNil (recPayload r)\<rparr>"

definition lfRowOf :: "lf_record \<Rightarrow> lf_row" where
  "lfRowOf r = \<lparr>lrWall = Wall (recClock r), lrLogical = Logical (recClock r),
     lrType = recType r, lrPayload = lfNonNil (recPayload r)\<rparr>"

lemma lfScan_lfRowOf: "lfScan (recId r, lfRowOf r) = readBack r"
  by (simp add: lfScan_def recId_def lfRowOf_def readBack_def)

lemma recId_lfScan [simp]: "recId (lfScan (i, w)) = i"
  by (simp add: recId_def lfScan_def)

lemma recId_readBack [simp]: "recId (readBack r) = recId r"
  by (simp add: recId_def readBack_def)

lemma set_heldRecords: "set (heldRecords rows) = {lfScan (i, w) | i w. fmlookup rows i = Some w}"
  by (force simp: heldRecords_def set_sorted_list_of_fmap)

lemma held_ids: "recId ` set (heldRecords rows) = fset (fmdom rows)"
  by (force simp: set_heldRecords image_iff fmlookup_dom_iff)

lemma inj_recId_held: "inj_on recId (set (heldRecords rows))"
  by (auto simp: inj_on_def set_heldRecords)

lemma map_recId_held: "map recId (heldRecords rows) = map fst (sorted_list_of_fmap rows)"
  by (auto simp: heldRecords_def)

lemma distinct_held: "distinct (heldRecords rows)"
  using distinct_sorted_list_of_fmap [of rows] unfolding map_recId_held [symmetric]
  by (simp add: distinct_map)

lemma held_insert:
  assumes "fmlookup rows (recId r) = None"
  shows "mset (heldRecords (fmupd (recId r) (lfRowOf r) rows)) = add_mset (readBack r) (mset (heldRecords rows))"
proof -
  have "readBack r \<notin> set (heldRecords rows)"
    using assms by (auto simp: set_heldRecords dest: arg_cong [of _ _ recId])
  moreover have "set (heldRecords (fmupd (recId r) (lfRowOf r) rows)) = insert (readBack r) (set (heldRecords rows))"
    unfolding set_heldRecords lfScan_lfRowOf [symmetric] using assms by (auto; metis option.distinct(1))
  ultimately have "mset (heldRecords (fmupd (recId r) (lfRowOf r) rows)) = mset (readBack r # heldRecords rows)"
    by (intro mset_eq_of_distinct) (simp_all add: distinct_held)
  then show ?thesis by simp
qed

lemma set_lfSince: "set (lfSince st vv) = {r \<in> set (heldRecords (dbRows (lsDb st))). lfGet vv (recNode r) < recSeq r}"
  by (auto simp: lfSince_def lfSinceRows_def)

lemma lfSince_all:
  assumes "\<And>i. i |\<in>| fmdom rows \<Longrightarrow> idSeq i \<noteq> 0"
  shows "mset (lfSinceRows rows fmempty) = mset (heldRecords rows)"
proof -
  have "recSeq r \<noteq> 0" if "r \<in> set (heldRecords rows)" for r
    using assms [of "recId r"] held_ids [of rows] that by (force simp: recId_def)
  then have "filter (\<lambda>r. lfGet fmempty (recNode r) < recSeq r) (heldRecords rows) = heldRecords rows"
    by (intro filter_True) (auto simp: word_neq_0_conv [symmetric])
  then show ?thesis by (simp add: lfSinceRows_def)
qed

end
