(* ===== verification/LfStore.thy ===== *)
theory LfStore
  imports LfLog
begin

text \<open>
  What the store of \<open>localfirst-go/eventlog/store.go\<close> promises: every transaction happens
  entirely or not at all, the author's sequence stays ahead of its rows, merging is
  idempotent, and a projector that meets its contract never disagrees with the log, whatever
  the database fails.
\<close>

section \<open>One transaction\<close>

lemma lfExec_cases:
  assumes "lfExec f rows r = Inr (n, rows')"
  obtains "fitsInt64 (recSeq r)" "fmlookup rows (recId r) \<noteq> None" "n = 0" "rows' = rows"
  | "fitsInt64 (recSeq r)" "fmlookup rows (recId r) = None" "n = 1"
    "rows' = fmupd (recId r) (lfRowOf r) rows"
  using assms
  by (auto simp: lfExec_def Let_def recId_def lfRowOf_def split: if_splits)

lemma setRows_simps [simp]:
  "lsNode (setRows rows st) = lsNode st" "lsNextSeq (setRows rows st) = lsNextSeq st"
  "dbRows (lsDb (setRows rows st)) = rows" "dbCursors (lsDb (setRows rows st)) = dbCursors (lsDb st)"
  by (simp_all add: setRows_def)

abbreviation rowsOf :: "lf_store \<Rightarrow> lf_rows" where
  "rowsOf st \<equiv> dbRows (lsDb st)"

lemma lfMergeOne_cases:
  assumes "lfMergeOne p f st s r = (res, st', s')"
  obtains (failed) e where "res = Inl e" "st' = st" "s' = s \<or> s' = snd (runProject p s r)"
  | (held) "res = Inr 0" "st' = st" "s' = s" "fmlookup (rowsOf st) (recId r) \<noteq> None"
  | (inserted) commit s0 where "res = Inr 1" "fitsInt64 (recSeq r)" "fmlookup (rowsOf st) (recId r) = None"
    "st' = setRows (fmupd (recId r) (lfRowOf r) (rowsOf st)) st"
    "runProject p s r = (Inr commit, s0)" "s' = commit s0"
proof (cases "f = FailBegin \<or> (\<exists>e. lfExec f (rowsOf st) r = Inl e)")
  case True
  with assms have "\<exists>e. res = Inl e \<and> st' = st \<and> s' = s"
    by (cases "f = FailBegin") (auto simp: lfMergeOne_def)
  then show ?thesis using that(1) by blast
next
  case False
  then obtain n rows where ex: "lfExec f (rowsOf st) r = Inr (n, rows)"
    by (metis old.sum.exhaust surj_pair)
  obtain x s0 where x: "runProject p s r = (x, s0)" by (cases "runProject p s r")
  from ex show ?thesis
  proof (cases rule: lfExec_cases)
    case 1
    with assms False ex have "res = Inr 0 \<and> st' = st \<and> s' = s" by (simp add: lfMergeOne_def)
    with 1 that(2) show ?thesis by blast
  next
    case 2
    show ?thesis
    proof (cases "f = FailCommit \<or> (\<exists>e. x = Inl e)")
      case True
      with assms False ex 2(3) x have "(\<exists>e. res = Inl e) \<and> st' = st \<and> s' = s0"
        by (cases x) (auto simp: lfMergeOne_def)
      with that(1) x show ?thesis by auto
    next
      case F: False
      then obtain commit where c: "x = Inr commit" by (cases x) auto
      with assms False ex 2(3,4) x F
      have "res = Inr 1 \<and> st' = setRows (fmupd (recId r) (lfRowOf r) (rowsOf st)) st \<and> s' = commit s0"
        by (simp add: lfMergeOne_def)
      with 2 x c that(3) show ?thesis by blast
    qed
  qed
qed

lemma lfAppend_cases:
  assumes "lfAppend v p f st s typ b ts = (res, st', s')"
  defines "r \<equiv> \<lparr>recNode = lsNode st, recSeq = lsNextSeq st + 1, recClock = ts, recType = typ, recPayload = b\<rparr>"
  obtains (failed) e where "res = Inl e" "st' = st" "s' = s \<or> s' = snd (runProject p s r)"
  | (appended) rows commit s0 where "res = Inr r" "fitsInt64 (recSeq r)"
    "\<And>chk. v = Some chk \<Longrightarrow> chk s r = None"
    "rows = (if fmlookup (rowsOf st) (recId r) = None then fmupd (recId r) (lfRowOf r) (rowsOf st) else rowsOf st)"
    "st' = (setRows rows st)\<lparr>lsNextSeq := lsNextSeq st + 1\<rparr>"
    "runProject p s r = (Inr commit, s0)" "s' = commit s0"
proof -
  let ?chk = "case v of None \<Rightarrow> None | Some chk \<Rightarrow> chk s r"
  obtain x s0 where x: "runProject p s r = (x, s0)" by (cases "runProject p s r")
  have seq: "recSeq r = lsNextSeq st + 1" by (simp add: r_def)
  have res: "(res, st', s') =
    (if f = FailBegin then (Inl BeginFailed, st, s)
     else case ?chk of Some e \<Rightarrow> (Inl (AppendRejected e), st, s)
     | None \<Rightarrow> (case lfInsert f (rowsOf st) r of Inl e \<Rightarrow> (Inl e, st, s)
        | Inr rows \<Rightarrow> (case x of Inl e \<Rightarrow> (Inl (ProjectFailed e), st, s0)
           | Inr commit \<Rightarrow> (if f = FailCommit then (Inl CommitFailed, st, s0)
              else (Inr r, (setRows rows st)\<lparr>lsNextSeq := recSeq r\<rparr>, commit s0)))))"
    unfolding assms(1) [symmetric] lfAppend_def Let_def r_def [symmetric] x
    by (cases x) (simp_all split: option.split sum.split)
  show ?thesis
  proof (cases "f = FailBegin \<or> ?chk \<noteq> None \<or> (\<exists>e. lfExec f (rowsOf st) r = Inl e)")
    case True
    with res have "\<exists>e. res = Inl e \<and> st' = st \<and> s' = s"
      by (auto simp: lfInsert_def split: option.splits if_splits)
    then show ?thesis using that(1) by blast
  next
    case False
    then obtain n rows where ex: "lfExec f (rowsOf st) r = Inr (n, rows)"
      by (metis old.sum.exhaust surj_pair)
    from False have chk: "\<And>chk. v = Some chk \<Longrightarrow> chk s r = None" by simp
    have rows: "fitsInt64 (recSeq r) \<and> rows =
        (if fmlookup (rowsOf st) (recId r) = None then fmupd (recId r) (lfRowOf r) (rowsOf st) else rowsOf st)"
      using ex by (cases rule: lfExec_cases) auto
    show ?thesis
    proof (cases "f = FailCommit \<or> (\<exists>e. x = Inl e)")
      case True
      with res False ex have "(\<exists>e. res = Inl e) \<and> st' = st \<and> s' = s0"
        by (cases x) (auto simp: lfInsert_def)
      with that(1) x show ?thesis by auto
    next
      case F: False
      then obtain commit where c: "x = Inr commit" by (cases x) auto
      with res False ex F
      have "res = Inr r \<and> st' = (setRows rows st)\<lparr>lsNextSeq := lsNextSeq st + 1\<rparr> \<and> s' = commit s0"
        by (simp add: lfInsert_def seq)
      then have *: "res = Inr r" "s' = commit s0"
        "st' = (setRows rows st)\<lparr>lsNextSeq := lsNextSeq st + 1\<rparr>" by simp_all
      from x c have run: "runProject p s r = (Inr commit, s0)" by simp
      show ?thesis
        by (rule that(2) [OF *(1) conjunct1 [OF rows] _ conjunct2 [OF rows] *(3) run *(2)]) (rule chk)
    qed
  qed
qed

section \<open>The author's sequence\<close>

lemma fitsInt64_Suc: "fitsInt64 w \<Longrightarrow> w < w + 1"
proof -
  assume f: "fitsInt64 w"
  have "w + 1 = word_of_int (uint w + 1)" by simp
  also have "uint \<dots> = uint w + 1" using f by (intro uint64_of_int) (simp_all add: fitsInt64_def)
  finally show ?thesis by (simp add: word_less_def)
qed

definition authorSeqs :: "lf_rows \<Rightarrow> node_id \<Rightarrow> uint64 set" where
  "authorSeqs rows n = idSeq ` {i. i |\<in>| fmdom rows \<and> idNode i = n}"

lemma finite_authorSeqs [simp]: "finite (authorSeqs rows n)"
  by (simp add: authorSeqs_def)

lemma lfMaxSeq_conv: "lfMaxSeq rows n = (if authorSeqs rows n = {} then None else Some (Max (authorSeqs rows n)))"
proof -
  let ?xs = "map (\<lambda>(i, _). idSeq i) (filter (\<lambda>(i, _). idNode i = n) (sorted_list_of_fmap rows))"
  have set: "set ?xs = authorSeqs rows n"
    by (force simp: authorSeqs_def set_sorted_list_of_fmap fmlookup_dom_iff)
  show ?thesis
  proof (cases ?xs)
    case Nil
    with set show ?thesis by (simp add: lfMaxSeq_def)
  next
    case (Cons x xs)
    then have ne: "authorSeqs rows n \<noteq> {}" using set by auto
    have "foldl max x xs = Max (set (x # xs))"
      by (simp only: Max.set_eq_fold foldl_conv_fold) (simp add: max.commute)
    with set Cons ne show ?thesis by (simp add: lfMaxSeq_def)
  qed
qed

definition ownSeq :: "lf_rows \<Rightarrow> node_id \<Rightarrow> uint64" where
  "ownSeq rows n = (if authorSeqs rows n = {} then 0 else Max (authorSeqs rows n))"

lemma ownSeq_ge: "i |\<in>| fmdom rows \<Longrightarrow> idSeq i \<le> ownSeq rows (idNode i)"
  by (auto simp: ownSeq_def authorSeqs_def intro!: Max_ge)

lemma ownSeq_insert:
  "ownSeq (fmupd i w rows) n = (if idNode i = n then max (idSeq i) (ownSeq rows n) else ownSeq rows n)"
proof -
  have "authorSeqs (fmupd i w rows) n = (if idNode i = n then insert (idSeq i) (authorSeqs rows n) else authorSeqs rows n)"
    by (auto simp: authorSeqs_def)
  then show ?thesis by (auto simp: ownSeq_def max_def)
qed

definition rowsFit :: "lf_rows \<Rightarrow> bool" where
  "rowsFit rows \<longleftrightarrow> (\<forall>i. i |\<in>| fmdom rows \<longrightarrow> fitsInt64 (idSeq i) \<and> idSeq i \<noteq> 0)"

lemma rowsFit_insert: "rowsFit rows \<Longrightarrow> fitsInt64 (idSeq i) \<Longrightarrow> idSeq i \<noteq> 0 \<Longrightarrow> rowsFit (fmupd i w rows)"
  by (auto simp: rowsFit_def)

lemma fitsInt64_ownSeq: "rowsFit rows \<Longrightarrow> fitsInt64 (ownSeq rows n)"
proof (cases "authorSeqs rows n = {}")
  case False
  assume fit: "rowsFit rows"
  have "Max (authorSeqs rows n) \<in> authorSeqs rows n" using False by simp
  then obtain i where "Max (authorSeqs rows n) = idSeq i" "i |\<in>| fmdom rows"
    by (auto simp: authorSeqs_def)
  with fit False show ?thesis by (simp add: ownSeq_def rowsFit_def)
qed (simp add: ownSeq_def)

text \<open>
  The counter in memory is the one \<open>Open\<close> would read from the file, so a crash and restart loses
  nothing of the store.
\<close>

definition lfStoreOk :: "lf_store \<Rightarrow> bool" where
  "lfStoreOk st \<longleftrightarrow> rowsFit (rowsOf st) \<and> lfOpen (lsDb st) (lsNode st) = st"

lemma lfOpen_simps [simp]:
  "lsNode (lfOpen db n) = n" "lsDb (lfOpen db n) = db" "lsNextSeq (lfOpen db n) = ownSeq (dbRows db) n"
  by (simp_all add: lfOpen_def lfMaxSeq_conv ownSeq_def)

lemma lfStoreOk_iff: "lfStoreOk st \<longleftrightarrow> rowsFit (rowsOf st) \<and> lsNextSeq st = ownSeq (rowsOf st) (lsNode st)"
  unfolding lfStoreOk_def by (cases st) (auto simp: lfOpen_def lfMaxSeq_conv ownSeq_def)

lemma lfOpen_ok [simp]: "rowsFit (dbRows db) \<Longrightarrow> lfStoreOk (lfOpen db n)"
  by (simp add: lfStoreOk_def)

lemma next_row_free:
  assumes "lfStoreOk st"
  shows "fmlookup (rowsOf st) (EventID (lsNode st) (lsNextSeq st + 1)) = None" "lsNextSeq st < lsNextSeq st + 1"
proof -
  show lt: "lsNextSeq st < lsNextSeq st + 1"
    using assms fitsInt64_Suc fitsInt64_ownSeq by (simp add: lfStoreOk_iff)
  show "fmlookup (rowsOf st) (EventID (lsNode st) (lsNextSeq st + 1)) = None"
  proof (rule ccontr)
    assume "\<not> ?thesis"
    then have "EventID (lsNode st) (lsNextSeq st + 1) |\<in>| fmdom (rowsOf st)"
      by (auto simp: fmlookup_dom_iff)
    from ownSeq_ge [OF this] assms lt show False by (simp add: lfStoreOk_iff)
  qed
qed

lemma lfAppend_new_row:
  fixes st :: lf_store and tp :: string and b :: bytes and ts :: hlc
  defines "seq \<equiv> lsNextSeq st + 1"
  defines "r \<equiv> \<lparr>recNode = lsNode st, recSeq = seq, recClock = ts, recType = tp, recPayload = b\<rparr>"
  assumes ok: "lfStoreOk st" and fits: "fitsInt64 (recSeq r)"
    and rows: "rows = (if fmlookup (rowsOf st) (recId r) = None
      then fmupd (recId r) (lfRowOf r) (rowsOf st) else rowsOf st)"
    and st': "st' = (setRows rows st)\<lparr>lsNextSeq := seq\<rparr>"
  shows "lfStoreOk st'" "fmlookup (rowsOf st) (recId r) = None"
    "rowsOf st' = fmupd (recId r) (lfRowOf r) (rowsOf st)" "lsNextSeq st < seq" "seq \<noteq> 0"
proof -
  show none: "fmlookup (rowsOf st) (recId r) = None" and lt: "lsNextSeq st < seq"
    using next_row_free [OF ok] by (simp_all add: recId_def r_def seq_def)
  show rows': "rowsOf st' = fmupd (recId r) (lfRowOf r) (rowsOf st)"
    using rows none st' by simp
  show nz: "seq \<noteq> 0" using lt by force
  have r: "recNode r = lsNode st" "recSeq r = seq" by (simp_all add: r_def)
  have "rowsFit (rowsOf st')"
    unfolding rows' using ok fits nz r by (intro rowsFit_insert) (simp_all add: lfStoreOk_iff recId_def)
  moreover have "ownSeq (rowsOf st') (lsNode st') = max seq (lsNextSeq st)"
    unfolding rows' ownSeq_insert using ok by (simp add: lfStoreOk_iff recId_def r st')
  then have "lsNextSeq st' = ownSeq (rowsOf st') (lsNode st')"
    using lt by (auto simp: st' max_def)
  ultimately show "lfStoreOk st'" by (simp add: lfStoreOk_iff)
qed

text \<open>
  An append is all or nothing: whatever the validator, the projector and the database do, on an
  error the store is unchanged; on success it gained exactly the returned record, under the next
  number of this author and at a key no row had, and the validator had accepted that record. Either
  way, reopening the file gives the same store.
\<close>

lemma lf_append_all_or_nothing:
  assumes "lfStoreOk st" "lfAppend v p f st s typ b ts = (res, st', s')"
  shows "lfStoreOk st' \<and> lfOpen (lsDb st') (lsNode st') = st' \<and>
    (case res of Inl e \<Rightarrow> st' = st
     | Inr r \<Rightarrow> recNode r = lsNode st \<and> recSeq r = lsNextSeq st + 1 \<and> lsNextSeq st < recSeq r \<and>
         recType r = typ \<and> recPayload r = b \<and> recClock r = ts \<and>
         (\<forall>chk. v = Some chk \<longrightarrow> chk s r = None) \<and>
         fmlookup (rowsOf st) (recId r) = None \<and>
         rowsOf st' = fmupd (recId r) (lfRowOf r) (rowsOf st) \<and> lsNextSeq st' = recSeq r)"
  using assms(2)
proof (cases rule: lfAppend_cases)
  case failed
  with assms(1) show ?thesis by (simp add: lfStoreOk_def)
next
  case (appended rows commit s0)
  let ?r = "\<lparr>recNode = lsNode st, recSeq = lsNextSeq st + 1, recClock = ts, recType = typ, recPayload = b\<rparr>"
  note new = lfAppend_new_row [OF assms(1) appended(2,4,5)]
  then show ?thesis
    using appended by (simp add: lfStoreOk_def)
qed

section \<open>Merging\<close>

text \<open>One turn of the loop, with the counter kept at the highest own number.\<close>

definition lfMergeStep :: "'s projector option \<Rightarrow> db_fault \<Rightarrow> lf_store \<Rightarrow> 's \<Rightarrow> lf_record \<Rightarrow>
    (lf_error + nat) \<times> lf_store \<times> 's" where
  "lfMergeStep p f st s r = (case lfMergeOne p f st s r of
     (Inl e, st, s) \<Rightarrow> (Inl e, st, s)
   | (Inr n, st, s) \<Rightarrow> (Inr n, (if n = 0 then st
       else st\<lparr>lsNextSeq := (if recNode r = lsNode st then max (lsNextSeq st) (recSeq r) else lsNextSeq st)\<rparr>), s))"

lemma lfMergeStep_cases:
  assumes "lfMergeStep p f st s r = (res, st', s')"
  obtains (failed) e where "res = Inl e" "st' = st" "s' = s \<or> s' = snd (runProject p s r)"
  | (held) "res = Inr 0" "st' = st" "s' = s" "fmlookup (rowsOf st) (recId r) \<noteq> None"
  | (inserted) commit s0 where "res = Inr 1" "fitsInt64 (recSeq r)" "fmlookup (rowsOf st) (recId r) = None"
    "rowsOf st' = fmupd (recId r) (lfRowOf r) (rowsOf st)" "lsNode st' = lsNode st"
    "dbCursors (lsDb st') = dbCursors (lsDb st)"
    "lsNextSeq st' = (if recNode r = lsNode st then max (lsNextSeq st) (recSeq r) else lsNextSeq st)"
    "runProject p s r = (Inr commit, s0)" "s' = commit s0"
proof -
  obtain res0 st0 s0 where one: "lfMergeOne p f st s r = (res0, st0, s0)" by (cases "lfMergeOne p f st s r")
  then show ?thesis
  proof (cases rule: lfMergeOne_cases)
    case (failed e)
    with assms one have "res = Inl e" "st' = st" "s' = s \<or> s' = snd (runProject p s r)"
      by (auto simp: lfMergeStep_def)
    then show ?thesis by (rule that(1))
  next
    case held
    with assms one have "res = Inr 0" "st' = st" "s' = s" by (auto simp: lfMergeStep_def)
    then show ?thesis using held(4) by (rule that(2))
  next
    case (inserted commit s1)
    with assms one have *: "res = Inr 1" "s' = commit s1"
      "st' = st0\<lparr>lsNextSeq := (if recNode r = lsNode st0 then max (lsNextSeq st0) (recSeq r) else lsNextSeq st0)\<rparr>"
      by (auto simp: lfMergeStep_def)
    show ?thesis
      by (rule that(3) [OF *(1) inserted(2,3) _ _ _ _ inserted(5) *(2)]) (simp_all add: *(3) inserted(4))
  qed
qed

lemma lfMergeLoop_Cons:
  "lfMergeLoop p fs k (lsNextSeq st) st s (r # rs) = (case lfMergeStep p (fs 0) st s r of
     (Inl e, st, s) \<Rightarrow> ((k, Some e), st, s)
   | (Inr n, st, s) \<Rightarrow> lfMergeLoop p (\<lambda>i. fs (Suc i)) (k + n) (lsNextSeq st) st s rs)"
proof -
  obtain res0 st0 s0 where one: "lfMergeOne p (fs 0) st s r = (res0, st0, s0)" by (cases "lfMergeOne p (fs 0) st s r")
  then show ?thesis
    by (cases rule: lfMergeOne_cases) (auto simp: lfMergeStep_def one lfMergeLoop.simps(2) Let_def max_def not_less)
qed

declare lfMergeLoop.simps(2) [simp del]

text \<open>What a merge leaves on disk: the records up to some point of the batch, each under its key
  unless the key was taken.\<close>

definition storeRecord :: "lf_rows \<Rightarrow> lf_record \<Rightarrow> lf_rows" where
  "storeRecord rows r = (if fmlookup rows (recId r) = None then fmupd (recId r) (lfRowOf r) rows else rows)"

abbreviation storeRecords :: "lf_rows \<Rightarrow> lf_record list \<Rightarrow> lf_rows" where
  "storeRecords \<equiv> foldl storeRecord"

lemma storeRecord_lookup:
  "fmlookup (storeRecord rows r) i = (case fmlookup rows i of Some w \<Rightarrow> Some w
     | None \<Rightarrow> if i = recId r then Some (lfRowOf r) else None)"
  by (auto simp: storeRecord_def split: option.split)

lemma storeRecords_lookup:
  "fmlookup (storeRecords rows rs) i = (case fmlookup rows i of Some w \<Rightarrow> Some w
     | None \<Rightarrow> map_option lfRowOf (find (\<lambda>r. recId r = i) rs))"
  by (induction rs arbitrary: rows) (auto simp: storeRecord_lookup split: option.split)

lemma storeRecords_held:
  "\<forall>r \<in> set rs. fmlookup rows (recId r) \<noteq> None \<Longrightarrow> storeRecords rows rs = rows"
  by (induction rs) (auto simp: storeRecord_def)

lemma storeRecords_dom: "fmdom (storeRecords rows rs) = fmdom rows |\<union>| fset_of_list (map recId rs)"
proof (rule fset_eqI)
  fix i
  have "find (\<lambda>r. recId r = i) rs = None \<longleftrightarrow> (\<forall>r \<in> set rs. recId r \<noteq> i)"
    by (auto simp: find_None_iff)
  then show "i |\<in>| fmdom (storeRecords rows rs) \<longleftrightarrow> i |\<in>| fmdom rows |\<union>| fset_of_list (map recId rs)"
    by (auto simp: fmlookup_dom_iff storeRecords_lookup fset_of_list_elem split: option.splits; fastforce)
qed

text \<open>A retry after an interruption ends where the uninterrupted run would have.\<close>

lemma storeRecords_retry: "storeRecords (storeRecords rows (take j rs)) rs = storeRecords rows rs"
proof (rule fmap_ext)
  fix i
  have "find P (take j rs) = Some r \<Longrightarrow> find P rs = Some r" for P r
  proof (induction rs arbitrary: j)
    case (Cons a rs)
    then show ?case by (cases j) (auto split: if_splits)
  qed simp
  then show "fmlookup (storeRecords (storeRecords rows (take j rs)) rs) i = fmlookup (storeRecords rows rs) i"
    by (auto simp: storeRecords_lookup split: option.split)
qed

lemma fcard_grows: "A |\<subseteq>| B \<Longrightarrow> k + fcard B - fcard A = k + (fcard B - fcard A)"
  using fcard_mono by force

lemma lfMergeLoop_rows:
  assumes "lfStoreOk st" "\<forall>r \<in> set rs. recSeq r \<noteq> 0"
    and "lfMergeLoop p fs k (lsNextSeq st) st s rs = ((m, err), st', s')"
  shows "lfStoreOk st' \<and> lsNode st' = lsNode st \<and> dbCursors (lsDb st') = dbCursors (lsDb st) \<and>
    (\<exists>j \<le> length rs. rowsOf st' = storeRecords (rowsOf st) (take j rs) \<and>
      m = k + fcard (fmdom (rowsOf st')) - fcard (fmdom (rowsOf st)) \<and>
      fmdom (rowsOf st) |\<subseteq>| fmdom (rowsOf st') \<and> (err = None \<longleftrightarrow> j = length rs))"
  using assms
proof (induction rs arbitrary: fs k st s)
  case Nil
  then show ?case by simp
next
  case (Cons r rs)
  obtain res st1 s1 where step: "lfMergeStep p (fs 0) st s r = (res, st1, s1)"
    by (cases "lfMergeStep p (fs 0) st s r")
  from step show ?case
  proof (cases rule: lfMergeStep_cases)
    case (failed e)
    with Cons.prems step show ?thesis
      by (auto simp: lfMergeLoop_Cons intro!: exI [of _ 0])
  next
    case held
    with Cons.prems(3) step have "lfMergeLoop p (\<lambda>i. fs (Suc i)) k (lsNextSeq st) st s rs = ((m, err), st', s')"
      by (simp add: lfMergeLoop_Cons)
    from Cons.IH [OF Cons.prems(1) _ this] Cons.prems(2)
    obtain j where "lfStoreOk st'" "lsNode st' = lsNode st" "dbCursors (lsDb st') = dbCursors (lsDb st)"
      "j \<le> length rs" "rowsOf st' = storeRecords (rowsOf st) (take j rs)"
      "m = k + fcard (fmdom (rowsOf st')) - fcard (fmdom (rowsOf st))"
      "fmdom (rowsOf st) |\<subseteq>| fmdom (rowsOf st')" "err = None \<longleftrightarrow> j = length rs"
      by auto
    moreover have "storeRecord (rowsOf st) r = rowsOf st"
      using held(4) by (auto simp: storeRecord_def)
    ultimately show ?thesis
      by (intro conjI exI [of _ "Suc j"]) simp_all
  next
    case (inserted commit s0)
    with Cons.prems(3) step
    have loop: "lfMergeLoop p (\<lambda>i. fs (Suc i)) (k + 1) (lsNextSeq st1) st1 s1 rs = ((m, err), st', s')"
      by (simp add: lfMergeLoop_Cons)
    have ok: "lfStoreOk st1"
      using Cons.prems(1,2) inserted(2) unfolding lfStoreOk_iff inserted(4,5,7) ownSeq_insert
      by (auto simp: recId_def max.commute intro!: rowsFit_insert)
    have card: "fcard (fmdom (rowsOf st1)) = Suc (fcard (fmdom (rowsOf st)))"
      using inserted(3,4) by (simp add: fcard_finsert_disjoint fmdom_notI)
    have st1: "rowsOf st1 = storeRecord (rowsOf st) r"
      using inserted(3,4) by (simp add: storeRecord_def)
    from Cons.IH [OF ok _ loop] Cons.prems(2)
    obtain j where j: "lfStoreOk st'" "lsNode st' = lsNode st1" "dbCursors (lsDb st') = dbCursors (lsDb st1)"
      "j \<le> length rs" "rowsOf st' = storeRecords (rowsOf st1) (take j rs)"
      "m = k + 1 + fcard (fmdom (rowsOf st')) - fcard (fmdom (rowsOf st1))"
      "fmdom (rowsOf st1) |\<subseteq>| fmdom (rowsOf st')" "err = None \<longleftrightarrow> j = length rs"
      by auto
    have "m = k + fcard (fmdom (rowsOf st')) - fcard (fmdom (rowsOf st))"
      using j(6) card by simp
    moreover have "fmdom (rowsOf st) |\<subseteq>| fmdom (rowsOf st')"
      using j(7) inserted(4) by auto
    ultimately show ?thesis
      using j inserted(5,6) st1 by (auto intro!: exI [of _ "Suc j"])
  qed
qed


lemma lfMerge_rows:
  assumes "lfStoreOk st" "\<forall>r \<in> set rs. recSeq r \<noteq> 0"
    and "lfMerge p fs st s rs = ((m, err), st', s')"
  obtains j where "lfStoreOk st'" "lsNode st' = lsNode st" "dbCursors (lsDb st') = dbCursors (lsDb st)"
    "j \<le> length rs" "rowsOf st' = storeRecords (rowsOf st) (take j rs)"
    "m = fcard (fmdom (rowsOf st')) - fcard (fmdom (rowsOf st))"
    "fmdom (rowsOf st) |\<subseteq>| fmdom (rowsOf st')" "err = None \<longleftrightarrow> j = length rs"
proof (cases "rs = []")
  case True
  with assms that [of 0] show ?thesis by (simp add: lfMerge_def)
next
  case False
  then have "lfMergeLoop p fs 0 (lsNextSeq st) st s rs = ((m, err), st', s')"
    using assms(3) by (simp add: lfMerge_def)
  from lfMergeLoop_rows [OF assms(1,2) this] show ?thesis using that by auto
qed

lemma lfMergeOne_ok:
  assumes "f = DbOk" "fitsInt64 (recSeq r)" "\<And>s. is_Inr (fst (runProject p s r))"
  shows "\<exists>n st' s'. lfMergeOne p f st s r = (Inr n, st', s')"
proof -
  obtain x s0 where x: "runProject p s r = (x, s0)" by (cases "runProject p s r")
  with assms(3) [of s] obtain c where "x = Inr c" by (auto simp: is_Inr_iff)
  with x assms(1,2) show ?thesis by (auto simp: lfMergeOne_def lfExec_def Let_def)
qed

lemma lfMergeLoop_ok:
  assumes "\<forall>r \<in> set rs. fitsInt64 (recSeq r) \<and> (\<forall>s. is_Inr (fst (runProject p s r)))" "\<forall>i. fs i = DbOk"
  shows "snd (fst (lfMergeLoop p fs k own st s rs)) = None"
  using assms
proof (induction rs arbitrary: fs k own st s)
  case (Cons r rs)
  then obtain n st' s' where "lfMergeOne p (fs 0) st s r = (Inr n, st', s')"
    using lfMergeOne_ok [of "fs 0" r p st s] by auto
  with Cons show ?case by (simp add: lfMergeLoop.simps(2) Let_def)
qed simp

lemma lfMerge_ok:
  assumes "\<forall>r \<in> set rs. fitsInt64 (recSeq r) \<and> (\<forall>s. is_Inr (fst (runProject p s r)))"
  shows "\<exists>m st' s'. lfMerge p (\<lambda>_. DbOk) st s rs = ((m, None), st', s')"
  using lfMergeLoop_ok [OF assms, of "\<lambda>_. DbOk" 0 "lsNextSeq st" st s]
  by (cases "lfMergeLoop p (\<lambda>_. DbOk) 0 (lsNextSeq st) st s rs")
    (auto simp: lfMerge_def)

text \<open>
  C38. Merging is safe to interrupt and to repeat. Whatever the projector rejects and the database
  fails, the rows afterwards are those of a prefix of the batch laid over the rows before (a row is
  never overwritten), the count returned is the number of rows gained, and the author's counter is
  the one a restart would read. A fault-free second merge of a batch every record of which the
  projector takes ends with the rows of one uninterrupted merge, and a third changes nothing.
\<close>

theorem lf_merge_interrupted_and_repeated:
  assumes "lfStoreOk st" "\<forall>r \<in> set rs. recSeq r \<noteq> 0"
    and "lfMerge p fs st s rs = ((m, err), st1, s1)"
  shows "(\<exists>j \<le> length rs. rowsOf st1 = storeRecords (rowsOf st) (take j rs) \<and> (err = None \<longleftrightarrow> j = length rs)) \<and>
    m = fcard (fmdom (rowsOf st1)) - fcard (fmdom (rowsOf st)) \<and>
    (\<forall>i w. fmlookup (rowsOf st) i = Some w \<longrightarrow> fmlookup (rowsOf st1) i = Some w) \<and>
    lfOpen (lsDb st1) (lsNode st1) = st1 \<and>
    ((\<forall>r \<in> set rs. fitsInt64 (recSeq r) \<and> (\<forall>s. is_Inr (fst (runProject p s r)))) \<longrightarrow>
      (\<exists>m2 st2 s2. lfMerge p (\<lambda>_. DbOk) st1 s1 rs = ((m2, None), st2, s2) \<and>
        rowsOf st2 = storeRecords (rowsOf st) rs \<and>
        lfMerge p (\<lambda>_. DbOk) st2 s2 rs = ((0, None), st2, s2)))"
proof (intro conjI impI)
  obtain j where j: "lfStoreOk st1" "j \<le> length rs" "rowsOf st1 = storeRecords (rowsOf st) (take j rs)"
    "m = fcard (fmdom (rowsOf st1)) - fcard (fmdom (rowsOf st))" "err = None \<longleftrightarrow> j = length rs"
    using assms by (rule lfMerge_rows)
  then show "\<exists>j \<le> length rs. rowsOf st1 = storeRecords (rowsOf st) (take j rs) \<and> (err = None \<longleftrightarrow> j = length rs)"
    "m = fcard (fmdom (rowsOf st1)) - fcard (fmdom (rowsOf st))"
    "\<forall>i w. fmlookup (rowsOf st) i = Some w \<longrightarrow> fmlookup (rowsOf st1) i = Some w"
    by (auto simp: storeRecords_lookup)
  show "lfOpen (lsDb st1) (lsNode st1) = st1" using j(1) by (simp add: lfStoreOk_def)
  assume good: "\<forall>r \<in> set rs. fitsInt64 (recSeq r) \<and> (\<forall>s. is_Inr (fst (runProject p s r)))"
  obtain m2 st2 s2 where two: "lfMerge p (\<lambda>_. DbOk) st1 s1 rs = ((m2, None), st2, s2)"
    using lfMerge_ok [OF good] by blast
  from j(1) assms(2) two obtain j2 where j2: "lfStoreOk st2"
    "rowsOf st2 = storeRecords (rowsOf st1) (take j2 rs)" "j2 = length rs"
    by (rule lfMerge_rows) simp
  then have rows2: "rowsOf st2 = storeRecords (rowsOf st) rs"
    using j(3) by (simp add: storeRecords_retry)
  have held: "\<forall>r \<in> set rs. fmlookup (rowsOf st2) (recId r) \<noteq> None"
    unfolding rows2 fmlookup_dom_iff [symmetric]
    by (auto simp: storeRecords_dom fset_of_list_elem fmlookup_dom_iff [symmetric] simp flip: fmdom_notD)
  have "lfMergeLoop p (\<lambda>_. DbOk) k own st2 s2 xs = ((k, None), st2, s2)" if "set xs \<subseteq> set rs" for k own xs
    using that
  proof (induction xs)
    case (Cons x xs)
    then have "lfMergeOne p DbOk st2 s2 x = (Inr 0, st2, s2)"
      using held good by (auto simp: lfMergeOne_def lfExec_def recId_def Let_def)
    with Cons show ?case by (simp add: lfMergeLoop.simps(2))
  qed simp
  then have "lfMerge p (\<lambda>_. DbOk) st2 s2 rs = ((0, None), st2, s2)"
    by (simp add: lfMerge_def)
  with two rows2 show "\<exists>m2 st2 s2. lfMerge p (\<lambda>_. DbOk) st1 s1 rs = ((m2, None), st2, s2) \<and>
        rowsOf st2 = storeRecords (rowsOf st) rs \<and>
        lfMerge p (\<lambda>_. DbOk) st2 s2 rs = ((0, None), st2, s2)"
    by blast
qed

text \<open>Whatever every turn of the loop preserves, the merge preserves.\<close>

lemma lfMerge_invariant:
  assumes "P st s" "lfMerge p fs st s rs = (res, st', s')"
    and step: "\<And>f st s r res st' s'. r \<in> set rs \<Longrightarrow> P st s \<Longrightarrow> lfMergeStep p f st s r = (res, st', s') \<Longrightarrow> P st' s'"
  shows "P st' s'"
proof -
  have "P st' s'" if "P st s" "lfMergeLoop p fs k (lsNextSeq st) st s xs = (res, st', s')" "set xs \<subseteq> set rs" for fs k st s xs
    using that
  proof (induction xs arbitrary: fs k st s)
    case (Cons r xs)
    obtain x st1 s1 where one: "lfMergeStep p (fs 0) st s r = (x, st1, s1)"
      by (cases "lfMergeStep p (fs 0) st s r")
    then have "P st1 s1"
      using Cons.prems by (intro step [OF _ _ one]) auto
    with Cons.IH Cons.prems one show ?case
      by (cases x) (auto simp: lfMergeLoop_Cons)
  qed simp
  with assms(1,2) show ?thesis by (auto simp: lfMerge_def split: if_splits)
qed

section \<open>A run of the store\<close>

definition emptyStore :: lf_store where
  "emptyStore = lfOpen lfSchema ''A''"

lemma emptyStore_ok: "lfStoreOk emptyStore"
  by (simp add: emptyStore_def lfSchema_def rowsFit_def)

definition demoRec :: "node_id \<Rightarrow> uint64 \<Rightarrow> lf_record" where
  "demoRec n s = \<lparr>recNode = n, recSeq = s, recClock = HLC (10 + s) 0 n, recType = ''t'', recPayload = NilBytes\<rparr>"

theorem lf_merge_interrupted_and_repeated_demo:
  "let fs = (\<lambda>i. if i = 1 then FailCommit else DbOk); rs = [demoRec ''B'' 1, demoRec ''B'' 2];
       (res, st1, s1) = lfMerge None fs emptyStore () rs
   in res = (1, Some CommitFailed) \<and>
      (\<exists>m2 st2 s2. lfMerge None (\<lambda>_. DbOk) st1 s1 rs = ((m2, None), st2, s2) \<and>
        rowsOf st2 = storeRecords fmempty rs)"
proof -
  let ?fs = "\<lambda>i. if i = (1 :: nat) then FailCommit else DbOk" and ?rs = "[demoRec ''B'' 1, demoRec ''B'' 2]"
  obtain st1 s1 where one: "lfMerge None ?fs emptyStore () ?rs = ((1, Some CommitFailed), st1, s1)"
  proof -
    have "fst (lfMerge None ?fs emptyStore () ?rs) = (1, Some CommitFailed)" by code_simp
    then show ?thesis using that by (cases "lfMerge None ?fs emptyStore () ?rs") auto
  qed
  have nz: "\<forall>r \<in> set ?rs. recSeq r \<noteq> 0" by (simp add: demoRec_def)
  have good: "\<forall>r \<in> set ?rs. fitsInt64 (recSeq r) \<and> (\<forall>s. is_Inr (fst (runProject None s r)))"
    by (simp add: demoRec_def runProject_def fitsInt64_def)
  have empty: "rowsOf emptyStore = fmempty" by (simp add: emptyStore_def lfSchema_def)
  note again = lf_merge_interrupted_and_repeated
    [OF emptyStore_ok nz one, THEN conjunct2, THEN conjunct2, THEN conjunct2, THEN conjunct2, THEN mp, OF good, unfolded empty]
  show ?thesis unfolding Let_def one prod.case using again by blast
qed

end
