(* ===== verification/LfProjection.thy ===== *)
theory LfProjection
  imports LfStore
begin

text \<open>
  Replaying a log into derived state (\<open>localfirst-go/projection/fold.go\<close>), and the contract
  between a log and the projector that keeps that state live: if applying records commutes and the
  projector publishes exactly what the reducer computes, then whatever is appended, merged,
  rejected or failed by the database, the live state is the one a replay would rebuild.
\<close>

section \<open>Replay\<close>

text \<open>\<open>FoldRecords\<close> and \<open>Fold\<close>, over a reducer's \<open>Apply\<close> and \<open>Zero\<close>.\<close>

fun lfFoldRecords :: "('s \<Rightarrow> lf_record \<Rightarrow> lf_error + 's) \<Rightarrow> 's \<Rightarrow> lf_record list \<Rightarrow> lf_error + 's" where
  "lfFoldRecords app state [] = Inr state"
| "lfFoldRecords app state (r # rs) = (case app state r of
     Inl e \<Rightarrow> Inl (ReplayFailed (recNode r) (recSeq r) e)
   | Inr next_state \<Rightarrow> lfFoldRecords app next_state rs)"

definition lfFold :: "('s \<Rightarrow> lf_record \<Rightarrow> lf_error + 's) \<Rightarrow> 's \<Rightarrow> lf_rows \<Rightarrow> lf_error + 's" where
  "lfFold app zero rows = lfFoldRecords app zero (lfSinceRows rows fmempty)"

fun okOf :: "'e + 'a \<Rightarrow> 'a option" where
  "okOf (Inl _) = None"
| "okOf (Inr x) = Some x"

lemma okOf_simps: "okOf r = Some x \<longleftrightarrow> r = Inr x" "okOf r = None \<longleftrightarrow> (\<exists>e. r = Inl e)"
  by (cases r; simp)+

definition applyOk :: "('s \<Rightarrow> lf_record \<Rightarrow> lf_error + 's) \<Rightarrow> 's option \<Rightarrow> lf_record \<Rightarrow> 's option" where
  "applyOk app v r = Option.bind v (\<lambda>s. okOf (app s r))"

lemma applyOk_simps [simp]:
  "applyOk app None r = None" "applyOk app (Some s) r = okOf (app s r)"
  by (simp_all add: applyOk_def)

lemma applyOk_None [simp]: "foldl (applyOk app) None rs = None"
  by (induction rs) simp_all

lemma okOf_lfFoldRecords: "okOf (lfFoldRecords app s rs) = foldl (applyOk app) (Some s) rs"
proof (induction rs arbitrary: s)
  case (Cons r rs)
  then show ?case by (cases "app s r") simp_all
qed simp

section \<open>The contract\<close>

locale reducer =
  fixes app :: "'v \<Rightarrow> lf_record \<Rightarrow> lf_error + 'v" and zero :: 'v
  assumes app_commute: "applyOk app (applyOk app v a) b = applyOk app (applyOk app v b) a"
    and app_readBack: "okOf (app s (readBack r)) = okOf (app s r)"
begin

sublocale commuting_fold "applyOk app" "\<lambda>r. r"
  by unfold_locales (rule app_commute)

lemma replay_perm:
  assumes "mset xs = mset ys"
  shows "okOf (lfFoldRecords app s xs) = okOf (lfFoldRecords app s ys)"
  using fold_perm [OF assms, of "Some s"] by (simp add: okOf_lfFoldRecords)

lemma replay_held:
  assumes "rowsFit rows" "mset xs = mset (heldRecords rows)"
  shows "okOf (lfFold app zero rows) = okOf (lfFoldRecords app zero xs)"
  unfolding lfFold_def
  by (rule replay_perm) (use assms lfSince_all [of rows] in \<open>auto simp: rowsFit_def\<close>)

lemma replay_insert:
  assumes fit: "rowsFit rows" "fitsInt64 (recSeq r)" "recSeq r \<noteq> 0"
    and free: "fmlookup rows (recId r) = None"
    and v: "lfFold app zero rows = Inr v" "app v r = Inr v'"
  shows "lfFold app zero (fmupd (recId r) (lfRowOf r) rows) = Inr v'"
proof -
  have "rowsFit (fmupd (recId r) (lfRowOf r) rows)"
    using fit by (intro rowsFit_insert) (simp_all add: recId_def)
  then have "okOf (lfFold app zero (fmupd (recId r) (lfRowOf r) rows)) =
      okOf (lfFoldRecords app zero (heldRecords rows @ [readBack r]))"
    by (rule replay_held) (simp add: held_insert [OF free])
  also have "\<dots> = applyOk app (okOf (lfFold app zero rows)) (readBack r)"
    using replay_held [OF fit(1) refl] by (simp add: okOf_lfFoldRecords)
  also have "\<dots> = Some v'"
    using v by (simp add: app_readBack)
  finally show ?thesis by (simp add: okOf_simps)
qed

end

text \<open>A projector over a reducer: it stages the reducer's next state, and until its commit closure
  runs nothing of that state shows.\<close>

locale live_projection = reducer app zero
  for app :: "'v \<Rightarrow> lf_record \<Rightarrow> lf_error + 'v" and zero :: 'v +
  fixes prj :: "'s projector" and view :: "'s \<Rightarrow> 'v"
  assumes project_commit: "prj s r = (Inr commit, s') \<Longrightarrow> app (view s) r = Inr (view (commit s'))"
    and project_quiet: "view (snd (prj s r)) = view s"
begin

text \<open>The live state is what a restart would replay.\<close>

definition in_step :: "lf_store \<Rightarrow> 's \<Rightarrow> bool" where
  "in_step st s \<longleftrightarrow> lfStoreOk st \<and> lfFold app zero (rowsOf st) = Inr (view s)"

lemma append_in_step:
  assumes "in_step st s" "lfAppend v (Some prj) f st s typ b ts = (res, st', s')"
  shows "in_step st' s'"
  using assms(2)
proof (cases rule: lfAppend_cases)
  case (failed e)
  with assms(1) project_quiet show ?thesis by (auto simp: in_step_def runProject_def)
next
  case (appended rows commit s0)
  let ?r = "\<lparr>recNode = lsNode st, recSeq = lsNextSeq st + 1, recClock = ts, recType = typ, recPayload = b\<rparr>"
  have ok: "lfStoreOk st" using assms(1) by (simp add: in_step_def)
  note new = lfAppend_new_row [OF ok appended(2,4,5)]
  have "app (view s) ?r = Inr (view s')"
    using appended(6,7) project_commit by (auto simp: runProject_def)
  with new assms(1) appended(2) show ?thesis
    using replay_insert [of "rowsOf st" ?r "view s" "view s'"]
    by (simp add: in_step_def lfStoreOk_iff)
qed

lemma merge_step_in_step:
  assumes "in_step st s" "recSeq r \<noteq> 0" "lfMergeStep (Some prj) f st s r = (res, st', s')"
  shows "in_step st' s'"
  using assms(3)
proof (cases rule: lfMergeStep_cases)
  case (failed e)
  with assms(1) project_quiet show ?thesis by (auto simp: in_step_def runProject_def)
next
  case held
  with assms(1) show ?thesis by simp
next
  case (inserted commit s0)
  have "app (view s) r = Inr (view s')"
    using inserted(8,9) project_commit by (auto simp: runProject_def)
  moreover have "lfStoreOk st'"
    using assms(1,2) inserted(2) unfolding in_step_def lfStoreOk_iff inserted(4,5,7) ownSeq_insert
    by (auto simp: recId_def max.commute intro!: rowsFit_insert)
  ultimately show ?thesis
    using assms(1,2) inserted(2,3,4) replay_insert [of "rowsOf st" r "view s" "view s'"]
    by (simp add: in_step_def lfStoreOk_iff)
qed

lemma merge_in_step:
  assumes "in_step st s" "\<forall>r \<in> set rs. recSeq r \<noteq> 0" "lfMerge (Some prj) fs st s rs = (res, st', s')"
  shows "in_step st' s'"
  using assms(1,3)
proof (rule lfMerge_invariant [where P = in_step])
  show "in_step st' s'" if "r \<in> set rs" "in_step st s" "lfMergeStep (Some prj) f st s r = (res, st', s')"
    for f st s r res st' s'
    using merge_step_in_step [OF that(2) _ that(3)] assms(2) that(1) by blast
qed

end

end
