(* ===== verification/LfDomain.thy ===== *)
theory LfDomain
  imports LfProjection
begin

text \<open>
  Inventory events and balances (\<open>localfirst-go/domain/events.go\<close>, \<open>domain/reducer.go\<close>): the
  three event structs with their JSON form, and the reducer that folds a record into the balance
  of each (SKU, location) key. Its applications commute, whatever order records arrive in, and a
  balance is the sum of the records' effects on its key.
\<close>

section \<open>Events\<close>

abbreviation TypeReceived :: string where "TypeReceived \<equiv> ''inventory.Received''"
abbreviation TypeIssued :: string where "TypeIssued \<equiv> ''inventory.Issued''"
abbreviation TypeMoved :: string where "TypeMoved \<equiv> ''inventory.Moved''"

record received =
  rcSKU :: string
  rcLocation :: string
  rcQty :: int64

record issued =
  isSKU :: string
  isLocation :: string
  isQty :: int64

record moved =
  mvSKU :: string
  mvFrom :: string
  mvTo :: string
  mvQty :: int64

datatype lf_event = Received received | Issued issued | Moved moved

definition lfEncode :: "lf_event \<Rightarrow> bytes" where
  "lfEncode ev = JsonBytes (JObj (case ev of
      Received e \<Rightarrow> [(''sku'', JStr (rcSKU e)), (''location'', JStr (rcLocation e)), (''qty'', JNum (sint (rcQty e)))]
    | Issued e \<Rightarrow> [(''sku'', JStr (isSKU e)), (''location'', JStr (isLocation e)), (''qty'', JNum (sint (isQty e)))]
    | Moved e \<Rightarrow> [(''sku'', JStr (mvSKU e)), (''from'', JStr (mvFrom e)), (''to'', JStr (mvTo e)),
        (''qty'', JNum (sint (mvQty e)))]))"

text \<open>The members of a payload's object; any other payload fails to unmarshal.\<close>

fun payloadMembers :: "bytes \<Rightarrow> (string \<times> json) list option" where
  "payloadMembers (JsonBytes j) = jMembers j"
| "payloadMembers _ = None"

text \<open>One field, with the zero value where the member is absent.\<close>

definition strField :: "(string \<times> json) list \<Rightarrow> string \<Rightarrow> string option" where
  "strField fs k = map_option (orZero []) (jField jStr fs k)"

definition intField :: "(string \<times> json) list \<Rightarrow> string \<Rightarrow> int64 option" where
  "intField fs k = map_option (orZero 0) (jField jInt64 fs k)"

definition decodeReceived :: "lf_record \<Rightarrow> lf_error + received" where
  "decodeReceived r = (case payloadMembers (recPayload r) of None \<Rightarrow> Inl (BadPayload (recType r))
     | Some fs \<Rightarrow> (case (strField fs ''sku'', strField fs ''location'', intField fs ''qty'') of
         (Some s, Some l, Some q) \<Rightarrow> Inr \<lparr>rcSKU = s, rcLocation = l, rcQty = q\<rparr>
       | _ \<Rightarrow> Inl (BadPayload (recType r))))"

definition decodeIssued :: "lf_record \<Rightarrow> lf_error + issued" where
  "decodeIssued r = (case payloadMembers (recPayload r) of None \<Rightarrow> Inl (BadPayload (recType r))
     | Some fs \<Rightarrow> (case (strField fs ''sku'', strField fs ''location'', intField fs ''qty'') of
         (Some s, Some l, Some q) \<Rightarrow> Inr \<lparr>isSKU = s, isLocation = l, isQty = q\<rparr>
       | _ \<Rightarrow> Inl (BadPayload (recType r))))"

definition decodeMoved :: "lf_record \<Rightarrow> lf_error + moved" where
  "decodeMoved r = (case payloadMembers (recPayload r) of None \<Rightarrow> Inl (BadPayload (recType r))
     | Some fs \<Rightarrow> (case (strField fs ''sku'', strField fs ''from'', strField fs ''to'', intField fs ''qty'') of
         (Some s, Some f, Some t, Some q) \<Rightarrow> Inr \<lparr>mvSKU = s, mvFrom = f, mvTo = t, mvQty = q\<rparr>
       | _ \<Rightarrow> Inl (BadPayload (recType r))))"

section \<open>Balances\<close>

datatype stock_key = StockKey (skSKU: string) (skLocation: string)

instantiation stock_key :: linorder
begin

definition less_stock_key :: "stock_key \<Rightarrow> stock_key \<Rightarrow> bool" where
  "less_stock_key a b \<longleftrightarrow> (skSKU a, skLocation a) < (skSKU b, skLocation b)"

definition less_eq_stock_key :: "stock_key \<Rightarrow> stock_key \<Rightarrow> bool" where
  "less_eq_stock_key a b \<longleftrightarrow> (skSKU a, skLocation a) \<le> (skSKU b, skLocation b)"

instance
  by standard (auto simp: less_stock_key_def less_eq_stock_key_def less_le_not_le
      simp del: less_prod_simp less_eq_prod_simp intro: stock_key.expand)

end

type_synonym balances = "(stock_key, int64) fmap"

definition balanceZero :: balances where
  "balanceZero = fmempty"

definition balanceClone :: "balances \<Rightarrow> balances" where
  "balanceClone s = foldl (\<lambda>out (k, v). fmupd k v out) fmempty (sorted_list_of_fmap s)"

text \<open>\<open>s[k] += d\<close>\<close>

definition addBalance :: "stock_key \<Rightarrow> int64 \<Rightarrow> balances \<Rightarrow> balances" where
  "addBalance k d s = fmupd k (fm_get 0 s k + d) s"

definition balanceApply :: "balances \<Rightarrow> lf_record \<Rightarrow> lf_error + balances" where
  "balanceApply s r =
    (if recType r = TypeReceived then
       (case decodeReceived r of Inl e \<Rightarrow> Inl e
        | Inr ev \<Rightarrow> Inr (addBalance (StockKey (rcSKU ev) (rcLocation ev)) (rcQty ev) s))
     else if recType r = TypeIssued then
       (case decodeIssued r of Inl e \<Rightarrow> Inl e
        | Inr ev \<Rightarrow> Inr (addBalance (StockKey (isSKU ev) (isLocation ev)) (- isQty ev) s))
     else if recType r = TypeMoved then
       (case decodeMoved r of Inl e \<Rightarrow> Inl e
        | Inr ev \<Rightarrow> Inr (addBalance (StockKey (mvSKU ev) (mvTo ev)) (mvQty ev)
            (addBalance (StockKey (mvSKU ev) (mvFrom ev)) (- mvQty ev) s)))
     else Inl (UnknownType (recType r)))"

section \<open>Round trip\<close>

lemma jStr_JStr [json_simps]: "jStr (JStr s) = Some s"
  by simp

text \<open>The record a command writes for an event.\<close>

fun eventType :: "lf_event \<Rightarrow> string" where
  "eventType (Received _) = TypeReceived"
| "eventType (Issued _) = TypeIssued"
| "eventType (Moved _) = TypeMoved"

definition carries :: "lf_record \<Rightarrow> lf_event \<Rightarrow> bool" where
  "carries r ev \<longleftrightarrow> recType r = eventType ev \<and> recPayload r = lfEncode ev"

lemmas decode_defs = decodeReceived_def decodeIssued_def decodeMoved_def lfEncode_def strField_def intField_def

lemma decode_encode:
  "recPayload r = lfEncode (Received x) \<Longrightarrow> decodeReceived r = Inr x"
  "recPayload r = lfEncode (Issued y) \<Longrightarrow> decodeIssued r = Inr y"
  "recPayload r = lfEncode (Moved z) \<Longrightarrow> decodeMoved r = Inr z"
  by (simp_all add: decode_defs json_simps orZero_def)

section \<open>Effects\<close>

text \<open>What a record adds to each balance, when it decodes.\<close>

fun eventEffect :: "lf_event \<Rightarrow> (stock_key \<times> int64) list" where
  "eventEffect (Received e) = [(StockKey (rcSKU e) (rcLocation e), rcQty e)]"
| "eventEffect (Issued e) = [(StockKey (isSKU e) (isLocation e), - isQty e)]"
| "eventEffect (Moved e) = [(StockKey (mvSKU e) (mvFrom e), - mvQty e), (StockKey (mvSKU e) (mvTo e), mvQty e)]"

definition recordEvent :: "lf_record \<Rightarrow> lf_error + lf_event" where
  "recordEvent r =
    (if recType r = TypeReceived then map_sum id Received (decodeReceived r)
     else if recType r = TypeIssued then map_sum id Issued (decodeIssued r)
     else if recType r = TypeMoved then map_sum id Moved (decodeMoved r)
     else Inl (UnknownType (recType r)))"

definition addAll :: "(stock_key \<times> int64) list \<Rightarrow> balances \<Rightarrow> balances" where
  "addAll ds s = foldl (\<lambda>s (k, d). addBalance k d s) s ds"

lemma balanceApply_effect: "balanceApply s r = map_sum id (\<lambda>ev. addAll (eventEffect ev) s) (recordEvent r)"
  by (auto simp: balanceApply_def recordEvent_def addAll_def split: sum.split)

lemma recordEvent_carries: "carries r ev \<Longrightarrow> recordEvent r = Inr ev"
  by (cases ev) (auto simp: carries_def recordEvent_def decode_encode)

lemma recordEvent_readBack: "okOf (recordEvent (readBack r)) = okOf (recordEvent r)"
proof -
  have p: "payloadMembers (recPayload (readBack r)) = payloadMembers (recPayload r)"
    by (simp add: readBack_def lfNonNil_def)
  have t: "recType (readBack r) = recType r" by (simp add: readBack_def)
  show ?thesis
    by (simp only: recordEvent_def decodeReceived_def decodeIssued_def decodeMoved_def p t)
qed

lemma addBalance_get: "fm_get 0 (addBalance k d s) k' = fm_get 0 s k' + (if k' = k then d else 0)"
  by (simp add: addBalance_def)

lemma addBalance_commute: "addBalance k d (addBalance k' d' s) = addBalance k' d' (addBalance k d s)"
  by (rule fmap_ext) (auto simp: addBalance_def ac_simps)

lemma addAll_addBalance: "addAll ds (addBalance k d s) = addBalance k d (addAll ds s)"
proof (induction ds arbitrary: s)
  case (Cons e ds)
  from Cons.IH [of "addBalance (fst e) (snd e) s"] show ?case
    by (simp add: addAll_def case_prod_beta addBalance_commute [of "fst e" "snd e" k d])
qed (simp add: addAll_def)

lemma addAll_commute: "addAll ds (addAll es s) = addAll es (addAll ds s)"
proof (induction es arbitrary: s)
  case (Cons e es)
  have "addAll (e # es) t = addAll es (addBalance (fst e) (snd e) t)" for t
    by (simp add: addAll_def case_prod_beta)
  with Cons show ?case by (simp add: addAll_addBalance)
qed (simp add: addAll_def)

interpretation balance: reducer balanceApply balanceZero
proof
  show "applyOk balanceApply (applyOk balanceApply v a) b = applyOk balanceApply (applyOk balanceApply v b) a" for v a b
    by (cases v; cases "recordEvent a"; cases "recordEvent b")
      (simp_all add: balanceApply_effect addAll_commute)
  show "okOf (balanceApply s (readBack r)) = okOf (balanceApply s r)" for s r
    using recordEvent_readBack [of r]
    by (cases "recordEvent r"; cases "recordEvent (readBack r)") (simp_all add: balanceApply_effect)
qed

text \<open>A balance as a sum over records.\<close>

definition effectOn :: "stock_key \<Rightarrow> lf_record \<Rightarrow> int64" where
  "effectOn k r = (case recordEvent r of Inl _ \<Rightarrow> 0
     | Inr ev \<Rightarrow> sum_list (map (\<lambda>(k', d). if k' = k then d else 0) (eventEffect ev)))"

lemma addAll_get: "fm_get 0 (addAll ds s) k = fm_get 0 s k + sum_list (map (\<lambda>(k', d). if k' = k then d else 0) ds)"
  by (induction ds arbitrary: s) (auto simp: addAll_def addBalance_get ac_simps)

lemma balanceApply_get: "balanceApply s r = Inr s' \<Longrightarrow> fm_get 0 s' k = fm_get 0 s k + effectOn k r"
  by (cases "recordEvent r") (auto simp: balanceApply_effect effectOn_def addAll_get)

lemma replay_get:
  "lfFoldRecords balanceApply s rs = Inr s' \<Longrightarrow> fm_get 0 s' k = fm_get 0 s k + sum_list (map (effectOn k) rs)"
  by (induction rs arbitrary: s) (auto dest!: balanceApply_get simp: ac_simps split: sum.splits)

lemma replay_is_Inr: "is_Inr (lfFoldRecords balanceApply s rs) \<longleftrightarrow> (\<forall>r \<in> set rs. is_Inr (recordEvent r))"
proof (induction rs arbitrary: s)
  case (Cons r rs)
  then show ?case by (cases "recordEvent r") (simp_all add: balanceApply_effect)
qed simp

text \<open>
  Replaying records gives each key the sum of the records' effects on it, so the balances do not
  depend on the order the records are read in; and a replay succeeds exactly when every record is of
  a known type and decodes: an unknown record is never skipped.
\<close>

lemma lf_balances_are_sums:
  "(case lfFoldRecords balanceApply balanceZero rs of
      Inr s \<Rightarrow> (\<forall>k. fm_get 0 s k = sum_list (map (effectOn k) rs)) \<and>
        (\<forall>xs. mset xs = mset rs \<longrightarrow> lfFoldRecords balanceApply balanceZero xs = Inr s)
    | Inl e \<Rightarrow> \<exists>r \<in> set rs. \<exists>e'. recordEvent r = Inl e' \<and> e = ReplayFailed (recNode r) (recSeq r) e') \<and>
   (is_Inr (lfFoldRecords balanceApply balanceZero rs) \<longleftrightarrow> (\<forall>r \<in> set rs. is_Inr (recordEvent r)))"
proof (intro conjI)
  have bad: "\<exists>r \<in> set rs. \<exists>e'. recordEvent r = Inl e' \<and> e = ReplayFailed (recNode r) (recSeq r) e'"
    if "lfFoldRecords balanceApply s rs = Inl e" for s e
    using that
  proof (induction rs arbitrary: s)
    case (Cons r rs)
    then show ?case by (cases "recordEvent r") (auto simp: balanceApply_effect)
  qed simp
  have perm: "lfFoldRecords balanceApply balanceZero xs = Inr s"
    if "lfFoldRecords balanceApply balanceZero rs = Inr s" "mset xs = mset rs" for xs s
    using balance.replay_perm [OF that(2), of balanceZero] that(1) by (simp add: okOf_simps)
  show "case lfFoldRecords balanceApply balanceZero rs of
      Inr s \<Rightarrow> (\<forall>k. fm_get 0 s k = sum_list (map (effectOn k) rs)) \<and>
        (\<forall>xs. mset xs = mset rs \<longrightarrow> lfFoldRecords balanceApply balanceZero xs = Inr s)
    | Inl e \<Rightarrow> \<exists>r \<in> set rs. \<exists>e'. recordEvent r = Inl e' \<and> e = ReplayFailed (recNode r) (recSeq r) e'"
  proof (cases "lfFoldRecords balanceApply balanceZero rs")
    case (Inl e)
    show ?thesis unfolding Inl sum.case by (rule bad [OF Inl])
  next
    case (Inr s)
    have "\<forall>k. fm_get 0 s k = sum_list (map (effectOn k) rs)"
      using replay_get [OF Inr] by (simp add: balanceZero_def)
    moreover have "\<forall>xs. mset xs = mset rs \<longrightarrow> lfFoldRecords balanceApply balanceZero xs = Inr s"
      using perm [OF Inr] by blast
    ultimately show ?thesis unfolding Inr sum.case by (rule conjI)
  qed
qed (rule replay_is_Inr)

end
