(* ===== verification/LfInventory.thy ===== *)
theory LfInventory
  imports LfDomain
begin

text \<open>
  The inventory aggregate (\<open>localfirst-go/domain/inventory.go\<close>): commands in, records out, balances
  kept. It is the validator and the projector of its store's append transaction. A node is the
  store and the inventory side by side. The mutexes make each command one step; the database
  fault of its transaction is an argument.
\<close>

section \<open>The aggregate\<close>

record lf_inventory =
  ivClock :: lf_clock
  ivOwned :: "(string, bool) fmap"
  ivState :: balances

record lf_node =
  lnStore :: lf_store
  lnInv :: lf_inventory

definition lfNewInventory :: "lf_store \<Rightarrow> lf_clock \<Rightarrow> string list \<Rightarrow> lf_error + lf_node" where
  "lfNewInventory st clk owned =
    (case lfFold balanceApply balanceZero (rowsOf st) of Inl e \<Rightarrow> Inl e
     | Inr state \<Rightarrow> Inr \<lparr>lnStore = st, lnInv = \<lparr>ivClock = clk,
         ivOwned = foldl (\<lambda>m loc. fmupd loc True m) fmempty owned, ivState = state\<rparr>\<rparr>)"

definition lfGuard :: "lf_inventory \<Rightarrow> int64 \<Rightarrow> string \<Rightarrow> lf_error option" where
  "lfGuard iv qty location =
    (if sint qty \<le> 0 then Some (BadQty qty)
     else if ivOwned iv \<noteq> fmempty \<and> \<not> fm_get False (ivOwned iv) location then Some (NotOwned location)
     else None)"

text \<open>The keys a record can decrement. The decoding errors the code ignores cannot occur after a
  successful \<open>Apply\<close>.\<close>

definition touchedKeys :: "lf_record \<Rightarrow> stock_key list" where
  "touchedKeys r =
    (if recType r = TypeIssued then
       (case decodeIssued r of Inl _ \<Rightarrow> [StockKey [] []] | Inr ev \<Rightarrow> [StockKey (isSKU ev) (isLocation ev)])
     else if recType r = TypeMoved then
       (case decodeMoved r of Inl _ \<Rightarrow> [StockKey [] []] | Inr ev \<Rightarrow> [StockKey (mvSKU ev) (mvFrom ev)])
     else [])"

definition lfCheck :: "lf_inventory \<Rightarrow> lf_record \<Rightarrow> lf_error option" where
  "lfCheck iv r = (case balanceApply (balanceClone (ivState iv)) r of Inl e \<Rightarrow> Some e
     | Inr next_state \<Rightarrow> (case find (\<lambda>k. sint (fm_get 0 next_state k) < 0) (touchedKeys r) of None \<Rightarrow> None
        | Some k \<Rightarrow> Some (NegativeBalance (skSKU k) (skLocation k) (fm_get 0 next_state k))))"

definition lfProject :: "lf_inventory projector" where
  "lfProject iv r = (case balanceApply (balanceClone (ivState iv)) r of Inl e \<Rightarrow> (Inl e, iv)
     | Inr next_state \<Rightarrow> (Inr (\<lambda>i. i\<lparr>ivState := next_state\<rparr>),
         iv\<lparr>ivClock := snd (lfObserveClock (ivClock iv) (recClock r))\<rparr>))"

section \<open>Commands\<close>

definition lfAppendEvent :: "lf_node \<Rightarrow> db_fault \<Rightarrow> string \<Rightarrow> lf_event \<Rightarrow> lf_error option \<times> lf_node" where
  "lfAppendEvent n f typ ev =
    (let (ts, clk) = lfNow (ivClock (lnInv n));
         (res, st, iv) = lfAppend (Some lfCheck) (Some lfProject) f (lnStore n)
            ((lnInv n)\<lparr>ivClock := clk\<rparr>) typ (lfEncode ev) ts
     in ((case res of Inl e \<Rightarrow> Some e | Inr _ \<Rightarrow> None), \<lparr>lnStore = st, lnInv = iv\<rparr>))"

definition lfReceive :: "lf_node \<Rightarrow> db_fault \<Rightarrow> string \<Rightarrow> string \<Rightarrow> int64 \<Rightarrow> lf_error option \<times> lf_node" where
  "lfReceive n f sku location qty = (case lfGuard (lnInv n) qty location of Some e \<Rightarrow> (Some e, n)
     | None \<Rightarrow> lfAppendEvent n f TypeReceived (Received \<lparr>rcSKU = sku, rcLocation = location, rcQty = qty\<rparr>))"

definition lfIssue :: "lf_node \<Rightarrow> db_fault \<Rightarrow> string \<Rightarrow> string \<Rightarrow> int64 \<Rightarrow> lf_error option \<times> lf_node" where
  "lfIssue n f sku location qty = (case lfGuard (lnInv n) qty location of Some e \<Rightarrow> (Some e, n)
     | None \<Rightarrow> lfAppendEvent n f TypeIssued (Issued \<lparr>isSKU = sku, isLocation = location, isQty = qty\<rparr>))"

definition lfMove :: "lf_node \<Rightarrow> db_fault \<Rightarrow> string \<Rightarrow> string \<Rightarrow> string \<Rightarrow> int64 \<Rightarrow> lf_error option \<times> lf_node" where
  "lfMove n f sku frm to qty = (case lfGuard (lnInv n) qty frm of Some e \<Rightarrow> (Some e, n)
     | None \<Rightarrow> lfAppendEvent n f TypeMoved (Moved \<lparr>mvSKU = sku, mvFrom = frm, mvTo = to, mvQty = qty\<rparr>))"

definition lfBalance :: "lf_node \<Rightarrow> string \<Rightarrow> string \<Rightarrow> int64" where
  "lfBalance n sku location = fm_get 0 (ivState (lnInv n)) (StockKey sku location)"

definition lfBalances :: "lf_node \<Rightarrow> balances" where
  "lfBalances n = balanceClone (ivState (lnInv n))"

text \<open>Merging a peer's records into the node: the store's \<open>Merge\<close> with the inventory as projector.\<close>

definition lfNodeMerge :: "lf_node \<Rightarrow> (nat \<Rightarrow> db_fault) \<Rightarrow> lf_record list \<Rightarrow> (nat \<times> lf_error option) \<times> lf_node" where
  "lfNodeMerge n fs rs = (let (res, st, iv) = lfMerge (Some lfProject) fs (lnStore n) (lnInv n) rs
     in (res, \<lparr>lnStore = st, lnInv = iv\<rparr>))"

section \<open>The client API\<close>

text \<open>The transport (\<open>transport/grpc/node.go\<close>): a command's error is mapped to a status code by
  looking through the errors that wrap it.\<close>

datatype grpc_code = FailedPrecondition | PermissionDenied | InvalidArgument | Internal

fun rootError :: "lf_error \<Rightarrow> lf_error" where
  "rootError (AppendRejected e) = rootError e"
| "rootError (ProjectFailed e) = rootError e"
| "rootError (ReplayFailed _ _ e) = rootError e"
| "rootError e = e"

definition toStatus :: "lf_error \<Rightarrow> grpc_code" where
  "toStatus e = (case rootError e of
      NegativeBalance _ _ _ \<Rightarrow> FailedPrecondition
    | NotOwned _ \<Rightarrow> PermissionDenied
    | BadQty _ \<Rightarrow> InvalidArgument
    | _ \<Rightarrow> Internal)"

definition grpcEmpty :: "lf_error option \<times> lf_node \<Rightarrow> grpc_code option \<times> lf_node" where
  "grpcEmpty = (\<lambda>(err, n). (map_option toStatus err, n))"

definition svcReceive :: "lf_node \<Rightarrow> db_fault \<Rightarrow> string \<times> string \<times> int64 \<Rightarrow> grpc_code option \<times> lf_node" where
  "svcReceive n f = (\<lambda>(sku, loc, qty). grpcEmpty (lfReceive n f sku loc qty))"

definition svcIssue :: "lf_node \<Rightarrow> db_fault \<Rightarrow> string \<times> string \<times> int64 \<Rightarrow> grpc_code option \<times> lf_node" where
  "svcIssue n f = (\<lambda>(sku, loc, qty). grpcEmpty (lfIssue n f sku loc qty))"

definition svcMove :: "lf_node \<Rightarrow> db_fault \<Rightarrow> string \<times> string \<times> string \<times> int64 \<Rightarrow> grpc_code option \<times> lf_node" where
  "svcMove n f = (\<lambda>(sku, frm, to, qty). grpcEmpty (lfMove n f sku frm to qty))"

definition svcBalance :: "lf_node \<Rightarrow> string \<times> string \<Rightarrow> int64" where
  "svcBalance n = (\<lambda>(sku, loc). lfBalance n sku loc)"

definition svcBalances :: "lf_node \<Rightarrow> (string \<times> string \<times> int64) list" where
  "svcBalances n = map (\<lambda>(k, qty). (skSKU k, skLocation k, qty)) (sorted_list_of_fmap (lfBalances n))"

section \<open>The inventory as a live projection\<close>

lemma balanceClone_id [simp]: "balanceClone s = s"
proof (rule fmap_ext)
  fix k
  have "fmlookup (balanceClone s) k = (case map_of (sorted_list_of_fmap s) k of None \<Rightarrow> fmlookup fmempty k | Some v \<Rightarrow> Some v)"
    unfolding balanceClone_def by (rule foldl_fm_lookup) (auto simp: distinct_sorted_list_of_fmap)
  then show "fmlookup (balanceClone s) k = fmlookup s k"
    by (simp add: map_of_sorted_list split: option.split)
qed

interpretation lf_inv: live_projection balanceApply balanceZero lfProject ivState
proof
  show "balanceApply (ivState s) r = Inr (ivState (commit s'))" if "lfProject s r = (Inr commit, s')" for s r commit s'
    using that by (auto simp: lfProject_def split: sum.splits)
  show "ivState (snd (lfProject s r)) = ivState s" for s r
    by (simp add: lfProject_def split: sum.split)
qed

end
