(* ===== verification/LfRuns.thy ===== *)
theory LfRuns
  imports LfInventory
begin

text \<open>
  Runs of a \<open>localfirst-go\<close> node: any sequence of commands, merges of peers' records and restarts,
  with any database failures. The live balances are always those a replay of the log gives, a
  command either takes effect entirely or not at all, and a location nobody else debits never
  goes negative while what was ever credited to it fits the integer.
\<close>

section \<open>Commands\<close>

datatype lf_command =
    ReceiveCmd string string int64
  | IssueCmd string string int64
  | MoveCmd string string string int64

fun lfCommand :: "lf_node \<Rightarrow> db_fault \<Rightarrow> lf_command \<Rightarrow> lf_error option \<times> lf_node" where
  "lfCommand n f (ReceiveCmd sku loc qty) = lfReceive n f sku loc qty"
| "lfCommand n f (IssueCmd sku loc qty) = lfIssue n f sku loc qty"
| "lfCommand n f (MoveCmd sku frm to qty) = lfMove n f sku frm to qty"

fun cmdEvent :: "lf_command \<Rightarrow> lf_event" where
  "cmdEvent (ReceiveCmd sku loc qty) = Received \<lparr>rcSKU = sku, rcLocation = loc, rcQty = qty\<rparr>"
| "cmdEvent (IssueCmd sku loc qty) = Issued \<lparr>isSKU = sku, isLocation = loc, isQty = qty\<rparr>"
| "cmdEvent (MoveCmd sku frm to qty) = Moved \<lparr>mvSKU = sku, mvFrom = frm, mvTo = to, mvQty = qty\<rparr>"

fun cmdQty :: "lf_command \<Rightarrow> int64" where
  "cmdQty (ReceiveCmd _ _ qty) = qty"
| "cmdQty (IssueCmd _ _ qty) = qty"
| "cmdQty (MoveCmd _ _ _ qty) = qty"

text \<open>The location a command writes to as its owner.\<close>

fun cmdLocation :: "lf_command \<Rightarrow> string" where
  "cmdLocation (ReceiveCmd _ loc _) = loc"
| "cmdLocation (IssueCmd _ loc _) = loc"
| "cmdLocation (MoveCmd _ frm _ _) = frm"

text \<open>The key a command debits, if any.\<close>

fun cmdDebits :: "lf_command \<Rightarrow> stock_key option" where
  "cmdDebits (ReceiveCmd _ _ _) = None"
| "cmdDebits (IssueCmd sku loc _) = Some (StockKey sku loc)"
| "cmdDebits (MoveCmd sku frm _ _) = Some (StockKey sku frm)"

lemma lfCommand_conv:
  "lfCommand n f c = (case lfGuard (lnInv n) (cmdQty c) (cmdLocation c) of Some e \<Rightarrow> (Some e, n)
     | None \<Rightarrow> lfAppendEvent n f (eventType (cmdEvent c)) (cmdEvent c))"
  by (cases c) (simp_all add: lfReceive_def lfIssue_def lfMove_def split: option.split)

lemma touchedKeys_cmd:
  "recType r = eventType (cmdEvent c) \<Longrightarrow> recPayload r = lfEncode (cmdEvent c) \<Longrightarrow>
    touchedKeys r = (case cmdDebits c of None \<Rightarrow> [] | Some k \<Rightarrow> [k])"
  by (cases c) (simp_all add: touchedKeys_def decode_encode)

lemma balanceApply_cmd:
  "recType r = eventType (cmdEvent c) \<Longrightarrow> recPayload r = lfEncode (cmdEvent c) \<Longrightarrow>
    balanceApply s r = Inr (addAll (eventEffect (cmdEvent c)) s)"
  by (simp add: balanceApply_effect recordEvent_carries carries_def)

text \<open>The balance the guard inside the transaction looks at.\<close>

definition overdrawn :: "lf_command \<Rightarrow> balances \<Rightarrow> lf_error option" where
  "overdrawn c s = (case cmdDebits c of None \<Rightarrow> None | Some k \<Rightarrow>
     (let v = fm_get 0 (addAll (eventEffect (cmdEvent c)) s) k in
      if sint v < 0 then Some (NegativeBalance (skSKU k) (skLocation k) v) else None))"

lemma lfCheck_cmd:
  "recType r = eventType (cmdEvent c) \<Longrightarrow> recPayload r = lfEncode (cmdEvent c) \<Longrightarrow>
    lfCheck iv r = overdrawn c (ivState iv)"
  by (simp add: lfCheck_def balanceApply_cmd touchedKeys_cmd overdrawn_def Let_def split: option.split)

lemma lfProject_cmd:
  "recType r = eventType (cmdEvent c) \<Longrightarrow> recPayload r = lfEncode (cmdEvent c) \<Longrightarrow>
    lfProject iv r = (Inr (\<lambda>i. i\<lparr>ivState := addAll (eventEffect (cmdEvent c)) (ivState iv)\<rparr>),
      iv\<lparr>ivClock := snd (lfObserveClock (ivClock iv) (recClock r))\<rparr>)"
  by (simp add: lfProject_def balanceApply_cmd)

section \<open>Runs\<close>

definition peerRecord :: "node_id \<Rightarrow> lf_record \<Rightarrow> bool" where
  "peerRecord name r \<longleftrightarrow> recNode r \<noteq> [] \<and> recNode r \<noteq> name \<and> recSeq r \<noteq> 0"

inductive lf_run :: "(lf_record \<Rightarrow> bool) \<Rightarrow> node_id \<Rightarrow> string list \<Rightarrow> lf_node \<Rightarrow> bool"
  for allowed name owned where
  start: "lfNewInventory (lfOpen lfSchema name) (lfNewClock name wall) owned = Inr n \<Longrightarrow>
    lf_run allowed name owned n"
| restart: "lf_run allowed name owned n \<Longrightarrow>
    lfNewInventory (lfOpen (lsDb (lnStore n)) name) (lfNewClock name wall) owned = Inr n' \<Longrightarrow>
    lf_run allowed name owned n'"
| command: "lf_run allowed name owned n \<Longrightarrow> lfCommand n f c = (res, n') \<Longrightarrow> lf_run allowed name owned n'"
| merge: "lf_run allowed name owned n \<Longrightarrow> (\<forall>r \<in> set rs. peerRecord name r \<and> allowed r) \<Longrightarrow>
    lfNodeMerge n fs rs = (mres, n') \<Longrightarrow> lf_run allowed name owned n'"

inductive_cases lf_runE: "lf_run allowed name owned n"

definition liveOk :: "node_id \<Rightarrow> lf_node \<Rightarrow> bool" where
  "liveOk name n \<longleftrightarrow> lsNode (lnStore n) = name \<and> lf_inv.in_step (lnStore n) (lnInv n)"

lemma in_step_state: "ivState i = ivState j \<Longrightarrow> lf_inv.in_step st i = lf_inv.in_step st j"
  by (simp add: lf_inv.in_step_def)

lemma lfAppend_node: "lfAppend v p f st s ty b ts = (res, st', s') \<Longrightarrow> lsNode st' = lsNode st"
  by (erule lfAppend_cases) simp_all

lemma lfMergeStep_node: "lfMergeStep p f st s r = (res, st', s') \<Longrightarrow> lsNode st' = lsNode st"
  by (erule lfMergeStep_cases) simp_all

lemma lfNewInventory_Inr:
  "lfNewInventory st clk owned = Inr n \<longleftrightarrow>
    (\<exists>s. lfFold balanceApply balanceZero (rowsOf st) = Inr s \<and>
      n = \<lparr>lnStore = st, lnInv = \<lparr>ivClock = clk,
         ivOwned = foldl (\<lambda>m loc. fmupd loc True m) fmempty owned, ivState = s\<rparr>\<rparr>)"
  by (auto simp: lfNewInventory_def split: sum.splits)

lemma liveOk_new:
  "lfNewInventory st clk owned = Inr n \<Longrightarrow> lfStoreOk st \<Longrightarrow> liveOk (lsNode st) n"
  by (auto simp: lfNewInventory_Inr liveOk_def lf_inv.in_step_def)

lemma liveOk_command:
  assumes "liveOk name n" "lfCommand n f c = (res, n')"
  shows "liveOk name n'"
proof (cases "lfGuard (lnInv n) (cmdQty c) (cmdLocation c)")
  case (Some e)
  with assms show ?thesis by (simp add: lfCommand_conv)
next
  case None
  obtain x st iv where app: "lfAppend (Some lfCheck) (Some lfProject) f (lnStore n)
      ((lnInv n)\<lparr>ivClock := snd (lfNow (ivClock (lnInv n)))\<rparr>) (eventType (cmdEvent c)) (lfEncode (cmdEvent c))
      (fst (lfNow (ivClock (lnInv n)))) = (x, st, iv)"
    by (rule prod_cases3)
  then have n': "n' = \<lparr>lnStore = st, lnInv = iv\<rparr>"
    using assms(2) None by (auto simp: lfCommand_conv lfAppendEvent_def case_prod_beta Let_def)
  have "lf_inv.in_step (lnStore n) ((lnInv n)\<lparr>ivClock := snd (lfNow (ivClock (lnInv n)))\<rparr>)"
    using assms(1) by (simp add: liveOk_def lf_inv.in_step_def)
  from lf_inv.append_in_step [OF this app] lfAppend_node [OF app] assms(1) show ?thesis
    by (simp add: liveOk_def n')
qed

lemma liveOk_merge:
  assumes "liveOk name n" "\<forall>r \<in> set rs. recSeq r \<noteq> 0" "lfNodeMerge n fs rs = (res, n')"
  shows "liveOk name n'"
proof -
  obtain x st iv where m: "lfMerge (Some lfProject) fs (lnStore n) (lnInv n) rs = (x, st, iv)"
    by (rule prod_cases3)
  then have n': "n' = \<lparr>lnStore = st, lnInv = iv\<rparr>" using assms(3) by (simp add: lfNodeMerge_def)
  have "lsNode st = lsNode (lnStore n)"
    using lfMerge_invariant [where P = "\<lambda>st s. lsNode st = lsNode (lnStore n)", OF refl m] lfMergeStep_node by metis
  moreover have "lf_inv.in_step st iv"
    using assms(1,2) m by (intro lf_inv.merge_in_step [OF _ _ m]) (simp_all add: liveOk_def)
  ultimately show ?thesis using assms(1) by (simp add: liveOk_def n')
qed

lemma lf_run_liveOk: "lf_run allowed name owned n \<Longrightarrow> liveOk name n"
proof (induction rule: lf_run.induct)
  case (start wall n)
  have "lfStoreOk (lfOpen lfSchema name)" by (simp add: lfSchema_def rowsFit_def)
  from liveOk_new [OF start this] show ?case by simp
next
  case (restart n wall n')
  then have "lfStoreOk (lfOpen (lsDb (lnStore n)) name)"
    by (simp add: liveOk_def lf_inv.in_step_def lfStoreOk_iff)
  from liveOk_new [OF restart.hyps(2) this] show ?case by simp
next
  case (command n f c res n')
  then show ?case using liveOk_command by blast
next
  case (merge n rs fs mres n')
  then have "\<forall>r \<in> set rs. recSeq r \<noteq> 0" by (simp add: peerRecord_def)
  with merge.IH show ?case using merge.hyps(3) by (rule liveOk_merge)
qed

text \<open>
  C18. The projection never disagrees with the log: after any run of commands, merges and restarts,
  with the database failing any transaction anywhere, restarting the node from its file would give
  the same store and the same balances, and each balance is the sum of the effects of the records
  in the log.
\<close>

theorem lf_live_state_is_replay:
  assumes "lf_run allowed name owned n"
  shows "(\<exists>n'. lfNewInventory (lfOpen (lsDb (lnStore n)) name) clk owned = Inr n' \<and>
      lnStore n' = lnStore n \<and> lfBalances n' = lfBalances n) \<and>
    lfBalance n sku loc = sum_list (map (effectOn (StockKey sku loc)) (heldRecords (rowsOf (lnStore n))))"
proof -
  have ok: "lfStoreOk (lnStore n)" "lsNode (lnStore n) = name"
    "lfFold balanceApply balanceZero (rowsOf (lnStore n)) = Inr (ivState (lnInv n))"
    using lf_run_liveOk [OF assms] by (auto simp: liveOk_def lf_inv.in_step_def)
  then have "lfOpen (lsDb (lnStore n)) name = lnStore n" by (simp add: lfStoreOk_def)
  with ok have "\<exists>n'. lfNewInventory (lfOpen (lsDb (lnStore n)) name) clk owned = Inr n' \<and>
      lnStore n' = lnStore n \<and> lfBalances n' = lfBalances n"
    by (simp add: lfNewInventory_Inr lfBalances_def)
  moreover have "rowsFit (rowsOf (lnStore n))" using ok(1) by (simp add: lfStoreOk_iff)
  from balance.replay_held [OF this refl] ok(3)
  have "lfFoldRecords balanceApply balanceZero (heldRecords (rowsOf (lnStore n))) = Inr (ivState (lnInv n))"
    by (metis okOf_simps(1))
  from replay_get [OF this] have "lfBalance n sku loc =
      sum_list (map (effectOn (StockKey sku loc)) (heldRecords (rowsOf (lnStore n))))"
    by (simp add: lfBalance_def balanceZero_def)
  ultimately show ?thesis by blast
qed

section \<open>Commands are all or nothing\<close>

lemma lfCommand_cases:
  assumes live: "liveOk name n" and cmd: "lfCommand n f c = (res, n')"
  obtains (guarded) e where "lfGuard (lnInv n) (cmdQty c) (cmdLocation c) = Some e" "res = Some e" "n' = n"
  | (failed) e where "lfGuard (lnInv n) (cmdQty c) (cmdLocation c) = None" "res = Some e"
      "lnStore n' = lnStore n" "ivState (lnInv n') = ivState (lnInv n)"
  | (accepted) r where "lfGuard (lnInv n) (cmdQty c) (cmdLocation c) = None" "res = None"
      "carries r (cmdEvent c)" "recNode r = name" "recSeq r = lsNextSeq (lnStore n) + 1"
      "overdrawn c (ivState (lnInv n)) = None" "fmlookup (rowsOf (lnStore n)) (recId r) = None"
      "fitsInt64 (recSeq r)" "recClock r = fst (lfNow (ivClock (lnInv n)))"
      "rowsOf (lnStore n') = fmupd (recId r) (lfRowOf r) (rowsOf (lnStore n))"
      "ivState (lnInv n') = addAll (eventEffect (cmdEvent c)) (ivState (lnInv n))"
proof (cases "lfGuard (lnInv n) (cmdQty c) (cmdLocation c)")
  case (Some e)
  then have "res = Some e" "n' = n" using cmd by (simp_all add: lfCommand_conv)
  with Some show ?thesis by (rule guarded)
next
  case None
  let ?iv = "(lnInv n)\<lparr>ivClock := snd (lfNow (ivClock (lnInv n)))\<rparr>"
  let ?ts = "fst (lfNow (ivClock (lnInv n)))"
  obtain x st iv where app: "lfAppend (Some lfCheck) (Some lfProject) f (lnStore n) ?iv
      (eventType (cmdEvent c)) (lfEncode (cmdEvent c)) ?ts = (x, st, iv)"
    by (rule prod_cases3)
  then have n': "n' = \<lparr>lnStore = st, lnInv = iv\<rparr>" and res: "res = (case x of Inl e \<Rightarrow> Some e | Inr _ \<Rightarrow> None)"
    using cmd None by (auto simp: lfCommand_conv lfAppendEvent_def case_prod_beta Let_def)
  have ok: "lfStoreOk (lnStore n)" "lsNode (lnStore n) = name"
    using live by (auto simp: liveOk_def lf_inv.in_step_def)
  from app show ?thesis
  proof (cases rule: lfAppend_cases)
    case (failed e)
    have "ivState iv = ivState (lnInv n)"
      using failed(3) lf_inv.project_quiet by (auto simp: runProject_def)
    then have "lnStore n' = lnStore n" "ivState (lnInv n') = ivState (lnInv n)" "res = Some e"
      using failed(1,2) n' res by simp_all
    with None show ?thesis by (intro that(2))
  next
    case (appended rows commit s0)
    let ?r = "\<lparr>recNode = lsNode (lnStore n), recSeq = lsNextSeq (lnStore n) + 1, recClock = ?ts,
      recType = eventType (cmdEvent c), recPayload = lfEncode (cmdEvent c)\<rparr>"
    note new = lfAppend_new_row [OF ok(1) appended(2,4,5)]
    have "overdrawn c (ivState (lnInv n)) = None"
      using appended(3) [OF refl] lfCheck_cmd [of ?r c ?iv] by simp
    moreover have "ivState iv = addAll (eventEffect (cmdEvent c)) (ivState (lnInv n))"
      using appended(6,7) lfProject_cmd [of ?r c ?iv] by (auto simp: runProject_def)
    moreover have "res = None" using res appended(1) by simp
    moreover have "carries ?r (cmdEvent c)" by (simp add: carries_def)
    ultimately show ?thesis
      using None appended(2) new(2,3) n' ok(2) by (intro that(3) [of ?r]) simp_all
  qed
qed

text \<open>
  C21. A command is all or nothing, whatever the database does: if it reports an error the store and the
  balances are what they were; if it reports success the quantity was positive, the location the
  node's own, the debited balance stays non-negative, and the log gained exactly one record, the
  command's event under this node's next number, whose effect is the change of every balance.
\<close>

theorem lf_command_all_or_nothing:
  assumes "lf_run allowed name owned n" "lfCommand n f c = (res, n')"
  shows "case res of
      Some e \<Rightarrow> lnStore n' = lnStore n \<and> lfBalances n' = lfBalances n
    | None \<Rightarrow> 0 < sint (cmdQty c) \<and>
        (ivOwned (lnInv n) = fmempty \<or> fm_get False (ivOwned (lnInv n)) (cmdLocation c)) \<and>
        (\<forall>k. cmdDebits c = Some k \<longrightarrow> 0 \<le> sint (fm_get 0 (lfBalances n') k)) \<and>
        (\<exists>r. carries r (cmdEvent c) \<and> recNode r = name \<and> recSeq r = lsNextSeq (lnStore n) + 1 \<and>
          fmlookup (rowsOf (lnStore n)) (recId r) = None \<and>
          rowsOf (lnStore n') = fmupd (recId r) (lfRowOf r) (rowsOf (lnStore n)) \<and>
          (\<forall>k. fm_get 0 (lfBalances n') k = fm_get 0 (lfBalances n) k + effectOn k r))"
  using lf_run_liveOk [OF assms(1)] assms(2)
proof (cases rule: lfCommand_cases)
  case (guarded e)
  then show ?thesis by simp
next
  case (failed e)
  then show ?thesis by (simp add: lfBalances_def)
next
  case (accepted r)
  have guard: "0 < sint (cmdQty c)" "ivOwned (lnInv n) = fmempty \<or> fm_get False (ivOwned (lnInv n)) (cmdLocation c)"
    using accepted(1) by (auto simp: lfGuard_def split: if_splits)
  have debit: "0 \<le> sint (fm_get 0 (lfBalances n') k)" if "cmdDebits c = Some k" for k
    using accepted(6,11) that by (auto simp: overdrawn_def lfBalances_def Let_def not_less split: if_splits)
  have eff: "fm_get 0 (lfBalances n') k = fm_get 0 (lfBalances n) k + effectOn k r" for k
    using accepted(3,11) by (simp add: lfBalances_def addAll_get effectOn_def recordEvent_carries)
  show ?thesis using accepted guard debit eff by auto
qed

section \<open>Stock never goes below zero\<close>

text \<open>What a record credits to a key, as an integer; a record of others must not debit the location.\<close>

definition creditOf :: "stock_key \<Rightarrow> lf_event \<Rightarrow> int" where
  "creditOf k ev = sum_list (map (\<lambda>(k', d). if k' = k then max 0 (sint d) else 0) (eventEffect ev))"

definition creditOn :: "stock_key \<Rightarrow> lf_record \<Rightarrow> int" where
  "creditOn k r = (case recordEvent r of Inl _ \<Rightarrow> 0 | Inr ev \<Rightarrow> creditOf k ev)"

definition credited :: "stock_key \<Rightarrow> lf_rows \<Rightarrow> int" where
  "credited k rows = sum_list (map (creditOn k) (heldRecords rows))"

definition onlyCredits :: "string \<Rightarrow> lf_record \<Rightarrow> bool" where
  "onlyCredits loc r = (case recordEvent r of Inl _ \<Rightarrow> True
     | Inr ev \<Rightarrow> list_all (\<lambda>(k, d). skLocation k = loc \<longrightarrow> 0 \<le> sint d) (eventEffect ev))"

lemma creditOf_nonneg: "0 \<le> creditOf k ev"
  by (cases ev) (auto simp: creditOf_def)

lemma creditOn_nonneg: "0 \<le> creditOn k r"
  by (simp add: creditOn_def creditOf_nonneg split: sum.split)

lemma credited_insert:
  assumes "fmlookup rows (recId r) = None"
  shows "credited k (fmupd (recId r) (lfRowOf r) rows) = credited k rows + creditOn k r"
proof -
  have "creditOn k (readBack r) = creditOn k r"
    using recordEvent_readBack [of r]
    by (cases "recordEvent r"; cases "recordEvent (readBack r)") (simp_all add: creditOn_def)
  moreover have "sum_mset (image_mset (creditOn k) (mset (heldRecords (fmupd (recId r) (lfRowOf r) rows)))) =
      credited k rows + creditOn k (readBack r)"
    by (simp add: held_insert [OF assms] credited_def flip: mset_map sum_mset_sum_list)
  ultimately show ?thesis by (simp add: credited_def flip: mset_map sum_mset_sum_list)
qed

lemma sint_add_fits:
  "0 \<le> sint a \<Longrightarrow> 0 \<le> sint d \<Longrightarrow> sint a + sint d \<le> maxInt64 \<Longrightarrow> sint (a + d :: int64) = sint a + sint d"
proof -
  assume *: "0 \<le> sint a" "0 \<le> sint d" "sint a + sint d \<le> maxInt64"
  have "a + d = word_of_int (sint a + sint d)" by simp
  also have "sint \<dots> = sint a + sint d" using * by (intro sint64_of_int) simp_all
  finally show ?thesis .
qed

lemma sint_diff_fits:
  "0 \<le> sint a \<Longrightarrow> 0 \<le> sint d \<Longrightarrow> sint (a - d :: int64) = sint a - sint d"
proof -
  assume *: "0 \<le> sint a" "0 \<le> sint d"
  have "a - d = word_of_int (sint a - sint d)" by simp
  also have "sint \<dots> = sint a - sint d"
    using * sint64_bounds [of a] sint64_bounds [of d] by (intro sint64_of_int) simp_all
  finally show ?thesis .
qed

text \<open>One balance within its credits.\<close>

definition within :: "stock_key \<Rightarrow> balances \<Rightarrow> int \<Rightarrow> bool" where
  "within k s tot \<longleftrightarrow> tot \<le> maxInt64 \<longrightarrow> 0 \<le> sint (fm_get 0 s k) \<and> sint (fm_get 0 s k) \<le> tot"

lemma within_credit:
  assumes "within k s t" "0 \<le> sint d"
  shows "within k (addBalance k d s) (t + sint d)"
  using assms sint_add_fits [of "fm_get 0 s k" d] by (auto simp: within_def addBalance_get)

lemma within_other: "k' \<noteq> k \<Longrightarrow> within k (addBalance k' d s) t = within k s t"
  by (simp add: within_def addBalance_get)

text \<open>A peer's record that only credits.\<close>

lemma within_credits:
  assumes "list_all (\<lambda>(k', d). skLocation k' = skLocation k \<longrightarrow> 0 \<le> sint d) ds" "within k s t"
  shows "within k (addAll ds s) (t + sum_list (map (\<lambda>(k', d). if k' = k then max 0 (sint d) else 0) ds))"
  using assms
proof (induction ds arbitrary: s t)
  case (Cons e ds)
  obtain k' d where e: "e = (k', d)" by (cases e)
  have "within k (addBalance k' d s) (t + (if k' = k then max 0 (sint d) else 0))"
    using Cons.prems e by (cases "k' = k") (auto simp: within_other intro: within_credit)
  from Cons.IH [OF _ this] Cons.prems(1) e show ?case by (simp add: addAll_def ac_simps)
qed (simp add: addAll_def)

text \<open>A command of the node itself that its guards let through.\<close>

lemma within_command:
  assumes "within k s t" "0 < sint (cmdQty c)" "overdrawn c s = None"
  shows "within k (addAll (eventEffect (cmdEvent c)) s) (t + creditOf k (cmdEvent c))"
proof (cases c)
  case (ReceiveCmd sku loc qty)
  have "within k (addAll [(StockKey sku loc, qty)] s) (t + creditOf k (cmdEvent c))"
    using within_credits [of k "[(StockKey sku loc, qty)]" s t] assms ReceiveCmd by (simp add: creditOf_def)
  with ReceiveCmd show ?thesis by simp
next
  case (IssueCmd sku loc qty)
  then have "0 \<le> sint (fm_get 0 s (StockKey sku loc) - qty)"
    using assms(3) by (auto simp: overdrawn_def Let_def addAll_def addBalance_get split: if_splits)
  moreover have "sint (- qty) \<le> 0"
    using sint_diff_fits [of 0 qty] assms(2) IssueCmd by simp
  ultimately show ?thesis
    using assms(1,2) sint_diff_fits [of "fm_get 0 s k" qty] IssueCmd
    by (auto simp: within_def creditOf_def addAll_def addBalance_get)
next
  case (MoveCmd sku frm to qty)
  have neg: "sint (- qty) \<le> 0" using sint_diff_fits [of 0 qty] assms(2) MoveCmd by simp
  show ?thesis
  proof (cases "k = StockKey sku frm")
    case False
    then have "within k (addBalance (StockKey sku frm) (- qty) s) t"
      using assms(1) by (simp add: within_other)
    from within_credits [OF _ this, of "[(StockKey sku to, qty)]"] assms(2) False MoveCmd show ?thesis
      by (simp add: creditOf_def addAll_def)
  next
    case True
    have v: "0 \<le> sint (fm_get 0 (addAll (eventEffect (cmdEvent c)) s) k)"
      using assms(3) MoveCmd True by (auto simp: overdrawn_def Let_def split: if_splits)
    show ?thesis
    proof (cases "to = frm")
      case True
      with assms(1,2) MoveCmd \<open>k = StockKey sku frm\<close> neg show ?thesis
        by (auto simp: within_def creditOf_def addAll_def addBalance_get)
    next
      case False
      with assms(1,2) MoveCmd True neg v sint_diff_fits [of "fm_get 0 s k" qty] show ?thesis
        by (auto simp: within_def creditOf_def addAll_def addBalance_get)
    qed
  qed
qed

lemma lfFold_empty: "lfFold balanceApply balanceZero fmempty = Inr balanceZero"
  by (simp add: lfFold_def lfSinceRows_def heldRecords_def sortSlice_def)

lemma lf_run_within:
  assumes "lf_run allowed name owned n" and ok: "\<And>r. allowed r \<Longrightarrow> onlyCredits (skLocation k) r"
  shows "within k (ivState (lnInv n)) (credited k (rowsOf (lnStore n)))"
  using assms(1)
proof (induction rule: lf_run.induct)
  case (start wall n)
  then have "ivState (lnInv n) = balanceZero" "rowsOf (lnStore n) = fmempty"
    by (auto simp: lfNewInventory_Inr lfSchema_def lfFold_empty)
  then show ?case by (simp add: within_def credited_def heldRecords_def balanceZero_def)
next
  case (restart n wall n')
  have "lf_inv.in_step (lnStore n) (lnInv n)"
    using lf_run_liveOk [OF restart.hyps(1)] by (simp add: liveOk_def)
  then have "ivState (lnInv n') = ivState (lnInv n)" "rowsOf (lnStore n') = rowsOf (lnStore n)"
    using restart.hyps(2) by (auto simp: lfNewInventory_Inr lf_inv.in_step_def)
  with restart.IH show ?case by simp
next
  case (command n f c res n')
  from lf_run_liveOk [OF command.hyps(1)] command.hyps(2) show ?case
  proof (cases rule: lfCommand_cases)
    case guarded
    with command.IH show ?thesis by simp
  next
    case failed
    with command.IH show ?thesis by simp
  next
    case (accepted r)
    have "0 < sint (cmdQty c)" using accepted(1) by (auto simp: lfGuard_def split: if_splits)
    with within_command [OF command.IH this accepted(6)] accepted show ?thesis
      by (simp add: credited_insert creditOn_def recordEvent_carries)
  qed
next
  case (merge n rs fs mres n')
  let ?P = "\<lambda>st iv. within k (ivState iv) (credited k (rowsOf st))"
  obtain x st iv where m: "lfMerge (Some lfProject) fs (lnStore n) (lnInv n) rs = (x, st, iv)"
    by (rule prod_cases3)
  have "?P st iv"
    using merge.IH m
  proof (rule lfMerge_invariant)
    fix f st s r res st' s'
    assume r: "r \<in> set rs" and P: "?P st s" and step: "lfMergeStep (Some lfProject) f st s r = (res, st', s')"
    from step show "?P st' s'"
    proof (cases rule: lfMergeStep_cases)
      case (failed e)
      then have "ivState s' = ivState s" using lf_inv.project_quiet by (auto simp: runProject_def)
      with P failed(2) show ?thesis by simp
    next
      case held
      with P show ?thesis by simp
    next
      case (inserted commit s0)
      have app: "balanceApply (ivState s) r = Inr (ivState s')"
        using inserted(8,9) lf_inv.project_commit by (auto simp: runProject_def)
      then obtain ev where ev: "recordEvent r = Inr ev" "ivState s' = addAll (eventEffect ev) (ivState s)"
        by (cases "recordEvent r") (auto simp: balanceApply_effect)
      have "onlyCredits (skLocation k) r" using merge.hyps(2) r ok by blast
      then have "within k (ivState s') (credited k (rowsOf st) + creditOf k ev)"
        unfolding ev(2) creditOf_def using within_credits [OF _ P] ev(1) by (simp add: onlyCredits_def)
      with ev(1) inserted(3,4) show ?thesis by (simp add: credited_insert creditOn_def)
    qed
  qed
  with merge.hyps(3) m show ?case by (auto simp: lfNodeMerge_def)
qed


section \<open>Status codes\<close>

lemma svc_commands:
  "svcReceive n f (sku, loc, qty) = grpcEmpty (lfCommand n f (ReceiveCmd sku loc qty))"
  "svcIssue n f (sku, loc, qty) = grpcEmpty (lfCommand n f (IssueCmd sku loc qty))"
  "svcMove n f (sku, frm, to, qty) = grpcEmpty (lfCommand n f (MoveCmd sku frm to qty))"
  by (simp_all add: svcReceive_def svcIssue_def svcMove_def)

lemma lfAppendEvent_ok:
  assumes "fitsInt64 (lsNextSeq (lnStore n) + 1)"
  shows "fst (lfAppendEvent n DbOk (eventType (cmdEvent c)) (cmdEvent c)) =
    map_option AppendRejected (overdrawn c (ivState (lnInv n)))"
proof -
  let ?iv = "(lnInv n)\<lparr>ivClock := snd (lfNow (ivClock (lnInv n)))\<rparr>"
  let ?r = "\<lparr>recNode = lsNode (lnStore n), recSeq = lsNextSeq (lnStore n) + 1,
    recClock = fst (lfNow (ivClock (lnInv n))), recType = eventType (cmdEvent c), recPayload = lfEncode (cmdEvent c)\<rparr>"
  have "\<exists>k rows. lfExec DbOk (rowsOf (lnStore n)) ?r = Inr (k, rows)"
    using assms by (simp add: lfExec_def Let_def)
  then obtain rows where "lfInsert DbOk (rowsOf (lnStore n)) ?r = Inr rows"
    by (auto simp: lfInsert_def)
  then show ?thesis
    using lfCheck_cmd [of ?r c ?iv] lfProject_cmd [of ?r c ?iv]
    by (cases "overdrawn c (ivState (lnInv n))")
      (simp_all add: lfAppendEvent_def lfAppend_def case_prod_beta Let_def runProject_def)
qed

text \<open>
  The client API answers with a code that tells why: with a working database, a quantity that is
  not positive is an invalid argument, a location of another node is a permission error, a debit
  below zero is a failed precondition, checked in that order, and everything else succeeds.
\<close>

lemma lf_status_codes:
  assumes "fitsInt64 (lsNextSeq (lnStore n) + 1)"
  shows "fst (grpcEmpty (lfCommand n DbOk c)) =
    (if sint (cmdQty c) \<le> 0 then Some InvalidArgument
     else if ivOwned (lnInv n) \<noteq> fmempty \<and> \<not> fm_get False (ivOwned (lnInv n)) (cmdLocation c)
       then Some PermissionDenied
     else if (case cmdDebits c of None \<Rightarrow> False
         | Some k \<Rightarrow> sint (fm_get 0 (addAll (eventEffect (cmdEvent c)) (lfBalances n)) k) < 0)
       then Some FailedPrecondition
     else None)"
proof (cases "lfGuard (lnInv n) (cmdQty c) (cmdLocation c)")
  case (Some e)
  then show ?thesis
    by (auto simp: lfCommand_conv grpcEmpty_def lfGuard_def toStatus_def split: if_splits)
next
  case None
  then have g: "\<not> sint (cmdQty c) \<le> 0"
    "\<not> (ivOwned (lnInv n) \<noteq> fmempty \<and> \<not> fm_get False (ivOwned (lnInv n)) (cmdLocation c))"
    by (auto simp: lfGuard_def split: if_splits)
  have "fst (lfCommand n DbOk c) = map_option AppendRejected (overdrawn c (lfBalances n))"
    using None lfAppendEvent_ok [OF assms] by (simp add: lfCommand_conv lfBalances_def)
  moreover have "map_option toStatus (map_option AppendRejected (overdrawn c s)) =
      (if (case cmdDebits c of None \<Rightarrow> False | Some k \<Rightarrow> sint (fm_get 0 (addAll (eventEffect (cmdEvent c)) s) k) < 0)
       then Some FailedPrecondition else None)" for s
    by (cases "cmdDebits c") (simp_all add: overdrawn_def Let_def toStatus_def)
  ultimately show ?thesis
    using g by (simp add: grpcEmpty_def case_prod_beta del: option.map_comp)
qed

section \<open>A run\<close>

definition demoNode0 :: lf_node where
  "demoNode0 = projr (lfNewInventory (lfOpen lfSchema ''A'') (lfNewClock ''A'' (\<lambda>_. 1700000000000)) [''x''])"

definition demoPeer :: lf_record where
  "demoPeer = \<lparr>recNode = ''B'', recSeq = 1, recClock = HLC 2000000000000 0 ''B'', recType = TypeMoved,
     recPayload = lfEncode (Moved \<lparr>mvSKU = ''s'', mvFrom = ''z'', mvTo = ''x'', mvQty = 5\<rparr>)\<rparr>"

definition demoNode1 :: lf_node where
  "demoNode1 = snd (lfCommand demoNode0 DbOk (ReceiveCmd ''s'' ''x'' 10))"

definition demoNode2 :: lf_node where
  "demoNode2 = snd (lfNodeMerge demoNode1 (\<lambda>_. DbOk) [demoPeer])"

definition demoNode3 :: lf_node where
  "demoNode3 = snd (lfCommand demoNode2 FailCommit (IssueCmd ''s'' ''x'' 3))"

lemma demoNode0_run: "lf_run allowed ''A'' [''x''] demoNode0"
proof -
  have "lfNewInventory (lfOpen lfSchema ''A'') (lfNewClock ''A'' (\<lambda>_. 1700000000000)) [''x''] = Inr demoNode0"
    by (simp add: demoNode0_def lfNewInventory_def lfSchema_def lfFold_empty)
  then show ?thesis by (rule lf_run.start)
qed

lemma demo_runs:
  shows "lf_run (onlyCredits ''x'') ''A'' [''x''] demoNode1" "lf_run (onlyCredits ''x'') ''A'' [''x''] demoNode2"
    "lf_run (onlyCredits ''x'') ''A'' [''x''] demoNode3"
proof -
  show 1: "lf_run (onlyCredits ''x'') ''A'' [''x''] demoNode1"
    unfolding demoNode1_def by (rule lf_run.command [OF demoNode0_run surjective_pairing])
  have "peerRecord ''A'' demoPeer \<and> onlyCredits ''x'' demoPeer" by code_simp
  then show 2: "lf_run (onlyCredits ''x'') ''A'' [''x''] demoNode2"
    unfolding demoNode2_def by (intro lf_run.merge [OF 1 _ surjective_pairing]) simp
  show "lf_run (onlyCredits ''x'') ''A'' [''x''] demoNode3"
    unfolding demoNode3_def by (rule lf_run.command [OF 2 surjective_pairing])
qed

theorem lf_live_state_is_replay_demo:
  "lfBalance demoNode3 ''s'' ''x'' = 15 \<and>
   (\<exists>n'. lfNewInventory (lfOpen (lsDb (lnStore demoNode3)) ''A'') (lfNewClock ''A'' (\<lambda>_. 0)) [''x''] = Inr n' \<and>
     lnStore n' = lnStore demoNode3 \<and> lfBalances n' = lfBalances demoNode3)"
proof
  show "lfBalance demoNode3 ''s'' ''x'' = 15" by code_simp
  show "\<exists>n'. lfNewInventory (lfOpen (lsDb (lnStore demoNode3)) ''A'') (lfNewClock ''A'' (\<lambda>_. 0)) [''x''] = Inr n' \<and>
     lnStore n' = lnStore demoNode3 \<and> lfBalances n' = lfBalances demoNode3"
    using lf_live_state_is_replay [OF demo_runs(3), of "lfNewClock ''A'' (\<lambda>_. 0)"] by (rule conjunct1)
qed

theorem lf_command_all_or_nothing_demo:
  "fst (lfCommand demoNode2 FailCommit (IssueCmd ''s'' ''x'' 3)) = Some CommitFailed \<and>
   lnStore demoNode3 = lnStore demoNode2 \<and> lfBalances demoNode3 = lfBalances demoNode2"
proof -
  have e: "fst (lfCommand demoNode2 FailCommit (IssueCmd ''s'' ''x'' 3)) = Some CommitFailed" by code_simp
  then have "lfCommand demoNode2 FailCommit (IssueCmd ''s'' ''x'' 3) = (Some CommitFailed, demoNode3)"
    by (simp add: demoNode3_def prod_eq_iff)
  from lf_command_all_or_nothing [OF demo_runs(2) this] e show ?thesis by simp
qed


section \<open>Where the promises end\<close>

text \<open>
  The credit side is not guarded: receiving one unit on top of the greatest balance succeeds and
  leaves the location's balance negative, although the comment on the guard says a credit never can.
\<close>

lemma lf_receive_overflows:
  "let (r1, n1) = lfReceive demoNode0 DbOk ''s'' ''x'' (word_of_int maxInt64);
       (r2, n2) = lfReceive n1 DbOk ''s'' ''x'' 1
   in r1 = None \<and> r2 = None \<and> sint (lfBalance n2 ''s'' ''x'') < 0"
  by code_simp

text \<open>
  The clock's promise does not survive a restart: a node that merged a record from the future
  stamps its next record after it, but after a restart it stamps its next record before that one,
  because opening a log replays the balances and not the clock.
\<close>

lemma lf_restart_forgets_clock:
  "let next_own = (\<lambda>n. map recId (lfSince (lnStore (snd (lfReceive n DbOk ''s'' ''x'' 1))) fmempty));
       restarted = projr (lfNewInventory (lfOpen (lsDb (lnStore demoNode2)) ''A'')
         (lfNewClock ''A'' (\<lambda>_. 1700000001000)) [''x''])
   in next_own demoNode2 = [EventID ''A'' 1, EventID ''B'' 1, EventID ''A'' 2] \<and>
      next_own restarted = [EventID ''A'' 1, EventID ''A'' 2, EventID ''B'' 1]"
  by code_simp

end
