(* ===== verification/LfCentral.thy ===== *)
theory LfCentral
  imports LfRuns
begin

text \<open>
  Central's store (\<open>localfirst-go/central/pgstore.go\<close>): the same two tables in Postgres, a merge
  without an own sequence, the same queries, and the global total per SKU. Central replays on
  demand and passes no projector. The payload column is \<open>NOT NULL\<close>, and unlike the node's store
  this one passes a nil payload on as it is.
\<close>

section \<open>The store\<close>

record pg_store =
  psNode :: node_id
  psDb :: lf_db

abbreviation psRows :: "pg_store \<Rightarrow> lf_rows" where
  "psRows ps \<equiv> dbRows (psDb ps)"

definition pgOpen :: "lf_db \<Rightarrow> node_id \<Rightarrow> pg_store" where
  "pgOpen db n = \<lparr>psNode = n, psDb = db\<rparr>"

definition pgTruncate :: "pg_store \<Rightarrow> pg_store" where
  "pgTruncate ps = ps\<lparr>psDb := lfSchema\<rparr>"

definition pgMergeOne :: "'s projector option \<Rightarrow> db_fault \<Rightarrow> pg_store \<Rightarrow> 's \<Rightarrow> lf_record \<Rightarrow>
    (lf_error + nat) \<times> pg_store \<times> 's" where
  "pgMergeOne p f ps s r =
    (let i = EventID (recNode r) (recSeq r) in
     if f = FailBegin then (Inl BeginFailed, ps, s)
     else if f = FailInsert \<or> \<not> fitsInt64 (recSeq r) \<or> recPayload r = NilBytes
       then (Inl (InsertFailed (recNode r) (recSeq r)), ps, s)
     else if fmlookup (psRows ps) i \<noteq> None then (Inr 0, ps, s)
     else case runProject p s r of
       (Inl e, s) \<Rightarrow> (Inl (ProjectFailed e), ps, s)
     | (Inr commit, s) \<Rightarrow>
       (if f = FailCommit then (Inl CommitFailed, ps, s)
        else (Inr 1, ps\<lparr>psDb := (psDb ps)\<lparr>dbRows := fmupd i
            \<lparr>lrWall = Wall (recClock r), lrLogical = Logical (recClock r), lrType = recType r,
              lrPayload = recPayload r\<rparr> (psRows ps)\<rparr>\<rparr>, commit s)))"

fun pgMergeLoop :: "'s projector option \<Rightarrow> (nat \<Rightarrow> db_fault) \<Rightarrow> nat \<Rightarrow> pg_store \<Rightarrow> 's \<Rightarrow> lf_record list \<Rightarrow>
    (nat \<times> lf_error option) \<times> pg_store \<times> 's" where
  "pgMergeLoop p fs inserted ps s [] = ((inserted, None), ps, s)"
| "pgMergeLoop p fs inserted ps s (r # rs) = (case pgMergeOne p (fs 0) ps s r of
     (Inl e, ps, s) \<Rightarrow> ((inserted, Some e), ps, s)
   | (Inr n, ps, s) \<Rightarrow> pgMergeLoop p (\<lambda>i. fs (Suc i)) (inserted + n) ps s rs)"

definition pgMerge :: "'s projector option \<Rightarrow> (nat \<Rightarrow> db_fault) \<Rightarrow> pg_store \<Rightarrow> 's \<Rightarrow> lf_record list \<Rightarrow>
    (nat \<times> lf_error option) \<times> pg_store \<times> 's" where
  "pgMerge p fs ps s recs = (if recs = [] then ((0, None), ps, s) else pgMergeLoop p fs 0 ps s recs)"

definition pgsSince :: "pg_store \<Rightarrow> lf_vv \<Rightarrow> lf_record list" where
  "pgsSince ps vv =
    sortSlice lfLess (filter (\<lambda>r. lfGet vv (recNode r) < recSeq r) (heldRecords (psRows ps)))"

definition pgsVersion :: "pg_store \<Rightarrow> lf_vv" where
  "pgsVersion ps = foldl (\<lambda>vv n. case lfMaxSeq (psRows ps) n of None \<Rightarrow> vv | Some s \<Rightarrow> lfObserve vv n s)
     fmempty (sorted_list_of_fset (idNode |`| fmdom (psRows ps)))"

definition pgsCursor :: "pg_store \<Rightarrow> string \<Rightarrow> uint64" where
  "pgsCursor ps peer = fm_get 0 (dbCursors (psDb ps)) peer"

definition pgsSetCursor :: "pg_store \<Rightarrow> string \<Rightarrow> uint64 \<Rightarrow> lf_error + pg_store" where
  "pgsSetCursor ps peer s = (if \<not> fitsInt64 s then Inl (InsertFailed peer s)
     else Inr (ps\<lparr>psDb := (psDb ps)\<lparr>dbCursors := fmupd peer s (dbCursors (psDb ps))\<rparr>\<rparr>))"

section \<open>The global sum\<close>

definition sumBySku :: "balances \<Rightarrow> (string, int64) fmap" where
  "sumBySku state = foldl (\<lambda>tot (k, qty). fmupd (skSKU k) (fm_get 0 tot (skSKU k) + qty) tot)
     fmempty (sorted_list_of_fmap state)"

definition globalSum :: "pg_store \<Rightarrow> lf_error + (string, int64) fmap" where
  "globalSum ps = (case lfFoldRecords balanceApply balanceZero (pgsSince ps fmempty) of
     Inl e \<Rightarrow> Inl e | Inr state \<Rightarrow> Inr (sumBySku state))"

section \<open>Merging at central\<close>

lemma pgMergeOne_cases:
  assumes "pgMergeOne None f ps () r = (res, ps', u)"
  obtains (failed) e where "res = Inl e" "ps' = ps"
  | (held) "res = Inr 0" "ps' = ps" "fmlookup (psRows ps) (recId r) \<noteq> None"
  | (inserted) "res = Inr 1" "fitsInt64 (recSeq r)" "recPayload r \<noteq> NilBytes" "fmlookup (psRows ps) (recId r) = None"
    "psRows ps' = fmupd (recId r) (lfRowOf r) (psRows ps)" "psNode ps' = psNode ps"
    "dbCursors (psDb ps') = dbCursors (psDb ps)"
proof -
  let ?bad = "f = FailBegin \<or> f = FailInsert \<or> \<not> fitsInt64 (recSeq r) \<or> recPayload r = NilBytes"
  show ?thesis
  proof (cases "?bad \<or> f = FailCommit \<and> fmlookup (psRows ps) (recId r) = None")
    case True
    then have "\<exists>e. res = Inl e \<and> ps' = ps"
      using assms by (auto simp: pgMergeOne_def Let_def runProject_def recId_def split: if_splits)
    then show ?thesis using that(1) by blast
  next
    case ok: False
    show ?thesis
    proof (cases "fmlookup (psRows ps) (recId r)")
      case None
      then have "res = Inr 1" "ps' = ps\<lparr>psDb := (psDb ps)\<lparr>dbRows := fmupd (recId r) (lfRowOf r) (psRows ps)\<rparr>\<rparr>"
        using assms ok by (simp_all add: pgMergeOne_def Let_def runProject_def recId_def lfRowOf_def lfNonNil_def)
      then show ?thesis using that(3) ok None by simp
    next
      case (Some w)
      then have "res = Inr 0" "ps' = ps"
        using assms ok by (simp_all add: pgMergeOne_def Let_def recId_def)
      then show ?thesis using that(2) Some by simp
    qed
  qed
qed

definition rowsNonNil :: "lf_record \<Rightarrow> bool" where
  "rowsNonNil r \<longleftrightarrow> recPayload r \<noteq> NilBytes"

lemma pgMerge_ok:
  assumes "\<forall>r \<in> set rs. fitsInt64 (recSeq r) \<and> rowsNonNil r"
  shows "\<exists>m ps'. pgMerge None (\<lambda>_. DbOk) ps () rs = ((m, None), ps', ()) \<and>
    psRows ps' = storeRecords (psRows ps) rs \<and> psNode ps' = psNode ps \<and>
    dbCursors (psDb ps') = dbCursors (psDb ps)"
proof -
  have "\<exists>m ps'. pgMergeLoop None (\<lambda>_. DbOk) k ps () rs = ((m, None), ps', ()) \<and>
    psRows ps' = storeRecords (psRows ps) rs \<and> psNode ps' = psNode ps \<and>
    dbCursors (psDb ps') = dbCursors (psDb ps)" for k
    using assms
  proof (induction rs arbitrary: ps k)
    case (Cons r rs)
    obtain res ps1 u where one: "pgMergeOne None DbOk ps () r = (res, ps1, u)" by (rule prod_cases3)
    then show ?case
    proof (cases rule: pgMergeOne_cases)
      case (failed e)
      with one Cons.prems show ?thesis
        by (auto simp: pgMergeOne_def Let_def runProject_def rowsNonNil_def split: if_splits)
    next
      case held
      with one Cons.IH [where ps = ps and k = "k + 0"] Cons.prems show ?thesis by (auto simp: storeRecord_def)
    next
      case inserted
      have "storeRecord (psRows ps) r = psRows ps1" using inserted(4,5) by (simp add: storeRecord_def)
      with one Cons.IH [where ps = ps1 and k = "k + 1"] Cons.prems inserted show ?thesis by simp
    qed
  qed simp
  from this [of 0] show ?thesis by (auto simp: pgMerge_def)
qed

section \<open>Totals\<close>

lemma sumBySku_get: "fm_get 0 (sumBySku s) sku = sum_list (map (\<lambda>(k, q). if skSKU k = sku then q else 0) (sorted_list_of_fmap s))"
proof -
  have "fm_get 0 (foldl (\<lambda>tot (k, qty). fmupd (skSKU k) (fm_get 0 tot (skSKU k) + qty) tot) m xs) sku =
      fm_get 0 m sku + sum_list (map (\<lambda>(k, q). if skSKU k = sku then q else 0) xs)" for m :: "(string, int64) fmap" and xs
    by (induction xs arbitrary: m) (auto simp: ac_simps)
  then show ?thesis by (simp add: sumBySku_def)
qed


lemma sorted_fmap_update:
  "mset (sorted_list_of_fmap (fmupd k v s)) =
    add_mset (k, v) (mset (sorted_list_of_fmap (fmdrop k s)))"
proof -
  have d: "distinct (sorted_list_of_fmap t)" for t :: "('a::linorder, 'b) fmap"
    using distinct_sorted_list_of_fmap [of t] by (simp add: distinct_map)
  have "mset (sorted_list_of_fmap (fmupd k v s)) = mset ((k, v) # sorted_list_of_fmap (fmdrop k s))"
    by (rule mset_eq_of_distinct) (auto simp: d set_sorted_list_of_fmap split: if_splits)
  then show ?thesis by simp
qed

lemma fmdrop_id: "fmlookup s k = None \<Longrightarrow> fmdrop k s = s"
  by (rule fmap_ext) auto

text \<open>Adding to one balance adds as much to its SKU's total.\<close>

lemma sumBySku_addBalance:
  "fm_get 0 (sumBySku (addBalance k d s)) sku = fm_get 0 (sumBySku s) sku + (if skSKU k = sku then d else 0)"
proof -
  let ?f = "\<lambda>(k, q :: int64). if skSKU k = sku then q else 0"
  have tot: "fm_get 0 (sumBySku t) sku = sum_mset (image_mset ?f (mset (sorted_list_of_fmap t)))" for t
    by (simp add: sumBySku_get sum_mset_sum_list flip: mset_map)
  have "sum_mset (image_mset ?f (mset (sorted_list_of_fmap s))) =
      (if skSKU k = sku then fm_get 0 s k else 0) +
      sum_mset (image_mset ?f (mset (sorted_list_of_fmap (fmdrop k s))))"
  proof (cases "fmlookup s k")
    case None
    then show ?thesis by (simp add: fmdrop_id fm_get_def)
  next
    case (Some v)
    then have "fmupd k v s = s" by (intro fmap_ext) auto
    with sorted_fmap_update [of k v s] Some show ?thesis by (simp add: fm_get_def)
  qed
  then show ?thesis
    by (simp add: tot addBalance_def sorted_fmap_update)
qed

text \<open>What a record adds to the stock of a SKU anywhere: a move nothing.\<close>

fun netOf :: "string \<Rightarrow> lf_event \<Rightarrow> int64" where
  "netOf sku (Received e) = (if rcSKU e = sku then rcQty e else 0)"
| "netOf sku (Issued e) = (if isSKU e = sku then - isQty e else 0)"
| "netOf sku (Moved e) = 0"

definition netOn :: "string \<Rightarrow> lf_record \<Rightarrow> int64" where
  "netOn sku r = (case recordEvent r of Inl _ \<Rightarrow> 0 | Inr ev \<Rightarrow> netOf sku ev)"

lemma sumBySku_replay:
  "lfFoldRecords balanceApply s rs = Inr s' \<Longrightarrow>
    fm_get 0 (sumBySku s') sku = fm_get 0 (sumBySku s) sku + sum_list (map (netOn sku) rs)"
proof (induction rs arbitrary: s)
  case (Cons r rs)
  then obtain ev where ev: "recordEvent r = Inr ev" "balanceApply s r = Inr (addAll (eventEffect ev) s)"
    by (cases "recordEvent r") (auto simp: balanceApply_effect)
  have "fm_get 0 (sumBySku (addAll (eventEffect ev) s)) sku = fm_get 0 (sumBySku s) sku + netOn sku r"
    using ev(1) by (cases ev) (auto simp: addAll_def sumBySku_addBalance netOn_def)
  with Cons ev show ?case by simp
qed simp

text \<open>
  The global sum is exact whatever order records reached central in: a SKU's total is the sum of
  all receipts minus all issues among the held records. A move, even across nodes, changes it at no
  point: both of its halves are one record.
\<close>

lemma lf_global_sum_is_net_stock:
  assumes "rowsFit (psRows ps)" "globalSum ps = Inr sums"
  shows "fm_get 0 sums sku = sum_list (map (netOn sku) (heldRecords (psRows ps)))"
proof -
  have same: "pgsSince ps fmempty = lfSinceRows (psRows ps) fmempty"
    by (simp add: pgsSince_def lfSinceRows_def)
  obtain s where s: "lfFoldRecords balanceApply balanceZero (pgsSince ps fmempty) = Inr s" "sums = sumBySku s"
    using assms(2) by (auto simp: globalSum_def split: sum.splits)
  have "mset (map (netOn sku) (pgsSince ps fmempty)) = mset (map (netOn sku) (heldRecords (psRows ps)))"
    unfolding same mset_map using lfSince_all [of "psRows ps"] assms(1) by (simp add: rowsFit_def)
  then have "sum_list (map (netOn sku) (pgsSince ps fmempty)) = sum_list (map (netOn sku) (heldRecords (psRows ps)))"
    by (metis sum_mset_sum_list)
  moreover have "fm_get 0 (sumBySku balanceZero) sku = 0" by (simp add: sumBySku_get balanceZero_def)
  ultimately show ?thesis
    using sumBySku_replay [OF s(1), of sku] s(2) by simp
qed

definition demoCentralStore :: pg_store where
  "demoCentralStore = fst (snd (pgMerge None (\<lambda>_. DbOk) (pgOpen lfSchema ''C'') ()
     (lfSince (lnStore demoNode2) fmempty)))"

text \<open>
  The two stores disagree on a record without payload bytes: the node's log takes it, storing the
  empty string, and central's refuses the same record, so a batch with it never goes through.
\<close>

lemma lf_central_refuses_nil_payload:
  "let r = demoRec ''A'' 1 in
   fst (lfMerge None (\<lambda>_. DbOk) (lfOpen lfSchema ''B'') () [r]) = (1, None) \<and>
   fst (pgMerge None (\<lambda>_. DbOk) (pgOpen lfSchema ''C'') () [r]) = (0, Some (InsertFailed ''A'' 1))"
  by code_simp

end
