(* ===== verification/LfSync.thy ===== *)
theory LfSync
  imports LfCentral LabSync
begin

text \<open>
  Replication of the second program (\<open>localfirst-go/sync\<close>): the wire form and the validation of
  peers' records (\<open>convert.go\<close>), the one \<open>Exchange\<close> both roles run (\<open>session.go\<close>), the initiator
  with its cursor and its retry loop (\<open>client.go\<close>), and the responder (\<open>server.go\<close>). The storage
  interface \<open>Log\<close> is a record of operations that the node's store and central's store both fill
  in; streams are those of the first program's replication, with arbitrary contents.
\<close>

section \<open>Wire form\<close>

text \<open>A nil record on the wire reads as the all-zero one.\<close>

record pb_record =
  pbNodeId :: string
  pbSeq :: uint64
  pbHlcWall :: int64
  pbHlcLogical :: uint32
  pbType :: string
  pbPayload :: bytes

definition recordToPB :: "lf_record \<Rightarrow> pb_record" where
  "recordToPB r = \<lparr>pbNodeId = recNode r, pbSeq = recSeq r, pbHlcWall = Wall (recClock r),
     pbHlcLogical = Logical (recClock r), pbType = recType r, pbPayload = recPayload r\<rparr>"

definition recordFromPB :: "pb_record \<Rightarrow> lf_record" where
  "recordFromPB p = \<lparr>recNode = pbNodeId p, recSeq = pbSeq p,
     recClock = HLC (pbHlcWall p) (pbHlcLogical p) (pbNodeId p), recType = pbType p, recPayload = pbPayload p\<rparr>"

datatype invalid_record = EmptyAuthor | SelfAuthored node_id | ZeroSequence node_id

definition validatePeerRecord :: "lf_record \<Rightarrow> node_id \<Rightarrow> invalid_record option" where
  "validatePeerRecord r localNodeID =
    (if recNode r = [] then Some EmptyAuthor
     else if recNode r = localNodeID then Some (SelfAuthored (recNode r))
     else if recSeq r = 0 then Some (ZeroSequence (recNode r))
     else None)"

definition versionToPB :: "lf_vv \<Rightarrow> (string, uint64) fmap" where
  "versionToPB v = lfClone v"

definition versionFromPB :: "(string, uint64) fmap \<Rightarrow> lf_vv" where
  "versionFromPB m = lfClone m"

section \<open>The storage interface\<close>

record ('l, 's) log_ops =
  opNodeID :: "'l \<Rightarrow> node_id"
  opSince :: "'l \<Rightarrow> lf_vv \<Rightarrow> lf_record list"
  opMerge :: "'l \<Rightarrow> 's \<Rightarrow> (nat \<Rightarrow> db_fault) \<Rightarrow> lf_record list \<Rightarrow> (nat \<times> lf_error option) \<times> 'l \<times> 's"
  opVersion :: "'l \<Rightarrow> lf_vv"
  opSetCursor :: "'l \<Rightarrow> string \<Rightarrow> uint64 \<Rightarrow> lf_error + 'l"

definition storeOps :: "'s projector option \<Rightarrow> (lf_store, 's) log_ops" where
  "storeOps p = \<lparr>opNodeID = lsNode, opSince = lfSince, opMerge = (\<lambda>l s fs rs. lfMerge p fs l s rs),
     opVersion = lfVersion, opSetCursor = lfSetCursor\<rparr>"

definition pgOps :: "'s projector option \<Rightarrow> (pg_store, 's) log_ops" where
  "pgOps p = \<lparr>opNodeID = psNode, opSince = pgsSince, opMerge = (\<lambda>l s fs rs. pgMerge p fs l s rs),
     opVersion = pgsVersion, opSetCursor = pgsSetCursor\<rparr>"

section \<open>The exchange\<close>

datatype lf_frame =
    FHello string "(string, uint64) fmap" | FBatch "pb_record list" | FAck "(string, uint64) fmap" | FNoBody

datatype lf_sync_error =
    LfSend sync_error | AwaitingHello sync_error | WantHello | LfReceive sync_error
  | LfInvalid invalid_record | LfMerge lf_error | MidStream
  | LfDial | LfCloseSend | LfResponder sync_error | LfCursor lf_error

type_synonym lf_stream = "(lf_frame, lf_frame) stream"

definition lfBatchSize :: nat where
  "lfBatchSize = 100"

definition sendLf :: "lf_stream \<Rightarrow> lf_frame \<Rightarrow> lf_sync_error option \<times> lf_stream" where
  "sendLf st f = (let (err, st) = sendFrame st f in (map_option LfSend err, st))"

definition sendHello :: "('l, 's) log_ops \<Rightarrow> 'l \<Rightarrow> lf_stream \<Rightarrow> lf_sync_error option \<times> lf_stream" where
  "sendHello ops l st = sendLf st (FHello (opNodeID ops l) (versionToPB (opVersion ops l)))"

text \<open>The loop over \<open>bounded\<close> in steps of the batch size.\<close>

function sendBatches :: "lf_record list \<Rightarrow> lf_stream \<Rightarrow> lf_sync_error option \<times> lf_stream" where
  "sendBatches recs st =
    (if recs = [] then (None, st)
     else (case sendLf st (FBatch (map recordToPB (take lfBatchSize recs))) of
         (Some err, st) \<Rightarrow> (Some err, st)
       | (None, st) \<Rightarrow> sendBatches (drop lfBatchSize recs) st))"
  by pat_completeness auto
termination
  by (relation "measure (\<lambda>(recs, _). length recs)") (auto simp: lfBatchSize_def)

declare sendBatches.simps [simp del]

text \<open>
  \<open>pushAndAck\<close>: \<open>lv\<close> is the log when its version is read and \<open>ls\<close> when its records are, which a
  concurrent local append may have changed.
\<close>

definition pushAndAck :: "('l, 's) log_ops \<Rightarrow> 'l \<Rightarrow> 'l \<Rightarrow> lf_vv \<Rightarrow> lf_stream \<Rightarrow>
    (lf_sync_error + lf_vv) \<times> lf_stream" where
  "pushAndAck ops lv ls peerVV st =
    (let vv = opVersion ops lv; recs = opSince ops ls peerVV;
         bounded = filter (\<lambda>r. recSeq r \<le> lfGet vv (recNode r)) recs
     in case sendBatches bounded st of (Some err, st) \<Rightarrow> (Inl err, st)
        | (None, st) \<Rightarrow> (case sendLf st (FAck (versionToPB vv)) of
             (Some err, st) \<Rightarrow> (Inl err, st) | (None, st) \<Rightarrow> (Inr vv, st)))"

text \<open>The conversion loop of one batch: the first invalid record ends it.\<close>

fun convertBatch :: "node_id \<Rightarrow> pb_record list \<Rightarrow> invalid_record + lf_record list" where
  "convertBatch me [] = Inr []"
| "convertBatch me (pb # pbs) = (case validatePeerRecord (recordFromPB pb) me of
     Some e \<Rightarrow> Inl e
   | None \<Rightarrow> (case convertBatch me pbs of Inl e \<Rightarrow> Inl e | Inr rs \<Rightarrow> Inr (recordFromPB pb # rs)))"

text \<open>\<open>drain\<close> over the frames to come; \<open>fs b\<close> is what the database does during batch \<open>b\<close>.\<close>

fun drain :: "('l, 's) log_ops \<Rightarrow> (nat \<Rightarrow> nat \<Rightarrow> db_fault) \<Rightarrow> 'l \<Rightarrow> 's \<Rightarrow> lf_frame list \<Rightarrow> bool \<Rightarrow>
    lf_sync_error option \<times> 'l \<times> 's \<times> lf_frame list" where
  "drain ops fs l s [] eof = ((if eof then None else Some (LfReceive RecvFailed)), l, s, [])"
| "drain ops fs l s (FBatch pbs # fr) eof =
    (case convertBatch (opNodeID ops l) pbs of Inl e \<Rightarrow> (Some (LfInvalid e), l, s, fr)
     | Inr rs \<Rightarrow> (case opMerge ops l s (fs 0) rs of
         ((_, Some e), l, s) \<Rightarrow> (Some (LfMerge e), l, s, fr)
       | ((_, None), l, s) \<Rightarrow> drain ops (\<lambda>b. fs (Suc b)) l s fr eof))"
| "drain ops fs l s (FAck _ # fr) eof = (None, l, s, fr)"
| "drain ops fs l s (FHello _ _ # fr) eof = (Some MidStream, l, s, fr)"
| "drain ops fs l s (FNoBody # fr) eof = (Some MidStream, l, s, fr)"

definition lfExchange :: "('l, 's) log_ops \<Rightarrow> (nat \<Rightarrow> nat \<Rightarrow> db_fault) \<Rightarrow> 'l \<Rightarrow> 's \<Rightarrow> lf_stream \<Rightarrow> bool \<Rightarrow>
    (lf_sync_error + lf_vv option) \<times> 'l \<times> 's \<times> lf_stream" where
  "lfExchange ops fs l s st initiator =
    (case (if initiator then sendHello ops l st else (None, st)) of (Some err, st) \<Rightarrow> (Inl err, l, s, st)
     | (None, st) \<Rightarrow>
       (case recvFrame st of (Inl err, st) \<Rightarrow> (Inl (AwaitingHello err), l, s, st)
        | (Inr frame, st) \<Rightarrow>
          (case frame of FHello _ helloVV \<Rightarrow>
             (let peerVV = versionFromPB helloVV in
              case (if initiator then (None, st)
                    else (case sendHello ops l st of (Some err, st) \<Rightarrow> (Some err, st)
                       | (None, st) \<Rightarrow> (case pushAndAck ops l l peerVV st of
                           (Inl err, st) \<Rightarrow> (Some err, st) | (Inr _, st) \<Rightarrow> (None, st)))) of
                (Some err, st) \<Rightarrow> (Inl err, l, s, st)
              | (None, st) \<Rightarrow>
                (case drain ops fs l s (stIn st) (stEOF st) of
                   (Some err, l, s, fr) \<Rightarrow> (Inl err, l, s, st\<lparr>stIn := fr\<rparr>)
                 | (None, l, s, fr) \<Rightarrow>
                   (let st = st\<lparr>stIn := fr\<rparr> in
                    if initiator then (case pushAndAck ops l l peerVV st of
                        (Inl err, st) \<Rightarrow> (Inl err, l, s, st) | (Inr vv, st) \<Rightarrow> (Inr (Some vv), l, s, st))
                    else (Inr None, l, s, st))))
           | _ \<Rightarrow> (Inl WantHello, l, s, st))))"

section \<open>The two roles\<close>

record ('l, 's) lf_client =
  cltOps :: "('l, 's) log_ops"
  cltLog :: 'l
  cltProj :: 's
  cltPeer :: string

definition lfNewClient :: "('l, 's) log_ops \<Rightarrow> 'l \<Rightarrow> 's \<Rightarrow> string \<Rightarrow> ('l, 's) lf_client" where
  "lfNewClient ops l s peer = \<lparr>cltOps = ops, cltLog = l, cltProj = s, cltPeer = peer\<rparr>"

text \<open>\<open>SyncOnce\<close> on the stream the call opened, if it opened one.\<close>

definition lfSyncOnce :: "('l, 's) lf_client \<Rightarrow> (nat \<Rightarrow> nat \<Rightarrow> db_fault) \<Rightarrow> lf_stream option \<Rightarrow>
    (lf_sync_error + lf_vv) \<times> ('l, 's) lf_client \<times> lf_stream option" where
  "lfSyncOnce c fs opened =
    (case opened of None \<Rightarrow> (Inl LfDial, c, None)
     | Some st \<Rightarrow>
       (case lfExchange (cltOps c) fs (cltLog c) (cltProj c) st True of
          (res, l, s, st) \<Rightarrow>
          (let c = c\<lparr>cltLog := l, cltProj := s\<rparr> in
           case res of Inl err \<Rightarrow> (Inl err, c, Some st)
           | Inr ack \<Rightarrow>
             (let vv = (case ack of None \<Rightarrow> fmempty | Some vv \<Rightarrow> vv) in
              if \<not> stCloseOk st then (Inl LfCloseSend, c, Some st)
              else (case recvFrame st of
                  (Inl RecvFailed, st) \<Rightarrow> (Inl (LfResponder RecvFailed), c, Some st)
                | (_, st) \<Rightarrow>
                  (case opSetCursor (cltOps c) l (cltPeer c) (lfGet vv (opNodeID (cltOps c) l)) of
                     Inl e \<Rightarrow> (Inl (LfCursor e), c, Some st)
                   | Inr l \<Rightarrow> (Inr vv, c\<lparr>cltLog := l\<rparr>, Some st)))))))"

definition lfReplicate :: "('l, 's) log_ops \<Rightarrow> (nat \<Rightarrow> nat \<Rightarrow> db_fault) \<Rightarrow> 'l \<Rightarrow> 's \<Rightarrow> lf_stream \<Rightarrow>
    lf_sync_error option \<times> 'l \<times> 's \<times> lf_stream" where
  "lfReplicate ops fs l s st = (case lfExchange ops fs l s st False of
     (Inl err, l, s, st) \<Rightarrow> (Some err, l, s, st) | (Inr _, l, s, st) \<Rightarrow> (None, l, s, st))"

section \<open>The retry loop\<close>

abbreviation lfMinInterval :: int64 where "lfMinInterval \<equiv> 100000000"
abbreviation lfMaxBackoff :: int64 where "lfMaxBackoff \<equiv> 30000000000"

text \<open>\<open>rnd n\<close> is the draw of \<open>rand.Int64N(n)\<close>.\<close>

definition jitter :: "(int64 \<Rightarrow> int64) \<Rightarrow> int64 \<Rightarrow> int64" where
  "jitter rnd d = (if sint d \<le> 0 then 0 else rnd (word_of_int (sint d div 4) + 1))"

text \<open>The delays of \<open>Run\<close>, given for each round whether its \<open>SyncOnce\<close> succeeded, and its draw.\<close>

fun runDelays :: "int64 \<Rightarrow> int64 \<Rightarrow> (bool \<times> (int64 \<Rightarrow> int64)) list \<Rightarrow> int64 list" where
  "runDelays every backoff [] = []"
| "runDelays every backoff ((ok, rnd) # rounds) =
    (let backoff = (if ok then every
        else if sint (backoff * 2) < sint lfMaxBackoff then backoff * 2 else lfMaxBackoff)
     in (backoff + jitter rnd backoff) # runDelays every backoff rounds)"

definition runLoop :: "int64 \<Rightarrow> (bool \<times> (int64 \<Rightarrow> int64)) list \<Rightarrow> int64 list" where
  "runLoop every rounds =
    (let every = (if sint every < sint lfMinInterval then lfMinInterval else every)
     in runDelays every every rounds)"

section \<open>One exchange between two peers\<close>

text \<open>
  On a reliable stream each frame sent is received once and in order. The responder's frames depend
  only on the initiator's hello, so running it on the hello alone gives what the initiator
  receives, and running it on all the initiator sent gives its final state; its error is the
  status the initiator reads at the end. \<open>dbA\<close> and \<open>dbB\<close> are the faults of the two databases.
\<close>

definition lfEnd :: "lf_frame list \<Rightarrow> bool \<Rightarrow> lf_stream" where
  "lfEnd fs eof = \<lparr>stIn = fs, stEOF = eof, stOut = [], stCanSend = None, stCloseOk = True\<rparr>"

definition lfMemSync :: "('l, 's) lf_client \<Rightarrow> (nat \<Rightarrow> nat \<Rightarrow> db_fault) \<Rightarrow> ('m, 't) log_ops \<Rightarrow>
    (nat \<Rightarrow> nat \<Rightarrow> db_fault) \<Rightarrow> 'm \<Rightarrow> 't \<Rightarrow>
    (lf_sync_error + lf_vv) \<times> ('l, 's) lf_client \<times> lf_sync_error option \<times> 'm \<times> 't" where
  "lfMemSync c dbA ops dbB m t =
    (let hello = FHello (opNodeID (cltOps c) (cltLog c)) (versionToPB (opVersion (cltOps c) (cltLog c)));
         (_, _, _, rst) = lfReplicate ops dbB m t (lfEnd [hello] False);
         (r, _, ist) = lfSyncOnce c dbA (Some (lfEnd (stOut rst) True));
         (err, m', t', _) = lfReplicate ops dbB m t
           (lfEnd (case ist of None \<Rightarrow> [] | Some st \<Rightarrow> stOut st) (is_Inr r));
         (r, c', _) = lfSyncOnce c dbA (Some (lfEnd (stOut rst) (err = None)))
     in (r, c', err, m', t'))"

end
