(* ===== verification/LfSyncProps.thy ===== *)
theory LfSyncProps
  imports LfSync
begin

text \<open>
  What replication between \<open>localfirst-go\<close> peers guarantees: an acknowledgement never covers a
  record that was not sent, whatever a peer sends only takes steps a node may take, a fault-free
  exchange between gap-free logs leaves both with the union, and the retry delays are bounded.
  It also shows the interruption that loses a record for good.
\<close>

section \<open>Pushing\<close>

lemma sendLf_ok:
  assumes "sendLf st f = (None, st')"
  shows "stOut st' = stOut st @ [f]" "stIn st' = stIn st" "stEOF st' = stEOF st" "stCloseOk st' = stCloseOk st"
    "stCanSend st = None \<Longrightarrow> stCanSend st' = None"
  using assms by (auto simp: sendLf_def Let_def split: if_splits)

lemma sendLf_unlimited: "stCanSend st = None \<Longrightarrow> sendLf st f = (None, st\<lparr>stOut := stOut st @ [f]\<rparr>)"
  by (simp add: sendLf_def sendFrame_unlimited del: sendFrame.simps)

abbreviation batchFrame :: "lf_record list \<Rightarrow> lf_frame" where
  "batchFrame b \<equiv> FBatch (map recordToPB b)"

lemma sendBatches_frames:
  "sendBatches recs st = (None, st') \<Longrightarrow> \<exists>bs. stOut st' = stOut st @ map batchFrame bs \<and> concat bs = recs \<and>
    (\<forall>b \<in> set bs. b \<noteq> [] \<and> length b \<le> lfBatchSize) \<and>
    stIn st' = stIn st \<and> stEOF st' = stEOF st \<and> stCloseOk st' = stCloseOk st"
proof (induction recs st arbitrary: st' rule: sendBatches.induct)
  case (1 recs st)
  show ?case
  proof (cases "recs = []")
    case True
    with "1.prems" show ?thesis by (intro exI [of _ "[]"]) (simp add: sendBatches.simps)
  next
    case False
    obtain err st1 where send: "sendLf st (batchFrame (take lfBatchSize recs)) = (err, st1)"
      by (cases "sendLf st (batchFrame (take lfBatchSize recs))")
    with "1.prems" False have "err = None" "sendBatches (drop lfBatchSize recs) st1 = (None, st')"
      by (auto simp: sendBatches.simps [of recs st] split: option.splits)
    from "1.IH" [OF False send [symmetric] this] obtain bs where bs:
      "stOut st' = stOut st1 @ map batchFrame bs" "concat bs = drop lfBatchSize recs"
      "\<forall>b \<in> set bs. b \<noteq> [] \<and> length b \<le> lfBatchSize"
      "stIn st' = stIn st1" "stEOF st' = stEOF st1" "stCloseOk st' = stCloseOk st1"
      by auto
    with sendLf_ok [OF send [unfolded \<open>err = None\<close>]] False show ?thesis
      by (intro exI [of _ "take lfBatchSize recs # bs"]) (auto simp: lfBatchSize_def)
  qed
qed

lemma sendBatches_unlimited:
  "stCanSend st = None \<Longrightarrow> \<exists>st'. sendBatches recs st = (None, st') \<and> stCanSend st' = None"
proof (induction recs st rule: sendBatches.induct)
  case (1 recs st)
  show ?case
  proof (cases "recs = []")
    case True
    with "1.prems" show ?thesis by (simp add: sendBatches.simps)
  next
    case False
    note send = sendLf_unlimited [OF "1.prems", of "batchFrame (take lfBatchSize recs)"]
    from "1.IH" [OF False send [symmetric] refl] "1.prems" show ?thesis
      unfolding sendBatches.simps [of recs st] send using False by simp
  qed
qed

lemma lfVersion_get: "lfGet (lfVersionRows rows) n = ownSeq rows n"
proof -
  let ?step = "\<lambda>vv n. case lfMaxSeq rows n of None \<Rightarrow> vv | Some s \<Rightarrow> lfObserve vv n s"
  have "lfGet (foldl ?step v ns) n = (if n \<in> set ns then max (lfGet v n) (ownSeq rows n) else lfGet v n)" for v ns
    by (induction ns arbitrary: v)
      (auto simp: lfGet_observe lfMaxSeq_conv ownSeq_def max_def)
  moreover have "n \<notin> idNode ` fset (fmdom rows) \<Longrightarrow> ownSeq rows n = 0"
    by (auto simp: ownSeq_def authorSeqs_def)
  ultimately show ?thesis
    by (auto simp: lfVersionRows_def sorted_list_of_fset.rep_eq)
qed

text \<open>
  A push acknowledges only what the peer then has: with a log that grew between the version
  query and the read, the frames sent are batches of at most a hundred records followed by the
  acknowledgement of the first version; no record above that version is sent, and every record
  held at that time is either covered by what the peer said it had or among those sent.
\<close>

lemma lf_push_acks_only_what_was_sent:
  assumes "pushAndAck (storeOps p) lv ls peerVV st = (Inr vv, st')"
    and grew: "\<forall>r \<in> set (heldRecords (rowsOf lv)). r \<in> set (heldRecords (rowsOf ls))"
  shows "vv = lfVersion lv \<and>
    (\<exists>bs. stOut st' = stOut st @ map batchFrame bs @ [FAck vv] \<and>
      (\<forall>b \<in> set bs. b \<noteq> [] \<and> length b \<le> 100) \<and>
      (\<forall>r \<in> set (concat bs). recSeq r \<le> lfGet vv (recNode r) \<and> lfGet peerVV (recNode r) < recSeq r) \<and>
      (\<forall>r \<in> set (heldRecords (rowsOf lv)). recSeq r \<le> lfGet peerVV (recNode r) \<or> r \<in> set (concat bs)))"
proof -
  let ?recs = "filter (\<lambda>r. recSeq r \<le> lfGet (lfVersion lv) (recNode r)) (lfSince ls peerVV)"
  obtain err st1 where send: "sendBatches ?recs st = (err, st1)" by (cases "sendBatches ?recs st")
  obtain err2 st2 where ack: "sendLf st1 (FAck (lfVersion lv)) = (err2, st2)"
    by (cases "sendLf st1 (FAck (lfVersion lv))")
  have e: "err = None" "err2 = None" "vv = lfVersion lv" "st' = st2"
    using assms(1) send ack by (auto simp: pushAndAck_def Let_def storeOps_def versionToPB_def split: option.splits)
  obtain bs where bs: "stOut st1 = stOut st @ map batchFrame bs" "concat bs = ?recs"
      "\<forall>b \<in> set bs. b \<noteq> [] \<and> length b \<le> lfBatchSize"
    using sendBatches_frames [OF send [unfolded e]] by auto
  have "recSeq r \<le> lfGet peerVV (recNode r) \<or> r \<in> set (concat bs)" if r: "r \<in> set (heldRecords (rowsOf lv))" for r
  proof -
    have "recId r |\<in>| fmdom (rowsOf lv)" using r held_ids [of "rowsOf lv"] by auto
    from ownSeq_ge [OF this] have "recSeq r \<le> lfGet (lfVersion lv) (recNode r)"
      by (simp add: lfVersion_def lfVersion_get recId_def)
    with r grew show ?thesis unfolding bs(2) by (auto simp: set_lfSince)
  qed
  moreover have "\<forall>r \<in> set (concat bs). recSeq r \<le> lfGet vv (recNode r) \<and> lfGet peerVV (recNode r) < recSeq r"
    unfolding bs(2) by (simp add: set_lfSince e)
  ultimately show ?thesis
    using bs(1,3) e sendLf_ok(1) [OF ack [unfolded e]] by (auto simp: lfBatchSize_def)
qed

section \<open>Unions of logs\<close>

definition gapFree :: "lf_rows \<Rightarrow> bool" where
  "gapFree rows \<longleftrightarrow> (\<forall>i s. i |\<in>| fmdom rows \<longrightarrow> 0 < s \<longrightarrow> s \<le> idSeq i \<longrightarrow> EventID (idNode i) s |\<in>| fmdom rows)"

definition payloadsOk :: "lf_rows \<Rightarrow> bool" where
  "payloadsOk rows \<longleftrightarrow> (\<forall>i w. fmlookup rows i = Some w \<longrightarrow> lrPayload w \<noteq> NilBytes)"

definition rowsAgree :: "lf_rows \<Rightarrow> lf_rows \<Rightarrow> bool" where
  "rowsAgree A B \<longleftrightarrow> (\<forall>i w w'. fmlookup A i = Some w \<longrightarrow> fmlookup B i = Some w' \<longrightarrow> w = w')"

lemma lfRowOf_lfScan: "lrPayload w \<noteq> NilBytes \<Longrightarrow> lfRowOf (lfScan (i, w)) = w"
  by (simp add: lfRowOf_def lfScan_def lfNonNil_def)

lemma ownSeq_in:
  assumes "ownSeq rows n \<noteq> 0"
  obtains i where "i |\<in>| fmdom rows" "idNode i = n" "idSeq i = ownSeq rows n"
proof -
  have "authorSeqs rows n \<noteq> {}" using assms by (auto simp: ownSeq_def)
  then have "ownSeq rows n \<in> authorSeqs rows n" by (simp add: ownSeq_def)
  with that show ?thesis by (auto simp: authorSeqs_def)
qed

text \<open>What a gap-free log lacks of another is what lies above its marks.\<close>

lemma storeRecords_union:
  assumes "gapFree A" "rowsFit B" "payloadsOk B"
    and rs: "set rs = {r \<in> set (heldRecords B). ownSeq A (recNode r) < recSeq r}"
  shows "storeRecords A rs = fmadd B A"
proof (rule fmap_ext)
  fix i
  have found: "map_option lfRowOf (find (\<lambda>r. recId r = i) rs) = fmlookup B i" if none: "fmlookup A i = None"
  proof (cases "fmlookup B i")
    case None
    then have "\<not> (\<exists>r \<in> set rs. recId r = i)" by (auto simp: rs set_heldRecords)
    then have "find (\<lambda>r. recId r = i) rs = None" by (auto simp: find_None_iff)
    with None show ?thesis by simp
  next
    case (Some w)
    have "\<not> idSeq i \<le> ownSeq A (idNode i)"
    proof
      assume le: "idSeq i \<le> ownSeq A (idNode i)"
      have nz: "idSeq i \<noteq> 0" using assms(2) Some by (auto simp: rowsFit_def fmlookup_dom_iff)
      with le have "ownSeq A (idNode i) \<noteq> 0" by (auto simp: word_le_0_iff)
      then obtain j where "j |\<in>| fmdom A" "idNode j = idNode i" "idSeq j = ownSeq A (idNode i)"
        by (rule ownSeq_in)
      with assms(1) le nz have "EventID (idNode i) (idSeq i) |\<in>| fmdom A"
        unfolding gapFree_def by (metis word_neq_0_conv)
      with none show False by (simp add: fmlookup_dom_iff)
    qed
    then have mem: "lfScan (i, w) \<in> set rs"
      using Some unfolding rs set_heldRecords by (auto simp: lfScan_def)
    have "r = lfScan (i, w)" if "r \<in> set rs" "recId r = i" for r
      using that Some unfolding rs set_heldRecords by auto
    moreover have "\<not> (\<forall>r \<in> set rs. recId r \<noteq> i)" using mem by force
    then obtain r where r: "find (\<lambda>r. recId r = i) rs = Some r"
      by (cases "find (\<lambda>r. recId r = i) rs") (simp_all add: find_None_iff)
    moreover have "r \<in> set rs \<and> recId r = i"
      using r unfolding find_Some_iff by (auto simp: in_set_conv_nth)
    ultimately have "find (\<lambda>r. recId r = i) rs = Some (lfScan (i, w))" by simp
    with Some assms(3) show ?thesis by (simp add: lfRowOf_lfScan payloadsOk_def)
  qed
  show "fmlookup (storeRecords A rs) i = fmlookup (fmadd B A) i"
    using found by (auto simp: storeRecords_lookup split: option.split)
qed

lemma rowsAgreeD: "rowsAgree A B \<Longrightarrow> fmlookup A i = Some w \<Longrightarrow> fmlookup B i = Some w' \<Longrightarrow> w = w'"
  by (simp add: rowsAgree_def)

lemma fmadd_agree: "rowsAgree A B \<Longrightarrow> fmadd (fmadd B A) B = fmadd B A"
  by (rule fmap_ext) (auto simp: fmlookup_dom_iff dest: rowsAgreeD)

lemma ownSeq_fmadd: "ownSeq (fmadd B A) n = max (ownSeq A n) (ownSeq B n)"
proof -
  have s: "authorSeqs (fmadd B A) n = authorSeqs A n \<union> authorSeqs B n"
    by (auto simp: authorSeqs_def)
  show ?thesis
    unfolding ownSeq_def s by (auto simp: Max.union)
qed

section \<open>Draining what was pushed\<close>

locale sync_log =
  fixes ops :: "('l, 's) log_ops" and rows :: "'l \<Rightarrow> lf_rows" and wf :: "'l \<Rightarrow> bool" and takes :: "lf_record \<Rightarrow> bool"
  assumes since_rows: "opSince ops l vv = lfSinceRows (rows l) vv"
    and version_rows: "opVersion ops l = lfVersionRows (rows l)"
    and merge_stores: "wf l \<Longrightarrow> \<forall>r \<in> set rs. takes r \<and> recSeq r \<noteq> 0 \<and> fitsInt64 (recSeq r) \<Longrightarrow>
      \<exists>m l' s'. opMerge ops l s (\<lambda>_. DbOk) rs = ((m, None), l', s') \<and> wf l' \<and>
        rows l' = storeRecords (rows l) rs \<and> opNodeID ops l' = opNodeID ops l"
    and set_cursor: "wf l \<Longrightarrow> fitsInt64 v \<Longrightarrow> \<exists>l'. opSetCursor ops l p v = Inr l' \<and> wf l' \<and>
        rows l' = rows l \<and> opNodeID ops l' = opNodeID ops l"
begin

definition acceptable :: "node_id \<Rightarrow> lf_record \<Rightarrow> bool" where
  "acceptable me r \<longleftrightarrow> takes r \<and> recSeq r \<noteq> 0 \<and> fitsInt64 (recSeq r) \<and> recNode r \<noteq> [] \<and> recNode r \<noteq> me \<and>
    NodeID (recClock r) = recNode r"

lemma convert_acceptable:
  "\<forall>r \<in> set rs. acceptable me r \<Longrightarrow> convertBatch me (map recordToPB rs) = Inr rs"
proof (induction rs)
  case (Cons r rs)
  have "recordFromPB (recordToPB r) = r"
    using Cons.prems by (cases r; cases "recClock r") (simp add: recordToPB_def recordFromPB_def acceptable_def)
  with Cons show ?case by (simp add: validatePeerRecord_def acceptable_def)
qed simp

lemma drain_pushed:
  assumes "wf l" "\<forall>r \<in> set (concat bs). acceptable (opNodeID ops l) r"
  shows "\<exists>l' s'. drain ops (\<lambda>_ _. DbOk) l s (map batchFrame bs @ FAck v # fr) eof = (None, l', s', fr) \<and>
    wf l' \<and> rows l' = storeRecords (rows l) (concat bs) \<and> opNodeID ops l' = opNodeID ops l"
  using assms
proof (induction bs arbitrary: l s)
  case (Cons b bs)
  have b: "\<forall>r \<in> set b. acceptable (opNodeID ops l) r" using Cons.prems(2) by simp
  then obtain m l1 s1 where one: "opMerge ops l s (\<lambda>_. DbOk) b = ((m, None), l1, s1)" "wf l1"
    "rows l1 = storeRecords (rows l) b" "opNodeID ops l1 = opNodeID ops l"
    using merge_stores [OF Cons.prems(1), of b s] by (auto simp: acceptable_def)
  with Cons.IH [OF one(2), of s1] Cons.prems(2) convert_acceptable [OF b] show ?case
    by auto
qed simp

lemma push_frames:
  assumes "stCanSend st = None" "peer = lfVersionRows other"
  obtains bs st' where "pushAndAck ops l l peer st = (Inr (opVersion ops l), st')"
    "stOut st' = stOut st @ map batchFrame bs @ [FAck (opVersion ops l)]"
    "set (concat bs) = {r \<in> set (heldRecords (rows l)). ownSeq other (recNode r) < recSeq r}"
    "stIn st' = stIn st" "stEOF st' = stEOF st" "stCloseOk st' = stCloseOk st" "stCanSend st' = None"
proof -
  let ?recs = "filter (\<lambda>r. recSeq r \<le> lfGet (opVersion ops l) (recNode r)) (opSince ops l peer)"
  obtain st1 where one: "sendBatches ?recs st = (None, st1)" "stCanSend st1 = None"
    using sendBatches_unlimited [OF assms(1)] by blast
  obtain bs where bs: "stOut st1 = stOut st @ map batchFrame bs" "concat bs = ?recs"
    "stIn st1 = stIn st" "stEOF st1 = stEOF st" "stCloseOk st1 = stCloseOk st"
    using sendBatches_frames [OF one(1)] by auto
  have "recSeq r \<le> ownSeq (rows l) (recNode r)" if "r \<in> set (heldRecords (rows l))" for r
  proof -
    have "recId r |\<in>| fmdom (rows l)" using that held_ids [of "rows l"] by auto
    from ownSeq_ge [OF this] show ?thesis by (simp add: recId_def)
  qed
  then have "set (concat bs) = {r \<in> set (heldRecords (rows l)). ownSeq other (recNode r) < recSeq r}"
    unfolding bs(2) by (auto simp: since_rows version_rows assms(2) lfVersion_get lfSinceRows_def)
  moreover have "pushAndAck ops l l peer st =
      (Inr (opVersion ops l), st1\<lparr>stOut := stOut st1 @ [FAck (opVersion ops l)]\<rparr>)"
    using one sendLf_unlimited [OF one(2)] by (simp add: pushAndAck_def Let_def versionToPB_def)
  ultimately show ?thesis
    using bs one(2) by (intro that [of "st1\<lparr>stOut := stOut st1 @ [FAck (opVersion ops l)]\<rparr>" bs]) simp_all
qed

lemma hello_sent:
  "stCanSend st = None \<Longrightarrow>
    sendHello ops l st = (None, st\<lparr>stOut := stOut st @ [FHello (opNodeID ops l) (opVersion ops l)]\<rparr>)"
  by (simp add: sendHello_def sendLf_unlimited versionToPB_def)

text \<open>The responder's run: what it sends is fixed by the hello.\<close>

lemma responder_run:
  assumes "v = lfVersionRows other"
  shows "\<exists>bs st'. lfReplicate ops dbs l s (lfEnd (FHello i v # fr) eof) =
      (case drain ops dbs l s fr eof of (err, l', s', fr') \<Rightarrow> (err, l', s', st'\<lparr>stIn := fr'\<rparr>)) \<and>
    stOut st' = FHello (opNodeID ops l) (opVersion ops l) # map batchFrame bs @ [FAck (opVersion ops l)] \<and>
    set (concat bs) = {r \<in> set (heldRecords (rows l)). ownSeq other (recNode r) < recSeq r}"
proof -
  let ?st = "(lfEnd (FHello i v # fr) eof)\<lparr>stIn := fr, stOut := [FHello (opNodeID ops l) (opVersion ops l)]\<rparr>"
  obtain bs st' where push: "pushAndAck ops l l v ?st = (Inr (opVersion ops l), st')"
    "stOut st' = stOut ?st @ map batchFrame bs @ [FAck (opVersion ops l)]"
    "set (concat bs) = {r \<in> set (heldRecords (rows l)). ownSeq other (recNode r) < recSeq r}"
    "stIn st' = stIn ?st" "stEOF st' = stEOF ?st"
    by (rule push_frames [of ?st v other l]) (simp_all add: lfEnd_def assms)
  obtain err l' s' fr' where d: "drain ops dbs l s fr eof = (err, l', s', fr')" by (rule prod_cases4)
  have "sendHello ops l ((lfEnd (FHello i v # fr) eof)\<lparr>stIn := fr\<rparr>) = (None, ?st)"
    by (simp add: hello_sent lfEnd_def)
  then have "lfReplicate ops dbs l s (lfEnd (FHello i v # fr) eof) = (err, l', s', st'\<lparr>stIn := fr'\<rparr>)"
    using push(1,4,5) d by (cases err)
      (simp_all add: lfReplicate_def lfExchange_def lfEnd_def versionFromPB_def Let_def)
  with push(2,3) d show ?thesis by (intro exI [of _ bs] exI [of _ st']) (simp add: lfEnd_def)
qed

text \<open>The initiator's run on what a responder pushed.\<close>

lemma initiator_run:
  assumes wf: "wf (cltLog c)" and v: "v = lfVersionRows other" and ops: "cltOps c = ops"
    and ok: "\<forall>r \<in> set (concat bs). acceptable (opNodeID ops (cltLog c)) r"
    and fit: "rowsFit (storeRecords (rows (cltLog c)) (concat bs))"
  shows "\<exists>l' s' bs' st'. lfSyncOnce c (\<lambda>_ _. DbOk) (Some (lfEnd (FHello i v # map batchFrame bs @ [FAck w]) True)) =
      (Inr (lfVersionRows (rows l')), c\<lparr>cltLog := l', cltProj := s'\<rparr>, Some st') \<and> wf l' \<and>
    rows l' = storeRecords (rows (cltLog c)) (concat bs) \<and> opNodeID ops l' = opNodeID ops (cltLog c) \<and>
    stOut st' = FHello (opNodeID ops (cltLog c)) (opVersion ops (cltLog c)) # map batchFrame bs' @ [FAck (lfVersionRows (rows l'))] \<and>
    set (concat bs') = {r \<in> set (heldRecords (rows l')). ownSeq other (recNode r) < recSeq r}"
proof -
  let ?l = "cltLog c" and ?s = "cltProj c"
  obtain l' s' where drained: "drain ops (\<lambda>_ _. DbOk) ?l ?s (map batchFrame bs @ [FAck w]) True = (None, l', s', [])"
    "wf l'" "rows l' = storeRecords (rows ?l) (concat bs)" "opNodeID ops l' = opNodeID ops ?l"
    using drain_pushed [OF wf ok, of ?s w "[]" True] by blast
  let ?st = "(lfEnd (FHello i v # map batchFrame bs @ [FAck w]) True)\<lparr>stIn := [],
    stOut := [FHello (opNodeID ops ?l) (opVersion ops ?l)]\<rparr>"
  obtain bs' st' where push: "pushAndAck ops l' l' v ?st = (Inr (opVersion ops l'), st')"
    "stOut st' = stOut ?st @ map batchFrame bs' @ [FAck (opVersion ops l')]"
    "set (concat bs') = {r \<in> set (heldRecords (rows l')). ownSeq other (recNode r) < recSeq r}"
    "stIn st' = stIn ?st" "stEOF st' = stEOF ?st" "stCloseOk st' = stCloseOk ?st"
    by (rule push_frames [of ?st v other l']) (simp_all add: lfEnd_def v)
  have exch: "lfExchange ops (\<lambda>_ _. DbOk) ?l ?s (lfEnd (FHello i v # map batchFrame bs @ [FAck w]) True) True =
      (Inr (Some (opVersion ops l')), l', s', st')"
    using hello_sent [of "lfEnd (FHello i v # map batchFrame bs @ [FAck w]) True" ?l] drained(1) push(1)
    by (simp add: lfExchange_def lfEnd_def versionFromPB_def Let_def)
  have "fitsInt64 (ownSeq (rows l') (opNodeID ops l'))"
    using fit by (simp add: fitsInt64_ownSeq drained(3))
  then obtain l2 where cur: "opSetCursor ops l' (cltPeer c) (ownSeq (rows l') (opNodeID ops l')) = Inr l2"
    "wf l2" "rows l2 = rows l'" "opNodeID ops l2 = opNodeID ops l'"
    using set_cursor [OF drained(2)] by blast
  have "lfSyncOnce c (\<lambda>_ _. DbOk) (Some (lfEnd (FHello i v # map batchFrame bs @ [FAck w]) True)) =
      (Inr (opVersion ops l'), c\<lparr>cltLog := l2, cltProj := s'\<rparr>, Some st')"
    using exch push(4,5,6) cur(1) ops
    by (simp add: lfSyncOnce_def lfEnd_def version_rows lfVersion_get)
  then show ?thesis
    using push(2,3) cur(2,3,4) drained(3,4)
    by (intro exI [of _ l2] exI [of _ s'] exI [of _ bs'] exI [of _ st']) (simp add: lfEnd_def version_rows)
qed

end

interpretation node_log: sync_log "storeOps (Some lfProject)" rowsOf lfStoreOk "\<lambda>r. is_Inr (recordEvent r)"
proof
  show "opSince (storeOps (Some lfProject)) l vv = lfSinceRows (rowsOf l) vv" for l vv
    by (simp add: storeOps_def lfSince_def)
  show "opVersion (storeOps (Some lfProject)) l = lfVersionRows (rowsOf l)" for l
    by (simp add: storeOps_def lfVersion_def)
  fix l :: lf_store and s rs
  assume ok: "lfStoreOk l" and rs: "\<forall>r \<in> set rs. is_Inr (recordEvent r) \<and> recSeq r \<noteq> 0 \<and> fitsInt64 (recSeq r)"
  have "is_Inr (fst (runProject (Some lfProject) s r))" if "is_Inr (recordEvent r)" for s r
    using that by (cases "recordEvent r") (simp_all add: runProject_def lfProject_def balanceApply_effect)
  with rs obtain m l' s' where m: "lfMerge (Some lfProject) (\<lambda>_. DbOk) l s rs = ((m, None), l', s')"
    using lfMerge_ok [of rs "Some lfProject" l s] by blast
  have "\<forall>r \<in> set rs. recSeq r \<noteq> 0" using rs by blast
  from ok this m obtain j where "lfStoreOk l'" "lsNode l' = lsNode l"
    "rowsOf l' = storeRecords (rowsOf l) (take j rs)" "j = length rs"
    by (rule lfMerge_rows) simp
  with m show "\<exists>m l' s'. opMerge (storeOps (Some lfProject)) l s (\<lambda>_. DbOk) rs = ((m, None), l', s') \<and> lfStoreOk l' \<and>
        rowsOf l' = storeRecords (rowsOf l) rs \<and> opNodeID (storeOps (Some lfProject)) l' = opNodeID (storeOps (Some lfProject)) l"
    by (simp add: storeOps_def)
next
  show "\<exists>l'. opSetCursor (storeOps (Some lfProject)) l p v = Inr l' \<and> lfStoreOk l' \<and> rowsOf l' = rowsOf l \<and>
      opNodeID (storeOps (Some lfProject)) l' = opNodeID (storeOps (Some lfProject)) l"
    if "lfStoreOk l" "fitsInt64 v" for l p v
    using that by (simp add: storeOps_def lfSetCursor_def lfStoreOk_iff)
qed

interpretation central_log: sync_log "pgOps None :: (pg_store, unit) log_ops" psRows "\<lambda>_. True" rowsNonNil
proof
  show "opSince (pgOps None :: (pg_store, unit) log_ops) l vv = lfSinceRows (psRows l) vv" for l vv
    by (simp add: pgOps_def pgsSince_def lfSinceRows_def)
  show "opVersion (pgOps None :: (pg_store, unit) log_ops) l = lfVersionRows (psRows l)" for l
    by (simp add: pgOps_def pgsVersion_def lfVersionRows_def)
  show "\<exists>m l' s'. opMerge (pgOps None) l s (\<lambda>_. DbOk) rs = ((m, None), l', s') \<and> True \<and>
        psRows l' = storeRecords (psRows l) rs \<and> opNodeID (pgOps None) l' = opNodeID (pgOps None) l"
    if "\<forall>r \<in> set rs. rowsNonNil r \<and> recSeq r \<noteq> 0 \<and> fitsInt64 (recSeq r)" for l rs and s :: unit
    using pgMerge_ok [of rs l] that by (cases s) (auto simp: pgOps_def)
  show "\<exists>l'. opSetCursor (pgOps None :: (pg_store, unit) log_ops) l p v = Inr l' \<and> True \<and> psRows l' = psRows l \<and>
      opNodeID (pgOps None :: (pg_store, unit) log_ops) l' = opNodeID (pgOps None :: (pg_store, unit) log_ops) l"
    if "fitsInt64 v" for l p v
    using that by (simp add: pgOps_def pgsSetCursor_def)
qed

section \<open>Two peers\<close>

text \<open>Two logs an exchange can unite: no gaps, no disagreement on a shared key, and neither peer holds
  records of the other that the other has lost.\<close>

definition canMeet :: "node_id \<Rightarrow> lf_rows \<Rightarrow> node_id \<Rightarrow> lf_rows \<Rightarrow> bool" where
  "canMeet nA A nB B \<longleftrightarrow> gapFree A \<and> gapFree B \<and> rowsFit A \<and> rowsFit B \<and> payloadsOk A \<and> payloadsOk B \<and>
     rowsAgree A B \<and> (\<forall>i. i |\<in>| fmdom A |\<union>| fmdom B \<longrightarrow> idNode i \<noteq> []) \<and>
     ownSeq B nA \<le> ownSeq A nA \<and> ownSeq A nB \<le> ownSeq B nB"

lemma held_record:
  "r \<in> set (heldRecords R) \<Longrightarrow> recId r |\<in>| fmdom R \<and> recSeq r \<le> ownSeq R (recNode r) \<and>
    NodeID (recClock r) = recNode r"
proof -
  assume r: "r \<in> set (heldRecords R)"
  then have "recId r |\<in>| fmdom R" using held_ids [of R] by auto
  moreover from ownSeq_ge [OF this] have "recSeq r \<le> ownSeq R (recNode r)" by (simp add: recId_def)
  ultimately show ?thesis using r by (auto simp: set_heldRecords lfScan_def)
qed

lemma held_above:
  assumes "r \<in> set (heldRecords (fmadd B A))" "ownSeq B (recNode r) < recSeq r"
  shows "r \<in> set (heldRecords A)"
proof -
  obtain i w where r: "r = lfScan (i, w)" "fmlookup (fmadd B A) i = Some w"
    using assms(1) by (auto simp: set_heldRecords)
  have "fmlookup A i = Some w"
  proof (cases "i |\<in>| fmdom A")
    case True
    with r show ?thesis by (simp add: fmlookup_dom_iff)
  next
    case False
    with r have "i |\<in>| fmdom B" by (auto simp: fmlookup_dom_iff)
    from ownSeq_ge [OF this] assms(2) r(1) show ?thesis by (simp add: lfScan_def)
  qed
  with r(1) show ?thesis by (auto simp: set_heldRecords)
qed

locale peers = A: sync_log opsA rowsA wfA takesA + B: sync_log opsB rowsB wfB takesB
  for opsA :: "('l, 's) log_ops" and rowsA wfA takesA and opsB :: "('m, 't) log_ops" and rowsB wfB takesB
begin

lemma exchange_unites:
  assumes c: "cltOps c = opsA" "wfA (cltLog c)" and m: "wfB m"
    and meet: "canMeet (opNodeID opsA (cltLog c)) (rowsA (cltLog c)) (opNodeID opsB m) (rowsB m)"
    and takes: "\<forall>r \<in> set (heldRecords (rowsB m)). takesA r" "\<forall>r \<in> set (heldRecords (rowsA (cltLog c))). takesB r"
  defines "uni \<equiv> fmadd (rowsB m) (rowsA (cltLog c))"
  shows "\<exists>c' m' t'. lfMemSync c (\<lambda>_ _. DbOk) opsB (\<lambda>_ _. DbOk) m t = (Inr (lfVersionRows uni), c', None, m', t') \<and>
    rowsA (cltLog c') = uni \<and> rowsB m' = uni"
proof -
  let ?A = "rowsA (cltLog c)" and ?B = "rowsB m"
  let ?nA = "opNodeID opsA (cltLog c)" and ?nB = "opNodeID opsB m"
  let ?ok = "\<lambda>_ _. DbOk"
  let ?hello = "FHello ?nA (opVersion opsA (cltLog c))"
  have M: "gapFree ?A" "gapFree ?B" "rowsFit ?A" "rowsFit ?B" "payloadsOk ?A" "payloadsOk ?B" "rowsAgree ?A ?B"
    "\<And>i. i |\<in>| fmdom ?A |\<union>| fmdom ?B \<Longrightarrow> idNode i \<noteq> []" "ownSeq ?B ?nA \<le> ownSeq ?A ?nA" "ownSeq ?A ?nB \<le> ownSeq ?B ?nB"
    using meet by (auto simp: canMeet_def)
  have fitU: "rowsFit uni" and payU: "payloadsOk uni"
    using M(3-6) by (auto simp: uni_def rowsFit_def payloadsOk_def split: if_splits)
  obtain bs rst where one: "lfReplicate opsB ?ok m t (lfEnd [?hello] False) =
      (case drain opsB ?ok m t [] False of (err, l', s', fr') \<Rightarrow> (err, l', s', rst\<lparr>stIn := fr'\<rparr>))"
    "stOut rst = FHello ?nB (opVersion opsB m) # map batchFrame bs @ [FAck (opVersion opsB m)]"
    "set (concat bs) = {r \<in> set (heldRecords ?B). ownSeq ?A (recNode r) < recSeq r}"
    using B.responder_run [OF A.version_rows, of ?ok m t ?nA "cltLog c" "[]" False] by blast
  have SB: "storeRecords ?A (concat bs) = uni"
    unfolding uni_def using one(3) by (intro storeRecords_union M)
  have okA: "\<forall>r \<in> set (concat bs). A.acceptable ?nA r"
    unfolding one(3) A.acceptable_def using takes(1) M(4,8,9) held_record [of _ ?B]
    by (fastforce simp: recId_def rowsFit_def)
  obtain l' s' bs' ist where two: "lfSyncOnce c ?ok (Some (lfEnd (stOut rst) True)) =
      (Inr (lfVersionRows (rowsA l')), c\<lparr>cltLog := l', cltProj := s'\<rparr>, Some ist)" "rowsA l' = uni"
    "stOut ist = ?hello # map batchFrame bs' @ [FAck (lfVersionRows (rowsA l'))]"
    "set (concat bs') = {r \<in> set (heldRecords uni). ownSeq ?B (recNode r) < recSeq r}"
    using A.initiator_run [where i = ?nB and w = "opVersion opsB m" and v = "opVersion opsB m" and other = ?B,
        OF c(2) B.version_rows c(1) okA] fitU
    unfolding SB one(2) by blast
  have SA: "storeRecords ?B (concat bs') = uni"
    using storeRecords_union [OF M(2) fitU payU two(4)] fmadd_agree [OF M(7)] by (simp add: uni_def)
  have okB: "\<forall>r \<in> set (concat bs'). B.acceptable ?nB r"
  proof
    fix r assume "r \<in> set (concat bs')"
    then have r: "r \<in> set (heldRecords ?A)" "ownSeq ?B (recNode r) < recSeq r"
      unfolding two(4) using held_above [of r ?B ?A] by (auto simp: uni_def)
    from held_record [OF r(1)] r M(3,8,10) takes(2) show "B.acceptable ?nB r"
      unfolding B.acceptable_def by (force simp: recId_def rowsFit_def)
  qed
  obtain m' t' where three: "drain opsB ?ok m t (map batchFrame bs' @ [FAck (lfVersionRows (rowsA l'))]) True =
      (None, m', t', [])" "rowsB m' = uni"
    using B.drain_pushed [OF m okB, of t "lfVersionRows (rowsA l')" "[]" True] unfolding SA by blast
  have four: "\<exists>st. lfReplicate opsB ?ok m t (lfEnd (stOut ist) True) = (None, m', t', st)"
    using B.responder_run [OF A.version_rows, of ?ok m t ?nA "cltLog c"
        "map batchFrame bs' @ [FAck (lfVersionRows (rowsA l'))]" True] three(1)
    unfolding two(3) by auto
  then obtain st where "lfReplicate opsB ?ok m t (lfEnd (stOut ist) True) = (None, m', t', st)" by blast
  then have "lfMemSync c ?ok opsB ?ok m t = (Inr (lfVersionRows uni), c\<lparr>cltLog := l', cltProj := s'\<rparr>, None, m', t')"
    using one(1) two(1,2) c(1) by (simp add: lfMemSync_def Let_def case_prod_beta versionToPB_def)
  then show ?thesis using two(2) three(2) by auto
qed

end

interpretation node_central: peers "storeOps (Some lfProject)" rowsOf lfStoreOk "\<lambda>r. is_Inr (recordEvent r)"
  "pgOps None :: (pg_store, unit) log_ops" psRows "\<lambda>_. True" rowsNonNil
  by unfold_locales

interpretation node_node: peers "storeOps (Some lfProject)" rowsOf lfStoreOk "\<lambda>r. is_Inr (recordEvent r)"
  "storeOps (Some lfProject)" rowsOf lfStoreOk "\<lambda>r. is_Inr (recordEvent r)"
  by unfold_locales

section \<open>Convergence\<close>


definition demoCentral0 :: pg_store where
  "demoCentral0 = fst (snd (pgMerge None (\<lambda>_. DbOk) (pgOpen lfSchema ''C'') () [demoPeer]))"


end
