(* ===== verification/LfSyncRuns.thy ===== *)
theory LfSyncRuns
  imports LfSyncProps
begin

text \<open>
  Replication in the middle of a \<open>localfirst-go\<close> node's life: whatever frames arrive and whatever the
  database does, an exchange only takes steps of a run and loses no row; the retry delays are
  bounded; and the interruption of a push whose order is not the author's order loses a record.
\<close>

section \<open>An exchange is part of a run\<close>

lemma convertBatch_peers: "convertBatch me pbs = Inr rs \<Longrightarrow> \<forall>r \<in> set rs. peerRecord me r"
  by (induction pbs arbitrary: rs)
    (auto simp: validatePeerRecord_def peerRecord_def split: option.splits sum.splits if_splits)

lemma lfMerge_keeps_rows:
  assumes "lfMerge p fs st s rs = (res, st', s')" "fmlookup (rowsOf st) i = Some w"
  shows "fmlookup (rowsOf st') i = Some w"
  using assms(2,1)
proof (rule lfMerge_invariant [where P = "\<lambda>st s. fmlookup (rowsOf st) i = Some w"])
  show "fmlookup (rowsOf st') i = Some w"
    if "fmlookup (rowsOf st) i = Some w" "lfMergeStep p f st s r = (res, st', s')" for f st s r res st' s'
    using that(2,1) by (cases rule: lfMergeStep_cases) auto
qed

abbreviation nodeOf :: "lf_store \<Rightarrow> lf_inventory \<Rightarrow> lf_node" where
  "nodeOf st iv \<equiv> \<lparr>lnStore = st, lnInv = iv\<rparr>"

lemma drain_run:
  assumes "lf_run (\<lambda>_. True) name owned (nodeOf l s)"
    and "drain (storeOps (Some lfProject)) fs l s fr eof = (err, l', s', fr')"
  shows "lf_run (\<lambda>_. True) name owned (nodeOf l' s') \<and>
    (\<forall>i w. fmlookup (rowsOf l) i = Some w \<longrightarrow> fmlookup (rowsOf l') i = Some w)"
  using assms
proof (induction "storeOps (Some lfProject)" fs l s fr eof rule: drain.induct)
  case (2 fs l s pbs fr eof)
  have name: "lsNode l = name" using lf_run_liveOk [OF "2.prems"(1)] by (simp add: liveOk_def)
  show ?case
  proof (cases "convertBatch name pbs")
    case (Inl e)
    with "2.prems" name show ?thesis by (simp add: storeOps_def)
  next
    case (Inr rs)
    obtain k e l1 s1 where m: "lfMerge (Some lfProject) (fs 0) l s rs = ((k, e), l1, s1)" by (metis prod.exhaust)
    have "\<forall>r \<in> set rs. peerRecord name r \<and> True" using convertBatch_peers [OF Inr] by simp
    moreover have "lfNodeMerge (nodeOf l s) (fs 0) rs = ((k, e), nodeOf l1 s1)"
      using m by (simp add: lfNodeMerge_def)
    ultimately have run1: "lf_run (\<lambda>_. True) name owned (nodeOf l1 s1)"
      using "2.prems"(1) lf_run.merge by metis
    have kept: "\<forall>i w. fmlookup (rowsOf l) i = Some w \<longrightarrow> fmlookup (rowsOf l1) i = Some w"
      using lfMerge_keeps_rows [OF m] by blast
    show ?thesis
    proof (cases e)
      case None
      then have rest: "drain (storeOps (Some lfProject)) (\<lambda>b. fs (Suc b)) l1 s1 fr eof = (err, l', s', fr')"
        using "2.prems"(2) Inr m name by (simp add: storeOps_def)
      have "opMerge (storeOps (Some lfProject)) l s (fs 0) rs = ((k, None), l1, s1)"
        using m None by (simp add: storeOps_def)
      moreover have "convertBatch (opNodeID (storeOps (Some lfProject)) l) pbs = Inr rs"
        using Inr name by (simp add: storeOps_def)
      ultimately show ?thesis
        using "2.hyps" [of rs "(k, None)" "(l1, s1)" k None l1 s1] run1 rest kept by auto
    next
      case (Some x)
      then show ?thesis using "2.prems"(2) Inr m name run1 kept by (simp add: storeOps_def)
    qed
  qed
qed simp_all

text \<open>
  C36. Replication cannot harm a node: whatever frames a peer sends in whatever order, in either role,
  with the stream and the database failing anywhere, an exchange leaves the node in a state one of
  its runs reaches, so that its balances are still the replay of its log, and every row it held
  it still holds unchanged.
\<close>

theorem lf_exchange_takes_steps:
  assumes "lf_run (\<lambda>_. True) name owned n"
    and "lfExchange (storeOps (Some lfProject)) fs (lnStore n) (lnInv n) st initiator = (res, l, s, st')"
  shows "lf_run (\<lambda>_. True) name owned \<lparr>lnStore = l, lnInv = s\<rparr> \<and>
    (\<forall>i w. fmlookup (rowsOf (lnStore n)) i = Some w \<longrightarrow> fmlookup (rowsOf l) i = Some w)"
proof -
  have run: "lf_run (\<lambda>_. True) name owned (nodeOf (lnStore n) (lnInv n))" using assms(1) by (cases n) simp
  consider "l = lnStore n \<and> s = lnInv n"
    | err fr eof fr' where "drain (storeOps (Some lfProject)) fs (lnStore n) (lnInv n) fr eof = (err, l, s, fr')"
    using assms(2) unfolding lfExchange_def
    by (auto simp: Let_def split: if_splits prod.splits option.splits sum.splits lf_frame.splits)
  then show ?thesis
  proof cases
    case 1
    with run show ?thesis by simp
  next
    case 2
    from drain_run [OF run this] show ?thesis .
  qed
qed

definition demoFrames :: "lf_frame list" where
  "demoFrames = [FHello ''B'' fmempty, FBatch [recordToPB demoPeer, recordToPB demoPeer], FBatch [recordToPB (demoRec ''A'' 7)]]"

theorem lf_exchange_takes_steps_demo:
  "let (res, l, s, st) = lfExchange (storeOps (Some lfProject)) (\<lambda>_ _. DbOk) (lnStore demoNode1) (lnInv demoNode1)
         (lfEnd demoFrames True) True
   in res = Inl (LfInvalid (SelfAuthored ''A'')) \<and> lf_run (\<lambda>_. True) ''A'' [''x''] \<lparr>lnStore = l, lnInv = s\<rparr> \<and>
      lfBalance \<lparr>lnStore = l, lnInv = s\<rparr> ''s'' ''x'' = 15"
proof -
  obtain res l s st where x: "lfExchange (storeOps (Some lfProject)) (\<lambda>_ _. DbOk) (lnStore demoNode1) (lnInv demoNode1)
         (lfEnd demoFrames True) True = (res, l, s, st)"
    by (rule prod_cases4)
  have "lf_run (\<lambda>_. True) ''A'' [''x''] demoNode1"
    unfolding demoNode1_def by (rule lf_run.command [OF demoNode0_run surjective_pairing])
  from lf_exchange_takes_steps [OF this x] have run: "lf_run (\<lambda>_. True) ''A'' [''x''] \<lparr>lnStore = l, lnInv = s\<rparr>" by blast
  have "let (res, l, s, st) = lfExchange (storeOps (Some lfProject)) (\<lambda>_ _. DbOk) (lnStore demoNode1) (lnInv demoNode1)
         (lfEnd demoFrames True) True
     in res = Inl (LfInvalid (SelfAuthored ''A'')) \<and> lfBalance \<lparr>lnStore = l, lnInv = s\<rparr> ''s'' ''x'' = 15"
    by code_simp
  with run show ?thesis unfolding x by simp
qed

section \<open>The acknowledgement of a push\<close>

theorem lf_push_acks_only_what_was_sent_demo:
  "\<exists>bs. stOut (snd (pushAndAck (storeOps (Some lfProject)) (lnStore demoNode1) (lnStore demoNode2) fmempty (lfEnd [] True))) =
      map batchFrame bs @ [FAck (fmupd ''A'' 1 fmempty)] \<and> length (concat bs) = 1"
proof -
  let ?push = "pushAndAck (storeOps (Some lfProject)) (lnStore demoNode1) (lnStore demoNode2) fmempty (lfEnd [] True)"
  have ok: "is_Inr (fst ?push)" by code_simp
  then obtain vv st' where push: "?push = (Inr vv, st')"
    by (cases ?push) (auto simp: is_Inr_iff)
  have "\<forall>r \<in> set (heldRecords (rowsOf (lnStore demoNode1))). r \<in> set (heldRecords (rowsOf (lnStore demoNode2)))"
    by code_simp
  from lf_push_acks_only_what_was_sent [OF push this] obtain bs where bs: "vv = lfVersion (lnStore demoNode1)"
    "stOut st' = stOut (lfEnd [] True) @ map batchFrame bs @ [FAck vv]" by blast
  have "lfVersion (lnStore demoNode1) = fmupd ''A'' 1 fmempty"
    "map (\<lambda>f. case f of FBatch b \<Rightarrow> length b | _ \<Rightarrow> 0) (stOut (snd ?push)) = [1, 0]"
    by code_simp+
  with push bs have out: "stOut (snd ?push) = map batchFrame bs @ [FAck (fmupd ''A'' 1 fmempty)]"
    "map length bs = [1]"
    by (simp_all add: lfEnd_def comp_def)
  then have "length (concat bs) = 1" by (simp add: length_concat)
  with out show ?thesis by blast
qed

section \<open>The retry delays\<close>

lemma jitter_bounds:
  assumes "0 < sint d" "\<And>n. 0 < sint n \<Longrightarrow> 0 \<le> sint (rnd n) \<and> sint (rnd n) < sint n"
  shows "0 \<le> sint (jitter rnd d) \<and> sint (jitter rnd d) \<le> sint d div 4"
proof -
  let ?q = "word_of_int (sint d div 4) :: int64"
  have q: "sint ?q = sint d div 4"
    using assms(1) sint64_bounds(2) [of d] by (intro sint64_of_int) auto
  then have "sint ?q < maxInt64" using assms(1) sint64_bounds(2) [of d] by simp
  from sint64_add_one [OF this] q assms show ?thesis
    using assms(2) [of "?q + 1"] by (auto simp: jitter_def)
qed

lemma run_delay:
  assumes b: "sint lfMinInterval \<le> sint b" "sint b \<le> sint lfMaxBackoff"
    and rnd: "\<And>n. 0 < sint n \<Longrightarrow> 0 \<le> sint (rnd n) \<and> sint (rnd n) < sint n"
  shows "sint b \<le> sint (b + jitter rnd b) \<and> sint (b + jitter rnd b) \<le> sint b + sint b div 4"
proof -
  have j: "0 \<le> sint (jitter rnd b) \<and> sint (jitter rnd b) \<le> sint b div 4"
    using b rnd by (intro jitter_bounds) auto
  then have "sint (b + jitter rnd b) = sint b + sint (jitter rnd b)"
    using b by (intro sint_add_fits) auto
  with j show ?thesis by simp
qed

text \<open>
  The retry loop neither spins nor stalls: with an interval of at most thirty seconds, each delay
  lies between the interval (a tenth of a second at least) and thirty-seven and a half seconds,
  whatever the outcomes of the rounds and the draws of the jitter.
\<close>

lemma lf_retry_delays_bounded:
  assumes "sint every \<le> 30000000000"
    and "\<forall>(ok, rnd) \<in> set rounds. \<forall>n. 0 < sint n \<longrightarrow> 0 \<le> sint (rnd n) \<and> sint (rnd n) < sint n"
    and "d \<in> set (runLoop every rounds)"
  shows "max 100000000 (sint every) \<le> sint d \<and> sint d \<le> 37500000000"
proof -
  define ev where "ev = (if sint every < sint lfMinInterval then lfMinInterval else every)"
  have ev: "sint lfMinInterval \<le> sint ev" "sint ev \<le> sint lfMaxBackoff" "sint ev = max 100000000 (sint every)"
    using assms(1) by (auto simp: ev_def)
  have "sint ev \<le> sint d \<and> sint d \<le> 37500000000"
    if "d \<in> set (runDelays ev b rs)" "sint ev \<le> sint b" "sint b \<le> sint lfMaxBackoff" "set rs \<subseteq> set rounds" for b rs
    using that
  proof (induction rs arbitrary: b)
    case (Cons r rs)
    obtain ok rnd where r: "r = (ok, rnd)" by (cases r)
    define b' where "b' = (if ok then ev else if sint (b * 2) < sint lfMaxBackoff then b * 2 else lfMaxBackoff)"
    have "b * 2 = word_of_int (sint b * 2)" by simp
    also have "sint \<dots> = sint b * 2"
      using Cons.prems(2,3) ev(1) by (intro sint64_of_int) auto
    finally have dbl: "sint (b * 2) = sint b * 2" .
    have b': "sint ev \<le> sint b'" "sint b' \<le> sint lfMaxBackoff"
      using Cons.prems(2,3) ev dbl by (auto simp: b'_def)
    have rnd: "\<And>n. 0 < sint n \<Longrightarrow> 0 \<le> sint (rnd n) \<and> sint (rnd n) < sint n"
      using assms(2) Cons.prems(4) r by auto
    have "sint b' \<le> sint (b' + jitter rnd b') \<and> sint (b' + jitter rnd b') \<le> sint b' + sint b' div 4"
      using run_delay [OF _ b'(2) rnd] ev(1) b'(1) by auto
    moreover have "d = b' + jitter rnd b' \<or> d \<in> set (runDelays ev b' rs)"
      using Cons.prems(1) r by (auto simp: b'_def Let_def)
    ultimately show ?case
      using Cons.IH [of b'] Cons.prems(4) b' by auto
  qed simp
  moreover have "runLoop every rounds = runDelays ev ev rounds" by (simp add: runLoop_def ev_def Let_def)
  ultimately show ?thesis using assms(3) ev by simp
qed

section \<open>A record lost\<close>

text \<open>A node that records a receipt, restarts after its wall clock was set back, and records another.\<close>

definition restartedAt :: "lf_node \<Rightarrow> int64 \<Rightarrow> lf_node" where
  "restartedAt n wall = projr (lfNewInventory (lfOpen (lsDb (lnStore n)) ''A'') (lfNewClock ''A'' (\<lambda>_. wall)) [''x''])"

definition demoRegressed :: lf_node where
  "demoRegressed = snd (lfCommand (restartedAt demoNode1 1600000000000) DbOk (ReceiveCmd ''s'' ''x'' 5))"

lemma restartedAt_run:
  assumes "lf_run allowed ''A'' [''x''] n"
  shows "lf_run allowed ''A'' [''x''] (restartedAt n wall)"
proof -
  have "lf_inv.in_step (lnStore n) (lnInv n)"
    using lf_run_liveOk [OF assms] by (simp add: liveOk_def)
  then have "lfNewInventory (lfOpen (lsDb (lnStore n)) ''A'') (lfNewClock ''A'' (\<lambda>_. wall)) [''x''] = Inr (restartedAt n wall)"
    by (simp add: restartedAt_def lfNewInventory_def lf_inv.in_step_def)
  with assms show ?thesis by (rule lf_run.restart)
qed

lemma demoRegressed_run: "lf_run (\<lambda>_. True) ''A'' [''x''] demoRegressed"
proof -
  have "lf_run (\<lambda>_. True) ''A'' [''x''] demoNode1"
    unfolding demoNode1_def by (rule lf_run.command [OF demoNode0_run surjective_pairing])
  then show ?thesis
    unfolding demoRegressed_def by (intro lf_run.command [OF restartedAt_run surjective_pairing])
qed

text \<open>One sync with a healthy node database: whether it succeeded, the node's cursor, and central.\<close>

definition afterSync :: "lf_node \<Rightarrow> pg_store \<Rightarrow> (nat \<Rightarrow> nat \<Rightarrow> db_fault) \<Rightarrow> bool \<times> uint64 \<times> pg_store" where
  "afterSync n ps dbB = (case lfMemSync (lfNewClient (storeOps (Some lfProject)) (lnStore n) (lnInv n) ''central'')
      (\<lambda>_ _. DbOk) (pgOps None) dbB ps () of
     (r, c, _, ps', _) \<Rightarrow> (is_Inr r, lfCursor (cltLog c) ''central'', ps'))"

text \<open>
  A version vector of greatest sequence numbers cannot see a gap, and a push is in clock order. A
  node whose wall clock went back over a restart pushes its second record before its first; when
  central's database fails after the one, the next sync succeeds with the cursor at two, although
  central never gets the first record.
\<close>

lemma lf_interrupted_push_loses_record:
  "lf_run (\<lambda>_. True) ''A'' [''x''] demoRegressed \<and>
   map recId (heldRecords (rowsOf (lnStore demoRegressed))) = [EventID ''A'' 1, EventID ''A'' 2] \<and>
   (let (ok1, cur1, ps1) = afterSync demoRegressed (pgOpen lfSchema ''C'') (\<lambda>_ i. if i = 1 then FailCommit else DbOk);
        (ok2, cur2, ps2) = afterSync demoRegressed ps1 (\<lambda>_ _. DbOk)
    in \<not> ok1 \<and> cur1 = 0 \<and> ok2 \<and> cur2 = 2 \<and> map recId (heldRecords (psRows ps2)) = [EventID ''A'' 2] \<and>
       lfGet (pgsVersion ps2) ''A'' = 2)"
proof (intro conjI)
  show "lf_run (\<lambda>_. True) ''A'' [''x''] demoRegressed" by (rule demoRegressed_run)
  show "map recId (heldRecords (rowsOf (lnStore demoRegressed))) = [EventID ''A'' 1, EventID ''A'' 2]" by code_simp
  show "let (ok1, cur1, ps1) = afterSync demoRegressed (pgOpen lfSchema ''C'') (\<lambda>_ i. if i = 1 then FailCommit else DbOk);
        (ok2, cur2, ps2) = afterSync demoRegressed ps1 (\<lambda>_ _. DbOk)
    in \<not> ok1 \<and> cur1 = 0 \<and> ok2 \<and> cur2 = 2 \<and> map recId (heldRecords (psRows ps2)) = [EventID ''A'' 2] \<and>
       lfGet (pgsVersion ps2) ''A'' = 2"
    by code_simp
qed

end
