(* ===== verification/WhClock.thy ===== *)
theory WhClock
  imports LabClock
begin

text \<open>
  Hybrid logical clocks of the third program (\<open>warehouse-node/internal/domain/hlc.go\<close>). A reading
  is the triple of the other programs with \<open>Logical\<close> called \<open>Counter\<close>; there is no clock object, the
  callers keep the last reading and pass it to \<open>Tick\<close> and \<open>Merge\<close>. Comparison is relational and a
  saturated counter carries, so one fact about readings suffices for both: a reading that is not
  the very last of the \<open>int64\<close> range is \<open>bumpable\<close>.
\<close>

type_synonym wh_hlc = hlc

definition whLess :: "bool \<Rightarrow> int" where
  "whLess isLess = (if isLess then - 1 else 1)"

definition whCompare :: "wh_hlc \<Rightarrow> wh_hlc \<Rightarrow> int" where
  "whCompare h other =
    (if Wall h \<noteq> Wall other then whLess (sint (Wall h) < sint (Wall other))
     else if Logical h \<noteq> Logical other then whLess (Logical h < Logical other)
     else if NodeID h \<noteq> NodeID other then whLess (NodeID h < NodeID other)
     else 0)"

definition whBump :: "int64 \<Rightarrow> uint32 \<Rightarrow> node_id \<Rightarrow> wh_hlc" where
  "whBump wall counter nd =
    (if counter = maxUint32 then HLC (wall + 1) 0 nd else HLC wall (counter + 1) nd)"

definition whTick :: "wh_hlc \<Rightarrow> int64 \<Rightarrow> node_id \<Rightarrow> wh_hlc" where
  "whTick prev nowMillis nd =
    (if sint (Wall prev) < sint nowMillis then HLC nowMillis 0 nd
     else whBump (Wall prev) (Logical prev) nd)"

definition max64 :: "int64 \<Rightarrow> int64 \<Rightarrow> int64" where
  "max64 a b = (if sint b < sint a then a else b)"

definition maxU32 :: "uint32 \<Rightarrow> uint32 \<Rightarrow> uint32" where
  "maxU32 a b = (if b < a then a else b)"

definition whMerge :: "wh_hlc \<Rightarrow> wh_hlc \<Rightarrow> int64 \<Rightarrow> node_id \<Rightarrow> wh_hlc" where
  "whMerge lcl remote nowMillis nd =
    (let maxWall = max64 (max64 (Wall lcl) (Wall remote)) nowMillis in
     if maxWall = nowMillis \<and> sint (Wall lcl) < sint nowMillis \<and> sint (Wall remote) < sint nowMillis
     then HLC nowMillis 0 nd
     else if maxWall = Wall lcl \<and> maxWall = Wall remote
     then whBump maxWall (maxU32 (Logical lcl) (Logical remote)) nd
     else if Wall lcl = maxWall then whBump maxWall (Logical lcl) nd
     else whBump maxWall (Logical remote) nd)"

section \<open>Order\<close>

text \<open>\<open>Compare\<close> is the comparison of the order of readings, whatever a peer sends.\<close>

lemma whCompare_iff: "whCompare a b = cmpCompare a b"
proof (cases "Wall a = Wall b")
  case True
  then show ?thesis
    by (cases a; cases b) (auto simp: whCompare_def whLess_def cmpCompare_def less_hlc_def)
next
  case False
  then show ?thesis
    using sint64_total [of "Wall a" "Wall b"]
    by (cases a; cases b) (auto simp: whCompare_def whLess_def cmpCompare_def less_hlc_def)
qed

section \<open>Readings increase\<close>

definition bumpable :: "wh_hlc \<Rightarrow> bool" where
  "bumpable h \<longleftrightarrow> sint (Wall h) < maxInt64 \<or> Logical h \<noteq> maxUint32"

lemma whBump_above:
  assumes "bumpable (HLC w c n)" "h \<le> HLC w c m"
  shows "(h :: hlc) < whBump w c nd"
proof -
  have "HLC w c m < whBump w c nd"
    using assms(1) by (auto simp: bumpable_def whBump_def less_hlc_def word_read)
  with assms(2) show ?thesis by (rule le_less_trans)
qed

lemma whTick_above: "bumpable h \<Longrightarrow> h < whTick h now nd"
  using whBump_above [of "Wall h" "Logical h" "NodeID h" h "NodeID h" nd]
  by (auto simp: whTick_def less_hlc_def)

lemma bumpable_iff: "bumpable h \<longleftrightarrow> bumpable (HLC (Wall h) (Logical h) n)"
  by (simp add: bumpable_def)

lemma whBump_above_wall:
  "sint a < sint w \<Longrightarrow> bumpable (HLC w c m) \<Longrightarrow> HLC a b n < whBump w c nd"
  by (rule whBump_above [of w c m _ m]) (simp_all add: less_hlc_def less_eq_hlc_def)

lemma whBump_above_counter: "b \<le> c \<Longrightarrow> bumpable (HLC w c m) \<Longrightarrow> HLC w b n < whBump w c nd"
  by (rule whBump_above [of w c m _ n]) (auto simp: less_hlc_def less_eq_hlc_def)

text \<open>The four ways a merge turns out.\<close>

lemma whMerge_cases:
  obtains (fresh) "sint (Wall l) < sint now" "sint (Wall r) < sint now" "whMerge l r now nd = HLC now 0 nd"
  | (both) "Wall l = Wall r" "whMerge l r now nd = whBump (Wall l) (maxU32 (Logical l) (Logical r)) nd"
  | (local) "sint (Wall r) < sint (Wall l)" "whMerge l r now nd = whBump (Wall l) (Logical l) nd"
  | (remote) "sint (Wall l) < sint (Wall r)" "whMerge l r now nd = whBump (Wall r) (Logical r) nd"
proof (cases "sint (Wall l) < sint now \<and> sint (Wall r) < sint now")
  case True
  then have "whMerge l r now nd = HLC now 0 nd"
    by (auto simp: whMerge_def Let_def max64_def)
  with True fresh show thesis by blast
next
  case False
  have wl: "Wall l = Wall r \<Longrightarrow> max64 (max64 (Wall l) (Wall r)) now = Wall l"
    and ll: "sint (Wall r) < sint (Wall l) \<Longrightarrow> max64 (max64 (Wall l) (Wall r)) now = Wall l"
    and rr: "sint (Wall l) < sint (Wall r) \<Longrightarrow> max64 (max64 (Wall l) (Wall r)) now = Wall r"
    using False sint64_total [of "Wall l" now] sint64_total [of "Wall r" now]
    by (auto simp: max64_def sint64_eq_iff)
  consider "Wall l = Wall r" | "sint (Wall r) < sint (Wall l)" | "sint (Wall l) < sint (Wall r)"
    using sint64_total by blast
  then show thesis
  proof cases
    case 1
    with False have "whMerge l r now nd = whBump (Wall l) (maxU32 (Logical l) (Logical r)) nd"
      unfolding whMerge_def Let_def wl [OF 1] by simp
    with 1 both show thesis by blast
  next
    case 2
    then have "Wall l \<noteq> Wall r" by auto
    with 2 False have "whMerge l r now nd = whBump (Wall l) (Logical l) nd"
      unfolding whMerge_def Let_def ll [OF 2] by simp
    with 2 local show thesis by blast
  next
    case 3
    then have "Wall l \<noteq> Wall r" by auto
    with 3 False have "whMerge l r now nd = whBump (Wall r) (Logical r) nd"
      unfolding whMerge_def Let_def rr [OF 3] by auto
    with 3 remote show thesis by blast
  qed
qed

lemma whMerge_above:
  assumes "bumpable l" "bumpable r"
  shows "l < whMerge l r now nd" "r < whMerge l r now nd"
proof -
  obtain lw lc ln rw rc rn where l: "l = HLC lw lc ln" and r: "r = HLC rw rc rn"
    by (cases l, cases r)
  have b: "bumpable (HLC lw lc ln)" "bumpable (HLC rw rc rn)" using assms by (simp_all add: l r)
  then have m: "lw = rw \<Longrightarrow> bumpable (HLC lw (maxU32 lc rc) ln)"
    by (auto simp: maxU32_def bumpable_def)
  show "l < whMerge l r now nd" "r < whMerge l r now nd"
    using b m whBump_above_wall [of _ _ _ ln] whBump_above_wall [of _ _ _ rn]
      whBump_above_counter [of _ _ _ ln] whBump_above_counter [of _ _ _ rn]
    by (cases rule: whMerge_cases [of l now r nd]; force simp: l r less_hlc_def maxU32_def)+
qed

text \<open>The clock operations a log performs on its last reading.\<close>

datatype wh_clock_op = WhTick int64 | WhMerge wh_hlc int64

fun whClockStep :: "node_id \<Rightarrow> wh_hlc \<Rightarrow> wh_clock_op \<Rightarrow> wh_hlc \<times> wh_hlc" where
  "whClockStep nd h (WhTick now) = (whTick h now nd, whTick h now nd)"
| "whClockStep nd h (WhMerge r now) = (whMerge h r now nd, whMerge h r now nd)"

fun whObserved :: "wh_clock_op \<Rightarrow> wh_hlc option" where
  "whObserved (WhTick _) = None"
| "whObserved (WhMerge r _) = Some r"

interpretation wh_clock: hybrid_clock "whClockStep nd" id whObserved bumpable for nd
proof
  show "id (snd (whClockStep nd s p)) = fst (whClockStep nd s p)" for s p
    by (cases p) simp_all
  show "id s < fst (whClockStep nd s p)"
    if "bumpable (id s)" "\<And>r. whObserved p = Some r \<Longrightarrow> bumpable r" for s p
    using that by (cases p) (simp_all add: whTick_above whMerge_above)
  show "r < fst (whClockStep nd s p)"
    if "bumpable (id s)" "whObserved p = Some r" "bumpable r" for s p r
    using that by (cases p) (auto simp: whMerge_above)
qed

end
