(* ===== verification/WhFloat.thy ===== *)
theory WhFloat
  imports Prelude Complex_Main "HOL-Library.Log_Nat"
begin

text \<open>
  Go's \<open>float64\<close>, in which the warehouse keeps its quantities: IEEE 754 binary64 as values. A
  finite float is the rational it denotes, an operation computes exactly and rounds to nearest,
  ties to even, with gradual underflow and with overflow to an infinity. The two zeros are one
  value: they compare equal, and no operation the warehouse uses (addition, subtraction,
  multiplication, comparison) tells them apart in a result that is compared. Comparisons with a NaN
  are false, so \<open>==\<close> is not the equality of the logic.

  Floats are what makes claims about balances delicate: addition is not associative, so the order
  of a sum matters. The lemmas keep to what does hold: rounding keeps signs, is exact on whole
  numbers below two to the 53rd, and does not cross a float.
\<close>

section \<open>Rounding\<close>

definition roundEven :: "rat \<Rightarrow> int" where
  "roundEven x = (let n = \<lfloor>x\<rfloor>; d = x - of_int n in
     if d < 1 / 2 then n else if d > 1 / 2 then n + 1 else if even n then n else n + 1)"

definition floorLog2 :: "rat \<Rightarrow> int" where
  "floorLog2 x = (let (a, b) = quotient_of x; k = bitlen a - bitlen b in if x < 2 powi k then k - 1 else k)"

text \<open>The exponent of the last place of the binade of \<open>x\<close>.\<close>

definition ulpExp :: "rat \<Rightarrow> int" where
  "ulpExp x = (if x = 0 then - 1074 else max (- 1074) (floorLog2 \<bar>x\<bar> - 52))"

datatype float64 = NaN | Inf (infPos: bool) | Fin rat

text \<open>A magnitude that rounds to two to the 1024th overflows.\<close>

definition inRange :: "rat \<Rightarrow> bool" where
  "inRange y \<longleftrightarrow> bitlen \<lfloor>\<bar>y\<bar>\<rfloor> \<le> 1024"

definition frnd :: "rat \<Rightarrow> float64" where
  "frnd x = (let u = 2 powi ulpExp x; y = of_int (roundEven (x / u)) * u in
     if inRange y then Fin y else Inf (0 < x))"

section \<open>Operations\<close>

instantiation float64 :: "{zero, plus, uminus, minus, times, ord}"
begin

definition zero_float64 :: float64 where
  "zero_float64 = Fin 0"

fun plus_float64 :: "float64 \<Rightarrow> float64 \<Rightarrow> float64" where
  "plus_float64 (Fin x) (Fin y) = frnd (x + y)"
| "plus_float64 (Inf a) (Inf b) = (if a = b then Inf a else NaN)"
| "plus_float64 (Inf a) (Fin _) = Inf a"
| "plus_float64 (Fin _) (Inf b) = Inf b"
| "plus_float64 NaN _ = NaN"
| "plus_float64 _ NaN = NaN"

fun uminus_float64 :: "float64 \<Rightarrow> float64" where
  "uminus_float64 (Fin x) = Fin (- x)"
| "uminus_float64 (Inf a) = Inf (\<not> a)"
| "uminus_float64 NaN = NaN"

definition minus_float64 :: "float64 \<Rightarrow> float64 \<Rightarrow> float64" where
  "minus_float64 x y = x + (- y)"

fun times_float64 :: "float64 \<Rightarrow> float64 \<Rightarrow> float64" where
  "times_float64 (Fin x) (Fin y) = frnd (x * y)"
| "times_float64 (Inf a) (Inf b) = Inf (a = b)"
| "times_float64 (Inf a) (Fin y) = (if y = 0 then NaN else Inf (a = (0 < y)))"
| "times_float64 (Fin x) (Inf b) = (if x = 0 then NaN else Inf (b = (0 < x)))"
| "times_float64 NaN _ = NaN"
| "times_float64 _ NaN = NaN"

fun less_float64 :: "float64 \<Rightarrow> float64 \<Rightarrow> bool" where
  "less_float64 (Fin x) (Fin y) \<longleftrightarrow> x < y"
| "less_float64 (Inf a) (Inf b) \<longleftrightarrow> \<not> a \<and> b"
| "less_float64 (Inf a) (Fin _) \<longleftrightarrow> \<not> a"
| "less_float64 (Fin _) (Inf b) \<longleftrightarrow> b"
| "less_float64 NaN _ \<longleftrightarrow> False"
| "less_float64 _ NaN \<longleftrightarrow> False"

definition less_eq_float64 :: "float64 \<Rightarrow> float64 \<Rightarrow> bool" where
  "less_eq_float64 x y \<longleftrightarrow> x < y \<or> x = y \<and> x \<noteq> NaN"

instance ..

end

text \<open>Go's \<open>==\<close>, \<open>math.IsNaN\<close> and \<open>math.IsInf(x, 0)\<close>.\<close>

definition feq :: "float64 \<Rightarrow> float64 \<Rightarrow> bool" where
  "feq x y \<longleftrightarrow> x = y \<and> x \<noteq> NaN"

fun isNaN :: "float64 \<Rightarrow> bool" where
  "isNaN NaN = True"
| "isNaN _ = False"

fun isInf :: "float64 \<Rightarrow> bool" where
  "isInf (Inf _) = True"
| "isInf _ = False"

fun isFin :: "float64 \<Rightarrow> bool" where
  "isFin (Fin _) = True"
| "isFin _ = False"

text \<open>The values of the datatype that are floats: every finite one is its own rounding.\<close>

fun isF64 :: "float64 \<Rightarrow> bool" where
  "isF64 (Fin x) = (frnd x = Fin x)"
| "isF64 _ = True"

definition fint :: "int \<Rightarrow> float64" where
  "fint n = Fin (of_int n)"

section \<open>Lemmas on rounding\<close>

lemma roundEven_int [simp]: "roundEven (of_int n) = n"
  by (simp add: roundEven_def)

lemma roundEven_le: "x \<le> of_int n \<Longrightarrow> roundEven x \<le> n"
proof -
  assume le: "x \<le> of_int n"
  then have "\<lfloor>x\<rfloor> \<le> n" by (metis floor_mono floor_of_int)
  moreover have "x = of_int \<lfloor>x\<rfloor>" if "\<lfloor>x\<rfloor> = n"
    using that le of_int_floor_le [of x] by (metis order_antisym)
  ultimately show ?thesis
    unfolding roundEven_def Let_def by (cases "\<lfloor>x\<rfloor> = n") auto
qed

lemma roundEven_ge: "of_int n \<le> x \<Longrightarrow> n \<le> roundEven x"
proof -
  assume "of_int n \<le> x"
  then have "n \<le> \<lfloor>x\<rfloor>" by (simp add: le_floor_iff)
  then show ?thesis unfolding roundEven_def Let_def by auto
qed

lemma roundEven_uminus: "roundEven (- x) = - roundEven x"
proof (cases "x = of_int \<lfloor>x\<rfloor>")
  case True
  then have "- x = of_int (- \<lfloor>x\<rfloor>)" by simp
  then have "roundEven (- x) = - \<lfloor>x\<rfloor>" by (metis roundEven_int)
  also have "\<lfloor>x\<rfloor> = roundEven x" using True by (metis roundEven_int)
  finally show ?thesis .
next
  case False
  let ?n = "\<lfloor>x\<rfloor>"
  have lt: "of_int ?n < x" "x < of_int ?n + 1"
    using False of_int_floor_le [of x] floor_correct [of x] by (auto simp: less_le)
  then have fl: "\<lfloor>- x\<rfloor> = - ?n - 1"
    by (intro floor_unique) simp_all
  show ?thesis
    unfolding roundEven_def Let_def fl using lt by (auto simp: field_simps)
qed

lemma floorLog2_bounds:
  assumes "0 < x"
  shows "2 powi floorLog2 x \<le> x" "x < 2 powi (floorLog2 x + 1)"
proof -
  obtain a b where q: "quotient_of x = (a, b)" by (cases "quotient_of x")
  have b: "0 < b" and x: "x = of_int a / of_int b"
    using q quotient_of_denom_pos quotient_of_div by auto
  have a: "0 < a" using assms x b by (simp add: zero_less_divide_iff)
  define la lb where "la = bitlen a" and "lb = bitlen b"
  have pos: "0 < la" "0 < lb"
    using a b by (simp_all add: la_def lb_def bitlen_alt_def)
  have ab: "2 ^ nat (la - 1) \<le> a" "a < 2 ^ nat la" "2 ^ nat (lb - 1) \<le> b" "b < 2 ^ nat lb"
    using bitlen_bounds [OF a] bitlen_bounds [OF b] by (simp_all add: la_def lb_def)
  have conv: "(of_int (2 ^ nat i) :: rat) = 2 powi i" if "0 \<le> i" for i
    using that by (simp add: power_int_def)
  have A: "2 powi (la - 1) \<le> (of_int a :: rat)" "(of_int a :: rat) < 2 powi la"
    using ab(1,2) pos conv [of "la - 1"] conv [of la] by (metis of_int_le_iff of_int_less_iff less_imp_le zle_diff1_eq diff_ge_0_iff_ge int_one_le_iff_zero_less)+
  have B: "2 powi (lb - 1) \<le> (of_int b :: rat)" "(of_int b :: rat) < 2 powi lb"
    using ab(3,4) pos conv [of "lb - 1"] conv [of lb] by (metis of_int_le_iff of_int_less_iff less_imp_le zle_diff1_eq diff_ge_0_iff_ge int_one_le_iff_zero_less)+
  have lo: "2 powi (la - lb - 1) < x"
  proof -
    have "2 powi (la - lb - 1) * of_int b < (2 powi (la - lb - 1) * 2 powi lb :: rat)"
      using B(2) by simp
    also have "\<dots> = (2 powi (la - 1) :: rat)" by (simp add: power_int_add [symmetric])
    also have "\<dots> \<le> of_int a" by (rule A)
    finally show ?thesis using b by (simp add: x pos_less_divide_eq)
  qed
  have hi: "x < 2 powi (la - lb + 1)"
  proof -
    have "of_int a < (2 powi la :: rat)" by (rule A)
    also have "\<dots> = (2 powi (la - lb + 1) * 2 powi (lb - 1) :: rat)" by (simp add: power_int_add [symmetric])
    also have "\<dots> \<le> 2 powi (la - lb + 1) * of_int b" using B(1) by simp
    finally show ?thesis using b by (simp add: x pos_divide_less_eq)
  qed
  have fl: "floorLog2 x = (if x < 2 powi (la - lb) then la - lb - 1 else la - lb)"
    by (simp add: floorLog2_def q la_def lb_def Let_def)
  show "2 powi floorLog2 x \<le> x" "x < 2 powi (floorLog2 x + 1)"
    using lo hi by (auto simp: fl)
qed

lemma powi_le_iff: "(2 :: rat) powi i \<le> 2 powi j \<longleftrightarrow> i \<le> j"
  using power_int_strict_increasing [of i j "2 :: rat"] power_int_strict_increasing [of j i "2 :: rat"]
  by (cases i j rule: linorder_cases) auto

lemma floorLog2_less: "0 < x \<Longrightarrow> x < 2 powi k \<Longrightarrow> floorLog2 x < k"
  using floorLog2_bounds(1) [of x] by (metis le_less_trans linorder_not_le powi_le_iff)

lemma floorLog2_ge: "2 powi k \<le> x \<Longrightarrow> k \<le> floorLog2 x"
proof -
  assume le: "2 powi k \<le> x"
  have "(0 :: rat) < 2 powi k" by simp
  then have "0 < x" using le by linarith
  then have "2 powi k < (2 powi (floorLog2 x + 1) :: rat)"
    using floorLog2_bounds(2) [of x] le by linarith
  then have "\<not> floorLog2 x + 1 \<le> k" by (metis linorder_not_le powi_le_iff)
  then show ?thesis by simp
qed

lemma floorLog2_mono: "0 < x \<Longrightarrow> x \<le> y \<Longrightarrow> floorLog2 x \<le> floorLog2 y"
  using floorLog2_bounds(1) [of x] by (intro floorLog2_ge) simp


lemma ulpExp_ge: "- 1074 \<le> ulpExp x"
  by (simp add: ulpExp_def)

lemma ulpExp_uminus [simp]: "ulpExp (- x) = ulpExp x"
  by (simp add: ulpExp_def)

lemma ulpExp_mono: "0 < x \<Longrightarrow> x \<le> y \<Longrightarrow> ulpExp x \<le> ulpExp y"
  using floorLog2_mono [of x y] by (simp add: ulpExp_def max_def)

lemma inRange_mono: "\<bar>x\<bar> \<le> \<bar>y\<bar> \<Longrightarrow> inRange y \<Longrightarrow> inRange x"
proof -
  assume le: "\<bar>x\<bar> \<le> \<bar>y\<bar>" and r: "inRange y"
  have "\<lfloor>\<bar>x\<bar>\<rfloor> \<le> \<lfloor>\<bar>y\<bar>\<rfloor>" using le by (rule floor_mono)
  moreover have "0 \<le> \<lfloor>\<bar>x\<bar>\<rfloor>" by simp
  ultimately have "bitlen \<lfloor>\<bar>x\<bar>\<rfloor> \<le> bitlen \<lfloor>\<bar>y\<bar>\<rfloor>"
    by (simp add: bitlen_def floorlog_mono nat_mono)
  with r show ?thesis by (simp add: inRange_def)
qed

text \<open>A whole multiple of a power of two at or above its last place is a float.\<close>

lemma frnd_multiple:
  assumes "x = of_int n * 2 powi e" "ulpExp x \<le> e" "inRange x"
  shows "frnd x = Fin x"
proof -
  have "x / 2 powi ulpExp x = of_int n * 2 powi (e - ulpExp x)"
    by (subst assms(1)) (simp add: power_int_diff)
  also have "\<dots> = of_int (n * 2 ^ nat (e - ulpExp x))"
    using assms(2) by (simp add: power_int_def)
  finally have "roundEven (x / 2 powi ulpExp x) = n * 2 ^ nat (e - ulpExp x)"
    and q: "x / 2 powi ulpExp x = of_int (n * 2 ^ nat (e - ulpExp x))"
    by (metis roundEven_int, assumption)
  moreover have "of_int (n * 2 ^ nat (e - ulpExp x)) * 2 powi ulpExp x = x"
    by (subst q [symmetric]) simp
  ultimately show ?thesis
    using assms(3) by (simp add: frnd_def Let_def)
qed

lemma frnd_0 [simp]: "frnd 0 = Fin 0"
  by (rule frnd_multiple [of _ 0 0]) (simp_all add: ulpExp_def inRange_def)

lemma frnd_uminus: "frnd (- x) = - frnd x"
proof (cases "x = 0")
  case False
  then show ?thesis by (auto simp: frnd_def Let_def roundEven_uminus inRange_def)
qed simp

lemma isF64_uminus: "isF64 x \<Longrightarrow> isF64 (- x)"
  by (cases x) (simp_all add: frnd_uminus)

lemma frnd_ge_0: "0 \<le> x \<Longrightarrow> frnd x = Fin y \<Longrightarrow> 0 \<le> y"
  using roundEven_ge [of 0 "x / 2 powi ulpExp x"] by (auto simp: frnd_def Let_def split: if_splits)

lemma frnd_Inf: "frnd x = Inf b \<Longrightarrow> b = (0 < x)"
  by (auto simp: frnd_def Let_def split: if_splits)

lemma frnd_not_NaN [simp]: "frnd x \<noteq> NaN"
  by (simp add: frnd_def Let_def)

text \<open>Rounding does not cross a float.\<close>

lemma frnd_le_float:
  assumes "0 \<le> x" "x \<le> r" "frnd r = Fin r"
  shows "\<exists>y. frnd x = Fin y \<and> 0 \<le> y \<and> y \<le> r"
proof (cases "x = 0")
  case True
  with assms show ?thesis by simp
next
  case False
  then have x: "0 < x" using assms(1) by simp
  let ?u = "2 powi ulpExp x :: rat" and ?v = "2 powi ulpExp r :: rat"
  let ?y = "of_int (roundEven (x / ?u)) * ?u"
  have le: "ulpExp x \<le> ulpExp r" using x assms(2) by (rule ulpExp_mono)
  have fr: "r = of_int (roundEven (r / ?v)) * ?v" and rng: "inRange r"
    using assms(3) by (auto simp: frnd_def Let_def split: if_splits)
  have "r / ?u = of_int (roundEven (r / ?v)) * 2 powi (ulpExp r - ulpExp x)"
    by (subst fr) (simp add: power_int_diff)
  also have "\<dots> = of_int (roundEven (r / ?v) * 2 ^ nat (ulpExp r - ulpExp x))"
    using le by (simp add: power_int_def)
  finally obtain m where m: "r / ?u = of_int m" by blast
  have "x / ?u \<le> of_int m"
    using assms(2) m by (metis divide_right_mono zero_le_numeral zero_le_power_int)
  then have "of_int (roundEven (x / ?u)) \<le> (of_int m :: rat)"
    by (simp add: roundEven_le)
  then have "?y \<le> of_int m * ?u" by (intro mult_right_mono) simp_all
  also have "of_int m * ?u = r" by (subst m [symmetric]) simp
  finally have y: "?y \<le> r" .
  have y0: "0 \<le> ?y" using x roundEven_ge [of 0 "x / ?u"] by simp
  have "\<bar>?y\<bar> \<le> \<bar>r\<bar>" using y y0 by (metis abs_of_nonneg order_trans)
  then have "inRange ?y" using rng by (rule inRange_mono)
  then show ?thesis using y y0 by (simp add: frnd_def Let_def)
qed

text \<open>A significand of 53 bits fits, and what rounding returns is a float.\<close>

lemma ulpExp_less:
  assumes "\<bar>x\<bar> < 2 powi (e + 53)" "- 1074 \<le> e"
  shows "ulpExp x \<le> e"
proof (cases "x = 0")
  case False
  then have "floorLog2 \<bar>x\<bar> < e + 53" using assms(1) by (intro floorLog2_less) simp_all
  then show ?thesis using assms(2) by (simp add: ulpExp_def)
qed (use assms in \<open>simp add: ulpExp_def\<close>)

lemma frnd_scaled_less:
  assumes n: "\<bar>n\<bar> < 2 ^ 53" and e: "- 1074 \<le> e" and rng: "inRange (of_int n * 2 powi e)"
  shows "frnd (of_int n * 2 powi e) = Fin (of_int n * 2 powi e)"
proof (rule frnd_multiple [OF refl _ rng])
  have "(of_int \<bar>n\<bar> :: rat) < of_int (2 ^ 53)" using n by (rule of_int_less_iff [THEN iffD2])
  then have "\<bar>of_int n * 2 powi e\<bar> < (of_int (2 ^ 53) * 2 powi e :: rat)" by (simp add: abs_mult)
  also have "\<dots> = 2 powi (e + 53)" by (simp add: power_int_add)
  finally show "ulpExp (of_int n * 2 powi e) \<le> e" using e by (rule ulpExp_less)
qed

lemma frnd_scaled:
  assumes n: "\<bar>n\<bar> \<le> 2 ^ 53" and e: "- 1074 \<le> e" and rng: "inRange (of_int n * 2 powi e)"
  shows "frnd (of_int n * 2 powi e) = Fin (of_int n * 2 powi e)"
proof (cases "\<bar>n\<bar> = 2 ^ 53")
  case True
  then obtain s where "n = s * 2 ^ 53" "\<bar>s\<bar> = 1"
    by (cases "0 \<le> n") (auto intro: that [of 1] that [of "- 1"])
  then have eq: "of_int n * 2 powi e = (of_int (s * 2 ^ 52) * 2 powi (e + 1) :: rat)"
    and "\<bar>s * 2 ^ 52\<bar> < 2 ^ 53"
    by (simp_all add: power_int_add abs_mult)
  then show ?thesis
    using frnd_scaled_less [of "s * 2 ^ 52" "e + 1"] e rng by simp
qed (use assms in \<open>intro frnd_scaled_less; simp\<close>)

lemma roundEven_bound: "\<bar>roundEven (x / 2 powi ulpExp x)\<bar> \<le> 2 ^ 53"
proof (cases "x = 0")
  case False
  let ?e = "ulpExp x"
  have "\<bar>x\<bar> < 2 powi (floorLog2 \<bar>x\<bar> + 1)" using False by (intro floorLog2_bounds) simp
  also have "\<dots> \<le> (2 powi (?e + 53) :: rat)" using False by (simp add: powi_le_iff ulpExp_def)
  also have "\<dots> = 2 powi ?e * of_int (2 ^ 53)" by (simp add: power_int_add)
  finally have "\<bar>x / 2 powi ?e\<bar> \<le> of_int (2 ^ 53)" by (simp add: divide_le_eq mult.commute)
  then have "x / 2 powi ?e \<le> of_int (2 ^ 53)" "of_int (- (2 ^ 53)) \<le> x / 2 powi ?e"
    unfolding of_int_minus by linarith+
  then have "roundEven (x / 2 powi ?e) \<le> 2 ^ 53" "- (2 ^ 53) \<le> roundEven (x / 2 powi ?e)"
    using roundEven_le roundEven_ge by blast+
  then show ?thesis by (simp add: abs_le_iff)
next
  case True
  have "roundEven 0 = 0" using roundEven_int [of 0] by simp
  with True show ?thesis by simp
qed

lemma isF64_frnd [simp]: "isF64 (frnd x)"
  using frnd_scaled [OF roundEven_bound ulpExp_ge, of x]
  by (simp add: frnd_def [of x] Let_def)

text \<open>Whole numbers below two to the 53rd are exact.\<close>

lemma bitlen_53: "bitlen (2 ^ 53 :: int) \<le> 1024"
  by code_simp

lemma frnd_of_int: "\<bar>n\<bar> < 2 ^ 53 \<Longrightarrow> frnd (of_int n) = fint n"
proof -
  assume n: "\<bar>n\<bar> < 2 ^ 53"
  have "bitlen \<bar>n\<bar> \<le> bitlen (2 ^ 53 :: int)"
    using n by (simp add: bitlen_def floorlog_mono nat_mono)
  also have "\<dots> \<le> 1024" by (rule bitlen_53)
  finally have rng: "inRange (of_int n)" by (simp add: inRange_def flip: of_int_abs)
  then show ?thesis
    using frnd_scaled_less [of n 0] n by (simp add: fint_def)
qed


section \<open>Lemmas on the operations\<close>

lemma isF64_0 [simp]: "isF64 0"
  by (simp add: zero_float64_def)

lemma isF64_plus [simp]: "isF64 (x + y)"
  by (cases "(x, y)" rule: plus_float64.cases) simp_all

lemma isF64_minus [simp]: "isF64 (x - y)"
  by (simp add: minus_float64_def)

lemma isF64_times [simp]: "isF64 (x * y)"
  by (cases "(x, y)" rule: times_float64.cases) simp_all

lemma isF64_fint: "\<bar>n\<bar> < 2 ^ 53 \<Longrightarrow> isF64 (fint n)"
  using frnd_of_int [of n] by (simp add: fint_def)

named_theorems fint_simps \<comment> \<open>arithmetic of whole numbers\<close>

lemma fint_0: "fint 0 = 0"
  by (simp add: fint_def zero_float64_def)

lemma fint_plus [fint_simps]: "\<bar>a + b\<bar> < 2 ^ 53 \<Longrightarrow> fint a + fint b = fint (a + b)"
  using frnd_of_int [of "a + b"] by (simp add: fint_def)

lemma fint_uminus [fint_simps]: "- fint a = fint (- a)"
  by (simp add: fint_def)

lemma fint_minus [fint_simps]: "\<bar>a - b\<bar> < 2 ^ 53 \<Longrightarrow> fint a - fint b = fint (a - b)"
  using fint_plus [of a "- b"] by (simp add: minus_float64_def fint_uminus)

lemma fint_less [fint_simps]: "fint a < fint b \<longleftrightarrow> a < b"
  by (simp add: fint_def)

lemma fint_eq [fint_simps]: "fint a = fint b \<longleftrightarrow> a = b"
  by (simp add: fint_def)

lemma fint_le [fint_simps]: "fint a \<le> fint b \<longleftrightarrow> a \<le> b"
  by (auto simp: less_eq_float64_def fint_less fint_eq fint_def)

lemma feq_fint [fint_simps]: "feq (fint a) (fint b) \<longleftrightarrow> a = b"
  by (auto simp: feq_def fint_def)

lemma le_0_iff: "0 \<le> (x :: float64) \<longleftrightarrow> (case x of NaN \<Rightarrow> False | Inf b \<Rightarrow> b | Fin r \<Rightarrow> 0 \<le> r)"
  by (auto simp: less_eq_float64_def zero_float64_def split: float64.split)

text \<open>Rounding keeps signs.\<close>

lemma frnd_nonneg: "0 \<le> x \<Longrightarrow> (0 :: float64) \<le> frnd x"
proof -
  assume x: "0 \<le> x"
  show ?thesis
  proof (cases "frnd x")
    case (Inf b)
    then have "x \<noteq> 0" by auto
    with x Inf frnd_Inf [OF Inf] show ?thesis by (simp add: le_0_iff)
  next
    case (Fin y)
    with x show ?thesis by (simp add: le_0_iff frnd_ge_0)
  qed simp
qed

lemma plus_nonneg: "(0 :: float64) \<le> x \<Longrightarrow> 0 \<le> y \<Longrightarrow> 0 \<le> x + y"
  by (cases "(x, y)" rule: plus_float64.cases) (auto simp: le_0_iff [of x] le_0_iff [of y] intro: frnd_nonneg
      simp: le_0_iff [of "Inf _"])

text \<open>Taking no more than there is does not go below zero.\<close>

lemma minus_nonneg:
  fixes h q :: float64
  assumes "0 \<le> h" "\<not> h < q" "isFin q"
  shows "0 \<le> h - q"
proof (cases q)
  case q: (Fin x)
  show ?thesis
  proof (cases h)
    case (Fin y)
    with assms q show ?thesis by (simp add: minus_float64_def) (simp add: frnd_nonneg)
  qed (use assms q in \<open>simp_all add: minus_float64_def le_0_iff\<close>)
qed (use assms in simp_all)

text \<open>The shortfall against a counted amount is no more than there is.\<close>

lemma shortfall_le:
  fixes h c :: float64
  assumes h: "0 \<le> h" "isF64 h" and c: "0 \<le> c" and fin: "isFin (c - h)" and neg: "c - h < 0"
  shows "0 \<le> - (c - h)" "\<not> h < - (c - h)" "isFin (- (c - h))"
proof -
  have "\<exists>y. h = Fin y" using h fin c by (cases h; cases c) (auto simp: minus_float64_def le_0_iff split: if_splits)
  then obtain y where y: "h = Fin y" ..
  have "\<exists>z. c = Fin z" using y fin c by (cases c) (auto simp: minus_float64_def)
  then obtain z where z: "c = Fin z" ..
  obtain v where v: "c - h = Fin v" using fin by (cases "c - h") auto
  have rv: "frnd (z - y) = Fin v" using v y z by (simp add: minus_float64_def)
  have v0: "v < 0" using neg v by (simp add: zero_float64_def)
  have "frnd (y - z) = Fin (- v)" using rv frnd_uminus [of "z - y"] by simp
  moreover have "0 \<le> y - z" using v0 rv frnd_ge_0 [of "z - y" v] by linarith
  moreover have "y - z \<le> y" using c z by (simp add: le_0_iff)
  ultimately have "- v \<le> y" using frnd_le_float [of "y - z" y] h y by auto
  with v0 show "0 \<le> - (c - h)" "\<not> h < - (c - h)" "isFin (- (c - h))"
    unfolding v by (simp_all add: y le_0_iff)
qed

lemma uminus_uminus_float64 [simp]: "- (- (x :: float64)) = x"
  by (cases x) simp_all

text \<open>From below, rounding does not cross a float either.\<close>

lemma frnd_ge_float:
  assumes "0 \<le> r" "r \<le> x" "frnd r = Fin r" "frnd x = Fin y"
  shows "r \<le> y"
proof (cases "r = 0")
  case True
  then show ?thesis using assms frnd_ge_0 [of x y] by simp
next
  case False
  then have r: "0 < r" "0 < x" using assms(1,2) by simp_all
  let ?u = "2 powi ulpExp x :: rat" and ?v = "2 powi ulpExp r :: rat"
  have y: "y = of_int (roundEven (x / ?u)) * ?u"
    using assms(4) by (simp add: frnd_def Let_def split: if_splits)
  have *: "of_int m * ?u \<le> y" if "of_int m * ?u \<le> x" for m
  proof -
    have "of_int m \<le> x / ?u" using that by (simp add: pos_le_divide_eq)
    then have "m \<le> roundEven (x / ?u)" by (rule roundEven_ge)
    then show ?thesis unfolding y by (intro mult_right_mono) simp_all
  qed
  have le: "ulpExp r \<le> ulpExp x" using r(1) assms(2) by (rule ulpExp_mono)
  show ?thesis
  proof (cases "ulpExp r = ulpExp x")
    case True
    have "r = of_int (roundEven (r / ?v)) * ?v"
      using assms(3) by (simp add: frnd_def Let_def split: if_splits)
    with * [of "roundEven (r / ?v)"] assms(2) True show ?thesis by simp
  next
    case False
    let ?e = "floorLog2 x"
    have e: "ulpExp x = ?e - 52" "floorLog2 r < ?e"
      using False le r by (auto simp: ulpExp_def max_def split: if_splits)
    have "r < 2 powi (floorLog2 r + 1)" using floorLog2_bounds [of r] r by simp
    also have "\<dots> \<le> 2 powi ?e" using e(2) by (subst powi_le_iff) simp
    also have "2 powi ?e = of_int (2 ^ 52) * ?u" by (simp add: e(1) power_int_diff)
    finally have "r < of_int (2 ^ 52) * ?u" .
    moreover have "of_int (2 ^ 52) * ?u \<le> x"
      using floorLog2_bounds [of x] r by (simp add: e(1) power_int_diff)
    ultimately show ?thesis using * [of "2 ^ 52"] by linarith
  qed
qed

text \<open>Adding to a quantity never takes it below a bound again.\<close>

lemma plus_stays:
  assumes "isF64 r" "0 \<le> r" "0 \<le> q" "\<not> r < d"
  shows "\<not> r + q < (d :: float64)"
proof (cases r)
  case (Fin a)
  show ?thesis
  proof (cases q)
    case (Fin b)
    have "a \<le> c" if "frnd (a + b) = Fin c" for c
      using frnd_ge_float [of a "a + b" c] that assms \<open>r = Fin a\<close> Fin by (simp add: le_0_iff)
    moreover have "\<not> frnd (a + b) = Inf False"
      using frnd_Inf [of "a + b" False] assms \<open>r = Fin a\<close> Fin by (cases "a + b = 0") (auto simp: le_0_iff)
    ultimately show ?thesis using assms(4) \<open>r = Fin a\<close> Fin
      by (cases d; cases "frnd (a + b)") (force simp: le_0_iff)+
  qed (use assms Fin in \<open>cases d; simp add: le_0_iff\<close>)+
next
  case (Inf b)
  then show ?thesis using assms by (cases q; cases d) (auto simp: le_0_iff)
qed (use assms in \<open>simp add: le_0_iff\<close>)

section \<open>Evaluation\<close>

text \<open>Rounding without intermediate fractions, as the evaluation of concrete inputs uses it.\<close>

definition pickEven :: "int \<Rightarrow> int \<Rightarrow> int \<Rightarrow> int" where
  "pickEven n r b = (if r < b then n else if r > b then n + 1 else if even n then n else n + 1)"

definition divEven :: "int \<Rightarrow> int \<Rightarrow> int" where
  "divEven a b = pickEven (a div b) (2 * (a mod b)) b"

lemma roundEven_div: "0 < b \<Longrightarrow> roundEven (of_int a / of_int b) = divEven a b"
proof -
  assume b: "0 < b"
  have f: "\<lfloor>of_int a / of_int b :: rat\<rfloor> = a div b" by (rule floor_divide_of_int_eq)
  have "(of_int a / of_int b :: rat) = of_int (a div b) + of_int (a mod b) / of_int b"
    using b by (metis add_divide_distrib nonzero_mult_div_cancel_left of_int_add of_int_mult mult_div_mod_eq of_int_0_less_iff less_irrefl)
  then have d: "(of_int a / of_int b :: rat) - of_int (a div b) = of_int (a mod b) / of_int b" by simp
  have half: "(of_int r / of_int b < (1 / 2 :: rat)) = (2 * r < b)" "((1 / 2 :: rat) < of_int r / of_int b) = (b < 2 * r)" for r
  proof -
    have "(of_int r / of_int b < (1 / 2 :: rat)) = (of_int (2 * r) < (of_int b :: rat))" using b by (simp add: pos_divide_less_eq mult.commute)
    then show "(of_int r / of_int b < (1 / 2 :: rat)) = (2 * r < b)" by (simp only: of_int_less_iff)
    have "((1 / 2 :: rat) < of_int r / of_int b) = ((of_int b :: rat) < of_int (2 * r))" using b by (simp add: pos_less_divide_eq mult.commute)
    then show "((1 / 2 :: rat) < of_int r / of_int b) = (b < 2 * r)" by (simp only: of_int_less_iff)
  qed
  show ?thesis unfolding roundEven_def divEven_def pickEven_def f d Let_def half ..
qed

definition fracDown :: "int \<Rightarrow> int \<Rightarrow> rat" where
  "fracDown n d = of_int n / of_int d"

definition toUlp :: "int \<Rightarrow> int \<times> int \<Rightarrow> rat" where
  "toUlp k q = (if k < 0 then fracDown (divEven (fst q * 2 ^ nat (- k)) (snd q)) (2 ^ nat (- k))
     else of_int (divEven (fst q) (snd q * 2 ^ nat k) * 2 ^ nat k))"

definition inRangeOr :: "rat \<Rightarrow> rat \<Rightarrow> float64" where
  "inRangeOr x y = (if inRange y then Fin y else Inf (0 < x))"

lemma frnd_code [code]: "frnd x = inRangeOr x (toUlp (ulpExp x) (quotient_of x))"
proof -
  obtain a b where q: "quotient_of x = (a, b)" by (cases "quotient_of x")
  then have b: "0 < b" and x: "x = of_int a / of_int b" by (auto dest: quotient_of_denom_pos quotient_of_div)
  show ?thesis
  proof (cases "ulpExp x < 0")
    case True
    then have u: "(2 :: rat) powi ulpExp x = 1 / of_int (2 ^ nat (- ulpExp x))"
      by (simp add: power_int_def field_simps)
    have "x / 2 powi ulpExp x = of_int (a * 2 ^ nat (- ulpExp x)) / of_int b" unfolding u by (simp add: x)
    then have "roundEven (x / 2 powi ulpExp x) = divEven (a * 2 ^ nat (- ulpExp x)) b" by (simp only: roundEven_div [OF b])
    then show ?thesis using True by (simp add: frnd_def q Let_def u inRangeOr_def toUlp_def fracDown_def)
  next
    case False
    then have u: "(2 :: rat) powi ulpExp x = of_int (2 ^ nat (ulpExp x))" by (simp add: power_int_def)
    have "x / 2 powi ulpExp x = of_int a / of_int (b * 2 ^ nat (ulpExp x))" unfolding u by (simp add: x)
    then have "roundEven (x / 2 powi ulpExp x) = divEven a (b * 2 ^ nat (ulpExp x))" using roundEven_div [of "b * 2 ^ nat (ulpExp x)" a] b by (simp only:) simp
    then show ?thesis using False by (simp add: frnd_def q Let_def u inRangeOr_def toUlp_def fracDown_def)
  qed
qed

end
