(* ===== verification/WhEvent.thy ===== *)
theory WhEvent
  imports WhClock WhFloat GoJson LfLog "HOL-Library.Monad_Syntax"
begin

text \<open>
  Identities, payloads and envelopes of the warehouse (\<open>warehouse-node/internal/domain/ids.go\<close>,
  \<open>event.go\<close>, \<open>item.go\<close>, \<open>errors.go\<close>). The event identity is that of the other programs. A payload struct
  is a constructor of \<open>wh_payload\<close>, an envelope carries its JSON bytes, and the JSON form of every
  struct is written out with the tags of the source. Two simplifications of \<open>encoding/json\<close> are
  kept from \<open>GoJson\<close>: member names match exactly, and a struct-valued member that occurs twice is
  decoded from its last occurrence alone.
\<close>

section \<open>Identities and keys\<close>

fun decDigits :: "nat \<Rightarrow> string" where
  "decDigits n = (if n < 10 then [char_of (48 + n)] else decDigits (n div 10) @ [char_of (48 + n mod 10)])"

declare decDigits.simps [simp del]

text \<open>\<open>strconv.FormatUint(w, 10)\<close>\<close>

definition formatUint :: "uint64 \<Rightarrow> string" where
  "formatUint w = decDigits (unat w)"

definition eventIDString :: "event_id \<Rightarrow> string" where
  "eventIDString e = idNode e @ ''/'' @ formatUint (idSeq e)"

abbreviation External :: string where "External \<equiv> ''external''"

abbreviation LocReceiving :: string where "LocReceiving \<equiv> ''receiving''"
abbreviation LocBulk :: string where "LocBulk \<equiv> ''bulk''"
abbreviation LocPick :: string where "LocPick \<equiv> ''pick''"
abbreviation LocStaging :: string where "LocStaging \<equiv> ''staging''"
abbreviation LocQuarantine :: string where "LocQuarantine \<equiv> ''quarantine''"

definition locValid :: "string \<Rightarrow> bool" where
  "locValid t \<longleftrightarrow> t = LocReceiving \<or> t = LocBulk \<or> t = LocPick \<or> t = LocStaging \<or> t = LocQuarantine"

datatype wh_key = WhKey (wkSKU: string) (wkLocation: string) (wkLotID: string)

text \<open>The order a closed count sorts its keys in; every other use of the order only needs one.\<close>

instantiation wh_key :: linorder
begin

definition less_wh_key :: "wh_key \<Rightarrow> wh_key \<Rightarrow> bool" where
  "less_wh_key a b \<longleftrightarrow> (wkSKU a, wkLotID a, wkLocation a) < (wkSKU b, wkLotID b, wkLocation b)"

definition less_eq_wh_key :: "wh_key \<Rightarrow> wh_key \<Rightarrow> bool" where
  "less_eq_wh_key a b \<longleftrightarrow> (wkSKU a, wkLotID a, wkLocation a) \<le> (wkSKU b, wkLotID b, wkLocation b)"

instance
  by standard (auto simp: less_wh_key_def less_eq_wh_key_def less_le_not_le
      simp del: less_prod_simp less_eq_prod_simp intro: wh_key.expand)

end

text \<open>A key without a location, as transfers and in-transit balances use it.\<close>

abbreviation bareKey :: "string \<Rightarrow> string \<Rightarrow> wh_key" where
  "bareKey sku lot \<equiv> WhKey sku [] lot"

section \<open>Items and payloads\<close>

record item =
  itSKU :: string
  itDescription :: string
  itBaseUoM :: string
  itAltUoM :: "(string, float64) fmap"
  itLotTracked :: bool
  itShelfLifeDays :: int64
  itDeleted :: bool

record movement =
  mSKU :: string
  mLotID :: string
  mFrom :: string
  mTo :: string
  mQty :: float64

definition fromKey :: "movement \<Rightarrow> wh_key" where
  "fromKey m = WhKey (mSKU m) (mFrom m) (mLotID m)"

definition toKey :: "movement \<Rightarrow> wh_key" where
  "toKey m = WhKey (mSKU m) (mTo m) (mLotID m)"

datatype wh_payload =
    GoodsReceived (grReceiptID: string) (grDeliveryNote: string) (grPORef: string) (grMove: movement)
  | PutAway movement
  | Picked movement string
  | StockAdjusted (saMove: movement) (saReason: string)
  | StockReserved string wh_key float64
  | ReservationReleased string
  | ReservationConsumed string
  | TransferDispatched (tdTransferID: string) (tdFromNode: node_id) (tdToNode: node_id) (tdLines: "movement list")
  | TransferReceived (trTransferID: string) (trLines: "movement list")
  | ReceiptOpened string string string
  | ReceiptLineRecorded (rlReceiptID: string) (rlLineNo: int64) (rlSKU: string) (rlLotID: string) (rlQtyBase: float64)
  | ReceiptClosed string
  | CountStarted string string
  | CountLineCounted string wh_key float64
  | CountClosed string
  | ItemUpserted item
  | LocationRegistered string string

text \<open>The registered event types, and the one whose factory makes a given payload struct.\<close>

definition payloadTypes :: "string list" where
  "payloadTypes = [''GoodsReceived'', ''PutAway'', ''Picked'', ''StockAdjusted'', ''StockReserved'',
     ''ReservationReleased'', ''ReservationConsumed'', ''TransferDispatched'', ''TransferReceived'',
     ''ReceiptOpened'', ''ReceiptLineRecorded'', ''ReceiptClosed'', ''CountStarted'',
     ''CountLineCounted'', ''CountClosed'', ''ItemUpserted'', ''LocationRegistered'']"

fun payloadType :: "wh_payload \<Rightarrow> string" where
  "payloadType (GoodsReceived _ _ _ _) = ''GoodsReceived''"
| "payloadType (PutAway _) = ''PutAway''"
| "payloadType (Picked _ _) = ''Picked''"
| "payloadType (StockAdjusted _ _) = ''StockAdjusted''"
| "payloadType (StockReserved _ _ _) = ''StockReserved''"
| "payloadType (ReservationReleased _) = ''ReservationReleased''"
| "payloadType (ReservationConsumed _) = ''ReservationConsumed''"
| "payloadType (TransferDispatched _ _ _ _) = ''TransferDispatched''"
| "payloadType (TransferReceived _ _) = ''TransferReceived''"
| "payloadType (ReceiptOpened _ _ _) = ''ReceiptOpened''"
| "payloadType (ReceiptLineRecorded _ _ _ _ _) = ''ReceiptLineRecorded''"
| "payloadType (ReceiptClosed _) = ''ReceiptClosed''"
| "payloadType (CountStarted _ _) = ''CountStarted''"
| "payloadType (CountLineCounted _ _ _) = ''CountLineCounted''"
| "payloadType (CountClosed _) = ''CountClosed''"
| "payloadType (ItemUpserted _) = ''ItemUpserted''"
| "payloadType (LocationRegistered _ _) = ''LocationRegistered''"

text \<open>An instant is the number of nanoseconds since the Unix epoch; the zero \<open>time.Time\<close> is the first
  of January of year one.\<close>

type_synonym instant = int

definition zeroTime :: instant where
  "zeroTime = - 62135596800000000000"

definition unixMilli :: "int64 \<Rightarrow> instant" where
  "unixMilli ms = sint ms * 1000000"

record wh_event =
  weType :: string
  weAggregate :: string
  wePayload :: wh_payload

record envelope =
  evId :: event_id
  evAggregate :: string
  evType :: string
  evHLC :: wh_hlc
  evRecordedAt :: instant
  evCausation :: "event_id option"
  evPayload :: bytes

section \<open>Errors\<close>

abbreviation RuleStockNonNegative :: string where "RuleStockNonNegative \<equiv> ''stock_non_negative''"
abbreviation RuleReservationAvailable :: string where "RuleReservationAvailable \<equiv> ''reservation_within_available''"
abbreviation RuleLotNotExpired :: string where "RuleLotNotExpired \<equiv> ''lot_not_expired''"
abbreviation RuleUoMValid :: string where "RuleUoMValid \<equiv> ''uom_valid_for_item''"
abbreviation RuleSKUExists :: string where "RuleSKUExists \<equiv> ''sku_exists_in_item_master''"
abbreviation RuleLocationExists :: string where "RuleLocationExists \<equiv> ''location_exists''"
abbreviation RuleLotRequired :: string where "RuleLotRequired \<equiv> ''lot_required_for_tracked_item''"
abbreviation RuleAggregateState :: string where "RuleAggregateState \<equiv> ''aggregate_state''"
abbreviation RuleQtyPositive :: string where "RuleQtyPositive \<equiv> ''quantity_positive''"

abbreviation ReasonCountVariance :: string where "ReasonCountVariance \<equiv> ''count_variance''"
abbreviation ReasonPOOverReceipt :: string where "ReasonPOOverReceipt \<equiv> ''po_overreceipt''"
abbreviation ReasonDuplicateReceipt :: string where "ReasonDuplicateReceipt \<equiv> ''duplicate_receipt''"
abbreviation ReasonUnknownSKU :: string where "ReasonUnknownSKU \<equiv> ''unknown_sku''"
abbreviation ReasonTransferRejected :: string where "ReasonTransferRejected \<equiv> ''transfer_rejected''"
abbreviation ReasonTransferOverReceipt :: string where "ReasonTransferOverReceipt \<equiv> ''transfer_overreceipt''"

text \<open>The formatted details of an error are left out: a rule violation is the rule's name.\<close>

datatype wh_error =
    Violation string
  | UnknownEventType string | PayloadMismatch string string | EncodePayload string | DecodeFailed string
  | WhBegin | WhInsert event_id | WhCommit | WhScanTime event_id
  | NoDispatchedLine string | IncompleteCompensations event_id | StoreFault

fun isViolation :: "wh_error \<Rightarrow> string \<Rightarrow> bool" where
  "isViolation (Violation r) rule = (r = rule)"
| "isViolation _ rule = False"

section \<open>The JSON form\<close>

type_synonym members = "(string \<times> json) list"

text \<open>A string member, with and without \<open>omitempty\<close>, and a number, which may refuse.\<close>

definition jstr :: "string \<Rightarrow> string \<Rightarrow> members" where
  "jstr k s = [(k, JStr s)]"

definition jstrOmit :: "string \<Rightarrow> string \<Rightarrow> members" where
  "jstrOmit k s = (if s = [] then [] else [(k, JStr s)])"

text \<open>\<open>json.Marshal\<close> refuses NaN and the infinities and otherwise writes the shortest decimal that
  parses to the float; every decimal that does so decodes alike, and the model writes the float's
  own value.\<close>

fun jOfFloat :: "float64 \<Rightarrow> json option" where
  "jOfFloat (Fin q) = Some (let (a, b) = quotient_of q in if b = 1 then JNum a else JFrac a b)"
| "jOfFloat _ = None"

text \<open>Any number decodes into a \<open>float64\<close> by rounding, unless it overflows.\<close>

definition finRnd :: "rat \<Rightarrow> float64 option" where
  "finRnd q = (case frnd q of Fin r \<Rightarrow> Some (Fin r) | _ \<Rightarrow> None)"

fun jFloat :: "json \<Rightarrow> float64 option" where
  "jFloat (JNum i) = finRnd (of_int i)"
| "jFloat (JFrac a b) = finRnd (of_int a / of_int b)"
| "jFloat _ = None"

definition encFloat :: "string \<Rightarrow> float64 \<Rightarrow> members option" where
  "encFloat k x = map_option (\<lambda>j. [(k, j)]) (jOfFloat x)"

text \<open>All elements, or none if one fails; the concatenation of members, or none if one fails.\<close>

fun allSome :: "'a option list \<Rightarrow> 'a list option" where
  "allSome [] = Some []"
| "allSome (None # _) = None"
| "allSome (Some x # xs) = map_option ((#) x) (allSome xs)"

definition obj :: "members option list \<Rightarrow> json option" where
  "obj ms = map_option (\<lambda>xs. JObj (concat xs)) (allSome ms)"

definition encMovement :: "movement \<Rightarrow> json option" where
  "encMovement m = obj [Some (jstr ''sku'' (mSKU m)), Some (jstrOmit ''lot_id'' (mLotID m)),
     Some (jstr ''from'' (mFrom m)), Some (jstr ''to'' (mTo m)), encFloat ''qty'' (mQty m)]"

definition encMember :: "string \<Rightarrow> json option \<Rightarrow> members option" where
  "encMember k j = map_option (\<lambda>j. [(k, j)]) j"

definition encLines :: "string \<Rightarrow> movement list \<Rightarrow> members option" where
  "encLines k ls = encMember k (map_option JArr (allSome (map encMovement ls)))"

definition encKey :: "wh_key \<Rightarrow> json" where
  "encKey k = JObj [(''sku'', JStr (wkSKU k)), (''location'', JStr (wkLocation k)), (''lot_id'', JStr (wkLotID k))]"

definition encAltUoM :: "(string, float64) fmap \<Rightarrow> members option" where
  "encAltUoM m = (if sorted_list_of_fmap m = [] then Some []
     else encMember ''alt_uom'' (obj (map (\<lambda>(u, f). encFloat u f) (sorted_list_of_fmap m))))"

definition encItem :: "item \<Rightarrow> json option" where
  "encItem i = obj [Some (jstr ''sku'' (itSKU i)), Some (jstr ''description'' (itDescription i)),
     Some (jstr ''base_uom'' (itBaseUoM i)), encAltUoM (itAltUoM i),
     Some [(''lot_tracked'', JBool (itLotTracked i)), (''shelf_life_days'', JNum (sint (itShelfLifeDays i))),
       (''deleted'', JBool (itDeleted i))]]"

fun marshalWh :: "wh_payload \<Rightarrow> json option" where
  "marshalWh (GoodsReceived r n p m) = obj [Some (jstr ''receipt_id'' r), Some (jstr ''delivery_note'' n),
     Some (jstr ''po_ref'' p), encMember ''move'' (encMovement m)]"
| "marshalWh (PutAway m) = obj [encMember ''move'' (encMovement m)]"
| "marshalWh (Picked m r) = obj [encMember ''move'' (encMovement m), Some (jstrOmit ''order_ref'' r)]"
| "marshalWh (StockAdjusted m r) = obj [encMember ''move'' (encMovement m), Some (jstr ''reason'' r)]"
| "marshalWh (StockReserved i k q) = obj [Some (jstr ''reservation_id'' i), Some [(''key'', encKey k)], encFloat ''qty'' q]"
| "marshalWh (ReservationReleased i) = obj [Some (jstr ''reservation_id'' i)]"
| "marshalWh (ReservationConsumed i) = obj [Some (jstr ''reservation_id'' i)]"
| "marshalWh (TransferDispatched t f d ls) = obj [Some (jstr ''transfer_id'' t), Some (jstr ''from_node'' f),
     Some (jstr ''to_node'' d), encLines ''lines'' ls]"
| "marshalWh (TransferReceived t ls) = obj [Some (jstr ''transfer_id'' t), encLines ''lines'' ls]"
| "marshalWh (ReceiptOpened r n p) = obj [Some (jstr ''receipt_id'' r), Some (jstr ''delivery_note'' n), Some (jstr ''po_ref'' p)]"
| "marshalWh (ReceiptLineRecorded r n s l q) = obj [Some (jstr ''receipt_id'' r), Some [(''line_no'', JNum (sint n))],
     Some (jstr ''sku'' s), Some (jstrOmit ''lot_id'' l), encFloat ''qty_base'' q]"
| "marshalWh (ReceiptClosed r) = obj [Some (jstr ''receipt_id'' r)]"
| "marshalWh (CountStarted c l) = obj [Some (jstr ''count_id'' c), Some (jstr ''location'' l)]"
| "marshalWh (CountLineCounted c k q) = obj [Some (jstr ''count_id'' c), Some [(''key'', encKey k)], encFloat ''counted_qty'' q]"
| "marshalWh (CountClosed c) = obj [Some (jstr ''count_id'' c)]"
| "marshalWh (ItemUpserted i) = obj [encMember ''item'' (encItem i)]"
| "marshalWh (LocationRegistered c t) = obj [Some (jstr ''code'' c), Some (jstr ''type'' t)]"

text \<open>Decoding, member by member; a missing or null member leaves the zero value.\<close>

definition fld :: "(json \<Rightarrow> 'a option) \<Rightarrow> 'a \<Rightarrow> members \<Rightarrow> string \<Rightarrow> 'a option" where
  "fld dec z fs k = map_option (orZero z) (jField dec fs k)"

abbreviation fStr :: "members \<Rightarrow> string \<Rightarrow> string option" where "fStr \<equiv> fld jStr []"
abbreviation fFloat :: "members \<Rightarrow> string \<Rightarrow> float64 option" where "fFloat \<equiv> fld jFloat 0"
abbreviation fInt :: "members \<Rightarrow> string \<Rightarrow> int64 option" where "fInt \<equiv> fld jInt64 0"
abbreviation fBool :: "members \<Rightarrow> string \<Rightarrow> bool option" where "fBool \<equiv> fld jBool False"

definition zeroMovement :: movement where
  "zeroMovement = \<lparr>mSKU = [], mLotID = [], mFrom = [], mTo = [], mQty = 0\<rparr>"

definition decMovement :: "json \<Rightarrow> movement option" where
  "decMovement j = do {
     fs \<leftarrow> jMembers j; s \<leftarrow> fStr fs ''sku''; l \<leftarrow> fStr fs ''lot_id''; f \<leftarrow> fStr fs ''from'';
     t \<leftarrow> fStr fs ''to''; q \<leftarrow> fFloat fs ''qty'';
     Some \<lparr>mSKU = s, mLotID = l, mFrom = f, mTo = t, mQty = q\<rparr> }"

definition decLines :: "json \<Rightarrow> movement list option" where
  "decLines j = do { js \<leftarrow> jArr j; allSome (map decMovement js) }"

definition decKey :: "json \<Rightarrow> wh_key option" where
  "decKey j = do {
     fs \<leftarrow> jMembers j; s \<leftarrow> fStr fs ''sku''; l \<leftarrow> fStr fs ''location''; n \<leftarrow> fStr fs ''lot_id'';
     Some (WhKey s l n) }"

definition zeroItem :: item where
  "zeroItem = \<lparr>itSKU = [], itDescription = [], itBaseUoM = [], itAltUoM = fmempty, itLotTracked = False,
     itShelfLifeDays = 0, itDeleted = False\<rparr>"

definition decItem :: "json \<Rightarrow> item option" where
  "decItem j = do {
     fs \<leftarrow> jMembers j; s \<leftarrow> fStr fs ''sku''; d \<leftarrow> fStr fs ''description''; b \<leftarrow> fStr fs ''base_uom'';
     a \<leftarrow> fld (jMap 0 jFloat) fmempty fs ''alt_uom''; l \<leftarrow> fBool fs ''lot_tracked'';
     n \<leftarrow> fInt fs ''shelf_life_days''; x \<leftarrow> fBool fs ''deleted'';
     Some \<lparr>itSKU = s, itDescription = d, itBaseUoM = b, itAltUoM = a, itLotTracked = l,
       itShelfLifeDays = n, itDeleted = x\<rparr> }"

abbreviation fMove :: "members \<Rightarrow> movement option" where
  "fMove fs \<equiv> fld decMovement zeroMovement fs ''move''"

abbreviation fLines :: "members \<Rightarrow> movement list option" where
  "fLines fs \<equiv> fld decLines [] fs ''lines''"

abbreviation fKey :: "members \<Rightarrow> wh_key option" where
  "fKey fs \<equiv> fld decKey (WhKey [] [] []) fs ''key''"

definition payloadDecoders :: "(string \<times> (members \<Rightarrow> wh_payload option)) list" where
  "payloadDecoders = [
     (''GoodsReceived'', \<lambda>fs. do { r \<leftarrow> fStr fs ''receipt_id''; n \<leftarrow> fStr fs ''delivery_note'';
        p \<leftarrow> fStr fs ''po_ref''; m \<leftarrow> fMove fs; Some (GoodsReceived r n p m) }),
     (''PutAway'', \<lambda>fs. do { m \<leftarrow> fMove fs; Some (PutAway m) }),
     (''Picked'', \<lambda>fs. do { m \<leftarrow> fMove fs; r \<leftarrow> fStr fs ''order_ref''; Some (Picked m r) }),
     (''StockAdjusted'', \<lambda>fs. do { m \<leftarrow> fMove fs; r \<leftarrow> fStr fs ''reason''; Some (StockAdjusted m r) }),
     (''StockReserved'', \<lambda>fs. do { i \<leftarrow> fStr fs ''reservation_id''; k \<leftarrow> fKey fs; q \<leftarrow> fFloat fs ''qty'';
        Some (StockReserved i k q) }),
     (''ReservationReleased'', \<lambda>fs. do { i \<leftarrow> fStr fs ''reservation_id''; Some (ReservationReleased i) }),
     (''ReservationConsumed'', \<lambda>fs. do { i \<leftarrow> fStr fs ''reservation_id''; Some (ReservationConsumed i) }),
     (''TransferDispatched'', \<lambda>fs. do { t \<leftarrow> fStr fs ''transfer_id''; f \<leftarrow> fStr fs ''from_node'';
        d \<leftarrow> fStr fs ''to_node''; ls \<leftarrow> fLines fs; Some (TransferDispatched t f d ls) }),
     (''TransferReceived'', \<lambda>fs. do { t \<leftarrow> fStr fs ''transfer_id''; ls \<leftarrow> fLines fs; Some (TransferReceived t ls) }),
     (''ReceiptOpened'', \<lambda>fs. do { r \<leftarrow> fStr fs ''receipt_id''; n \<leftarrow> fStr fs ''delivery_note'';
        p \<leftarrow> fStr fs ''po_ref''; Some (ReceiptOpened r n p) }),
     (''ReceiptLineRecorded'', \<lambda>fs. do { r \<leftarrow> fStr fs ''receipt_id''; n \<leftarrow> fInt fs ''line_no'';
        s \<leftarrow> fStr fs ''sku''; l \<leftarrow> fStr fs ''lot_id''; q \<leftarrow> fFloat fs ''qty_base'';
        Some (ReceiptLineRecorded r n s l q) }),
     (''ReceiptClosed'', \<lambda>fs. do { r \<leftarrow> fStr fs ''receipt_id''; Some (ReceiptClosed r) }),
     (''CountStarted'', \<lambda>fs. do { c \<leftarrow> fStr fs ''count_id''; l \<leftarrow> fStr fs ''location''; Some (CountStarted c l) }),
     (''CountLineCounted'', \<lambda>fs. do { c \<leftarrow> fStr fs ''count_id''; k \<leftarrow> fKey fs; q \<leftarrow> fFloat fs ''counted_qty'';
        Some (CountLineCounted c k q) }),
     (''CountClosed'', \<lambda>fs. do { c \<leftarrow> fStr fs ''count_id''; Some (CountClosed c) }),
     (''ItemUpserted'', \<lambda>fs. do { i \<leftarrow> fld decItem zeroItem fs ''item''; Some (ItemUpserted i) }),
     (''LocationRegistered'', \<lambda>fs. do { c \<leftarrow> fStr fs ''code''; t \<leftarrow> fStr fs ''type''; Some (LocationRegistered c t) })]"

section \<open>Envelopes\<close>

text \<open>\<open>NewEnvelope\<close>; the check compares the payload's type with the one registered for the event.\<close>

definition newEnvelope :: "event_id \<Rightarrow> wh_hlc \<Rightarrow> instant \<Rightarrow> event_id option \<Rightarrow> wh_event \<Rightarrow> wh_error + envelope" where
  "newEnvelope i h recAt cause e =
    (if weType e \<notin> set payloadTypes then Inl (UnknownEventType (weType e))
     else if weType e \<noteq> payloadType (wePayload e) then Inl (PayloadMismatch (weType e) (payloadType (wePayload e)))
     else (case marshalWh (wePayload e) of
         None \<Rightarrow> Inl (EncodePayload (weType e))
       | Some j \<Rightarrow> Inr \<lparr>evId = i, evAggregate = weAggregate e, evType = weType e, evHLC = h,
           evRecordedAt = recAt, evCausation = cause, evPayload = JsonBytes j\<rparr>))"

fun bytesMembers :: "bytes \<Rightarrow> members option" where
  "bytesMembers (JsonBytes j) = jMembers j"
| "bytesMembers _ = None"

definition decodePayload :: "envelope \<Rightarrow> wh_error + wh_payload" where
  "decodePayload env =
    (if evType env \<notin> set payloadTypes then Inl (UnknownEventType (evType env))
     else (case (map_of payloadDecoders (evType env), bytesMembers (evPayload env)) of
         (Some dec, Some fs) \<Rightarrow> (case dec fs of Some p \<Rightarrow> Inr p | None \<Rightarrow> Inl (DecodeFailed (evType env)))
       | _ \<Rightarrow> Inl (DecodeFailed (evType env))))"

section \<open>Round trip\<close>

text \<open>Every quantity of a payload is a float, and every one can be written.\<close>

definition moveF64 :: "movement \<Rightarrow> bool" where
  "moveF64 m \<longleftrightarrow> isF64 (mQty m)"

fun payloadF64 :: "wh_payload \<Rightarrow> bool" where
  "payloadF64 (GoodsReceived _ _ _ m) = moveF64 m"
| "payloadF64 (PutAway m) = moveF64 m"
| "payloadF64 (Picked m _) = moveF64 m"
| "payloadF64 (StockAdjusted m _) = moveF64 m"
| "payloadF64 (StockReserved _ _ q) = isF64 q"
| "payloadF64 (TransferDispatched _ _ _ ls) = list_all moveF64 ls"
| "payloadF64 (TransferReceived _ ls) = list_all moveF64 ls"
| "payloadF64 (ReceiptLineRecorded _ _ _ _ q) = isF64 q"
| "payloadF64 (CountLineCounted _ _ q) = isF64 q"
| "payloadF64 (ItemUpserted i) = fmpred (\<lambda>_. isF64) (itAltUoM i)"
| "payloadF64 _ = True"

lemma jFloat_jOfFloat: "isF64 x \<Longrightarrow> jOfFloat x = Some j \<Longrightarrow> jFloat j = Some x"
proof (cases x)
  case (Fin q)
  assume *: "isF64 x" "jOfFloat x = Some j"
  obtain a b where ab: "quotient_of q = (a, b)" by (cases "quotient_of q")
  then have "q = of_int a / of_int b" by (rule quotient_of_div)
  with * Fin ab show ?thesis by (auto simp: finRnd_def split: if_splits float64.split)
qed auto

lemma jOfFloat_not_JNull: "jOfFloat x = Some j \<Longrightarrow> j \<noteq> JNull"
  by (cases x) (auto simp: Let_def split: prod.splits if_splits)

lemma jOfFloat_isFin: "isFin x \<longleftrightarrow> (\<exists>j. jOfFloat x = Some j)"
  by (cases x) simp_all

lemma allSome_Some: "allSome xs = Some ys \<longleftrightarrow> xs = map Some ys"
  by (induction xs arbitrary: ys rule: allSome.induct) auto

lemma fld_here:
  "k \<notin> fst ` set fs \<Longrightarrow> j \<noteq> JNull \<Longrightarrow> fld dec z ((k, j) # fs) k = map_option (\<lambda>x. x) (dec j)"
  by (simp add: fld_def json_simps option.map_comp comp_def orZero_def option.map_ident)

lemma fld_there: "k \<noteq> k' \<Longrightarrow> fld dec z ((k', j) # fs) k = fld dec z fs k"
  by (simp add: fld_def json_simps)

lemma fld_nil: "fld dec z [] k = Some z"
  by (simp add: fld_def json_simps orZero_def)

lemmas fld_simps = fld_here fld_there fld_nil

lemma obj_Some: "obj ms = Some j \<longleftrightarrow> (\<exists>xss. ms = map Some xss \<and> j = JObj (concat xss))"
  by (auto simp: obj_def allSome_Some)

lemma encMovement_dec: "moveF64 m \<Longrightarrow> encMovement m = Some j \<Longrightarrow> decMovement j = Some m \<and> j \<noteq> JNull"
  by (cases m) (auto simp: moveF64_def encMovement_def obj_Some Cons_eq_map_conv encFloat_def jstr_def jstrOmit_def
      decMovement_def fld_simps jFloat_jOfFloat jOfFloat_not_JNull)

lemma encLines_dec:
  assumes "list_all moveF64 ls" "allSome (map encMovement ls) = Some js"
  shows "decLines (JArr js) = Some ls"
proof -
  have "map encMovement ls = map Some js" using assms(2) by (simp add: allSome_Some)
  then have "map decMovement js = map Some ls"
    using assms(1) by (induction ls arbitrary: js) (auto simp: Cons_eq_map_conv dest: encMovement_dec)
  then show ?thesis by (simp add: decLines_def allSome_Some)
qed

lemma encKey_dec: "decKey (encKey k) = Some k \<and> encKey k \<noteq> JNull"
  by (cases k) (simp add: encKey_def decKey_def fld_simps)

lemma foldl_jMap_floats:
  assumes "list_all (\<lambda>(_, f). isF64 f) xs" "map (\<lambda>(u, f). encFloat u f) xs = map Some yss"
  shows "foldl (\<lambda>r (k, v). case r of None \<Rightarrow> None | Some m \<Rightarrow>
        (if v = JNull then Some (fmupd k 0 m) else map_option (\<lambda>x. fmupd k x m) (jFloat v)))
      (Some m) (concat yss) = Some (foldl (\<lambda>m (k, v). fmupd k v m) m xs)"
  using assms
proof (induction xs arbitrary: m yss)
  case (Cons x xs)
  obtain u f where x: "x = (u, f)" by (cases x)
  from Cons.prems x obtain j zss where j: "jOfFloat f = Some j" and y: "yss = [(u, j)] # zss"
    and zss: "map (\<lambda>(u, f). encFloat u f) xs = map Some zss"
    by (auto simp: encFloat_def Cons_eq_map_conv)
  have "jFloat j = Some f" using Cons.prems(1) j x by (simp add: jFloat_jOfFloat)
  then show ?case
    using Cons.IH [OF _ zss] Cons.prems(1) jOfFloat_not_JNull [OF j] by (simp add: x y)
qed simp

lemma foldl_fmupd_sorted: "foldl (\<lambda>m (k, v). fmupd k v m) fmempty (sorted_list_of_fmap m) = m"
proof (rule fmap_ext)
  fix k
  have "map_of (rev (sorted_list_of_fmap m)) = map_of (sorted_list_of_fmap m)"
    by (rule map_of_inject_set [THEN iffD2])
      (simp_all add: rev_map [symmetric] distinct_sorted_list_of_fmap)
  then show "fmlookup (foldl (\<lambda>m (k, v). fmupd k v m) fmempty (sorted_list_of_fmap m)) k = fmlookup m k"
    by (simp add: foldl_fmupd_lookup split: option.splits)
qed

lemma encAltUoM_dec:
  assumes "list_all (\<lambda>(_, f). isF64 f) (sorted_list_of_fmap m)" "encAltUoM m = Some ms"
  shows "(ms = [] \<and> m = fmempty) \<or> (\<exists>j. ms = [(''alt_uom'', j)] \<and> j \<noteq> JNull \<and> jMap 0 jFloat j = Some m)"
proof (cases "sorted_list_of_fmap m = []")
  case True
  then have "m = fmempty" using foldl_fmupd_sorted [of m] by simp
  with True assms(2) show ?thesis by (simp add: encAltUoM_def)
next
  case False
  then obtain yss where ms: "ms = [(''alt_uom'', JObj (concat yss))]"
    and yss: "map (\<lambda>(u, f). encFloat u f) (sorted_list_of_fmap m) = map Some yss"
    using assms(2) by (auto simp: encAltUoM_def encMember_def obj_Some)
  have "jMap 0 jFloat (JObj (concat yss)) = Some m"
    using foldl_jMap_floats [OF assms(1) yss, of fmempty] by (simp add: jMap_def foldl_fmupd_sorted)
  with ms show ?thesis by simp
qed

lemma encItem_dec:
  assumes "fmpred (\<lambda>_. isF64) (itAltUoM i)" "encItem i = Some j"
  shows "decItem j = Some i \<and> j \<noteq> JNull"
proof -
  have f: "list_all (\<lambda>(_, f). isF64 f) (sorted_list_of_fmap (itAltUoM i))" using assms(1) by simp
  obtain ms where ms: "encAltUoM (itAltUoM i) = Some ms"
    and j: "j = JObj (jstr ''sku'' (itSKU i) @ jstr ''description'' (itDescription i) @ jstr ''base_uom'' (itBaseUoM i) @ ms @
      [(''lot_tracked'', JBool (itLotTracked i)), (''shelf_life_days'', JNum (sint (itShelfLifeDays i))),
       (''deleted'', JBool (itDeleted i))])"
    using assms(2) by (auto simp: encItem_def obj_Some Cons_eq_map_conv)
  from encAltUoM_dec [OF f ms] show ?thesis
    by (cases i) (auto simp: j jstr_def decItem_def fld_simps jInt64_sint)
qed

lemma marshalWh_dec:
  assumes "payloadF64 p" "marshalWh p = Some j"
  shows "\<exists>fs dec. j = JObj fs \<and> map_of payloadDecoders (payloadType p) = Some dec \<and> dec fs = Some p"
  using assms
  by (cases p) (auto simp: obj_Some Cons_eq_map_conv payloadDecoders_def jstr_def jstrOmit_def encFloat_def encMember_def
      encLines_def fld_simps jFloat_jOfFloat jOfFloat_not_JNull encKey_dec jInt64_sint
      dest: encMovement_dec encItem_dec encLines_dec)

lemma newEnvelope_Inr:
  "newEnvelope i h t cause e = Inr env \<longleftrightarrow> weType e = payloadType (wePayload e) \<and>
    (\<exists>j. marshalWh (wePayload e) = Some j \<and> env = \<lparr>evId = i, evAggregate = weAggregate e, evType = weType e,
      evHLC = h, evRecordedAt = t, evCausation = cause, evPayload = JsonBytes j\<rparr>)"
proof -
  have "payloadType p \<in> set payloadTypes" for p by (cases p) (simp_all add: payloadTypes_def)
  then show ?thesis by (auto simp: newEnvelope_def split: option.splits)
qed

lemma newEnvelope_decode:
  assumes "newEnvelope i h t cause e = Inr env" "payloadF64 (wePayload e)"
  shows "decodePayload env = Inr (wePayload e)"
proof -
  from assms(1) obtain j where ty: "weType e = payloadType (wePayload e)" and j: "marshalWh (wePayload e) = Some j"
    and env: "env = \<lparr>evId = i, evAggregate = weAggregate e, evType = weType e, evHLC = h, evRecordedAt = t,
      evCausation = cause, evPayload = JsonBytes j\<rparr>"
    by (auto simp: newEnvelope_Inr)
  have "payloadType p \<in> set payloadTypes" for p by (cases p) (simp_all add: payloadTypes_def)
  then show ?thesis
    using marshalWh_dec [OF assms(2) j] by (auto simp: decodePayload_def env ty)
qed

text \<open>What can be written at all: every quantity is finite.\<close>

fun payloadFin :: "wh_payload \<Rightarrow> bool" where
  "payloadFin (GoodsReceived _ _ _ m) = isFin (mQty m)"
| "payloadFin (PutAway m) = isFin (mQty m)"
| "payloadFin (Picked m _) = isFin (mQty m)"
| "payloadFin (StockAdjusted m _) = isFin (mQty m)"
| "payloadFin (StockReserved _ _ q) = isFin q"
| "payloadFin (TransferDispatched _ _ _ ls) = list_all (isFin \<circ> mQty) ls"
| "payloadFin (TransferReceived _ ls) = list_all (isFin \<circ> mQty) ls"
| "payloadFin (ReceiptLineRecorded _ _ _ _ q) = isFin q"
| "payloadFin (CountLineCounted _ _ q) = isFin q"
| "payloadFin (ItemUpserted i) = fmpred (\<lambda>_. isFin) (itAltUoM i)"
| "payloadFin _ = True"

lemma encMovement_iff: "(\<exists>j. encMovement m = Some j) \<longleftrightarrow> isFin (mQty m)"
  by (cases "mQty m") (simp_all add: encMovement_def obj_def encFloat_def)

lemma allSome_ex: "(\<exists>ys. allSome xs = Some ys) \<longleftrightarrow> list_all (\<lambda>x. \<exists>y. x = Some y) xs"
  by (induction xs rule: allSome.induct) auto

lemma allSome_None: "allSome xs = None \<longleftrightarrow> None \<in> set xs"
  by (induction xs rule: allSome.induct) auto

lemma encLines_iff: "(\<exists>ms. encLines k ls = Some ms) \<longleftrightarrow> list_all (isFin \<circ> mQty) ls"
  by (auto simp: encLines_def encMember_def allSome_ex list_all_iff encMovement_iff)

lemma encItem_iff: "(\<exists>j. encItem i = Some j) \<longleftrightarrow> fmpred (\<lambda>_. isFin) (itAltUoM i)"
proof -
  have "(\<exists>ms. encAltUoM (itAltUoM i) = Some ms) \<longleftrightarrow>
      list_all (\<lambda>(_, f). isFin f) (sorted_list_of_fmap (itAltUoM i))"
    by (auto simp: encAltUoM_def encMember_def obj_def allSome_ex list_all_iff encFloat_def jOfFloat_isFin)
  moreover have "(\<exists>j. encItem i = Some j) \<longleftrightarrow> (\<exists>ms. encAltUoM (itAltUoM i) = Some ms)"
    by (cases "encAltUoM (itAltUoM i)") (simp_all add: encItem_def obj_def)
  ultimately show ?thesis by simp
qed

lemma marshalWh_iff: "(\<exists>j. marshalWh p = Some j) \<longleftrightarrow> payloadFin p"
proof -
  note iffs = encMovement_iff encLines_iff encItem_iff
  have 1: "(\<exists>j. (case x of None \<Rightarrow> None | Some y \<Rightarrow> Some (f y)) = Some j) \<longleftrightarrow> (\<exists>y. x = Some y)" for x :: "'a option" and f :: "'a \<Rightarrow> 'b"
    by (cases x) simp_all
  show ?thesis
    using encMovement_iff encLines_iff encItem_iff
    by (cases p) (auto simp: obj_def allSome_ex encMember_def encFloat_def jOfFloat_isFin)
qed

end
