(* ===== verification/WhLog.thy ===== *)
theory WhLog
  imports WhEvent
begin

text \<open>
  The event log of a warehouse node (\<open>warehouse-node/internal/eventlog/log.go\<close>, \<open>schema.go\<close>): three
  SQLite tables as finite maps from primary key to row, and the sequence counter and clock held in
  memory. A write takes a \<open>db_fault\<close> saying whether the database fails its transaction; an argument
  the driver refuses and a row the schema's checks refuse fail it as well. A failed transaction
  leaves the tables as they were. Failures of the reading statements are not modelled. A restart is
  \<open>whOpen\<close> on the tables the log left.
\<close>

section \<open>Tables\<close>

record wh_row =
  wrAggregate :: string
  wrType :: string
  wrWall :: int64
  wrCounter :: uint32
  wrHlcNode :: node_id
  wrRecordedAt :: instant \<comment> \<open>the instant the stored text denotes\<close>
  wrCausation :: "event_id option"
  wrPayload :: bytes

type_synonym wh_rows = "(event_id, wh_row) fmap"

record wh_db =
  whRows :: wh_rows
  whCursors :: "(string, uint64) fmap"
  whProjVersion :: "int64 option"

definition whSchema :: wh_db where
  "whSchema = \<lparr>whRows = fmempty, whCursors = fmempty, whProjVersion = None\<rparr>"

abbreviation CursorPushed :: string where "CursorPushed \<equiv> ''pushed_to_central''"
abbreviation CursorPulled :: string where "CursorPulled \<equiv> ''pulled_from_central''"

record wh_log =
  wlDb :: wh_db
  wlNode :: node_id
  wlSeq :: uint64
  wlClock :: wh_hlc

section \<open>Opening\<close>

text \<open>\<open>SELECT max(seq)\<close>; every stored number is positive, so a null reads as zero.\<close>

definition whHighestSeq :: "wh_rows \<Rightarrow> node_id \<Rightarrow> uint64" where
  "whHighestSeq rows n = foldl max 0 (map (\<lambda>(i, _). idSeq i) (filter (\<lambda>(i, _). idNode i = n) (sorted_list_of_fmap rows)))"

text \<open>What orders readings before the node id does.\<close>

definition stampOf :: "wh_hlc \<Rightarrow> int \<times> uint32" where
  "stampOf h = (sint (Wall h), Logical h)"

definition rowStamp :: "wh_row \<Rightarrow> int \<times> uint32" where
  "rowStamp r = (sint (wrWall r), wrCounter r)"

text \<open>\<open>recover\<close>: the row \<open>ORDER BY hlc_wall DESC, hlc_counter DESC LIMIT 1\<close> selects.\<close>

definition lastRow :: "wh_rows \<Rightarrow> wh_row option" where
  "lastRow rows = (case map snd (sorted_list_of_fmap rows) of [] \<Rightarrow> None
     | r # rs \<Rightarrow> Some (foldl (\<lambda>a b. if rowStamp a < rowStamp b then b else a) r rs))"

definition whOpen :: "wh_db \<Rightarrow> node_id \<Rightarrow> wh_log" where
  "whOpen db n = \<lparr>wlDb = db, wlNode = n, wlSeq = whHighestSeq (whRows db) n,
     wlClock = (case lastRow (whRows db) of None \<Rightarrow> HLC 0 0 [] | Some r \<Rightarrow> HLC (wrWall r) (wrCounter r) n)\<rparr>"

section \<open>Writing\<close>

definition rowOfEnv :: "envelope \<Rightarrow> wh_row" where
  "rowOfEnv e = \<lparr>wrAggregate = evAggregate e, wrType = evType e, wrWall = Wall (evHLC e), wrCounter = Logical (evHLC e),
     wrHlcNode = NodeID (evHLC e), wrRecordedAt = evRecordedAt e, wrCausation = evCausation e, wrPayload = evPayload e\<rparr>"

text \<open>
  Go's database interface refuses a \<open>uint64\<close> with the high bit set, \<open>NOT NULL\<close> refuses a nil payload,
  and the two checks an empty node id and a sequence number of zero. The conflict clause covers the
  primary key alone, so these fail the transaction of an \<open>Ingest\<close> too.
\<close>

definition rowRefused :: "envelope \<Rightarrow> bool" where
  "rowRefused e \<longleftrightarrow> \<not> fitsInt64 (idSeq (evId e)) \<or> (case evCausation e of None \<Rightarrow> False | Some c \<Rightarrow> \<not> fitsInt64 (idSeq c)) \<or>
     evPayload e = NilBytes \<or> idNode (evId e) = [] \<or> idSeq (evId e) = 0"

fun insertLoop :: "db_fault \<Rightarrow> bool \<Rightarrow> nat \<Rightarrow> wh_rows \<Rightarrow> envelope list \<Rightarrow> wh_error + (nat \<times> wh_rows)" where
  "insertLoop f ignore added rows [] = Inr (added, rows)"
| "insertLoop f ignore added rows (e # es) =
    (if f = FailInsert \<or> rowRefused e then Inl (WhInsert (evId e))
     else if fmlookup rows (evId e) \<noteq> None
     then (if ignore then insertLoop f ignore added rows es else Inl (WhInsert (evId e)))
     else insertLoop f ignore (added + 1) (fmupd (evId e) (rowOfEnv e) rows) es)"

definition whInsert :: "db_fault \<Rightarrow> bool \<Rightarrow> wh_rows \<Rightarrow> envelope list \<Rightarrow> wh_error + (nat \<times> wh_rows)" where
  "whInsert f ignore rows es =
    (if f = FailBegin then Inl WhBegin
     else case insertLoop f ignore 0 rows es of Inl e \<Rightarrow> Inl e
     | Inr r \<Rightarrow> if f = FailCommit then Inl WhCommit else Inr r)"

fun seal :: "node_id \<Rightarrow> int64 \<Rightarrow> event_id option \<Rightarrow> uint64 \<Rightarrow> wh_hlc \<Rightarrow> wh_event list \<Rightarrow>
    wh_error + (envelope list \<times> uint64 \<times> wh_hlc)" where
  "seal n now cause s clk [] = Inr ([], s, clk)"
| "seal n now cause s clk (e # es) =
    (let s = s + 1; clk = whTick clk now n in
     case newEnvelope (EventID n s) clk (unixMilli now) cause e of Inl err \<Rightarrow> Inl err
     | Inr env \<Rightarrow> (case seal n now cause s clk es of Inl err \<Rightarrow> Inl err
         | Inr (envs, s, clk) \<Rightarrow> Inr (env # envs, s, clk)))"

definition setWhRows :: "wh_rows \<Rightarrow> wh_log \<Rightarrow> wh_log" where
  "setWhRows rows l = l\<lparr>wlDb := (wlDb l)\<lparr>whRows := rows\<rparr>\<rparr>"

definition whEmit :: "db_fault \<Rightarrow> int64 \<Rightarrow> event_id option \<Rightarrow> wh_event list \<Rightarrow> wh_log \<Rightarrow>
    (wh_error + envelope list) \<times> wh_log" where
  "whEmit f now cause events l =
    (case seal (wlNode l) now cause (wlSeq l) (wlClock l) events of Inl e \<Rightarrow> (Inl e, l)
     | Inr (envs, s, clk) \<Rightarrow>
       (case whInsert f False (whRows (wlDb l)) envs of Inl e \<Rightarrow> (Inl e, l)
        | Inr (_, rows) \<Rightarrow> (Inr envs, (setWhRows rows l)\<lparr>wlSeq := s, wlClock := clk\<rparr>)))"

definition whIngest :: "db_fault \<Rightarrow> int64 \<Rightarrow> envelope list \<Rightarrow> wh_log \<Rightarrow> (wh_error + nat) \<times> wh_log" where
  "whIngest f now envs l =
    (let clk = foldl (\<lambda>c e. whMerge c (evHLC e) now (wlNode l)) (wlClock l) envs in
     case whInsert f True (whRows (wlDb l)) envs of Inl e \<Rightarrow> (Inl e, l)
     | Inr (added, rows) \<Rightarrow>
       (let l = (setWhRows rows l)\<lparr>wlClock := clk\<rparr>; s = whHighestSeq rows (wlNode l)
        in (Inr added, if wlSeq l < s then l\<lparr>wlSeq := s\<rparr> else l)))"

section \<open>Reading\<close>

text \<open>RFC 3339 has four-digit years: the text written for another year does not parse.\<close>

definition rfc3339 :: "instant \<Rightarrow> bool" where
  "rfc3339 t \<longleftrightarrow> - 62167219200000000000 \<le> t \<and> t < 253402300800000000000"

definition whScan :: "event_id \<times> wh_row \<Rightarrow> wh_error + envelope" where
  "whScan = (\<lambda>(i, r). if \<not> rfc3339 (wrRecordedAt r) then Inl (WhScanTime i)
     else Inr \<lparr>evId = i, evAggregate = wrAggregate r, evType = wrType r, evHLC = HLC (wrWall r) (wrCounter r) (wrHlcNode r),
       evRecordedAt = wrRecordedAt r, evCausation = wrCausation r, evPayload = wrPayload r\<rparr>)"

fun queryRows :: "(event_id \<times> wh_row) list \<Rightarrow> wh_error + envelope list" where
  "queryRows [] = Inr []"
| "queryRows (r # rs) = (case whScan r of Inl e \<Rightarrow> Inl e
     | Inr env \<Rightarrow> (case queryRows rs of Inl e \<Rightarrow> Inl e | Inr envs \<Rightarrow> Inr (env # envs)))"

definition rowOrder :: "event_id \<times> wh_row \<Rightarrow> (int \<times> uint32) \<times> node_id \<times> event_id" where
  "rowOrder = (\<lambda>(i, r). (rowStamp r, wrHlcNode r, i))"

definition whReadAll :: "wh_log \<Rightarrow> wh_error + envelope list" where
  "whReadAll l = queryRows (sort_key rowOrder (sorted_list_of_fmap (whRows (wlDb l))))"

text \<open>\<open>LIMIT\<close>: a negative one is no limit.\<close>

definition sqlLimit :: "int64 \<Rightarrow> 'a list \<Rightarrow> 'a list" where
  "sqlLimit n xs = (if sint n < 0 then xs else take (nat (sint n)) xs)"

definition whReadOwnAfter :: "wh_log \<Rightarrow> uint64 \<Rightarrow> int64 \<Rightarrow> wh_error + envelope list" where
  "whReadOwnAfter l s limit =
    (if \<not> fitsInt64 s then Inl (WhInsert (EventID (wlNode l) s))
     else queryRows (sqlLimit limit (sort_key (\<lambda>(i, _). idSeq i)
       (filter (\<lambda>(i, _). idNode i = wlNode l \<and> s < idSeq i) (sorted_list_of_fmap (whRows (wlDb l)))))))"

definition whVersionVector :: "wh_log \<Rightarrow> (node_id, uint64) fmap" where
  "whVersionVector l = (let rows = whRows (wlDb l) in
     fmap_of_list (map (\<lambda>n. (n, whHighestSeq rows n)) (sorted_list_of_fset (idNode |`| fmdom rows))))"

definition whCursor :: "wh_log \<Rightarrow> string \<Rightarrow> uint64" where
  "whCursor l name = fm_get 0 (whCursors (wlDb l)) name"

definition whSetCursor :: "db_fault \<Rightarrow> string \<Rightarrow> uint64 \<Rightarrow> wh_log \<Rightarrow> wh_error + wh_log" where
  "whSetCursor f name v l = (if f \<noteq> DbOk \<or> \<not> fitsInt64 v then Inl StoreFault
     else Inr (l\<lparr>wlDb := (wlDb l)\<lparr>whCursors := fmupd name v (whCursors (wlDb l))\<rparr>\<rparr>))"

definition whProjectionVersion :: "wh_log \<Rightarrow> int64" where
  "whProjectionVersion l = (case whProjVersion (wlDb l) of None \<Rightarrow> 0 | Some v \<Rightarrow> v)"

definition whSetProjectionVersion :: "db_fault \<Rightarrow> int64 \<Rightarrow> wh_log \<Rightarrow> wh_error + wh_log" where
  "whSetProjectionVersion f v l = (if f \<noteq> DbOk then Inl StoreFault
     else Inr (l\<lparr>wlDb := (wlDb l)\<lparr>whProjVersion := Some v\<rparr>\<rparr>))"

section \<open>Clocks\<close>

lemma bumpable_early: "sint (Wall h) < maxInt64 \<Longrightarrow> bumpable h"
  by (simp add: bumpable_def)

lemma stampOf_less:
  assumes "\<And>m. HLC (Wall h) (Logical h) m < h'"
  shows "stampOf h < stampOf h'"
proof -
  have "HLC (Wall h) (Logical h) (NodeID h') < h'" by (rule assms)
  then show ?thesis by (cases h; cases h') (auto simp: less_hlc_def stampOf_def)
qed

lemma stampOf_tick: "bumpable h \<Longrightarrow> stampOf h < stampOf (whTick h now n)"
proof (rule stampOf_less)
  fix m
  assume "bumpable h"
  then have "bumpable (HLC (Wall h) (Logical h) m)" by (simp flip: bumpable_iff)
  moreover have "whTick (HLC (Wall h) (Logical h) m) now n = whTick h now n" by (simp add: whTick_def)
  ultimately show "HLC (Wall h) (Logical h) m < whTick h now n" by (metis whTick_above)
qed

lemma stampOf_merge:
  assumes "bumpable h" "bumpable r"
  shows "stampOf h < stampOf (whMerge h r now n)" "stampOf r < stampOf (whMerge h r now n)"
proof -
  have "whMerge (HLC (Wall h) (Logical h) m) (HLC (Wall r) (Logical r) m) now n = whMerge h r now n" for m
    by (simp only: whMerge_def hlc.sel)
  moreover have "bumpable (HLC (Wall h) (Logical h) m)" "bumpable (HLC (Wall r) (Logical r) m)" for m
    using assms by (simp_all flip: bumpable_iff)
  ultimately have "HLC (Wall h) (Logical h) m < whMerge h r now n" "HLC (Wall r) (Logical r) m < whMerge h r now n" for m
    by (metis whMerge_above)+
  then show "stampOf h < stampOf (whMerge h r now n)" "stampOf r < stampOf (whMerge h r now n)"
    by (auto intro: stampOf_less)
qed

lemma wall_bump: "sint w < maxInt64 \<Longrightarrow> sint (Wall (whBump w c n)) \<le> sint w + 1"
  by (simp add: whBump_def word_read)

lemma wall_tick:
  "sint (Wall h) \<le> b \<Longrightarrow> sint now \<le> b \<Longrightarrow> b < maxInt64 \<Longrightarrow> sint (Wall (whTick h now n)) \<le> b + 1"
  using wall_bump [of "Wall h" "Logical h" n] by (simp add: whTick_def)

lemma wall_merge:
  assumes "sint (Wall h) \<le> b" "sint (Wall r) \<le> b" "sint now \<le> b" "b < maxInt64"
  shows "sint (Wall (whMerge h r now n)) \<le> b + 1"
proof -
  have "sint (Wall h) < maxInt64" "sint (Wall r) < maxInt64" using assms by linarith+
  from wall_bump [OF this(1)] wall_bump [OF this(2)] show ?thesis
    by (cases rule: whMerge_cases [of h now r n]) (use assms in \<open>fastforce intro: order_trans\<close>)+
qed

lemma foldl_merge:
  assumes "sint (Wall h) \<le> b" "sint now \<le> b" "list_all (\<lambda>e. sint (Wall (evHLC e)) \<le> b) es" "b + int (length es) < maxInt64"
  shows "stampOf h \<le> stampOf (foldl (\<lambda>c e. whMerge c (evHLC e) now n) h es) \<and>
    sint (Wall (foldl (\<lambda>c e. whMerge c (evHLC e) now n) h es)) \<le> b + int (length es) \<and>
    (\<forall>e \<in> set es. stampOf (evHLC e) < stampOf (foldl (\<lambda>c e. whMerge c (evHLC e) now n) h es))"
  using assms
proof (induction es arbitrary: h b)
  case (Cons e es)
  let ?h = "whMerge h (evHLC e) now n"
  have "bumpable h" "bumpable (evHLC e)" using Cons.prems by (auto intro!: bumpable_early)
  note above = stampOf_merge [OF this, of now n]
  have wall: "sint (Wall ?h) \<le> b + 1" using Cons.prems by (intro wall_merge) simp_all
  have later: "list_all (\<lambda>e. sint (Wall (evHLC e)) \<le> b + 1) es" "sint now \<le> b + 1" "b + 1 + int (length es) < maxInt64"
    using Cons.prems by (auto simp: list_all_iff)
  have "stampOf ?h \<le> stampOf (foldl (\<lambda>c e. whMerge c (evHLC e) now n) ?h es) \<and>
    sint (Wall (foldl (\<lambda>c e. whMerge c (evHLC e) now n) ?h es)) \<le> b + 1 + int (length es) \<and>
    (\<forall>e \<in> set es. stampOf (evHLC e) < stampOf (foldl (\<lambda>c e. whMerge c (evHLC e) now n) ?h es))"
    by (rule Cons.IH [OF wall later(2,1,3)])
  with above show ?case by (auto intro: less_le_trans less_imp_le)
qed simp

section \<open>Transactions\<close>

definition storeEnv :: "wh_rows \<Rightarrow> envelope \<Rightarrow> wh_rows" where
  "storeEnv rows e = (if fmlookup rows (evId e) \<noteq> None then rows else fmupd (evId e) (rowOfEnv e) rows)"

abbreviation storeEnvs :: "wh_rows \<Rightarrow> envelope list \<Rightarrow> wh_rows" where
  "storeEnvs rows es \<equiv> foldl storeEnv rows es"

lemma storeEnvs_lookup:
  "fmlookup (storeEnvs rows es) i = (case fmlookup rows i of Some r \<Rightarrow> Some r
     | None \<Rightarrow> map_option rowOfEnv (find (\<lambda>e. evId e = i) es))"
  by (induction es arbitrary: rows) (auto simp: storeEnv_def split: option.split)

lemma storeEnvs_known: "\<forall>e \<in> set es. fmlookup rows (evId e) \<noteq> None \<Longrightarrow> storeEnvs rows es = rows"
  by (induction es) (auto simp: storeEnv_def)

lemma insertLoop_Inr:
  assumes "insertLoop f ig a rows es = Inr (m, rows')"
  shows "rows' = storeEnvs rows es \<and> m + fcard (fmdom rows) = a + fcard (fmdom rows') \<and> list_all (\<lambda>e. \<not> rowRefused e) es \<and>
    (ig \<or> distinct (map evId es) \<and> (\<forall>e \<in> set es. fmlookup rows (evId e) = None))"
  using assms
proof (induction es arbitrary: a rows)
  case (Cons e es)
  show ?case
  proof (cases "fmlookup rows (evId e)")
    case None
    then have "evId e |\<notin>| fmdom rows" by (rule fmdom_notI)
    then have c: "fcard (fmdom (fmupd (evId e) (rowOfEnv e) rows)) = Suc (fcard (fmdom rows))"
      by (simp add: fcard_finsert_disjoint)
    have "insertLoop f ig (a + 1) (fmupd (evId e) (rowOfEnv e) rows) es = Inr (m, rows')" "\<not> rowRefused e"
      using Cons.prems None by (auto split: if_splits)
    from Cons.IH [OF this(1)] this(2) None c show ?thesis
      by (auto simp: storeEnv_def split: if_splits)
  next
    case (Some r)
    with Cons show ?thesis by (auto simp: storeEnv_def split: if_splits)
  qed
qed simp

lemma insertLoop_ignore:
  "f \<noteq> FailInsert \<Longrightarrow> list_all (\<lambda>e. \<not> rowRefused e) es \<Longrightarrow> \<exists>m. insertLoop f True a rows es = Inr (m, storeEnvs rows es)"
  by (induction es arbitrary: a rows) (auto simp: storeEnv_def)

lemma insertLoop_fresh:
  "f \<noteq> FailInsert \<Longrightarrow> list_all (\<lambda>e. \<not> rowRefused e) es \<Longrightarrow> distinct (map evId es) \<Longrightarrow>
   \<forall>e \<in> set es. fmlookup rows (evId e) = None \<Longrightarrow> \<exists>m. insertLoop f ig a rows es = Inr (m, storeEnvs rows es)"
proof (induction es arbitrary: a rows)
  case (Cons e es)
  have "\<forall>x \<in> set es. fmlookup (fmupd (evId e) (rowOfEnv e) rows) (evId x) = None"
    using Cons.prems by auto
  with Cons show ?case by (auto simp: storeEnv_def)
qed simp

lemma whInsert_Inr:
  "whInsert f ig rows es = Inr (m, rows') \<Longrightarrow> insertLoop f ig 0 rows es = Inr (m, rows')"
  by (auto simp: whInsert_def split: if_splits sum.splits)

section \<open>Sealing\<close>

lemma newEnvelope_fields:
  "newEnvelope i h t c e = Inr env \<Longrightarrow> evId env = i \<and> evHLC env = h \<and> evRecordedAt env = t \<and> evCausation env = c"
  by (auto simp: newEnvelope_def split: if_splits option.splits)

lemma seal_ids:
  "seal n now cause s clk es = Inr (envs, s', clk') \<Longrightarrow>
   length envs = length es \<and> s' = s + of_nat (length es) \<and> (\<forall>i < length es. evId (envs ! i) = EventID n (s + of_nat (Suc i)))"
proof (induction es arbitrary: s clk envs s' clk')
  case (Cons e es)
  obtain env envs1 where env: "newEnvelope (EventID n (s + 1)) (whTick clk now n) (unixMilli now) cause e = Inr env"
    and rest: "seal n now cause (s + 1) (whTick clk now n) es = Inr (envs1, s', clk')" and envs: "envs = env # envs1"
    using Cons.prems by (auto simp: Let_def split: sum.splits)
  from Cons.IH [OF rest] newEnvelope_fields [OF env] show ?case
    by (auto simp: envs nth_Cons' less_Suc_eq_0_disj algebra_simps)
qed simp

lemma seal_clocks:
  assumes "seal n now cause s clk es = Inr (envs, s', clk')"
    and "sint (Wall clk) \<le> b" "sint now \<le> b" "b + int (length es) < maxInt64"
  shows "sorted_wrt (\<lambda>x y. stampOf (evHLC x) < stampOf (evHLC y)) envs \<and>
    (\<forall>e \<in> set envs. stampOf clk < stampOf (evHLC e) \<and> stampOf (evHLC e) \<le> stampOf clk') \<and>
    stampOf clk \<le> stampOf clk' \<and> sint (Wall clk') \<le> b + int (length es)"
  using assms
proof (induction es arbitrary: s clk envs s' clk' b)
  case (Cons e es)
  let ?clk = "whTick clk now n"
  obtain env envs1 where env: "newEnvelope (EventID n (s + 1)) ?clk (unixMilli now) cause e = Inr env"
    and rest: "seal n now cause (s + 1) ?clk es = Inr (envs1, s', clk')" and envs: "envs = env # envs1"
    using Cons.prems(1) by (auto simp: Let_def split: sum.splits)
  have "bumpable clk" using Cons.prems by (auto intro!: bumpable_early)
  note above = stampOf_tick [OF this, of now n]
  have wall: "sint (Wall ?clk) \<le> b + 1" using Cons.prems by (intro wall_tick) simp_all
  have "evHLC env = ?clk" using newEnvelope_fields [OF env] by simp
  with Cons.IH [OF rest wall] above Cons.prems(3,4) show ?case
    by (auto simp: envs intro: less_trans less_imp_le)
qed simp

section \<open>What a restart reads\<close>

lemma foldl_pick:
  fixes key :: "'a \<Rightarrow> 'k :: preorder"
  assumes p: "\<And>a b. p a b \<in> {a, b} \<and> key a \<le> key (p a b) \<and> key b \<le> key (p a b)"
  shows "foldl p x xs \<in> insert x (set xs) \<and> (\<forall>y \<in> insert x (set xs). key y \<le> key (foldl p x xs))"
proof (induction xs arbitrary: x)
  case (Cons y ys)
  obtain z where z: "z = p x y" by simp
  have "z \<in> {x, y}" "key x \<le> key z" "key y \<le> key z" using p [of x y] by (simp_all add: z)
  moreover have "foldl p z ys \<in> insert z (set ys)" "key z \<le> key (foldl p z ys)" "\<forall>w \<in> set ys. key w \<le> key (foldl p z ys)"
    using Cons.IH [of z] by simp_all
  ultimately show ?case by (auto simp flip: z intro: order_trans)
qed simp

lemma foldl_whmax_ge: "foldl max a xs \<in> insert a (set xs) \<and> (\<forall>x \<in> insert a (set xs). (x :: 'a :: linorder) \<le> foldl max a xs)"
  by (rule foldl_pick) (auto simp: max_def)

lemma highestSeq_ge: "fmlookup rows i = Some r \<Longrightarrow> idNode i = n \<Longrightarrow> idSeq i \<le> whHighestSeq rows n"
  unfolding whHighestSeq_def by (rule conjunct2 [OF foldl_whmax_ge, rule_format])
    (force simp: set_sorted_list_of_fmap)

lemma highestSeq_in:
  assumes "whHighestSeq rows n \<noteq> 0"
  obtains i r where "fmlookup rows i = Some r" "idNode i = n" "idSeq i = whHighestSeq rows n"
proof -
  have "whHighestSeq rows n \<in> insert 0 (set (map (\<lambda>(i, _). idSeq i) (filter (\<lambda>(i, _). idNode i = n) (sorted_list_of_fmap rows))))"
    unfolding whHighestSeq_def using foldl_whmax_ge by blast
  with assms that show thesis by (auto simp: set_sorted_list_of_fmap)
qed

lemma lastRow_in:
  "lastRow rows = Some r \<Longrightarrow> (\<exists>i. fmlookup rows i = Some r) \<and> (\<forall>i x. fmlookup rows i = Some x \<longrightarrow> rowStamp x \<le> rowStamp r)"
proof -
  let ?pick = "\<lambda>a b. if rowStamp a < rowStamp b then b else a"
  have fold: "foldl ?pick x xs \<in> insert x (set xs) \<and> (\<forall>y \<in> insert x (set xs). rowStamp y \<le> rowStamp (foldl ?pick x xs))"
    for x and xs :: "wh_row list"
    by (rule foldl_pick) auto
  assume "lastRow rows = Some r"
  then obtain x xs where xs: "map snd (sorted_list_of_fmap rows) = x # xs" and r: "r = foldl ?pick x xs"
    by (auto simp: lastRow_def split: list.splits)
  have "insert x (set xs) = snd ` set (sorted_list_of_fmap rows)" using xs by (metis list.set(2) list.set_map)
  then have "y \<in> insert x (set xs) \<longleftrightarrow> (\<exists>i. fmlookup rows i = Some y)" for y
    using set_sorted_list_of_fmap [of _ y rows] by (auto simp: image_iff Bex_def)
  then show ?thesis using fold [of x xs] unfolding r by blast
qed

lemma lastRow_None: "lastRow rows = None \<longleftrightarrow> rows = fmempty"
proof
  assume "lastRow rows = None"
  then have "sorted_list_of_fmap rows = []" by (cases "sorted_list_of_fmap rows") (simp_all add: lastRow_def)
  then show "rows = fmempty" using set_sorted_list_of_fmap [of _ _ rows] by (intro fmap_ext) (force simp: not_Some_eq)
qed (simp add: lastRow_def)

section \<open>The log's invariant\<close>

text \<open>No row of this node is above the counter, and no row is later than the clock.\<close>

definition rowOk :: "wh_log \<Rightarrow> event_id \<Rightarrow> wh_row \<Rightarrow> bool" where
  "rowOk l i r \<longleftrightarrow> fitsInt64 (idSeq i) \<and> (idNode i = wlNode l \<longrightarrow> idSeq i \<le> wlSeq l) \<and> rowStamp r \<le> stampOf (wlClock l)"

definition whLogOk :: "wh_log \<Rightarrow> bool" where
  "whLogOk l \<longleftrightarrow> fitsInt64 (wlSeq l) \<and> (\<forall>i r. fmlookup (whRows (wlDb l)) i = Some r \<longrightarrow> rowOk l i r)"

lemma rowStamp_env [simp]: "rowStamp (rowOfEnv e) = stampOf (evHLC e)"
  by (simp add: rowStamp_def rowOfEnv_def stampOf_def)

lemma storeEnvs_cases:
  assumes "fmlookup (storeEnvs rows es) i = Some r"
  obtains (old) "fmlookup rows i = Some r" | (new) e where "e \<in> set es" "evId e = i" "r = rowOfEnv e"
  using assms by (auto simp: storeEnvs_lookup find_Some_iff split: option.splits) (metis nth_mem)

lemma whOpen_ok:
  assumes "\<forall>i r. fmlookup (whRows db) i = Some r \<longrightarrow> fitsInt64 (idSeq i)"
  shows "whLogOk (whOpen db n)"
proof -
  have "fitsInt64 (whHighestSeq (whRows db) n)"
    using assms highestSeq_in [of "whRows db" n] by (cases "whHighestSeq (whRows db) n = 0") (simp, metis)
  moreover have "rowStamp r \<le> stampOf (wlClock (whOpen db n))" if "fmlookup (whRows db) i = Some r" for i r
  proof (cases "lastRow (whRows db)")
    case None
    with that show ?thesis by (simp add: lastRow_None)
  next
    case (Some x)
    with lastRow_in [OF Some] that show ?thesis
      by (simp add: whOpen_def stampOf_def rowStamp_def)
  qed
  ultimately show ?thesis
    using assms by (auto simp: whLogOk_def rowOk_def whOpen_def highestSeq_ge)
qed

lemma whReopen:
  assumes "whLogOk l"
  shows "whLogOk (whOpen (wlDb l) (wlNode l))" "wlSeq (whOpen (wlDb l) (wlNode l)) \<le> wlSeq l"
    "0 \<le> b \<Longrightarrow> sint (Wall (wlClock l)) \<le> b \<Longrightarrow> sint (Wall (wlClock (whOpen (wlDb l) (wlNode l)))) \<le> b"
proof -
  let ?rows = "whRows (wlDb l)"
  show "whLogOk (whOpen (wlDb l) (wlNode l))"
    using assms by (intro whOpen_ok) (auto simp: whLogOk_def rowOk_def)
  show "wlSeq (whOpen (wlDb l) (wlNode l)) \<le> wlSeq l"
  proof (cases "whHighestSeq ?rows (wlNode l) = 0")
    case False
    then obtain i r where "fmlookup ?rows i = Some r" "idNode i = wlNode l" "idSeq i = whHighestSeq ?rows (wlNode l)"
      by (rule highestSeq_in)
    with assms show ?thesis by (force simp: whLogOk_def rowOk_def whOpen_def)
  qed (simp add: whOpen_def)
  show "sint (Wall (wlClock (whOpen (wlDb l) (wlNode l)))) \<le> b" if "0 \<le> b" "sint (Wall (wlClock l)) \<le> b"
  proof (cases "lastRow ?rows")
    case None
    with that show ?thesis by (simp add: whOpen_def)
  next
    case (Some x)
    then obtain i where "fmlookup ?rows i = Some x" using lastRow_in by blast
    with assms have "rowStamp x \<le> stampOf (wlClock l)" by (auto simp: whLogOk_def rowOk_def)
    with that Some show ?thesis by (auto simp: whOpen_def rowStamp_def stampOf_def less_eq_prod_def)
  qed
qed

lemma setWhRows_simps [simp]:
  "wlDb (setWhRows rows l) = (wlDb l)\<lparr>whRows := rows\<rparr>" "wlNode (setWhRows rows l) = wlNode l"
  "wlSeq (setWhRows rows l) = wlSeq l" "wlClock (setWhRows rows l) = wlClock l"
  by (simp_all add: setWhRows_def)

lemma whIngest_eq:
  assumes "whInsert f True (whRows (wlDb l)) es = Inr (m, rows)"
  shows "whIngest f now es l = (Inr m, (setWhRows rows l)\<lparr>wlSeq := max (wlSeq l) (whHighestSeq rows (wlNode l)),
    wlClock := foldl (\<lambda>c e. whMerge c (evHLC e) now (wlNode l)) (wlClock l) es\<rparr>)"
  using assms by (auto simp: whIngest_def Let_def max_def)

lemma whIngest_ok:
  assumes ok: "whLogOk l" and b: "sint (Wall (wlClock l)) \<le> b" "sint now \<le> b"
    "list_all (\<lambda>e. sint (Wall (evHLC e)) \<le> b) es" "b + int (length es) < maxInt64"
    and res: "whIngest f now es l = (res, l')"
  shows "whLogOk l' \<and> wlNode l' = wlNode l \<and> sint (Wall (wlClock l')) \<le> b + int (length es) \<and>
    wlSeq l \<le> wlSeq l' \<and> stampOf (wlClock l) \<le> stampOf (wlClock l') \<and>
    (\<forall>i r. fmlookup (whRows (wlDb l)) i = Some r \<longrightarrow> fmlookup (whRows (wlDb l')) i = Some r)"
proof (cases "whInsert f True (whRows (wlDb l)) es")
  case (Inl e)
  with res b ok show ?thesis by (auto simp: whIngest_def Let_def)
next
  case (Inr r)
  obtain m rows where r: "r = (m, rows)" by (cases r)
  have rows: "rows = storeEnvs (whRows (wlDb l)) es" and sent: "list_all (\<lambda>e. \<not> rowRefused e) es"
    using insertLoop_Inr [OF whInsert_Inr [OF Inr [unfolded r]]] by blast+
  let ?clk = "foldl (\<lambda>c e. whMerge c (evHLC e) now (wlNode l)) (wlClock l) es"
  let ?s = "whHighestSeq rows (wlNode l)"
  have l': "l' = (setWhRows rows l)\<lparr>wlSeq := max (wlSeq l) ?s, wlClock := ?clk\<rparr>"
    using res whIngest_eq [OF Inr [unfolded r]] by simp
  have clk: "stampOf (wlClock l) \<le> stampOf ?clk" "sint (Wall ?clk) \<le> b + int (length es)"
    "\<And>e. e \<in> set es \<Longrightarrow> stampOf (evHLC e) \<le> stampOf ?clk"
    using foldl_merge [OF b, of "wlNode l"] less_imp_le by blast+
  have fit: "fitsInt64 (idSeq i)" if "fmlookup rows i = Some x" for i x
  proof -
    from that rows have "fmlookup (storeEnvs (whRows (wlDb l)) es) i = Some x" by simp
    then show ?thesis
    proof (cases rule: storeEnvs_cases)
      case old
      then show ?thesis using ok by (auto simp: whLogOk_def rowOk_def)
    next
      case (new e)
      then show ?thesis using sent by (auto simp: rowRefused_def list_all_iff)
    qed
  qed
  have "fitsInt64 ?s" using fit highestSeq_in [of rows "wlNode l"] by (cases "?s = 0") (simp, metis)
  moreover have "rowStamp x \<le> stampOf ?clk" if "fmlookup rows i = Some x" for i x
  proof -
    from that rows have "fmlookup (storeEnvs (whRows (wlDb l)) es) i = Some x" by simp
    then show ?thesis
    proof (cases rule: storeEnvs_cases)
      case old
      then have "rowStamp x \<le> stampOf (wlClock l)" using ok by (auto simp: whLogOk_def rowOk_def)
      then show ?thesis using clk(1) by (rule order_trans)
    next
      case (new e)
      with clk(3) show ?thesis by simp
    qed
  qed
  moreover have "idSeq i \<le> max (wlSeq l) ?s" if "fmlookup rows i = Some x" "idNode i = wlNode l" for i x
    using highestSeq_ge [OF that] by (simp add: le_max_iff_disj)
  moreover have "fitsInt64 (wlSeq l)" using ok by (simp add: whLogOk_def)
  ultimately have "whLogOk l'" using fit by (simp add: l' whLogOk_def rowOk_def) (simp add: max_def)
  moreover have "fmlookup rows i = Some x" if "fmlookup (whRows (wlDb l)) i = Some x" for i x
    using that by (simp add: rows storeEnvs_lookup)
  ultimately show ?thesis using clk by (simp add: l')
qed

section \<open>Runs\<close>

text \<open>A crash at any point is a fault of the transaction under way, if any, followed by a reopening.\<close>

datatype wh_log_op =
    LogEmit db_fault int64 "event_id option" "wh_event list"
  | LogIngest db_fault int64 "envelope list"
  | LogReopen

definition okOrNil :: "'e + 'a list \<Rightarrow> 'a list" where
  "okOrNil r = (case r of Inl _ \<Rightarrow> [] | Inr xs \<Rightarrow> xs)"

fun logStep :: "wh_log_op \<Rightarrow> wh_log \<Rightarrow> envelope list \<times> wh_log" where
  "logStep (LogEmit f now cause es) l = (let (r, l) = whEmit f now cause es l in (okOrNil r, l))"
| "logStep (LogIngest f now es) l = ([], snd (whIngest f now es l))"
| "logStep LogReopen l = ([], whOpen (wlDb l) (wlNode l))"

text \<open>The envelopes emitted on the way, and the log at the end.\<close>

fun runLog :: "wh_log_op list \<Rightarrow> wh_log \<Rightarrow> envelope list \<times> wh_log" where
  "runLog [] l = ([], l)"
| "runLog (p # ps) l = (let (em, l) = logStep p l; (ems, l) = runLog ps l in (em @ ems, l))"

text \<open>Wall times far from the end of their range, and the readings an operation takes.\<close>

fun earlyOp :: "wh_log_op \<Rightarrow> bool" where
  "earlyOp (LogEmit _ now _ _) \<longleftrightarrow> sint now < 2 ^ 62"
| "earlyOp (LogIngest _ now es) \<longleftrightarrow> sint now < 2 ^ 62 \<and> list_all (\<lambda>e. sint (Wall (evHLC e)) < 2 ^ 62) es"
| "earlyOp LogReopen \<longleftrightarrow> True"

fun opCost :: "wh_log_op \<Rightarrow> nat" where
  "opCost (LogEmit _ _ _ es) = length es"
| "opCost (LogIngest _ _ es) = length es"
| "opCost LogReopen = 0"

definition runCost :: "wh_log_op list \<Rightarrow> nat" where
  "runCost ps = sum_list (map opCost ps)"

definition later :: "envelope \<Rightarrow> envelope \<Rightarrow> bool" where
  "later a b \<longleftrightarrow> idSeq (evId a) < idSeq (evId b) \<and> stampOf (evHLC a) < stampOf (evHLC b)"

lemma fits_chain:
  assumes "fitsInt64 s" "\<forall>i < k. fitsInt64 (s + of_nat (Suc i))"
  shows "uint (s + of_nat k) = uint s + int k"
  using assms(2)
proof (induction k)
  case (Suc k)
  then have IH: "uint (s + of_nat k) = uint s + int k" by simp
  have "fitsInt64 (s + of_nat k)"
  proof (cases k)
    case 0
    with assms(1) show ?thesis by simp
  next
    case (Suc j)
    with Suc.prems show ?thesis by (metis lessI less_SucI)
  qed
  then have "uint (s + of_nat k) + 1 < 2 ^ LENGTH(64)" by (simp add: fitsInt64_def)
  then have "uint (s + of_nat k + 1) = uint (s + of_nat k) + 1"
    using uint_plus_if' [of "s + of_nat k" 1] by simp
  then show ?case using IH by (simp add: algebra_simps)
qed simp

lemma whEmit_Inr:
  assumes "whEmit f now cause es l = (Inr envs, l')"
  obtains s clk where "seal (wlNode l) now cause (wlSeq l) (wlClock l) es = Inr (envs, s, clk)"
    "l' = (setWhRows (storeEnvs (whRows (wlDb l)) envs) l)\<lparr>wlSeq := s, wlClock := clk\<rparr>"
    "list_all (\<lambda>e. \<not> rowRefused e) envs" "distinct (map evId envs)" "\<forall>e \<in> set envs. fmlookup (whRows (wlDb l)) (evId e) = None"
proof -
  obtain s clk where sl: "seal (wlNode l) now cause (wlSeq l) (wlClock l) es = Inr (envs, s, clk)"
    and i: "\<exists>m rows. whInsert f False (whRows (wlDb l)) envs = Inr (m, rows) \<and> l' = (setWhRows rows l)\<lparr>wlSeq := s, wlClock := clk\<rparr>"
    using assms by (auto simp: whEmit_def split: sum.splits)
  from i obtain m rows where ins: "whInsert f False (whRows (wlDb l)) envs = Inr (m, rows)"
    and l': "l' = (setWhRows rows l)\<lparr>wlSeq := s, wlClock := clk\<rparr>" by blast
  from insertLoop_Inr [OF whInsert_Inr [OF ins]] sl l' that show thesis by auto
qed

lemma whEmit_Inl: "whEmit f now cause es l = (Inl e, l') \<Longrightarrow> l' = l"
  by (auto simp: whEmit_def split: sum.splits)

lemma whEmit_ok:
  assumes ok: "whLogOk l" and b: "sint (Wall (wlClock l)) \<le> b" "sint now \<le> b" "b + int (length es) < maxInt64"
    and res: "whEmit f now cause es l = (Inr envs, l')"
  shows "whLogOk l' \<and> wlNode l' = wlNode l \<and> sint (Wall (wlClock l')) \<le> b + int (length es) \<and>
    sorted_wrt later envs \<and>
    (\<forall>e \<in> set envs. idNode (evId e) = wlNode l \<and> wlSeq l < idSeq (evId e) \<and> stampOf (wlClock l) < stampOf (evHLC e) \<and>
       fmlookup (whRows (wlDb l')) (evId e) = Some (rowOfEnv e)) \<and>
    (\<forall>i r. fmlookup (whRows (wlDb l)) i = Some r \<longrightarrow> fmlookup (whRows (wlDb l')) i = Some r)"
proof -
  from whEmit_Inr [OF res] obtain s clk where
    sl: "seal (wlNode l) now cause (wlSeq l) (wlClock l) es = Inr (envs, s, clk)"
    and l': "l' = (setWhRows (storeEnvs (whRows (wlDb l)) envs) l)\<lparr>wlSeq := s, wlClock := clk\<rparr>"
    and sent: "list_all (\<lambda>e. \<not> rowRefused e) envs" and dist: "distinct (map evId envs)"
    and new: "\<forall>e \<in> set envs. fmlookup (whRows (wlDb l)) (evId e) = None" by blast
  have len: "length envs = length es" and s: "s = wlSeq l + of_nat (length es)"
    and ids: "\<And>i. i < length es \<Longrightarrow> evId (envs ! i) = EventID (wlNode l) (wlSeq l + of_nat (Suc i))"
    using seal_ids [OF sl] by auto
  have srt: "sorted_wrt (\<lambda>x y. stampOf (evHLC x) < stampOf (evHLC y)) envs"
    and above: "\<And>e. e \<in> set envs \<Longrightarrow> stampOf (wlClock l) < stampOf (evHLC e) \<and> stampOf (evHLC e) \<le> stampOf clk"
    and clk: "stampOf (wlClock l) \<le> stampOf clk" "sint (Wall clk) \<le> b + int (length es)"
    using seal_clocks [OF sl b] by auto
  have fits0: "fitsInt64 (wlSeq l)" using ok by (simp add: whLogOk_def)
  have fits: "fitsInt64 (wlSeq l + of_nat (Suc i))" if "i < length es" for i
  proof -
    have "\<not> rowRefused (envs ! i)" using sent that len by (simp add: list_all_length)
    then show ?thesis using ids [OF that] by (simp add: rowRefused_def)
  qed
  have seq: "uint (wlSeq l + of_nat k) = uint (wlSeq l) + int k" if "k \<le> length es" for k
    using that fits by (intro fits_chain [OF fits0]) auto
  have fit: "fitsInt64 (wlSeq l + of_nat k)" if "k \<le> length es" for k
    using that fits fits0 by (cases k) auto
  have sorted: "sorted_wrt later envs"
    unfolding sorted_wrt_iff_nth_less
  proof (intro allI impI)
    fix i j
    assume "i < j" "j < length envs"
    then have "stampOf (evHLC (envs ! i)) < stampOf (evHLC (envs ! j))"
      using srt by (simp add: sorted_wrt_iff_nth_less)
    moreover have "wlSeq l + of_nat (Suc i) < wlSeq l + of_nat (Suc j)"
      using seq [of "Suc i"] seq [of "Suc j"] \<open>i < j\<close> \<open>j < length envs\<close> len unfolding word_less_alt by simp
    ultimately show "later (envs ! i) (envs ! j)"
      using ids [of i] ids [of j] \<open>i < j\<close> \<open>j < length envs\<close> len by (simp add: later_def)
  qed
  have each: "idNode (evId e) = wlNode l \<and> wlSeq l < idSeq (evId e) \<and> idSeq (evId e) \<le> s \<and> fitsInt64 (idSeq (evId e))"
    if e: "e \<in> set envs" for e
  proof -
    obtain i where i: "i < length es" "e = envs ! i" using e len by (metis in_set_conv_nth)
    moreover have "wlSeq l < wlSeq l + of_nat (Suc i)" using seq [of "Suc i"] i unfolding word_less_alt by simp
    moreover have "wlSeq l + of_nat (Suc i) \<le> s" using seq [of "Suc i"] seq [of "length es"] i unfolding word_le_def s by simp
    ultimately show ?thesis using ids [OF i(1)] fit [of "Suc i"] by simp
  qed
  have "rowOk l' i r" if "fmlookup (storeEnvs (whRows (wlDb l)) envs) i = Some r" for i r
    using that
  proof (cases rule: storeEnvs_cases)
    case old
    have "wlSeq l \<le> s" using seq [of "length es"] unfolding word_le_def s by simp
    then show ?thesis using ok old clk(1) unfolding whLogOk_def rowOk_def l' by (fastforce intro: order_trans)
  next
    case (new e)
    then show ?thesis using each above by (auto simp: rowOk_def l')
  qed
  then have "whLogOk l'" using fit [of "length es"] by (simp add: whLogOk_def l' s)
  moreover have "fmlookup (storeEnvs (whRows (wlDb l)) envs) (evId e) = Some (rowOfEnv e)" if e: "e \<in> set envs" for e
  proof -
    have "find (\<lambda>x. evId x = evId e) envs = Some e"
      using e dist by (induction envs) (auto simp: image_iff)
    then show ?thesis using new e by (simp add: storeEnvs_lookup)
  qed
  ultimately show ?thesis
    using sorted each above clk by (simp add: l' storeEnvs_lookup)
qed

text \<open>What an operation, and then a run, does to a log that satisfies the invariant: rows stay, and an
  emitted envelope is stored and later than every row of this node there was.\<close>

definition keepsRows :: "wh_log \<Rightarrow> wh_log \<Rightarrow> bool" where
  "keepsRows l l' \<longleftrightarrow> (\<forall>i r. fmlookup (whRows (wlDb l)) i = Some r \<longrightarrow> fmlookup (whRows (wlDb l')) i = Some r)"

definition emittedAfter :: "wh_log \<Rightarrow> wh_log \<Rightarrow> envelope \<Rightarrow> bool" where
  "emittedAfter l l' e \<longleftrightarrow> idNode (evId e) = wlNode l \<and> fmlookup (whRows (wlDb l')) (evId e) = Some (rowOfEnv e) \<and>
     (\<forall>i r. fmlookup (whRows (wlDb l)) i = Some r \<longrightarrow>
        rowStamp r < stampOf (evHLC e) \<and> (idNode i = wlNode l \<longrightarrow> idSeq i < idSeq (evId e)))"

definition goodStep :: "int \<Rightarrow> wh_log \<Rightarrow> envelope list \<times> wh_log \<Rightarrow> bool" where
  "goodStep b l res \<longleftrightarrow> (case res of (em, l') \<Rightarrow> whLogOk l' \<and> wlNode l' = wlNode l \<and> sint (Wall (wlClock l')) \<le> b \<and>
     sorted_wrt later em \<and> keepsRows l l' \<and> (\<forall>e \<in> set em. emittedAfter l l' e))"

lemma logStep_good:
  assumes "whLogOk l" "sint (Wall (wlClock l)) \<le> b" "2 ^ 62 \<le> b" "b + int (opCost p) < maxInt64" "earlyOp p"
  shows "goodStep (b + int (opCost p)) l (logStep p l)"
proof (cases p)
  case (LogEmit f now cause es)
  have b: "sint now \<le> b" "b + int (length es) < maxInt64" using assms(3,4,5) LogEmit by auto
  obtain r l' where res: "whEmit f now cause es l = (r, l')" by (cases "whEmit f now cause es l")
  show ?thesis
  proof (cases r)
    case (Inl e)
    with whEmit_Inl [of f now cause es l e] res have "l' = l" by simp
    with assms(1,2) show ?thesis by (simp add: LogEmit res Inl okOrNil_def goodStep_def keepsRows_def)
  next
    case (Inr envs)
    note ok = whEmit_ok [OF assms(1,2) b res [unfolded Inr]]
    have "emittedAfter l l' e" if "e \<in> set envs" for e
    proof -
      have "rowStamp x \<le> stampOf (wlClock l)" "idNode i = wlNode l \<Longrightarrow> idSeq i \<le> wlSeq l"
        if "fmlookup (whRows (wlDb l)) i = Some x" for i x
        using assms(1) that by (auto simp: whLogOk_def rowOk_def)
      with ok that show ?thesis unfolding emittedAfter_def by (meson le_less_trans)
    qed
    with ok show ?thesis by (simp add: LogEmit res Inr okOrNil_def goodStep_def keepsRows_def)
  qed
next
  case (LogIngest f now es)
  have b: "sint now \<le> b" "list_all (\<lambda>e. sint (Wall (evHLC e)) \<le> b) es" "b + int (length es) < maxInt64"
    using assms(3,4,5) LogIngest by (auto simp: list_all_iff)
  obtain r l' where res: "whIngest f now es l = (r, l')" by (cases "whIngest f now es l")
  from whIngest_ok [OF assms(1,2) b res] show ?thesis
    by (simp add: LogIngest res goodStep_def keepsRows_def)
next
  case LogReopen
  with whReopen(1) [OF assms(1)] whReopen(3) [OF assms(1), of b] assms(2,3) show ?thesis
    by (simp add: goodStep_def keepsRows_def whOpen_def)
qed

lemma runLog_good:
  "whLogOk l \<Longrightarrow> sint (Wall (wlClock l)) \<le> b \<Longrightarrow> 2 ^ 62 \<le> b \<Longrightarrow> b + int (runCost ps) < maxInt64 \<Longrightarrow>
   list_all earlyOp ps \<Longrightarrow> goodStep (b + int (runCost ps)) l (runLog ps l)"
proof (induction ps arbitrary: l b)
  case Nil
  then show ?case by (simp add: goodStep_def runCost_def keepsRows_def)
next
  case (Cons p ps)
  obtain em l1 where s1: "logStep p l = (em, l1)" by (cases "logStep p l")
  obtain ems l2 where s2: "runLog ps l1 = (ems, l2)" by (cases "runLog ps l1")
  have cost: "runCost (p # ps) = opCost p + runCost ps" by (simp add: runCost_def)
  have g1: "goodStep (b + int (opCost p)) l (em, l1)"
    using logStep_good [of l b p] Cons.prems by (simp add: s1 cost)
  then have "goodStep (b + int (opCost p) + int (runCost ps)) l1 (ems, l2)"
    using Cons.IH [of l1 "b + int (opCost p)"] Cons.prems by (simp add: s2 cost goodStep_def)
  moreover have "later x y" if "emittedAfter l l1 x" "emittedAfter l1 l2 y" "wlNode l1 = wlNode l" for x y
    using that by (fastforce simp: emittedAfter_def later_def simp flip: rowStamp_env)
  moreover have "emittedAfter l l2 x" if "emittedAfter l l1 x" "keepsRows l1 l2" for x
    using that by (simp add: emittedAfter_def keepsRows_def)
  moreover have "emittedAfter l l2 x" if "emittedAfter l1 l2 x" "keepsRows l l1" "wlNode l1 = wlNode l" for x
    using that unfolding emittedAfter_def keepsRows_def by metis
  ultimately show ?case
    using g1 by (auto simp: goodStep_def s1 s2 cost sorted_wrt_append keepsRows_def algebra_simps)
qed

lemma whOpen_schema: "whLogOk (whOpen whSchema n)" "sint (Wall (wlClock (whOpen whSchema n))) \<le> 2 ^ 62" "wlNode (whOpen whSchema n) = n"
  by (rule whOpen_ok) (simp_all add: whSchema_def whOpen_def lastRow_def)

lemma runLog_fresh:
  assumes "list_all earlyOp ops" "int (runCost ops) < 2 ^ 61"
  shows "goodStep (2 ^ 62 + int (runCost ops)) (whOpen whSchema n) (runLog ops (whOpen whSchema n))"
  using assms whOpen_schema [of n] by (intro runLog_good) simp_all


section \<open>When an emission succeeds\<close>

text \<open>What \<open>NewEnvelope\<close> accepts, and what the database then stores.\<close>

definition sealable :: "wh_event \<Rightarrow> bool" where
  "sealable e \<longleftrightarrow> weType e = payloadType (wePayload e) \<and> payloadFin (wePayload e)"

definition emitReady :: "db_fault \<Rightarrow> event_id option \<Rightarrow> wh_event list \<Rightarrow> wh_log \<Rightarrow> bool" where
  "emitReady f cause es l \<longleftrightarrow> (f = DbOk \<or> f = FailInsert \<and> es = []) \<and> list_all sealable es \<and>
     (es = [] \<or> wlNode l \<noteq> [] \<and> uint (wlSeq l) + int (length es) \<le> maxInt64 \<and>
        (case cause of None \<Rightarrow> True | Some c \<Rightarrow> fitsInt64 (idSeq c)))"

lemma newEnvelope_iff: "(\<exists>env. newEnvelope i h t c e = Inr env) \<longleftrightarrow> sealable e"
proof -
  have "payloadType p \<in> set payloadTypes" for p by (cases p) (simp_all add: payloadTypes_def)
  then show ?thesis using marshalWh_iff [of "wePayload e"]
    by (auto simp: newEnvelope_def sealable_def split: option.splits)
qed

lemma seal_iff: "(\<exists>r. seal n now c s clk es = Inr r) \<longleftrightarrow> list_all sealable es"
proof (induction es arbitrary: s clk)
  case (Cons e es)
  show ?case
  proof (cases "newEnvelope (EventID n (s + 1)) (whTick clk now n) (unixMilli now) c e")
    case (Inl err)
    with newEnvelope_iff [of "EventID n (s + 1)" "whTick clk now n" "unixMilli now" c e] show ?thesis
      by (simp add: Let_def)
  next
    case (Inr env)
    with newEnvelope_iff [of "EventID n (s + 1)" "whTick clk now n" "unixMilli now" c e]
      Cons.IH [of "s + 1" "whTick clk now n"] show ?thesis
      by (cases "seal n now c (s + 1) (whTick clk now n) es") (auto simp: Let_def)
  qed
qed simp

lemma seal_payloads:
  "seal n now c s clk es = Inr (envs, s', clk') \<Longrightarrow>
   list_all (\<lambda>e. evCausation e = c \<and> evPayload e \<noteq> NilBytes) envs \<and>
   (list_all (\<lambda>e. payloadF64 (wePayload e)) es \<longrightarrow> map decodePayload envs = map (\<lambda>e. Inr (wePayload e)) es)"
proof (induction es arbitrary: s clk envs s' clk')
  case (Cons e es)
  obtain env envs1 where env: "newEnvelope (EventID n (s + 1)) (whTick clk now n) (unixMilli now) c e = Inr env"
    and rest: "seal n now c (s + 1) (whTick clk now n) es = Inr (envs1, s', clk')" and envs: "envs = env # envs1"
    using Cons.prems by (auto simp: Let_def split: sum.splits)
  have "evPayload env \<noteq> NilBytes" using env by (auto simp: newEnvelope_def split: if_splits option.splits)
  with Cons.IH [OF rest] newEnvelope_fields [OF env] newEnvelope_decode [OF env] show ?case
    by (auto simp: envs)
qed simp

lemma uint_add_of_nat: "uint s + int k \<le> maxInt64 \<Longrightarrow> uint ((s :: uint64) + of_nat k) = uint s + int k"
proof -
  assume "uint s + int k \<le> maxInt64"
  moreover have "s + of_nat k = word_of_int (uint s + int k)" by simp
  ultimately show ?thesis using uint64_of_int [of "uint s + int k"] by simp
qed

lemma emitReady_Inr:
  assumes ok: "whLogOk l" and ready: "emitReady f cause es l"
  shows "\<exists>envs l'. whEmit f now cause es l = (Inr envs, l')"
proof -
  obtain envs s clk where sl: "seal (wlNode l) now cause (wlSeq l) (wlClock l) es = Inr (envs, s, clk)"
    using ready seal_iff [of "wlNode l" now cause "wlSeq l" "wlClock l" es] by (auto simp: emitReady_def)
  have len: "length envs = length es"
    and ids: "\<And>i. i < length es \<Longrightarrow> evId (envs ! i) = EventID (wlNode l) (wlSeq l + of_nat (Suc i))"
    using seal_ids [OF sl] by auto
  have seq: "uint (wlSeq l + of_nat (Suc i)) = uint (wlSeq l) + int (Suc i)" if "i < length es" for i
    using that ready by (intro uint_add_of_nat) (auto simp: emitReady_def)
  have bound: "uint (wlSeq l) + int (Suc i) \<le> maxInt64" if "i < length es" for i
    using that ready by (auto simp: emitReady_def)
  have "\<not> rowRefused e \<and> fmlookup (whRows (wlDb l)) (evId e) = None" if e: "e \<in> set envs" for e
  proof -
    obtain i where i: "i < length es" "e = envs ! i" using e len by (metis in_set_conv_nth)
    then have "es \<noteq> []" by auto
    then have n: "wlNode l \<noteq> []" "case cause of None \<Rightarrow> True | Some c \<Rightarrow> fitsInt64 (idSeq c)"
      using ready by (auto simp: emitReady_def)
    have pos: "0 < uint (wlSeq l + of_nat (Suc i))"
      unfolding seq [OF i(1)] using uint_ge_0 [of "wlSeq l"] by linarith
    have fit: "fitsInt64 (wlSeq l + of_nat (Suc i))"
      using bound [OF i(1)] unfolding fitsInt64_def seq [OF i(1)] .
    from pos have nz: "wlSeq l + of_nat (Suc i) \<noteq> 0" by (metis less_irrefl unsigned_0)
    have "evCausation e = cause" "evPayload e \<noteq> NilBytes" using seal_payloads [OF sl] e by (auto simp: list_all_iff)
    with n fit nz have "\<not> rowRefused e"
      unfolding rowRefused_def i(2) ids [OF i(1)] by (auto split: option.splits)
    moreover have "\<not> wlSeq l + of_nat (Suc i) \<le> wlSeq l" using seq [OF i(1)] unfolding word_le_def by linarith
    then have "fmlookup (whRows (wlDb l)) (evId e) = None"
      using ok unfolding whLogOk_def rowOk_def i(2) ids [OF i(1)] by (metis event_id.sel not_Some_eq)
    ultimately show ?thesis by blast
  qed
  moreover have "distinct (map evId envs)"
    unfolding distinct_conv_nth
  proof (intro allI impI)
    fix i j
    assume "i < length (map evId envs)" "j < length (map evId envs)" "i \<noteq> j"
    then have "uint (idSeq (evId (envs ! i))) \<noteq> uint (idSeq (evId (envs ! j)))" using ids seq len
      by (simp del: of_nat_Suc)
    then show "map evId envs ! i \<noteq> map evId envs ! j" using \<open>i < _\<close> \<open>j < _\<close> by auto
  qed
  moreover have "f = DbOk \<or> f = FailInsert \<and> envs = []" using ready len by (auto simp: emitReady_def)
  ultimately have "\<exists>m. insertLoop f False 0 (whRows (wlDb l)) envs = Inr (m, storeEnvs (whRows (wlDb l)) envs)"
    using insertLoop_fresh [of f envs "whRows (wlDb l)" False 0] by (auto simp: list_all_iff)
  moreover have "f \<noteq> FailBegin" "f \<noteq> FailCommit" using ready by (auto simp: emitReady_def)
  ultimately show ?thesis by (auto simp: whEmit_def sl whInsert_def)
qed

lemma emit_Inr_ready:
  assumes ok: "whLogOk l" and res: "whEmit f now cause es l = (Inr envs, l')"
  shows "emitReady f cause es l"
proof -
  from whEmit_Inr [OF res] obtain s clk where
    sl: "seal (wlNode l) now cause (wlSeq l) (wlClock l) es = Inr (envs, s, clk)"
    and sent: "list_all (\<lambda>e. \<not> rowRefused e) envs" by blast
  have len: "length envs = length es"
    and ids: "\<And>i. i < length es \<Longrightarrow> evId (envs ! i) = EventID (wlNode l) (wlSeq l + of_nat (Suc i))"
    using seal_ids [OF sl] by auto
  have fault: "f = DbOk \<or> f = FailInsert \<and> es = []"
  proof (cases f)
    case FailInsert
    with res sl have "envs = []" by (cases envs) (auto simp: whEmit_def whInsert_def)
    with FailInsert len show ?thesis by simp
  qed (use res sl in \<open>auto simp: whEmit_def whInsert_def split: sum.splits\<close>)
  have each: "fitsInt64 (wlSeq l + of_nat (Suc i)) \<and> wlNode l \<noteq> [] \<and>
      (case cause of None \<Rightarrow> True | Some c \<Rightarrow> fitsInt64 (idSeq c))" if "i < length es" for i
  proof -
    have "\<not> rowRefused (envs ! i)" "evCausation (envs ! i) = cause"
      using sent that len seal_payloads [OF sl] by (auto simp: list_all_length)
    then show ?thesis using ids [OF that] by (auto simp: rowRefused_def split: option.splits)
  qed
  have "uint (wlSeq l + of_nat (length es)) = uint (wlSeq l) + int (length es)"
    using ok each by (intro fits_chain) (auto simp: whLogOk_def)
  moreover have "fitsInt64 (wlSeq l + of_nat (length es))"
    using ok each [of "length es - 1"] by (cases "length es") (auto simp: whLogOk_def)
  ultimately have "uint (wlSeq l) + int (length es) \<le> maxInt64" by (simp add: fitsInt64_def)
  then show ?thesis
    using fault each [of 0] sl seal_iff [of "wlNode l" now cause "wlSeq l" "wlClock l" es]
    by (auto simp: emitReady_def)
qed

text \<open>
  C25. After any run, emitting a batch is all or nothing: it fails exactly when the database fails
  it, an event cannot be encoded or the numbers run out, and then nothing has changed; otherwise
  the batch got the next numbers in a row, which no row had, is stored whole and decodes to the
  events' payloads.
\<close>

theorem wh_emit_all_or_nothing:
  assumes "list_all earlyOp ops" "int (runCost ops) < 2 ^ 61" "list_all (\<lambda>e. payloadF64 (wePayload e)) es"
    and "runLog ops (whOpen whSchema n) = (em, l)"
  shows "case whEmit f now cause es l of
      (Inl _, l') \<Rightarrow> \<not> emitReady f cause es l \<and> l' = l
    | (Inr envs, l') \<Rightarrow> emitReady f cause es l \<and>
        map evId envs = map (\<lambda>i. EventID n (wlSeq l + of_nat (Suc i))) [0..<length es] \<and>
        wlSeq l' = wlSeq l + of_nat (length es) \<and>
        list_all (\<lambda>e. fmlookup (whRows (wlDb l)) (evId e) = None) envs \<and>
        whRows (wlDb l') = storeEnvs (whRows (wlDb l)) envs \<and>
        map decodePayload envs = map (\<lambda>e. Inr (wePayload e)) es"
proof -
  have ok: "whLogOk l" and node: "wlNode l = n"
    using runLog_fresh [OF assms(1,2), of n] by (simp_all add: assms(4) goodStep_def whOpen_schema)
  obtain r l' where res: "whEmit f now cause es l = (r, l')" by (cases "whEmit f now cause es l")
  show ?thesis
  proof (cases r)
    case (Inl e)
    then show ?thesis using res emitReady_Inr [OF ok, of f cause es now] whEmit_Inl [of f now cause es l e] by auto
  next
    case (Inr envs)
    from whEmit_Inr [OF res [unfolded Inr]] obtain s clk where
      sl: "seal (wlNode l) now cause (wlSeq l) (wlClock l) es = Inr (envs, s, clk)"
      and l': "l' = (setWhRows (storeEnvs (whRows (wlDb l)) envs) l)\<lparr>wlSeq := s, wlClock := clk\<rparr>"
      and new: "\<forall>e \<in> set envs. fmlookup (whRows (wlDb l)) (evId e) = None" by blast
    have "map evId envs = map (\<lambda>i. EventID n (wlSeq l + of_nat (Suc i))) [0..<length es]"
      using seal_ids [OF sl] by (intro nth_equalityI) (simp_all add: node)
    then show ?thesis
      using res Inr emit_Inr_ready [OF ok res [unfolded Inr]] seal_ids [OF sl] seal_payloads [OF sl] new assms(3)
      by (simp add: l' list_all_iff)
  qed
qed

definition demoLogOps :: "wh_log_op list" where
  "demoLogOps = [LogEmit DbOk 5 None [\<lparr>weType = ''CountClosed'', weAggregate = ''c'', wePayload = CountClosed ''c''\<rparr>],
     LogReopen, LogEmit FailCommit 9 None [\<lparr>weType = ''CountClosed'', weAggregate = ''c'', wePayload = CountClosed ''c''\<rparr>],
     LogEmit DbOk 3 None [\<lparr>weType = ''CountClosed'', weAggregate = ''d'', wePayload = CountClosed ''d''\<rparr>]]"

definition demoPicked :: wh_event where
  "demoPicked = \<lparr>weType = ''Picked'', weAggregate = ''w'', wePayload =
     Picked \<lparr>mSKU = ''w'', mLotID = [], mFrom = ''s'', mTo = External, mQty = fint 2\<rparr> []\<rparr>"


theorem wh_emit_all_or_nothing_demo:
  "case whEmit DbOk 8 None [demoPicked] (snd (runLog demoLogOps (whOpen whSchema ''n''))) of
     (Inl _, _) \<Rightarrow> False | (Inr envs, _) \<Rightarrow> map evId envs = [EventID ''n'' 3] \<and> map decodePayload envs = [Inr (wePayload demoPicked)]"
proof -
  obtain em l where em: "runLog demoLogOps (whOpen whSchema ''n'') = (em, l)" by force
  have "wlSeq (snd (runLog demoLogOps (whOpen whSchema ''n''))) = 2" by code_simp
  moreover have "emitReady DbOk None [demoPicked] (snd (runLog demoLogOps (whOpen whSchema ''n'')))" by code_simp
  ultimately have l: "wlSeq l = 2" "emitReady DbOk None [demoPicked] l" by (simp_all add: em)
  have "list_all earlyOp demoLogOps" "int (runCost demoLogOps) < 2 ^ 61" "list_all (\<lambda>e. payloadF64 (wePayload e)) [demoPicked]"
    by code_simp+
  from wh_emit_all_or_nothing [OF this em, where f = DbOk and now = 8 and cause = None] l show ?thesis
    by (auto simp: em split: prod.splits sum.splits)
qed

section \<open>Ingesting\<close>

text \<open>
  Ingesting a batch is all or nothing and reports how many events were new; delivering any
  part of the batch again, in any order and however often, adds nothing and changes neither what
  the log holds nor what it reads back.
\<close>

lemma wh_ingest_idempotent:
  assumes "set again \<subseteq> set es"
  shows "case whIngest f now es l of
      (Inl _, l1) \<Rightarrow> l1 = l
    | (Inr added, l1) \<Rightarrow> added + fcard (fmdom (whRows (wlDb l))) = fcard (fmdom (whRows (wlDb l1))) \<and>
        list_all (\<lambda>e. fmlookup (whRows (wlDb l1)) (evId e) \<noteq> None) es \<and>
        (case whIngest DbOk later_now again l1 of (Inl _, _) \<Rightarrow> False
         | (Inr added2, l2) \<Rightarrow> added2 = 0 \<and> wlDb l2 = wlDb l1 \<and> wlSeq l2 = wlSeq l1 \<and> whReadAll l2 = whReadAll l1)"
proof (cases "whInsert f True (whRows (wlDb l)) es")
  case (Inl e)
  then show ?thesis by (simp add: whIngest_def Let_def)
next
  case (Inr r)
  obtain m rows where r: "r = (m, rows)" by (cases r)
  have rows: "rows = storeEnvs (whRows (wlDb l)) es" and sent: "list_all (\<lambda>e. \<not> rowRefused e) es"
    and m: "m + fcard (fmdom (whRows (wlDb l))) = fcard (fmdom rows)"
    using insertLoop_Inr [OF whInsert_Inr [OF Inr [unfolded r]]] by simp_all
  have held: "fmlookup rows (evId e) \<noteq> None" if "e \<in> set es" for e
  proof (cases "find (\<lambda>x. evId x = evId e) es")
    case None
    with that show ?thesis by (auto simp: find_None_iff)
  qed (simp add: rows storeEnvs_lookup split: option.split)
  obtain l1 where one: "whIngest f now es l = (Inr m, l1)"
    and l1: "wlDb l1 = (wlDb l)\<lparr>whRows := rows\<rparr>" "wlNode l1 = wlNode l" "whHighestSeq rows (wlNode l) \<le> wlSeq l1"
    using whIngest_eq [OF Inr [unfolded r]] by simp
  have same: "storeEnvs rows again = rows" using held assms by (intro storeEnvs_known) blast
  have "list_all (\<lambda>e. \<not> rowRefused e) again" using sent assms by (auto simp: list_all_iff)
  then obtain m2 where m2: "insertLoop DbOk True 0 rows again = Inr (m2, rows)"
    using insertLoop_ignore [of DbOk again 0 rows] same by auto
  from insertLoop_Inr [OF m2] have "m2 = 0" by simp
  with m2 l1(1) have "whInsert DbOk True (whRows (wlDb l1)) again = Inr (0, rows)" by (simp add: whInsert_def)
  from whIngest_eq [OF this] l1
  have "\<exists>l2. whIngest DbOk later_now again l1 = (Inr 0, l2) \<and> wlDb l2 = wlDb l1 \<and> wlSeq l2 = wlSeq l1"
    by simp
  then show ?thesis
    using one l1(1) m held by (auto simp: whReadAll_def list_all_iff)
qed

section \<open>Reading back\<close>

definition envOrder :: "envelope \<Rightarrow> (int \<times> uint32) \<times> node_id \<times> event_id" where
  "envOrder e = (stampOf (evHLC e), NodeID (evHLC e), evId e)"

definition ingestAll :: "(int64 \<times> envelope list) list \<Rightarrow> wh_log \<Rightarrow> wh_log" where
  "ingestAll bs l = foldl (\<lambda>l (now, b). snd (whIngest DbOk now b l)) l bs"

lemma sort_key_mset:
  assumes "mset xs = mset ys" "inj_on f (set xs)"
  shows "sort_key f xs = sort_key f ys"
proof (rule map_inj_on)
  have "map f (sort_key f zs) = sort (map f zs)" for zs :: "'a list"
    by (rule properties_for_sort [symmetric]) simp_all
  then show "map f (sort_key f xs) = map f (sort_key f ys)"
    using assms(1) by (metis mset_map sort_key_const properties_for_sort mset_sort sorted_sort)
  show "inj_on f (set (sort_key f xs) \<union> set (sort_key f ys))"
    using assms mset_eq_setD by fastforce
qed

lemma sort_key_map: "sort_key f (map g xs) = map g (sort_key (\<lambda>x. f (g x)) xs)"
proof -
  have "insort_key f (g x) (map g ys) = map g (insort_key (\<lambda>x. f (g x)) x ys)" for x ys by (induction ys) simp_all
  then show ?thesis by (induction xs) simp_all
qed

lemma ingestAll_rows:
  assumes "list_all (\<lambda>(_, b). list_all (\<lambda>e. \<not> rowRefused e) b) bs"
  shows "whRows (wlDb (ingestAll bs l)) = storeEnvs (whRows (wlDb l)) (concat (map snd bs))"
  using assms
proof (induction bs arbitrary: l)
  case (Cons nb bs)
  obtain now b where nb: "nb = (now, b)" by (cases nb)
  obtain m where "insertLoop DbOk True 0 (whRows (wlDb l)) b = Inr (m, storeEnvs (whRows (wlDb l)) b)"
    using insertLoop_ignore [of DbOk b 0 "whRows (wlDb l)"] Cons.prems by (auto simp: nb)
  then have "whRows (wlDb (snd (whIngest DbOk now b l))) = storeEnvs (whRows (wlDb l)) b"
    by (auto simp: whIngest_def whInsert_def Let_def)
  with Cons show ?case by (simp add: ingestAll_def nb)
qed (simp add: ingestAll_def)

lemma storeEnvs_list:
  assumes "distinct (map evId es)" "set all = set es"
  shows "mset (sorted_list_of_fmap (storeEnvs fmempty all)) = mset (map (\<lambda>e. (evId e, rowOfEnv e)) es)"
proof (rule mset_eq_of_distinct)
  have inj: "e = x" if "e \<in> set es" "x \<in> set es" "evId e = evId x" for e x
    using assms(1) that by (simp add: distinct_map inj_on_def)
  have "(i, r) \<in> set (sorted_list_of_fmap (storeEnvs fmempty all)) \<longleftrightarrow> (i, r) \<in> (\<lambda>e. (evId e, rowOfEnv e)) ` set es" for i r
  proof
    assume "(i, r) \<in> set (sorted_list_of_fmap (storeEnvs fmempty all))"
    then have "fmlookup (storeEnvs fmempty all) i = Some r" by (simp add: set_sorted_list_of_fmap)
    then show "(i, r) \<in> (\<lambda>e. (evId e, rowOfEnv e)) ` set es"
      by (cases rule: storeEnvs_cases) (use assms(2) in auto)
  next
    assume "(i, r) \<in> (\<lambda>e. (evId e, rowOfEnv e)) ` set es"
    then obtain e where e: "e \<in> set es" "i = evId e" "r = rowOfEnv e" by blast
    then obtain x where x: "find (\<lambda>x. evId x = i) all = Some x"
      using assms(2) by (cases "find (\<lambda>x. evId x = i) all") (auto simp: find_None_iff)
    then have "x \<in> set es" "evId x = i" using assms(2) by (auto simp: find_Some_iff)
    with e inj have "x = e" by blast
    with x e show "(i, r) \<in> set (sorted_list_of_fmap (storeEnvs fmempty all))"
      by (simp add: set_sorted_list_of_fmap storeEnvs_lookup)
  qed
  then show "set (sorted_list_of_fmap (storeEnvs fmempty all)) = set (map (\<lambda>e. (evId e, rowOfEnv e)) es)" by auto
  show "distinct (sorted_list_of_fmap (storeEnvs fmempty all))"
    using distinct_sorted_list_of_fmap [of "storeEnvs fmempty all"] by (simp add: distinct_map)
  show "distinct (map (\<lambda>e. (evId e, rowOfEnv e)) es)"
    using assms(1) by (auto simp: distinct_map inj_on_def)
qed

lemma queryRows_envs:
  "list_all (\<lambda>e. rfc3339 (evRecordedAt e)) es \<Longrightarrow> queryRows (map (\<lambda>e. (evId e, rowOfEnv e)) es) = Inr es"
  by (induction es) (auto simp: whScan_def rowOfEnv_def)

text \<open>
  C24. A log that has ingested some events, in whatever batches, order and repetition, reads them
  back exactly as they were sent and in the order of their clock readings, the node's name and
  identity; so every replay, on any node, sees the same sequence.
\<close>

theorem wh_replay_is_deterministic:
  assumes "set (concat (map snd bs)) = set es" "distinct (map evId es)"
    and "list_all (\<lambda>e. \<not> rowRefused e \<and> rfc3339 (evRecordedAt e)) es"
  shows "whReadAll (ingestAll bs (whOpen whSchema n)) = Inr (sort_key envOrder es)"
proof -
  let ?f = "\<lambda>e. (evId e, rowOfEnv e)"
  let ?rows = "whRows (wlDb (ingestAll bs (whOpen whSchema n)))"
  have "list_all (\<lambda>(_, b). list_all (\<lambda>e. \<not> rowRefused e) b) bs"
    using assms(1,3) by (fastforce simp: list_all_iff)
  from ingestAll_rows [OF this] have "?rows = storeEnvs fmempty (concat (map snd bs))"
    by (simp add: whOpen_def whSchema_def)
  then have "mset (sorted_list_of_fmap ?rows) = mset (map ?f es)"
    using storeEnvs_list [OF assms(2,1)] by simp
  moreover have "inj_on rowOrder (set (sorted_list_of_fmap ?rows))"
    by (auto simp: inj_on_def rowOrder_def set_sorted_list_of_fmap)
  ultimately have "sort_key rowOrder (sorted_list_of_fmap ?rows) = sort_key rowOrder (map ?f es)"
    by (intro sort_key_mset)
  also have "\<dots> = map ?f (sort_key envOrder es)"
  proof -
    have "rowOrder (?f e) = envOrder e" for e by (simp add: rowOrder_def envOrder_def rowOfEnv_def flip: rowStamp_env)
    then show ?thesis by (simp add: sort_key_map o_def)
  qed
  finally show ?thesis
    using assms(3) by (simp add: whReadAll_def queryRows_envs list_all_iff)
qed

definition demoEnv :: "uint64 \<Rightarrow> int64 \<Rightarrow> envelope" where
  "demoEnv s w = \<lparr>evId = EventID ''m'' s, evAggregate = ''c'', evType = ''CountClosed'', evHLC = HLC w 0 ''m'',
     evRecordedAt = 0, evCausation = None, evPayload = JsonBytes (JObj [(''count_id'', JStr ''c'')])\<rparr>"

theorem wh_replay_is_deterministic_demo:
  "whReadAll (ingestAll [(1, [demoEnv 1 4]), (7, [demoEnv 2 3, demoEnv 1 4])] (whOpen whSchema ''n'')) =
     Inr [demoEnv 2 3, demoEnv 1 4]"
proof -
  have "set (concat (map snd [(1 :: int64, [demoEnv 1 4]), (7, [demoEnv 2 3, demoEnv 1 4])])) = set [demoEnv 1 4, demoEnv 2 3]"
    by auto
  moreover have "distinct (map evId [demoEnv 1 4, demoEnv 2 3])"
    "list_all (\<lambda>e. \<not> rowRefused e \<and> rfc3339 (evRecordedAt e)) [demoEnv 1 4, demoEnv 2 3]"
    "sort_key envOrder [demoEnv 1 4, demoEnv 2 3] = [demoEnv 2 3, demoEnv 1 4]" by code_simp+
  ultimately show ?thesis
    using wh_replay_is_deterministic [of "[(1, [demoEnv 1 4]), (7, [demoEnv 2 3, demoEnv 1 4])]" "[demoEnv 1 4, demoEnv 2 3]" "''n''"]
    by simp
qed

end
