(* ===== verification/WhCentral.thy ===== *)
theory WhCentral
  imports WhLog
begin

text \<open>
  What central persists (\<open>warehouse-node/internal/central/store.go\<close>) and its in-memory implementation
  (\<open>memory.go\<close>): every Go map is a finite map, with the composite string keys of the source. A loop
  over a map runs in ascending key order, except the sum of \<open>ReceivedAgainstPO\<close>, where the order can
  show in the float and is an argument. Events that tie in \<open>sortedEvents\<close> are listed by identity.
\<close>

section \<open>The store\<close>

abbreviation CentralNode :: node_id where "CentralNode \<equiv> ''central''"

datatype verdict = VerdictAccepted | VerdictRejected

record decision =
  dcEvent :: event_id
  dcVerdict :: verdict
  dcReason :: string
  dcCompensating :: "event_id option"

record receipt_fact =
  rfEvent :: event_id
  rfNode :: node_id
  rfPORef :: string
  rfDeliveryNote :: string
  rfSKU :: string
  rfQtyBase :: float64

record in_transit_row =
  irTransferID :: string
  irKey :: wh_key
  irFromNode :: node_id
  irToNode :: node_id
  irDispatched :: float64
  irReceived :: float64
  irDispatchedAt :: instant
  irFailed :: bool

record outbound =
  obOrd :: uint64
  obEnv :: envelope

record mem_store =
  mmEvents :: "(event_id, envelope) fmap"
  mmCentralHL :: wh_hlc
  mmCentralN :: uint64
  mmPushed :: "(node_id, uint64) fmap"
  mmDelivered :: "(node_id, uint64) fmap"
  mmQueue :: "(node_id, outbound list) fmap"
  mmNextOrd :: uint64
  mmItems :: "(string, item) fmap"
  mmOrders :: "(string, float64) fmap"
  mmReceipts :: "(event_id, receipt_fact) fmap"
  mmNodes :: "(node_id, (string, bool) fmap) fmap"
  mmTransit :: "(string, in_transit_row) fmap"
  mmDecisions :: "(event_id, decision) fmap"
  mmEnqueued :: "(string, bool) fmap"
  mmFolded :: "(string, float64) fmap"

definition newMemory :: mem_store where
  "newMemory = \<lparr>mmEvents = fmempty, mmCentralHL = HLC 0 0 [], mmCentralN = 0, mmPushed = fmempty, mmDelivered = fmempty,
     mmQueue = fmempty, mmNextOrd = 0, mmItems = fmempty, mmOrders = fmempty, mmReceipts = fmempty, mmNodes = fmempty,
     mmTransit = fmempty, mmDecisions = fmempty, mmEnqueued = fmempty, mmFolded = fmempty\<rparr>"

section \<open>Composite keys\<close>

abbreviation nul :: string where "nul \<equiv> [char_of (0 :: nat)]"

definition poKey :: "string \<Rightarrow> string \<Rightarrow> string" where
  "poKey poRef sku = poRef @ nul @ sku"

definition transitKey :: "string \<Rightarrow> wh_key \<Rightarrow> string" where
  "transitKey tid k = tid @ nul @ wkSKU k @ nul @ wkLotID k"

definition eventKey :: "event_id \<Rightarrow> wh_key \<Rightarrow> string" where
  "eventKey i k = idNode i @ nul @ formatUint (idSeq i) @ nul @ wkSKU k @ nul @ wkLotID k"

definition enqueueKey :: "node_id \<Rightarrow> event_id \<Rightarrow> string" where
  "enqueueKey target i = target @ nul @ idNode i @ nul @ formatUint (idSeq i)"

section \<open>The event log\<close>

fun memAppend :: "envelope list \<Rightarrow> mem_store \<Rightarrow> envelope list \<times> mem_store" where
  "memAppend [] m = ([], m)"
| "memAppend (e # es) m =
    (if fmlookup (mmEvents m) (evId e) \<noteq> None then memAppend es m
     else (case memAppend es (m\<lparr>mmEvents := fmupd (evId e) e (mmEvents m)\<rparr>) of (fresh, m) \<Rightarrow> (e # fresh, m)))"

definition eventLess :: "envelope \<Rightarrow> envelope \<Rightarrow> bool" where
  "eventLess a b \<longleftrightarrow> (let c = whCompare (evHLC a) (evHLC b) in
     if c \<noteq> 0 then c < 0 else idSeq (evId a) < idSeq (evId b))"

definition sortedEvents :: "mem_store \<Rightarrow> envelope list" where
  "sortedEvents m = sortSlice eventLess (map snd (sorted_list_of_fmap (mmEvents m)))"

definition memCompensationsOf :: "mem_store \<Rightarrow> event_id \<Rightarrow> envelope list" where
  "memCompensationsOf m i = filter (\<lambda>e. evCausation e = Some i) (sortedEvents m)"

text \<open>\<open>now.UnixMilli()\<close>: floor division, then \<open>int64\<close>.\<close>

definition toMillis :: "instant \<Rightarrow> int64" where
  "toMillis t = word_of_int (t div 1000000)"

fun emitLoop :: "event_id option \<Rightarrow> wh_hlc \<Rightarrow> instant \<Rightarrow> wh_event list \<Rightarrow> mem_store \<Rightarrow>
    (wh_error + envelope list) \<times> mem_store" where
  "emitLoop cause causing now [] m = (Inr [], m)"
| "emitLoop cause causing now (e # es) m =
    (let n = mmCentralN m + 1;
       h = (if cause \<noteq> None then whMerge (mmCentralHL m) causing (toMillis now) CentralNode
            else whTick (mmCentralHL m) (toMillis now) CentralNode);
       m = m\<lparr>mmCentralN := n, mmCentralHL := h\<rparr>
     in case newEnvelope (EventID CentralNode n) h now cause e of Inl err \<Rightarrow> (Inl err, m)
     | Inr env \<Rightarrow> (case emitLoop cause causing now es (m\<lparr>mmEvents := fmupd (evId env) env (mmEvents m)\<rparr>) of
         (Inl err, m) \<Rightarrow> (Inl err, m)
       | (Inr envs, m) \<Rightarrow> (Inr (env # envs), m)))"

definition memEmitCentral :: "wh_event list \<Rightarrow> event_id option \<Rightarrow> instant \<Rightarrow> mem_store \<Rightarrow>
    (wh_error + envelope list) \<times> mem_store" where
  "memEmitCentral events cause now m =
    (let causing = (case cause of None \<Rightarrow> HLC 0 0 []
        | Some c \<Rightarrow> (case fmlookup (mmEvents m) c of None \<Rightarrow> HLC 0 0 [] | Some env \<Rightarrow> evHLC env))
     in emitLoop cause causing now events m)"

section \<open>Cursors and queues\<close>

definition memPushedSeq :: "mem_store \<Rightarrow> node_id \<Rightarrow> uint64" where
  "memPushedSeq m n = fm_get 0 (mmPushed m) n"

definition memSetPushedSeq :: "node_id \<Rightarrow> uint64 \<Rightarrow> mem_store \<Rightarrow> mem_store" where
  "memSetPushedSeq n s m = m\<lparr>mmPushed := fmupd n s (mmPushed m)\<rparr>"

definition memDeliveredOrd :: "mem_store \<Rightarrow> node_id \<Rightarrow> uint64" where
  "memDeliveredOrd m n = fm_get 0 (mmDelivered m) n"

definition memSetDeliveredOrd :: "node_id \<Rightarrow> uint64 \<Rightarrow> mem_store \<Rightarrow> mem_store" where
  "memSetDeliveredOrd n o' m = m\<lparr>mmDelivered := fmupd n o' (mmDelivered m)\<rparr>"

definition enqueueOne :: "node_id \<Rightarrow> mem_store \<Rightarrow> envelope \<Rightarrow> mem_store" where
  "enqueueOne target m env =
    (let key = enqueueKey target (evId env) in
     if fm_get False (mmEnqueued m) key then m
     else (let n = mmNextOrd m + 1 in
       m\<lparr>mmEnqueued := fmupd key True (mmEnqueued m), mmNextOrd := n,
         mmQueue := fmupd target (fm_get [] (mmQueue m) target @ [\<lparr>obOrd = n, obEnv = env\<rparr>]) (mmQueue m)\<rparr>))"

definition memEnqueue :: "node_id \<Rightarrow> envelope list \<Rightarrow> mem_store \<Rightarrow> mem_store" where
  "memEnqueue target envs m = foldl (enqueueOne target) m envs"

definition memOutbound :: "mem_store \<Rightarrow> node_id \<Rightarrow> uint64 \<Rightarrow> int \<Rightarrow> outbound list" where
  "memOutbound m target afterOrd limit =
    (if limit \<le> 0 then []
     else take (nat limit) (filter (\<lambda>r. \<not> obOrd r \<le> afterOrd) (fm_get [] (mmQueue m) target)))"

section \<open>Reference data\<close>

definition memUpsertItem :: "item \<Rightarrow> mem_store \<Rightarrow> mem_store" where
  "memUpsertItem i m = m\<lparr>mmItems := fmupd (itSKU i) i (mmItems m)\<rparr>"

definition memItem :: "mem_store \<Rightarrow> string \<Rightarrow> item option" where
  "memItem m sku = fmlookup (mmItems m) sku"

definition memUpsertPurchaseOrder :: "string \<Rightarrow> string \<Rightarrow> float64 \<Rightarrow> mem_store \<Rightarrow> mem_store" where
  "memUpsertPurchaseOrder poRef sku ordered m = m\<lparr>mmOrders := fmupd (poKey poRef sku) ordered (mmOrders m)\<rparr>"

definition memPurchaseOrder :: "mem_store \<Rightarrow> string \<Rightarrow> string \<Rightarrow> float64 option" where
  "memPurchaseOrder m poRef sku = fmlookup (mmOrders m) (poKey poRef sku)"

definition memRegisterNode :: "node_id \<Rightarrow> string list \<Rightarrow> mem_store \<Rightarrow> mem_store" where
  "memRegisterNode n rejects m =
    m\<lparr>mmNodes := fmupd n (foldl (\<lambda>skus sku. fmupd sku True skus) fmempty rejects) (mmNodes m)\<rparr>"

text \<open>The copy handed out, or nil and false.\<close>

definition memNodeConfig :: "mem_store \<Rightarrow> node_id \<Rightarrow> (string, bool) fmap \<times> bool" where
  "memNodeConfig m n = (case fmlookup (mmNodes m) n of None \<Rightarrow> (fmempty, False)
     | Some skus \<Rightarrow> (foldl (\<lambda>out (sku, _). fmupd sku True out) fmempty (sorted_list_of_fmap skus), True))"

section \<open>Receipts and transfers\<close>

definition memRecordReceipt :: "receipt_fact \<Rightarrow> mem_store \<Rightarrow> mem_store" where
  "memRecordReceipt f m = (if fmlookup (mmReceipts m) (rfEvent f) \<noteq> None then m
     else m\<lparr>mmReceipts := fmupd (rfEvent f) f (mmReceipts m)\<rparr>)"

definition memReceipt :: "mem_store \<Rightarrow> event_id \<Rightarrow> receipt_fact option" where
  "memReceipt m i = fmlookup (mmReceipts m) i"

text \<open>An order the loop may visit the receipts in.\<close>

type_synonym visit_order = "(event_id \<times> receipt_fact) list \<Rightarrow> (event_id \<times> receipt_fact) list"

definition anyOrder :: "visit_order \<Rightarrow> bool" where
  "anyOrder vis \<longleftrightarrow> (\<forall>xs. mset (vis xs) = mset xs)"

definition memReceivedAgainstPO :: "visit_order \<Rightarrow> mem_store \<Rightarrow> string \<Rightarrow> string \<Rightarrow> float64" where
  "memReceivedAgainstPO vis m poRef sku =
    foldl (\<lambda>sum (_, f). if rfPORef f = poRef \<and> rfSKU f = sku then sum + rfQtyBase f else sum) 0
      (vis (sorted_list_of_fmap (mmReceipts m)))"

definition memDeliveryNoteFirstSeen :: "mem_store \<Rightarrow> string \<Rightarrow> string \<Rightarrow> event_id option" where
  "memDeliveryNoteFirstSeen m dnote sku =
    foldl (\<lambda>first (_, f).
        if rfDeliveryNote f \<noteq> dnote \<or> rfSKU f \<noteq> sku then first
        else (case first of None \<Rightarrow> Some (rfEvent f)
          | Some i \<Rightarrow> if rfEvent f < i then Some (rfEvent f) else Some i))
      None (sorted_list_of_fmap (mmReceipts m))"

definition memRecordDispatch :: "in_transit_row \<Rightarrow> mem_store \<Rightarrow> mem_store" where
  "memRecordDispatch row m =
    (let key = transitKey (irTransferID row) (irKey row) in
     case fmlookup (mmTransit m) key of
       Some existing \<Rightarrow> m\<lparr>mmTransit := fmupd key (existing\<lparr>irDispatched := irDispatched row\<rparr>) (mmTransit m)\<rparr>
     | None \<Rightarrow> m\<lparr>mmTransit := fmupd key row (mmTransit m)\<rparr>)"

definition memAddReceived :: "event_id \<Rightarrow> string \<Rightarrow> wh_key \<Rightarrow> float64 \<Rightarrow> mem_store \<Rightarrow> (wh_error + unit) \<times> mem_store" where
  "memAddReceived i tid k qty m =
    (let key = transitKey tid k in
     case fmlookup (mmTransit m) key of None \<Rightarrow> (Inl (NoDispatchedLine tid), m)
     | Some row \<Rightarrow>
       (let fk = eventKey i k in
        if fmlookup (mmFolded m) fk \<noteq> None then (Inr (), m)
        else (Inr (), m\<lparr>mmFolded := fmupd fk qty (mmFolded m),
               mmTransit := fmupd key (row\<lparr>irReceived := irReceived row + qty\<rparr>) (mmTransit m)\<rparr>)))"

definition memReceivedFromEvent :: "mem_store \<Rightarrow> event_id \<Rightarrow> string \<Rightarrow> wh_key \<Rightarrow> float64" where
  "memReceivedFromEvent m i tid k = fm_get 0 (mmFolded m) (eventKey i k)"

definition memInTransit :: "mem_store \<Rightarrow> string \<Rightarrow> wh_key \<Rightarrow> in_transit_row option" where
  "memInTransit m tid k = fmlookup (mmTransit m) (transitKey tid k)"

definition transitLess :: "in_transit_row \<Rightarrow> in_transit_row \<Rightarrow> bool" where
  "transitLess a b \<longleftrightarrow> (if irTransferID a \<noteq> irTransferID b then irTransferID a < irTransferID b
     else if wkSKU (irKey a) \<noteq> wkSKU (irKey b) then wkSKU (irKey a) < wkSKU (irKey b)
     else wkLotID (irKey a) < wkLotID (irKey b))"

definition memOpenTransfers :: "mem_store \<Rightarrow> instant \<Rightarrow> in_transit_row list" where
  "memOpenTransfers m dispatchedBefore =
    sortSlice transitLess
      (filter (\<lambda>row. \<not> (irFailed row \<or> irDispatched row - irReceived row \<le> 0 \<or> \<not> irDispatchedAt row < dispatchedBefore))
        (map snd (sorted_list_of_fmap (mmTransit m))))"

definition memFailTransfer :: "string \<Rightarrow> mem_store \<Rightarrow> mem_store" where
  "memFailTransfer tid m =
    m\<lparr>mmTransit := foldl (\<lambda>t (key, row). if irTransferID row = tid then fmupd key (row\<lparr>irFailed := True\<rparr>) t else t)
      (mmTransit m) (sorted_list_of_fmap (mmTransit m))\<rparr>"

section \<open>Decisions\<close>

definition memRecordDecision :: "decision \<Rightarrow> mem_store \<Rightarrow> mem_store" where
  "memRecordDecision d m = m\<lparr>mmDecisions := fmupd (dcEvent d) d (mmDecisions m)\<rparr>"

definition memDecision :: "mem_store \<Rightarrow> event_id \<Rightarrow> decision option" where
  "memDecision m i = fmlookup (mmDecisions m) i"

end
