(* ===== verification/WhArbiter.thy ===== *)
theory WhArbiter
  imports WhCentral
begin

text \<open>
  Central's arbiter (\<open>warehouse-node/internal/arbiter/arbiter.go\<close>, \<open>validators.go\<close>) over the in-memory
  store. Every call of the store takes the next of a list of faults: it fails without effect, or takes
  effect and its success is lost, as in a crash right after it; past the end of the list calls succeed.
  So a list is one way the store and the process may fail during one \<open>Arbitrate\<close>.
\<close>

section \<open>Calls of the store\<close>

datatype call_fault = CallOk | CallFails | CallLost

type_synonym 'a central_op = "call_fault list \<Rightarrow> mem_store \<Rightarrow> (wh_error + 'a) \<times> call_fault list \<times> mem_store"

definition ok :: "'a \<Rightarrow> 'a central_op" where
  "ok x fs m = (Inr x, fs, m)"

definition failWith :: "wh_error \<Rightarrow> 'a central_op" where
  "failWith e fs m = (Inl e, fs, m)"

definition andThen :: "'a central_op \<Rightarrow> ('a \<Rightarrow> 'b central_op) \<Rightarrow> 'b central_op" where
  "andThen p q fs m = (case p fs m of (Inl e, fs, m) \<Rightarrow> (Inl e, fs, m) | (Inr x, fs, m) \<Rightarrow> q x fs m)"

definition call :: "(mem_store \<Rightarrow> (wh_error + 'a) \<times> mem_store) \<Rightarrow> 'a central_op" where
  "call f fs m = (case fs of
      [] \<Rightarrow> (fst (f m), [], snd (f m))
    | CallOk # fs \<Rightarrow> (fst (f m), fs, snd (f m))
    | CallFails # fs \<Rightarrow> (Inl StoreFault, fs, m)
    | CallLost # fs \<Rightarrow> (Inl StoreFault, fs, snd (f m)))"

definition callRead :: "(mem_store \<Rightarrow> 'a) \<Rightarrow> 'a central_op" where
  "callRead f = call (\<lambda>m. (Inr (f m), m))"

definition callDo :: "(mem_store \<Rightarrow> mem_store) \<Rightarrow> unit central_op" where
  "callDo f = call (\<lambda>m. (Inr (), f m))"

section \<open>Validators\<close>

record rejection =
  rjReason :: string
  rjEvents :: "wh_event list"
  rjExcess :: float64

fun movementsOf :: "wh_payload \<Rightarrow> movement list" where
  "movementsOf (GoodsReceived _ _ _ m) = [m]"
| "movementsOf (TransferDispatched _ _ _ ls) = ls"
| "movementsOf (TransferReceived _ ls) = ls"
| "movementsOf _ = []"

definition reverseMove :: "movement \<Rightarrow> float64 \<Rightarrow> movement" where
  "reverseMove m qty = \<lparr>mSKU = mSKU m, mLotID = mLotID m, mFrom = mTo m, mTo = mFrom m, mQty = qty\<rparr>"

definition adjustment :: "string \<Rightarrow> movement \<Rightarrow> string \<Rightarrow> wh_event" where
  "adjustment agg move reason = \<lparr>weType = ''StockAdjusted'', weAggregate = agg, wePayload = StockAdjusted move reason\<rparr>"

definition lineKey :: "movement \<Rightarrow> wh_key" where
  "lineKey m = bareKey (mSKU m) (mLotID m)"

definition rejected :: "string \<Rightarrow> wh_event list \<times> float64 \<Rightarrow> rejection option" where
  "rejected reason = (\<lambda>(events, excess). if events = [] then None
     else Some \<lparr>rjReason = reason, rjEvents = events, rjExcess = excess\<rparr>)"

fun unknownLoop :: "movement list \<Rightarrow> wh_event list \<Rightarrow> float64 \<Rightarrow> (wh_event list \<times> float64) central_op" where
  "unknownLoop [] events excess = ok (events, excess)"
| "unknownLoop (m # ms) events excess =
    andThen (callRead (\<lambda>s. memItem s (mSKU m))) (\<lambda>it.
      if (case it of None \<Rightarrow> False | Some it \<Rightarrow> \<not> itDeleted it) then unknownLoop ms events excess
      else unknownLoop ms (events @ [adjustment (mSKU m) (reverseMove m (mQty m)) ReasonUnknownSKU]) (excess + mQty m))"

definition unknownSKU :: "wh_payload \<Rightarrow> rejection option central_op" where
  "unknownSKU p = andThen (unknownLoop (movementsOf p) [] 0) (\<lambda>r. ok (rejected ReasonUnknownSKU r))"

definition duplicateDeliveryNote :: "envelope \<Rightarrow> wh_payload \<Rightarrow> rejection option central_op" where
  "duplicateDeliveryNote env p = (case p of
      GoodsReceived rid dnote po m \<Rightarrow>
        andThen (callRead (\<lambda>s. memDeliveryNoteFirstSeen s dnote (mSKU m))) (\<lambda>first.
          ok (if first = None \<or> first = Some (evId env) then None
            else Some \<lparr>rjReason = ReasonDuplicateReceipt,
              rjEvents = [adjustment (mSKU m) (reverseMove m (mQty m)) ReasonDuplicateReceipt], rjExcess = mQty m\<rparr>))
    | _ \<Rightarrow> ok None)"

definition poOverReceipt :: "visit_order \<Rightarrow> envelope \<Rightarrow> wh_payload \<Rightarrow> rejection option central_op" where
  "poOverReceipt vis env p = (case p of
      GoodsReceived rid dnote po m \<Rightarrow>
        andThen (callRead (\<lambda>s. memPurchaseOrder s po (mSKU m))) (\<lambda>known. case known of None \<Rightarrow> ok None
        | Some ordered \<Rightarrow>
          andThen (callRead (\<lambda>s. memReceivedAgainstPO vis s po (mSKU m))) (\<lambda>already.
          andThen (callRead (\<lambda>s. memReceipt s (evId env))) (\<lambda>own.
            let already = (case own of None \<Rightarrow> already | Some f \<Rightarrow> already - rfQtyBase f);
                excess = already + mQty m - ordered
            in if excess \<le> 0 then ok None
               else let excess = (if mQty m < excess then mQty m else excess) in
                 ok (Some \<lparr>rjReason = ReasonPOOverReceipt,
                   rjEvents = [adjustment (mSKU m) (reverseMove m excess) ReasonPOOverReceipt,
                     \<lparr>weType = ''ReceiptLineRecorded'', weAggregate = rid,
                      wePayload = ReceiptLineRecorded rid 0 (mSKU m) (mLotID m) (- excess)\<rparr>],
                   rjExcess = excess\<rparr>))))
    | _ \<Rightarrow> ok None)"

definition transferDestination :: "wh_payload \<Rightarrow> rejection option central_op" where
  "transferDestination p = (case p of
      TransferDispatched tid from to ls \<Rightarrow>
        andThen (callRead (\<lambda>s. memNodeConfig s to)) (\<lambda>(rejects, known).
          if \<not> (\<not> known \<or> list_ex (\<lambda>m. fm_get False rejects (mSKU m)) ls) then ok None
          else ok (Some \<lparr>rjReason = ReasonTransferRejected,
            rjEvents = map (\<lambda>m. adjustment tid (reverseMove m (mQty m)) ReasonTransferRejected) ls,
            rjExcess = foldl (\<lambda>x m. x + mQty m) 0 ls\<rparr>))
    | _ \<Rightarrow> ok None)"

fun overLoop :: "envelope \<Rightarrow> string \<Rightarrow> movement list \<Rightarrow> wh_event list \<Rightarrow> float64 \<Rightarrow> (wh_event list \<times> float64) central_op" where
  "overLoop env tid [] events excess = ok (events, excess)"
| "overLoop env tid (m # ms) events excess =
    andThen (callRead (\<lambda>s. memInTransit s tid (lineKey m))) (\<lambda>row.
    andThen (case row of None \<Rightarrow> ok 0
        | Some row \<Rightarrow> andThen (callRead (\<lambda>s. memReceivedFromEvent s (evId env) tid (lineKey m))) (\<lambda>own.
            ok (irDispatched row - (irReceived row - own)))) (\<lambda>remaining.
      let over = mQty m - remaining in
      if over \<le> 0 then overLoop env tid ms events excess
      else overLoop env tid ms (events @ [adjustment (mSKU m) (reverseMove m over) ReasonTransferOverReceipt]) (excess + over)))"

definition transferOverReceipt :: "envelope \<Rightarrow> wh_payload \<Rightarrow> rejection option central_op" where
  "transferOverReceipt env p = (case p of
      TransferReceived tid ls \<Rightarrow>
        andThen (overLoop env tid ls [] 0) (\<lambda>r. ok (rejected ReasonTransferOverReceipt r))
    | _ \<Rightarrow> ok None)"

text \<open>The chain in its order; the first rejection ends it.\<close>

definition validators :: "visit_order \<Rightarrow> envelope \<Rightarrow> wh_payload \<Rightarrow> rejection option central_op list" where
  "validators vis env p = [unknownSKU p, duplicateDeliveryNote env p, poOverReceipt vis env p,
     transferDestination p, transferOverReceipt env p]"

fun runValidators :: "rejection option central_op list \<Rightarrow> rejection option central_op" where
  "runValidators [] = ok None"
| "runValidators (v # vs) = andThen v (\<lambda>r. case r of None \<Rightarrow> runValidators vs | Some r \<Rightarrow> ok (Some r))"

section \<open>Arbitration\<close>

fun recordDispatches :: "envelope \<Rightarrow> string \<Rightarrow> node_id \<Rightarrow> node_id \<Rightarrow> movement list \<Rightarrow> unit central_op" where
  "recordDispatches env tid from to [] = ok ()"
| "recordDispatches env tid from to (m # ms) =
    andThen (callDo (memRecordDispatch \<lparr>irTransferID = tid, irKey = lineKey m, irFromNode = from, irToNode = to,
      irDispatched = mQty m, irReceived = 0, irDispatchedAt = evRecordedAt env, irFailed = False\<rparr>))
    (\<lambda>_. recordDispatches env tid from to ms)"

fun recordReceived :: "envelope \<Rightarrow> string \<Rightarrow> movement list \<Rightarrow> unit central_op" where
  "recordReceived env tid [] = ok ()"
| "recordReceived env tid (m # ms) =
    andThen (callRead (\<lambda>s. memInTransit s tid (lineKey m))) (\<lambda>row. case row of
      None \<Rightarrow> recordReceived env tid ms
    | Some row \<Rightarrow>
        (let remaining = irDispatched row - irReceived row;
             accepted = (if remaining < mQty m then remaining else mQty m)
         in if accepted \<le> 0 then recordReceived env tid ms
            else andThen (call (memAddReceived (evId env) tid (lineKey m) accepted)) (\<lambda>_. recordReceived env tid ms)))"

definition recordEvent :: "envelope \<Rightarrow> wh_payload \<Rightarrow> rejection option \<Rightarrow> unit central_op" where
  "recordEvent env p rej = (case p of
      GoodsReceived rid dnote po m \<Rightarrow>
        (case rej of
           Some r \<Rightarrow> if rjReason r \<noteq> ReasonPOOverReceipt then ok ()
             else callDo (memRecordReceipt \<lparr>rfEvent = evId env, rfNode = idNode (evId env), rfPORef = po,
               rfDeliveryNote = dnote, rfSKU = mSKU m, rfQtyBase = mQty m - rjExcess r\<rparr>)
         | None \<Rightarrow> callDo (memRecordReceipt \<lparr>rfEvent = evId env, rfNode = idNode (evId env), rfPORef = po,
               rfDeliveryNote = dnote, rfSKU = mSKU m, rfQtyBase = mQty m\<rparr>))
    | TransferDispatched tid from to ls \<Rightarrow>
        andThen (recordDispatches env tid from to ls) (\<lambda>_.
          if rej = None then ok () else callDo (memFailTransfer tid))
    | TransferReceived tid ls \<Rightarrow> recordReceived env tid ls
    | _ \<Rightarrow> ok ())"

fun fanOutReceived :: "envelope \<Rightarrow> string \<Rightarrow> movement list \<Rightarrow> unit central_op" where
  "fanOutReceived env tid [] = ok ()"
| "fanOutReceived env tid (m # ms) =
    andThen (callRead (\<lambda>s. memInTransit s tid (lineKey m))) (\<lambda>row. case row of
      None \<Rightarrow> fanOutReceived env tid ms
    | Some row \<Rightarrow> callDo (memEnqueue (irFromNode row) [env]))"

definition fanOut :: "envelope \<Rightarrow> wh_payload \<Rightarrow> rejection option \<Rightarrow> unit central_op" where
  "fanOut env p rej = (case p of
      TransferDispatched tid from to ls \<Rightarrow> (if rej \<noteq> None then ok () else callDo (memEnqueue to [env]))
    | TransferReceived tid ls \<Rightarrow> fanOutReceived env tid ls
    | _ \<Rightarrow> ok ())"

definition compensationsOf :: "event_id \<Rightarrow> envelope list central_op" where
  "compensationsOf i = callRead (\<lambda>m. memCompensationsOf m i)"

definition acceptedDecision :: "event_id \<Rightarrow> decision" where
  "acceptedDecision i = \<lparr>dcEvent = i, dcVerdict = VerdictAccepted, dcReason = [], dcCompensating = None\<rparr>"

definition rejectedDecision :: "event_id \<Rightarrow> string \<Rightarrow> envelope list \<Rightarrow> decision" where
  "rejectedDecision i reason comps = \<lparr>dcEvent = i, dcVerdict = VerdictRejected, dcReason = reason,
     dcCompensating = (case comps of [] \<Rightarrow> None | c # _ \<Rightarrow> Some (evId c))\<rparr>"

definition compensate :: "instant \<Rightarrow> event_id \<Rightarrow> rejection \<Rightarrow> (decision \<times> envelope list) central_op" where
  "compensate now i r =
    andThen (compensationsOf i) (\<lambda>comps.
    andThen (if comps = [] then call (memEmitCentral (rjEvents r) (Some i) now)
       else if length comps \<noteq> length (rjEvents r) then failWith (IncompleteCompensations i)
       else ok comps) (\<lambda>comps.
    andThen (callDo (memEnqueue (idNode i) comps)) (\<lambda>_.
      let d = rejectedDecision i (rjReason r) comps in
      andThen (callDo (memRecordDecision d)) (\<lambda>_. ok (d, comps)))))"

definition arbitrate :: "visit_order \<Rightarrow> instant \<Rightarrow> envelope \<Rightarrow> (decision \<times> envelope list) central_op" where
  "arbitrate vis now env =
    andThen (callRead (\<lambda>m. memDecision m (evId env))) (\<lambda>existing. case existing of
      Some d \<Rightarrow> andThen (compensationsOf (evId env)) (\<lambda>comps. ok (d, comps))
    | None \<Rightarrow>
      andThen (callDo (\<lambda>m. snd (memAppend [env] m))) (\<lambda>_. case decodePayload env of Inl e \<Rightarrow> failWith e
      | Inr p \<Rightarrow>
        andThen (runValidators (validators vis env p)) (\<lambda>rej.
        andThen (recordEvent env p rej) (\<lambda>_.
        andThen (fanOut env p rej) (\<lambda>_. case rej of
          None \<Rightarrow> (let d = acceptedDecision (evId env) in andThen (callDo (memRecordDecision d)) (\<lambda>_. ok (d, [])))
        | Some r \<Rightarrow> compensate now (evId env) r)))))"

definition discrepancies :: "mem_store \<Rightarrow> instant \<Rightarrow> in_transit_row list" where
  "discrepancies m olderThan = memOpenTransfers m olderThan"

end
