(* ===== verification/WhRetry.thy ===== *)
theory WhRetry
  imports WhArbiter
begin

text \<open>
  Retrying an arbitration. An \<open>Arbitrate\<close> is a sequence of steps on the store, each with a mark it leaves
  once it has run: a step whose mark is there changes nothing. Since every attempt takes the same steps,
  an attempt that starts where an earlier one broke off runs through what is done and goes on from there.
\<close>

section \<open>Programs and the states they pass through\<close>

text \<open>From \<open>s\<close> a failing run ends in a state of \<open>R\<close>, any other run ends in \<open>s'\<close> with \<open>x\<close>.\<close>

definition runs :: "'a central_op \<Rightarrow> mem_store \<Rightarrow> mem_store set \<Rightarrow> mem_store \<Rightarrow> 'a \<Rightarrow> bool" where
  "runs p s R s' x \<longleftrightarrow>
     (\<forall>fs e fs' t. p fs s = (Inl e, fs', t) \<longrightarrow> t \<in> R) \<and>
     (\<forall>fs y fs' t. p fs s = (Inr y, fs', t) \<longrightarrow> t = s' \<and> y = x) \<and>
     p [] s = (Inr x, [], s')"

lemma runs_ok [intro]: "runs (ok x) s R s x"
  by (simp add: runs_def ok_def)

lemma runs_call: "f s = (Inr x, s') \<Longrightarrow> s \<in> R \<Longrightarrow> s' \<in> R \<Longrightarrow> runs (call f) s R s' x"
  by (auto simp: runs_def call_def split: list.split call_fault.split)

lemma runs_read [intro]: "s \<in> R \<Longrightarrow> runs (callRead f) s R s (f s)"
  unfolding callRead_def by (rule runs_call) simp_all

lemma runs_do [intro]: "s \<in> R \<Longrightarrow> g s \<in> R \<Longrightarrow> runs (callDo g) s R (g s) ()"
  unfolding callDo_def by (rule runs_call) simp_all

lemma runsI:
  assumes "\<And>fs e fs' t. p fs s = (Inl e, fs', t) \<Longrightarrow> t \<in> R"
    and "\<And>fs y fs' t. p fs s = (Inr y, fs', t) \<Longrightarrow> t = s' \<and> y = x" and "p [] s = (Inr x, [], s')"
  shows "runs p s R s' x"
  unfolding runs_def using assms by blast

lemma runsD:
  assumes "runs p s R s' x"
  shows "p fs s = (Inl e, fs', t) \<Longrightarrow> t \<in> R" "p fs s = (Inr y, fs', t) \<Longrightarrow> t = s' \<and> y = x" "p [] s = (Inr x, [], s')"
  using assms unfolding runs_def by blast+

lemma andThen_cases:
  assumes "andThen p q fs s = (res, fs', t)"
  obtains (first) e where "p fs s = (Inl e, fs', t)" "res = Inl e"
  | (second) x fs1 s1 where "p fs s = (Inr x, fs1, s1)" "q x fs1 s1 = (res, fs', t)"
  using assms by (cases "p fs s"; cases "fst (p fs s)") (auto simp: andThen_def)

lemma runs_then:
  assumes p: "runs p s R s1 x" and q: "runs (q x) s1 R s2 y"
  shows "runs (andThen p q) s R s2 y"
proof (rule runsI)
  show "t \<in> R" if "andThen p q fs s = (Inl e, fs', t)" for fs e fs' t
    using that by (cases rule: andThen_cases) (auto dest: runsD(1,2) [OF p] runsD(1) [OF q])
  show "t = s2 \<and> z = y" if "andThen p q fs s = (Inr z, fs', t)" for fs z fs' t
    using that by (cases rule: andThen_cases) (auto dest: runsD(2) [OF p] runsD(2) [OF q])
  show "andThen p q [] s = (Inr y, [], s2)"
    using runsD(3) [OF p] runsD(3) [OF q] by (simp add: andThen_def)
qed

lemma runs_mono: "runs p s R s' x \<Longrightarrow> R \<subseteq> R' \<Longrightarrow> runs p s R' s' x"
  by (rule runsI) (auto dest: runsD)

text \<open>Programs that only read.\<close>

definition readsOnly :: "'a central_op \<Rightarrow> (mem_store \<Rightarrow> 'a) \<Rightarrow> bool" where
  "readsOnly p f \<longleftrightarrow> (\<forall>s. runs p s {s} s (f s))"

lemma readsOnly_ok [intro]: "readsOnly (ok x) (\<lambda>_. x)"
  by (auto simp: readsOnly_def)

lemma readsOnly_read [intro]: "readsOnly (callRead f) f"
  by (auto simp: readsOnly_def)

lemma readsOnly_then: "readsOnly p f \<Longrightarrow> (\<And>x. readsOnly (q x) (g x)) \<Longrightarrow> readsOnly (andThen p q) (\<lambda>s. g (f s) s)"
  unfolding readsOnly_def by (blast intro: runs_then)

text \<open>Programs that take the steps \<open>gs\<close>, wherever they start.\<close>

type_synonym mem_step = "mem_store \<Rightarrow> mem_store"

abbreviation steps :: "mem_step list \<Rightarrow> mem_store \<Rightarrow> mem_store" where
  "steps gs s \<equiv> fold (\<lambda>g. g) gs s"

definition visited :: "mem_step list \<Rightarrow> mem_store \<Rightarrow> mem_store set" where
  "visited gs s = (\<lambda>j. steps (take j gs) s) ` {..length gs}"

definition performs :: "unit central_op \<Rightarrow> mem_step list \<Rightarrow> bool" where
  "performs p gs \<longleftrightarrow> (\<forall>s. runs p s (visited gs s) (steps gs s) ())"

lemma visited_simps [simp]: "visited [] s = {s}" "visited (g # gs) s = insert s (visited gs (g s))"
proof -
  have "{..length (g # gs)} = insert 0 (Suc ` {..length gs})" by (auto simp: image_iff Suc_le_eq) (metis Suc_less_eq less_Suc_eq_0_disj not_less_eq gr0_conv_Suc atMost_iff less_Suc_eq_le)
  then show "visited (g # gs) s = insert s (visited gs (g s))" by (simp add: visited_def image_image)
qed (simp add: visited_def)

lemma visited_self: "s \<in> visited gs s"
  by (cases gs) simp_all

lemma visited_append: "visited (gs @ hs) s = visited gs s \<union> visited hs (steps gs s)"
  by (induction gs arbitrary: s) (auto simp: visited_self)

lemma performs_ok [intro]: "performs (ok ()) []"
  by (auto simp: performs_def)

lemma performs_do [intro]: "performs (callDo g) [g]"
  by (auto simp: performs_def)

lemma performs_then:
  assumes "performs p gs" "performs q hs"
  shows "performs (andThen p (\<lambda>_. q)) (gs @ hs)"
  unfolding performs_def
proof
  fix s
  have "runs p s (visited (gs @ hs) s) (steps gs s) ()"
    using assms(1) unfolding performs_def visited_append by (metis runs_mono Un_upper1)
  moreover have "runs q (steps gs s) (visited (gs @ hs) s) (steps hs (steps gs s)) ()"
    using assms(2) unfolding performs_def visited_append by (metis runs_mono Un_upper2)
  ultimately show "runs (andThen p (\<lambda>_. q)) s (visited (gs @ hs) s) (steps (gs @ hs) s) ()"
    by (simp add: runs_then)
qed

text \<open>A program that reads first and chooses its step by what it read.\<close>

lemma performs_read:
  assumes "\<And>s. runs (q (f s)) s (insert s (visited gs (h s))) (steps gs (h s)) ()"
  shows "performs (andThen (callRead f) q) (h # gs)"
  unfolding performs_def using assms by (auto intro: runs_then)

section \<open>Steps that leave a mark\<close>

type_synonym marked_step = "mem_step \<times> (mem_store \<Rightarrow> bool)"

fun settled :: "marked_step list \<Rightarrow> bool" where
  "settled [] \<longleftrightarrow> True"
| "settled ((g, F) # gs) \<longleftrightarrow> (\<forall>s. F (g s)) \<and> (\<forall>s. F s \<longrightarrow> g s = s) \<and>
     (\<forall>h \<in> fst ` set gs. \<forall>s. F s \<longrightarrow> F (h s)) \<and> settled gs"

abbreviation stepsOf :: "marked_step list \<Rightarrow> mem_step list" where
  "stepsOf gs \<equiv> map fst gs"

definition marked :: "marked_step list \<Rightarrow> mem_store \<Rightarrow> bool" where
  "marked gs s \<longleftrightarrow> (\<forall>F \<in> snd ` set gs. F s)"

lemma steps_keep: "(\<And>h s. h \<in> set hs \<Longrightarrow> F s \<Longrightarrow> F (h s)) \<Longrightarrow> F s \<Longrightarrow> F (steps hs s)"
  by (induction hs arbitrary: s) auto

lemma settled_again:
  "settled gs \<Longrightarrow> steps (take j (stepsOf gs)) (steps (take k (stepsOf gs)) s) = steps (take (max j k) (stepsOf gs)) s"
proof (induction gs arbitrary: j k s)
  case (Cons gF gs)
  obtain g F where gF: "gF = (g, F)" by (cases gF)
  show ?case
  proof (cases "j = 0 \<or> k = 0")
    case False
    then obtain i l where jk: "j = Suc i" "k = Suc l" by (metis nat.exhaust)
    have "F (steps (take l (stepsOf gs)) (g s))"
    proof (rule steps_keep)
      fix h s assume "h \<in> set (take l (stepsOf gs))" "F s"
      then have "h \<in> fst ` set gs" by (metis in_set_takeD list.set_map)
      with \<open>F s\<close> Cons.prems show "F (h s)" by (auto simp: gF)
    qed (use Cons.prems in \<open>simp add: gF\<close>)
    then have "g (steps (take l (stepsOf gs)) (g s)) = steps (take l (stepsOf gs)) (g s)"
      using Cons.prems by (simp add: gF)
    with Cons.IH [of i l "g s"] Cons.prems show ?thesis by (simp add: jk gF)
  qed auto
qed simp

lemma settled_marked: "settled gs \<Longrightarrow> marked gs (steps (stepsOf gs) s)"
proof (induction gs arbitrary: s)
  case (Cons gF gs)
  obtain g F where gF: "gF = (g, F)" by (cases gF)
  have "F (steps (stepsOf gs) (g s))"
  proof (rule steps_keep)
    fix h s assume "h \<in> set (stepsOf gs)" "F s"
    with Cons.prems show "F (h s)" by (auto simp: gF)
  qed (use Cons.prems in \<open>simp add: gF\<close>)
  with Cons show ?case by (simp add: gF marked_def)
qed (simp add: marked_def)

lemma marked_done: "settled gs \<Longrightarrow> marked gs s \<Longrightarrow> steps (take j (stepsOf gs)) s = s"
proof (induction gs arbitrary: j)
  case (Cons gF gs)
  then show ?case by (cases gF; cases j) (simp_all add: marked_def)
qed simp

lemma settled_append:
  "settled gs \<Longrightarrow> settled hs \<Longrightarrow> (\<And>F h s. F \<in> snd ` set gs \<Longrightarrow> h \<in> fst ` set hs \<Longrightarrow> F s \<Longrightarrow> F (h s)) \<Longrightarrow> settled (gs @ hs)"
proof (induction gs)
  case (Cons gF gs)
  obtain g F where gF: "gF = (g, F)" by (cases gF)
  have "settled (gs @ hs)" using Cons.prems by (intro Cons.IH) (auto simp: gF)
  moreover have "F (h s)" if "h \<in> fst ` set (gs @ hs)" "F s" for h s
    using that Cons.prems(1) Cons.prems(3) [of F h s] by (auto simp: gF)
  ultimately show ?case using Cons.prems(1) by (simp add: gF)
qed simp

lemma settled_map:
  assumes "\<And>m s. snd (f m) (fst (f m) s)" "\<And>m s. snd (f m) s \<Longrightarrow> fst (f m) s = s"
    and "\<And>m x s. key x \<noteq> key m \<Longrightarrow> snd (f m) s \<Longrightarrow> snd (f m) (fst (f x) s)" and "distinct (map key ls)"
  shows "settled (map f ls)"
  using assms(4)
proof (induction ls)
  case (Cons m ls)
  have "key x \<noteq> key m" if "x \<in> set ls" for x using Cons.prems that by (metis distinct.simps(2) image_eqI list.set_map list.simps(9))
  then have "\<forall>h \<in> fst ` set (map f ls). \<forall>s. snd (f m) s \<longrightarrow> snd (f m) (h s)" using assms(3) by auto
  with Cons assms(1,2) show ?case by (simp add: settled.simps(2) [of "fst (f m)" "snd (f m)", simplified])
qed simp

section \<open>The steps of an arbitration\<close>

definition hasEvent :: "event_id \<Rightarrow> mem_store \<Rightarrow> bool" where
  "hasEvent i s \<longleftrightarrow> fmlookup (mmEvents s) i \<noteq> None"

definition appendStep :: "envelope \<Rightarrow> marked_step" where
  "appendStep env = (\<lambda>s. snd (memAppend [env] s), hasEvent (evId env))"

definition receiptStep :: "receipt_fact \<Rightarrow> marked_step" where
  "receiptStep f = (memRecordReceipt f, \<lambda>s. fmlookup (mmReceipts s) (rfEvent f) \<noteq> None)"

definition dispatchRow :: "envelope \<Rightarrow> string \<Rightarrow> node_id \<Rightarrow> node_id \<Rightarrow> movement \<Rightarrow> in_transit_row" where
  "dispatchRow env tid from to m = \<lparr>irTransferID = tid, irKey = lineKey m, irFromNode = from, irToNode = to,
     irDispatched = mQty m, irReceived = 0, irDispatchedAt = evRecordedAt env, irFailed = False\<rparr>"

definition dispatchStep :: "envelope \<Rightarrow> string \<Rightarrow> node_id \<Rightarrow> node_id \<Rightarrow> movement \<Rightarrow> marked_step" where
  "dispatchStep env tid from to m = (memRecordDispatch (dispatchRow env tid from to m),
     \<lambda>s. \<exists>row. memInTransit s tid (lineKey m) = Some row \<and> irDispatched row = mQty m)"

definition failStep :: "string \<Rightarrow> marked_step" where
  "failStep tid = (memFailTransfer tid,
     \<lambda>s. \<forall>k row. fmlookup (mmTransit s) k = Some row \<longrightarrow> irTransferID row = tid \<longrightarrow> irFailed row)"

definition acceptedOf :: "in_transit_row \<Rightarrow> movement \<Rightarrow> float64" where
  "acceptedOf row m = (let remaining = irDispatched row - irReceived row in if remaining < mQty m then remaining else mQty m)"

definition receivedStep :: "envelope \<Rightarrow> string \<Rightarrow> movement \<Rightarrow> marked_step" where
  "receivedStep env tid m =
    (\<lambda>s. case memInTransit s tid (lineKey m) of None \<Rightarrow> s
       | Some row \<Rightarrow> if acceptedOf row m \<le> 0 then s
           else snd (memAddReceived (evId env) tid (lineKey m) (acceptedOf row m) s),
     \<lambda>s. case memInTransit s tid (lineKey m) of None \<Rightarrow> True
       | Some row \<Rightarrow> acceptedOf row m \<le> 0 \<or> fmlookup (mmFolded s) (eventKey (evId env) (lineKey m)) \<noteq> None)"

definition enqueued :: "node_id \<Rightarrow> envelope \<Rightarrow> mem_store \<Rightarrow> bool" where
  "enqueued target env s \<longleftrightarrow> fm_get False (mmEnqueued s) (enqueueKey target (evId env))"

definition enqueueStep :: "node_id \<Rightarrow> envelope \<Rightarrow> marked_step" where
  "enqueueStep target env = (memEnqueue target [env], enqueued target env)"

fun sourceOf :: "mem_store \<Rightarrow> string \<Rightarrow> movement list \<Rightarrow> node_id option" where
  "sourceOf s tid [] = None"
| "sourceOf s tid (m # ms) = (case memInTransit s tid (lineKey m) of None \<Rightarrow> sourceOf s tid ms | Some row \<Rightarrow> Some (irFromNode row))"

definition fanStep :: "envelope \<Rightarrow> string \<Rightarrow> movement list \<Rightarrow> marked_step" where
  "fanStep env tid ls =
    (\<lambda>s. case sourceOf s tid ls of None \<Rightarrow> s | Some n \<Rightarrow> memEnqueue n [env] s,
     \<lambda>s. case sourceOf s tid ls of None \<Rightarrow> True | Some n \<Rightarrow> enqueued n env s)"

text \<open>The fact a receipt leaves, if it does.\<close>

definition factOf :: "envelope \<Rightarrow> wh_payload \<Rightarrow> rejection option \<Rightarrow> receipt_fact option" where
  "factOf env p rej = (case p of
      GoodsReceived rid dnote po m \<Rightarrow>
        (let fact = \<lambda>q. \<lparr>rfEvent = evId env, rfNode = idNode (evId env), rfPORef = po, rfDeliveryNote = dnote,
           rfSKU = mSKU m, rfQtyBase = q\<rparr>
         in case rej of None \<Rightarrow> Some (fact (mQty m))
            | Some r \<Rightarrow> if rjReason r \<noteq> ReasonPOOverReceipt then None else Some (fact (mQty m - rjExcess r)))
    | _ \<Rightarrow> None)"

definition recordSteps :: "envelope \<Rightarrow> wh_payload \<Rightarrow> rejection option \<Rightarrow> marked_step list" where
  "recordSteps env p rej = (case p of
      GoodsReceived _ _ _ _ \<Rightarrow> (case factOf env p rej of None \<Rightarrow> [] | Some f \<Rightarrow> [receiptStep f])
    | TransferDispatched tid from to ls \<Rightarrow> map (dispatchStep env tid from to) ls @ (if rej = None then [] else [failStep tid])
    | TransferReceived tid ls \<Rightarrow> map (receivedStep env tid) ls
    | _ \<Rightarrow> [])"

definition fanSteps :: "envelope \<Rightarrow> wh_payload \<Rightarrow> rejection option \<Rightarrow> marked_step list" where
  "fanSteps env p rej = (case p of
      TransferDispatched tid from to ls \<Rightarrow> (if rej \<noteq> None then [] else [enqueueStep to env])
    | TransferReceived tid ls \<Rightarrow> [fanStep env tid ls]
    | _ \<Rightarrow> [])"

definition trunk :: "envelope \<Rightarrow> wh_payload \<Rightarrow> rejection option \<Rightarrow> marked_step list" where
  "trunk env p rej = appendStep env # recordSteps env p rej @ fanSteps env p rej"

section \<open>They are what the arbiter performs\<close>

lemma memAppend_one: "snd (memAppend [env] s) = (if hasEvent (evId env) s then s else s\<lparr>mmEvents := fmupd (evId env) env (mmEvents s)\<rparr>)"
  by (simp add: hasEvent_def)

lemma performs_dispatches: "performs (recordDispatches env tid from to ls) (stepsOf (map (dispatchStep env tid from to) ls))"
proof (induction ls)
  case (Cons m ls)
  have "performs (recordDispatches env tid from to (m # ls))
      ([memRecordDispatch (dispatchRow env tid from to m)] @ stepsOf (map (dispatchStep env tid from to) ls))"
    unfolding recordDispatches.simps dispatchRow_def [symmetric] by (rule performs_then [OF performs_do Cons])
  moreover have "fst (dispatchStep env tid from to m) = memRecordDispatch (dispatchRow env tid from to m)"
    by (simp add: dispatchStep_def)
  ultimately show ?case by (simp only: list.map append.simps)
qed auto

lemma performs_received: "performs (recordReceived env tid ls) (stepsOf (map (receivedStep env tid) ls))"
proof (induction ls)
  case (Cons m ls)
  let ?gs = "stepsOf (map (receivedStep env tid) ls)"
  have rest: "runs (recordReceived env tid ls) s (insert s' (visited ?gs s)) (steps ?gs s) ()" for s s'
    using Cons unfolding performs_def by (auto intro: runs_mono)
  have tail: "runs (recordReceived env tid ls) s (visited ?gs s) (steps ?gs s) ()" for s
    using Cons unfolding performs_def by blast
  let ?q = "\<lambda>row. case row of None \<Rightarrow> recordReceived env tid ls
    | Some row \<Rightarrow> let remaining = irDispatched row - irReceived row; accepted = (if remaining < mQty m then remaining else mQty m)
        in if accepted \<le> 0 then recordReceived env tid ls
           else andThen (call (memAddReceived (evId env) tid (lineKey m) accepted)) (\<lambda>_. recordReceived env tid ls)"
  have "performs (andThen (callRead (\<lambda>s. memInTransit s tid (lineKey m))) ?q) (fst (receivedStep env tid m) # ?gs)"
  proof (rule performs_read)
    fix s
    show "runs (?q (memInTransit s tid (lineKey m))) s
      (insert s (visited ?gs (fst (receivedStep env tid m) s))) (steps ?gs (fst (receivedStep env tid m) s)) ()"
    proof (cases "memInTransit s tid (lineKey m)")
      case None
      then show ?thesis using rest by (simp add: receivedStep_def)
    next
      case (Some row)
      show ?thesis
      proof (cases "acceptedOf row m \<le> 0")
        case True
        then show ?thesis using rest Some by (simp add: receivedStep_def acceptedOf_def Let_def)
      next
        case False
        let ?f = "memAddReceived (evId env) tid (lineKey m) (acceptedOf row m)"
        have "?f s = (Inr (), snd (?f s))"
          using Some by (auto simp: memAddReceived_def memInTransit_def Let_def)
        then have "runs (call ?f) s (insert s (visited ?gs (snd (?f s)))) (snd (?f s)) ()"
          by (rule runs_call) (simp_all add: visited_self)
        from runs_then [OF this, of "\<lambda>_. recordReceived env tid ls", OF rest] show ?thesis
          using Some False by (simp add: receivedStep_def acceptedOf_def Let_def)
      qed
    qed
  qed
  then show ?case by (simp only: recordReceived.simps list.map)
qed auto

lemma performs_fanOutReceived: "performs (fanOutReceived env tid ls) (stepsOf [fanStep env tid ls])"
proof (induction ls)
  case Nil
  have "runs (ok ()) s (visited [\<lambda>s. s] s) s ()" for s by auto
  then show ?case by (simp add: performs_def fanStep_def)
next
  case (Cons m ls)
  have "runs (fanOutReceived env tid (m # ls)) s (insert s {fst (fanStep env tid (m # ls)) s}) (fst (fanStep env tid (m # ls)) s) ()" for s
    unfolding fanOutReceived.simps
  proof (rule runs_then [OF runs_read])
    show "runs (case memInTransit s tid (lineKey m) of None \<Rightarrow> fanOutReceived env tid ls
        | Some row \<Rightarrow> callDo (memEnqueue (irFromNode row) [env])) s (insert s {fst (fanStep env tid (m # ls)) s})
        (fst (fanStep env tid (m # ls)) s) ()"
    proof (cases "memInTransit s tid (lineKey m)")
      case None
      then show ?thesis using Cons by (simp add: performs_def fanStep_def)
    next
      case (Some row)
      then show ?thesis by (auto simp: fanStep_def)
    qed
  qed simp
  then show ?case by (simp add: performs_def)
qed

lemma performs_record: "performs (recordEvent env p rej) (stepsOf (recordSteps env p rej))"
proof (cases p)
  case (GoodsReceived rid dnote po m)
  then show ?thesis
    by (auto simp: recordEvent_def recordSteps_def factOf_def receiptStep_def split: option.split)
next
  case (TransferDispatched tid "from" to ls)
  have "performs (if rej = None then ok () else callDo (memFailTransfer tid)) (stepsOf (if rej = None then [] else [failStep tid]))"
    by (auto simp: failStep_def)
  from performs_then [OF performs_dispatches this, of env tid "from" to ls] show ?thesis
    by (simp add: TransferDispatched recordEvent_def recordSteps_def)
next
  case (TransferReceived tid ls)
  then show ?thesis using performs_received by (simp add: recordEvent_def recordSteps_def)
qed (auto simp: recordEvent_def recordSteps_def)

lemma performs_fan: "performs (fanOut env p rej) (stepsOf (fanSteps env p rej))"
proof (cases p)
  case (TransferDispatched tid "from" to ls)
  then show ?thesis by (auto simp: fanOut_def fanSteps_def enqueueStep_def)
next
  case (TransferReceived tid ls)
  then show ?thesis using performs_fanOutReceived by (simp add: fanOut_def fanSteps_def)
qed (auto simp: fanOut_def fanSteps_def)

section \<open>Each step settles\<close>

text \<open>What the steps after the books only add to.\<close>

definition grows :: "mem_store \<Rightarrow> mem_store \<Rightarrow> bool" where
  "grows s s' \<longleftrightarrow> mmReceipts s' = mmReceipts s \<and> mmTransit s' = mmTransit s \<and> mmFolded s' = mmFolded s \<and>
     (\<forall>i. hasEvent i s \<longrightarrow> hasEvent i s') \<and>
     (\<forall>k. fm_get False (mmEnqueued s) k \<longrightarrow> fm_get False (mmEnqueued s') k)"

lemma sourceOf_cong: "mmTransit s' = mmTransit s \<Longrightarrow> sourceOf s' tid ls = sourceOf s tid ls"
  by (induction ls) (simp_all add: memInTransit_def split: option.split)

lemma trunk_grows:
  assumes "F \<in> snd ` set (trunk env p rej)" "grows s s'" "F s"
  shows "F s'"
proof -
  have tr: "memInTransit s' = memInTransit s" and src: "sourceOf s' tid ls = sourceOf s tid ls" for tid ls
    using assms(2) by (auto simp: grows_def memInTransit_def fun_eq_iff intro: sourceOf_cong)
  have enq: "enqueued n e s'" if "enqueued n e s" for n e
    using assms(2) that by (simp add: grows_def enqueued_def)
  consider "F \<in> snd ` set (recordSteps env p rej)" | "F \<in> snd ` set (fanSteps env p rej)" | "F = hasEvent (evId env)"
    using assms(1) by (auto simp: trunk_def appendStep_def)
  then show ?thesis
  proof cases
    case 1
    then show ?thesis
      using assms(2,3) by (cases p; cases rej) (auto simp: recordSteps_def factOf_def receiptStep_def dispatchStep_def failStep_def
        receivedStep_def Let_def grows_def tr split: if_splits option.splits)
  next
    case 2
    then show ?thesis
      using assms(3) enq by (cases p) (auto simp: fanSteps_def enqueueStep_def fanStep_def src split: if_splits option.splits)
  next
    case 3
    then show ?thesis using assms(2,3) by (simp add: grows_def)
  qed
qed

lemma memEnqueue_one: "memEnqueue n [env] s = (if enqueued n env s then s
    else s\<lparr>mmEnqueued := fmupd (enqueueKey n (evId env)) True (mmEnqueued s), mmNextOrd := mmNextOrd s + 1,
      mmQueue := fmupd n (fm_get [] (mmQueue s) n @ [\<lparr>obOrd = mmNextOrd s + 1, obEnv = env\<rparr>]) (mmQueue s)\<rparr>)"
  by (simp add: memEnqueue_def enqueueOne_def enqueued_def Let_def)

lemma enqueueOne_grows: "grows s (enqueueOne n s env)"
  by (simp add: grows_def enqueueOne_def Let_def hasEvent_def)

lemma memEnqueue_grows: "grows s (memEnqueue n es s)"
proof -
  have "grows s (foldl (enqueueOne n) t es)" if "grows s t" for t
    using that
  proof (induction es arbitrary: t)
    case (Cons e es)
    from Cons.prems enqueueOne_grows [of t n e] have "grows s (enqueueOne n t e)" by (simp add: grows_def)
    from Cons.IH [OF this] show ?case by simp
  qed simp
  then show ?thesis by (simp add: memEnqueue_def grows_def)
qed

lemma grows_refl [simp]: "grows s s"
  by (simp add: grows_def)

lemma fan_grows: "h \<in> fst ` set (fanSteps env p rej) \<Longrightarrow> grows s (h s)"
  by (cases p) (auto simp: fanSteps_def enqueueStep_def fanStep_def memEnqueue_grows grows_refl split: if_splits option.split)

lemma memRecordDispatch_id:
  "fmlookup (mmTransit s) (transitKey (irTransferID row) (irKey row)) = Some r \<Longrightarrow> irDispatched r = irDispatched row \<Longrightarrow>
   memRecordDispatch row s = s"
proof -
  assume r: "fmlookup (mmTransit s) (transitKey (irTransferID row) (irKey row)) = Some r" "irDispatched r = irDispatched row"
  have "r\<lparr>irDispatched := irDispatched row\<rparr> = r" using r(2) by (cases r) simp
  moreover have "fmupd (transitKey (irTransferID row) (irKey row)) r (mmTransit s) = mmTransit s"
    using r(1) by (intro fmap_ext) auto
  ultimately show ?thesis using r(1) by (simp add: memRecordDispatch_def Let_def)
qed

lemma memFailTransfer_lookup:
  "fmlookup (mmTransit (memFailTransfer tid s)) k =
     map_option (\<lambda>row. if irTransferID row = tid then row\<lparr>irFailed := True\<rparr> else row) (fmlookup (mmTransit s) k)"
proof -
  let ?f = "\<lambda>t (key, row). if irTransferID row = tid then fmupd key (row\<lparr>irFailed := True\<rparr>) t else t"
  let ?g = "\<lambda>old k row. if irTransferID row = tid then Some (row\<lparr>irFailed := True\<rparr>) else old"
  have "fmlookup (foldl ?f (mmTransit s) (sorted_list_of_fmap (mmTransit s))) k =
      (case map_of (sorted_list_of_fmap (mmTransit s)) k of None \<Rightarrow> fmlookup (mmTransit s) k
       | Some row \<Rightarrow> ?g (fmlookup (mmTransit s) k) k row)"
    by (rule foldl_fm_lookup) (auto simp: distinct_sorted_list_of_fmap)
  then show ?thesis
    by (auto simp: memFailTransfer_def map_of_sorted_list split: option.split)
qed

lemma memFailTransfer_failed:
  assumes "fmlookup (mmTransit (memFailTransfer tid s)) k = Some row" "irTransferID row = tid"
  shows "irFailed row"
proof -
  obtain z where z: "fmlookup (mmTransit s) k = Some z"
    using assms(1) by (cases "fmlookup (mmTransit s) k") (simp_all add: memFailTransfer_lookup)
  then have "(if irTransferID z = tid then z\<lparr>irFailed := True\<rparr> else z) = row"
    using assms(1) by (simp only: memFailTransfer_lookup option.map option.inject)
  then show ?thesis using assms(2) by (auto split: if_splits)
qed

lemma memFailTransfer_frame: "memFailTransfer tid s = s\<lparr>mmTransit := mmTransit (memFailTransfer tid s)\<rparr>"
  by (simp add: memFailTransfer_def)

lemma transitKey_eventKey: "transitKey tid k = transitKey tid k' \<longleftrightarrow> eventKey i k = eventKey i k'"
  by (simp add: transitKey_def eventKey_def)

lemma settled_record:
  assumes "case p of TransferDispatched tid _ _ ls \<Rightarrow> distinct (map (\<lambda>m. transitKey tid (lineKey m)) ls)
    | TransferReceived tid ls \<Rightarrow> distinct (map (\<lambda>m. transitKey tid (lineKey m)) ls) | _ \<Rightarrow> True"
  shows "settled (recordSteps env p rej)"
proof (cases p)
  case (GoodsReceived rid dnote po m)
  have "settled [receiptStep f]" for f
    by (auto simp: receiptStep_def memRecordReceipt_def)
  then show ?thesis by (simp add: recordSteps_def GoodsReceived split: option.split)
next
  case (TransferDispatched tid "from" to ls)
  let ?row = "dispatchRow env tid from to" and ?key = "\<lambda>m. transitKey tid (lineKey m)"
  have lines: "settled (map (dispatchStep env tid from to) ls)"
  proof (rule settled_map)
    show "distinct (map ?key ls)" using assms by (simp add: TransferDispatched)
    show "snd (dispatchStep env tid from to m) (fst (dispatchStep env tid from to m) s)" for m s
      by (auto simp: dispatchStep_def memRecordDispatch_def memInTransit_def dispatchRow_def Let_def split: option.split)
    show "fst (dispatchStep env tid from to m) s = s" if "snd (dispatchStep env tid from to m) s" for m s
      using that by (auto simp: dispatchStep_def memInTransit_def dispatchRow_def intro: memRecordDispatch_id)
    show "snd (dispatchStep env tid from to m) (fst (dispatchStep env tid from to x) s)"
      if "?key x \<noteq> ?key m" "snd (dispatchStep env tid from to m) s" for m x s
    proof -
      have "memInTransit (memRecordDispatch (?row x) s) tid (lineKey m) = memInTransit s tid (lineKey m)"
        using that(1) by (auto simp: memRecordDispatch_def memInTransit_def dispatchRow_def Let_def split: option.split)
      with that(2) show ?thesis by (simp add: dispatchStep_def)
    qed
  qed
  have "settled [failStep tid]"
  proof -
    have "memFailTransfer tid s = s"
      if "\<forall>k row. fmlookup (mmTransit s) k = Some row \<longrightarrow> irTransferID row = tid \<longrightarrow> irFailed row" for s
    proof -
      have "irFailed row \<Longrightarrow> row\<lparr>irFailed := True\<rparr> = row" for row :: in_transit_row by (cases row) simp
      then have "fmlookup (mmTransit (memFailTransfer tid s)) k = fmlookup (mmTransit s) k" for k
        using that by (cases "fmlookup (mmTransit s) k") (auto simp: memFailTransfer_lookup)
      then have "mmTransit (memFailTransfer tid s) = mmTransit s" by (rule fmap_ext)
      then show ?thesis by (subst memFailTransfer_frame) simp
    qed
    then show ?thesis
      unfolding failStep_def settled.simps list.set image_empty using memFailTransfer_failed [of tid] by blast
  qed
  moreover have "F (h s)"
    if kind: "F \<in> snd ` set (map (dispatchStep env tid from to) ls)" and h: "h \<in> fst ` set [failStep tid]" and Fs: "F s" for F h s
  proof -
    obtain m where F: "F = (\<lambda>s. \<exists>row. memInTransit s tid (lineKey m) = Some row \<and> irDispatched row = mQty m)"
    proof -
      obtain m where "F = snd (dispatchStep env tid from to m)" using kind by auto
      then have "F = (\<lambda>s. \<exists>row. memInTransit s tid (lineKey m) = Some row \<and> irDispatched row = mQty m)"
        unfolding dispatchStep_def snd_conv .
      then show thesis by (rule that)
    qed
    obtain row where row: "memInTransit s tid (lineKey m) = Some row" "irDispatched row = mQty m"
      using Fs unfolding F by blast
    have "irDispatched (if irTransferID row = tid then row\<lparr>irFailed := True\<rparr> else row) = mQty m" using row(2) by simp
    moreover have "memInTransit (h s) tid (lineKey m) = Some (if irTransferID row = tid then row\<lparr>irFailed := True\<rparr> else row)"
      using h row(1) by (simp add: failStep_def memInTransit_def memFailTransfer_lookup)
    ultimately show ?thesis unfolding F by blast
  qed
  ultimately have "settled (map (dispatchStep env tid from to) ls @ [failStep tid])"
    by (intro settled_append lines) blast+
  with lines show ?thesis by (simp add: recordSteps_def TransferDispatched)
next
  case (TransferReceived tid ls)
  let ?g = "\<lambda>m. fst (receivedStep env tid m)" and ?F = "\<lambda>m. snd (receivedStep env tid m)"
  have "settled (map (receivedStep env tid) ls)"
  proof (rule settled_map)
    show "distinct (map (\<lambda>m. transitKey tid (lineKey m)) ls)" using assms by (simp add: TransferReceived)
    show "?F m (?g m s)" for m s
      by (cases "memInTransit s tid (lineKey m)")
        (auto simp: receivedStep_def memAddReceived_def memInTransit_def Let_def split: option.split)
    show "?g m s = s" if "?F m s" for m s
      using that by (auto simp: receivedStep_def memAddReceived_def memInTransit_def Let_def split: option.splits)
    show "?F m (?g x s)" if ne: "transitKey tid (lineKey x) \<noteq> transitKey tid (lineKey m)" and F: "?F m s" for m x s
    proof -
      have "eventKey (evId env) (lineKey x) \<noteq> eventKey (evId env) (lineKey m)"
        using ne by (simp add: transitKey_eventKey [of tid _ _ "evId env"])
      obtain t where t: "t = ?g x s" by simp
      from \<open>eventKey _ _ \<noteq> _\<close> have "memInTransit (?g x s) tid (lineKey m) = memInTransit s tid (lineKey m)"
        "fmlookup (mmFolded (?g x s)) (eventKey (evId env) (lineKey m)) = fmlookup (mmFolded s) (eventKey (evId env) (lineKey m))"
        using ne by (auto simp: receivedStep_def memAddReceived_def memInTransit_def Let_def split: option.split)
      with F show ?thesis unfolding t [symmetric] by (simp add: receivedStep_def split: option.splits)
    qed
  qed
  then show ?thesis by (simp add: recordSteps_def TransferReceived)
qed (simp_all add: recordSteps_def)

text \<open>A transfer's lines have keys of their own, as strings of the store.\<close>

definition linesApart :: "wh_payload \<Rightarrow> bool" where
  "linesApart p \<longleftrightarrow> (case p of
      TransferDispatched tid _ _ ls \<Rightarrow> distinct (map (\<lambda>m. transitKey tid (lineKey m)) ls)
    | TransferReceived tid ls \<Rightarrow> distinct (map (\<lambda>m. transitKey tid (lineKey m)) ls)
    | _ \<Rightarrow> True)"

lemma record_keeps_event: "h \<in> fst ` set (recordSteps env p rej @ fanSteps env p rej) \<Longrightarrow> mmEvents (h s) = mmEvents s"
  by (cases p; cases rej) (auto simp: recordSteps_def fanSteps_def receiptStep_def dispatchStep_def failStep_def receivedStep_def
      enqueueStep_def fanStep_def memEnqueue_one memRecordReceipt_def memRecordDispatch_def memFailTransfer_def
      memAddReceived_def Let_def split: if_splits option.split)

lemma settled_trunk: "linesApart p \<Longrightarrow> settled (trunk env p rej)"
proof -
  assume "linesApart p"
  then have "settled (recordSteps env p rej)" by (intro settled_record) (simp add: linesApart_def)
  moreover have "settled (fanSteps env p rej)"
  proof -
    have "enqueued n env (memEnqueue n [env] s)" for n s
      by (simp add: memEnqueue_one) (simp add: enqueued_def)
    moreover have "sourceOf (memEnqueue n [env] s) tid ls = sourceOf s tid ls" for n s tid ls
      by (rule sourceOf_cong) (simp add: memEnqueue_one)
    ultimately show ?thesis
      by (cases p) (auto simp: fanSteps_def enqueueStep_def fanStep_def memEnqueue_one split: option.splits)
  qed
  ultimately have "settled (recordSteps env p rej @ fanSteps env p rej)"
  proof (rule settled_append)
    fix F h s
    assume "F \<in> snd ` set (recordSteps env p rej)" "h \<in> fst ` set (fanSteps env p rej)" "F s"
    then show "F (h s)" using trunk_grows [of F env p rej s "h s"] fan_grows [of h env p rej s] by (auto simp: trunk_def)
  qed
  moreover have "hasEvent (evId env) (h s)" if "h \<in> fst ` set (recordSteps env p rej @ fanSteps env p rej)" "hasEvent (evId env) s" for h s
    using that record_keeps_event [OF that(1), of s] by (simp add: hasEvent_def)
  ultimately show ?thesis by (auto simp: trunk_def appendStep_def memAppend_one) (auto simp: hasEvent_def)
qed

section \<open>The verdict\<close>

definition remOf :: "envelope \<Rightarrow> string \<Rightarrow> mem_store \<Rightarrow> movement \<Rightarrow> float64" where
  "remOf env tid s m = (case memInTransit s tid (lineKey m) of None \<Rightarrow> 0
     | Some row \<Rightarrow> irDispatched row - (irReceived row - memReceivedFromEvent s (evId env) tid (lineKey m)))"

fun overPure :: "(movement \<Rightarrow> float64) \<Rightarrow> movement list \<Rightarrow> wh_event list \<Rightarrow> float64 \<Rightarrow> wh_event list \<times> float64" where
  "overPure rm [] events excess = (events, excess)"
| "overPure rm (m # ms) events excess = (let over = mQty m - rm m in
     if over \<le> 0 then overPure rm ms events excess
     else overPure rm ms (events @ [adjustment (mSKU m) (reverseMove m over) ReasonTransferOverReceipt]) (excess + over))"

fun unknownPure :: "(string \<Rightarrow> item option) \<Rightarrow> movement list \<Rightarrow> wh_event list \<Rightarrow> float64 \<Rightarrow> wh_event list \<times> float64" where
  "unknownPure it [] events excess = (events, excess)"
| "unknownPure it (m # ms) events excess =
     (if (case it (mSKU m) of None \<Rightarrow> False | Some i \<Rightarrow> \<not> itDeleted i) then unknownPure it ms events excess
      else unknownPure it ms (events @ [adjustment (mSKU m) (reverseMove m (mQty m)) ReasonUnknownSKU]) (excess + mQty m))"

definition poPure :: "wh_event list \<Rightarrow> movement \<Rightarrow> string \<Rightarrow> float64 \<Rightarrow> float64 \<Rightarrow> rejection option" where
  "poPure es m rid already ordered = (let excess = already + mQty m - ordered in
     if excess \<le> 0 then None
     else let excess = (if mQty m < excess then mQty m else excess) in
       Some \<lparr>rjReason = ReasonPOOverReceipt, rjEvents = es @ [adjustment (mSKU m) (reverseMove m excess) ReasonPOOverReceipt,
          \<lparr>weType = ''ReceiptLineRecorded'', weAggregate = rid, wePayload = ReceiptLineRecorded rid 0 (mSKU m) (mLotID m) (- excess)\<rparr>],
          rjExcess = excess\<rparr>)"

definition alreadyOf :: "visit_order \<Rightarrow> envelope \<Rightarrow> string \<Rightarrow> string \<Rightarrow> mem_store \<Rightarrow> float64" where
  "alreadyOf vis env po sku s = (case memReceipt s (evId env) of None \<Rightarrow> memReceivedAgainstPO vis s po sku
     | Some f \<Rightarrow> memReceivedAgainstPO vis s po sku - rfQtyBase f)"

definition vDuplicate :: "envelope \<Rightarrow> string \<Rightarrow> movement \<Rightarrow> mem_store \<Rightarrow> rejection option" where
  "vDuplicate env dnote m s = (let first = memDeliveryNoteFirstSeen s dnote (mSKU m) in
     if first = None \<or> first = Some (evId env) then None
     else Some \<lparr>rjReason = ReasonDuplicateReceipt,
       rjEvents = [adjustment (mSKU m) (reverseMove m (mQty m)) ReasonDuplicateReceipt], rjExcess = mQty m\<rparr>)"

definition vDestination :: "string \<Rightarrow> node_id \<Rightarrow> movement list \<Rightarrow> mem_store \<Rightarrow> rejection option" where
  "vDestination tid to ls s = (case memNodeConfig s to of (rejects, known) \<Rightarrow>
     if \<not> (\<not> known \<or> list_ex (\<lambda>m. fm_get False rejects (mSKU m)) ls) then None
     else Some \<lparr>rjReason = ReasonTransferRejected,
       rjEvents = map (\<lambda>m. adjustment tid (reverseMove m (mQty m)) ReasonTransferRejected) ls,
       rjExcess = foldl (\<lambda>x m. x + mQty m) 0 ls\<rparr>)"

definition orElse :: "'a option \<Rightarrow> 'a option \<Rightarrow> 'a option" where
  "orElse a b = (case a of None \<Rightarrow> b | Some x \<Rightarrow> Some x)"

definition vUnknown :: "wh_payload \<Rightarrow> mem_store \<Rightarrow> rejection option" where
  "vUnknown p s = rejected ReasonUnknownSKU (unknownPure (memItem s) (movementsOf p) [] 0)"

definition verdict :: "visit_order \<Rightarrow> envelope \<Rightarrow> wh_payload \<Rightarrow> mem_store \<Rightarrow> rejection option" where
  "verdict vis env p s = orElse (vUnknown p s) (case p of
      GoodsReceived rid dnote po m \<Rightarrow> orElse (vDuplicate env dnote m s)
        (case memPurchaseOrder s po (mSKU m) of None \<Rightarrow> None
         | Some ordered \<Rightarrow> poPure [] m rid (alreadyOf vis env po (mSKU m) s) ordered)
    | TransferDispatched tid from to ls \<Rightarrow> vDestination tid to ls s
    | TransferReceived tid ls \<Rightarrow> rejected ReasonTransferOverReceipt (overPure (remOf env tid s) ls [] 0)
    | _ \<Rightarrow> None)"

lemma unknownLoop_reads: "readsOnly (unknownLoop ms events excess) (\<lambda>s. unknownPure (memItem s) ms events excess)"
proof (induction ms arbitrary: events excess)
  case (Cons m ms)
  show ?case
    unfolding unknownLoop.simps readsOnly_def
  proof
    fix s
    show "runs (andThen (callRead (\<lambda>s. memItem s (mSKU m))) (\<lambda>it.
        if (case it of None \<Rightarrow> False | Some it \<Rightarrow> \<not> itDeleted it) then unknownLoop ms events excess
        else unknownLoop ms (events @ [adjustment (mSKU m) (reverseMove m (mQty m)) ReasonUnknownSKU]) (excess + mQty m)))
      s {s} s (unknownPure (memItem s) (m # ms) events excess)"
      by (rule runs_then [OF runs_read]) (use Cons in \<open>auto simp: readsOnly_def\<close>)
  qed
qed auto

lemma overLoop_reads: "readsOnly (overLoop env tid ms events excess) (\<lambda>s. overPure (remOf env tid s) ms events excess)"
proof (induction ms arbitrary: events excess)
  case (Cons m ms)
  have rest: "runs (let over = mQty m - x in
      if over \<le> 0 then overLoop env tid ms events excess
      else overLoop env tid ms (events @ [adjustment (mSKU m) (reverseMove m over) ReasonTransferOverReceipt]) (excess + over))
    s {s} s (let over = mQty m - x in
      if over \<le> 0 then overPure (remOf env tid s) ms events excess
      else overPure (remOf env tid s) ms (events @ [adjustment (mSKU m) (reverseMove m over) ReasonTransferOverReceipt]) (excess + over))"
    for s x using Cons by (simp add: readsOnly_def Let_def)
  have own: "runs (case row of None \<Rightarrow> ok 0 | Some row \<Rightarrow>
      andThen (callRead (\<lambda>s. memReceivedFromEvent s (evId env) tid (lineKey m))) (\<lambda>own. ok (irDispatched row - (irReceived row - own))))
    s {s} s (case row of None \<Rightarrow> 0 | Some row \<Rightarrow> irDispatched row - (irReceived row - memReceivedFromEvent s (evId env) tid (lineKey m)))"
    for s row by (cases row) (auto intro: runs_then)
  show ?case
    unfolding overLoop.simps overPure.simps readsOnly_def
    by (intro allI runs_then [OF runs_read] runs_then [OF own], simp) (use rest in \<open>simp add: remOf_def\<close>)
qed auto

lemma verdict_reads: "readsOnly (runValidators (validators vis env p)) (verdict vis env p)"
proof -
  have u: "readsOnly (unknownSKU p) (vUnknown p)"
    unfolding unknownSKU_def vUnknown_def using readsOnly_then [OF unknownLoop_reads readsOnly_ok] .
  have chain: "readsOnly (runValidators (v # vs)) (\<lambda>s. orElse (f s) (g s))"
    if "readsOnly v f" "readsOnly (runValidators vs) g" for v vs f g
    unfolding readsOnly_def runValidators.simps
  proof
    fix s
    show "runs (andThen v (\<lambda>r. case r of None \<Rightarrow> runValidators vs | Some r \<Rightarrow> ok (Some r))) s {s} s (orElse (f s) (g s))"
      by (rule runs_then [of _ _ _ s "f s"]) (use that in \<open>auto simp: readsOnly_def orElse_def split: option.split\<close>)
  qed
  have last: "readsOnly (runValidators []) (\<lambda>_. None)" by auto
  have d: "readsOnly (duplicateDeliveryNote env p) (case p of GoodsReceived rid dnote po m \<Rightarrow> vDuplicate env dnote m | _ \<Rightarrow> \<lambda>_. None)"
    unfolding duplicateDeliveryNote_def readsOnly_def
    by (cases p) (auto simp: vDuplicate_def Let_def intro!: runs_then [OF runs_read])
  have po: "readsOnly (poOverReceipt vis env p) (case p of GoodsReceived rid dnote po m \<Rightarrow>
      (\<lambda>s. case memPurchaseOrder s po (mSKU m) of None \<Rightarrow> None
         | Some ordered \<Rightarrow> poPure [] m rid (alreadyOf vis env po (mSKU m) s) ordered) | _ \<Rightarrow> \<lambda>_. None)"
    unfolding readsOnly_def
  proof
    fix s
    show "runs (poOverReceipt vis env p) s {s} s ((case p of GoodsReceived rid dnote po m \<Rightarrow>
      (\<lambda>s. case memPurchaseOrder s po (mSKU m) of None \<Rightarrow> None
         | Some ordered \<Rightarrow> poPure [] m rid (alreadyOf vis env po (mSKU m) s) ordered) | _ \<Rightarrow> \<lambda>_. None) s)"
    proof (cases p)
      case (GoodsReceived rid dnote po m)
      show ?thesis
        unfolding GoodsReceived poOverReceipt_def wh_payload.case
      proof (rule runs_then [OF runs_read])
        show "runs (case memPurchaseOrder s po (mSKU m) of None \<Rightarrow> ok None | Some ordered \<Rightarrow>
          andThen (callRead (\<lambda>s. memReceivedAgainstPO vis s po (mSKU m))) (\<lambda>already.
          andThen (callRead (\<lambda>s. memReceipt s (evId env))) (\<lambda>own.
            let already = (case own of None \<Rightarrow> already | Some f \<Rightarrow> already - rfQtyBase f);
                excess = already + mQty m - ordered
            in if excess \<le> 0 then ok None
               else let excess = (if mQty m < excess then mQty m else excess) in
                 ok (Some \<lparr>rjReason = ReasonPOOverReceipt,
                   rjEvents = [adjustment (mSKU m) (reverseMove m excess) ReasonPOOverReceipt,
                     \<lparr>weType = ''ReceiptLineRecorded'', weAggregate = rid,
                      wePayload = ReceiptLineRecorded rid 0 (mSKU m) (mLotID m) (- excess)\<rparr>],
                   rjExcess = excess\<rparr>)))) s {s} s
          (case memPurchaseOrder s po (mSKU m) of None \<Rightarrow> None
           | Some ordered \<Rightarrow> poPure [] m rid (alreadyOf vis env po (mSKU m) s) ordered)"
          by (cases "memPurchaseOrder s po (mSKU m)")
            (auto simp: poPure_def alreadyOf_def Let_def split: option.split intro!: runs_then [OF runs_read])
      qed simp
    qed (auto simp: poOverReceipt_def)
  qed
  have t: "readsOnly (transferDestination p) (case p of TransferDispatched tid from to ls \<Rightarrow> vDestination tid to ls | _ \<Rightarrow> \<lambda>_. None)"
    unfolding transferDestination_def readsOnly_def
    by (cases p) (auto simp: vDestination_def split: prod.split intro!: runs_then [OF runs_read])
  have o: "readsOnly (transferOverReceipt env p) (case p of
      TransferReceived tid ls \<Rightarrow> (\<lambda>s. rejected ReasonTransferOverReceipt (overPure (remOf env tid s) ls [] 0)) | _ \<Rightarrow> \<lambda>_. None)"
    unfolding transferOverReceipt_def using readsOnly_then [OF overLoop_reads readsOnly_ok] by (cases p) auto
  note all = chain [OF u chain [OF d chain [OF po chain [OF t chain [OF o last]]]]]
  have eq: "orElse a None = a" for a :: "rejection option" by (simp add: orElse_def split: option.split)
  have "orElse None b = b" for b :: "rejection option" by (simp add: orElse_def)
  with eq all show ?thesis
    unfolding validators_def verdict_def by (cases p) simp_all
qed

end
