(* ===== verification/WhState.thy ===== *)
theory WhState
  imports WhEvent
begin

text \<open>
  A warehouse node's in-memory state and how an event folds into it (\<open>warehouse-node/internal/domain/state.go\<close>,
  \<open>Lot\<close> of \<open>item.go\<close>, \<open>InTransit\<close> of \<open>transfer.go\<close>). Every Go map is a finite map. The structs the
  source reaches through pointers are never shared between map entries, so they are values here.
\<close>

section \<open>The state\<close>

text \<open>Calendar arithmetic is on UTC instants, where a day has 86400 seconds.\<close>

definition dayNanos :: int where
  "dayNanos = 86400000000000"

definition addDays :: "instant \<Rightarrow> int64 \<Rightarrow> instant" where
  "addDays t days = t + sint days * dayNanos"

record lot =
  ltID :: string
  ltSKU :: string
  ltReceivedAt :: instant
  ltExpiresOn :: instant

definition isZeroTime :: "instant \<Rightarrow> bool" where
  "isZeroTime t \<longleftrightarrow> t = zeroTime"

text \<open>The day of expiry is still usable: the lot expires at the midnight that ends it.\<close>

definition expiredAt :: "lot \<Rightarrow> instant \<Rightarrow> bool" where
  "expiredAt l t =
    (if isZeroTime (ltExpiresOn l) then False
     else (let last = (ltExpiresOn l div dayNanos + 1) * dayNanos in \<not> t < last))"

datatype reservation_status = ResActive | ResReleased | ResConsumed

record reservation =
  rsID :: string
  rsKey :: wh_key
  rsQty :: float64
  rsStatus :: reservation_status

datatype receipt_status = ReceiptOpen | ReceiptClosedStatus

record receipt_state =
  rpID :: string
  rpDeliveryNote :: string
  rpPORef :: string
  rpStatus :: receipt_status
  rpLines :: "(int64, wh_payload) fmap" \<comment> \<open>the \<open>ReceiptLineRecorded\<close> of each line number\<close>
  rpNextLineNo :: int64

datatype transfer_status = TransferInFlight | TransferComplete | TransferFailed

record transfer_state =
  tsID :: string
  tsFromNode :: node_id
  tsToNode :: node_id
  tsDispatched :: "(wh_key, float64) fmap"
  tsReceived :: "(wh_key, float64) fmap"
  tsStatus :: transfer_status

definition fullyReceived :: "transfer_state \<Rightarrow> bool" where
  "fullyReceived t =
    list_all (\<lambda>(k, dispatched). \<not> fm_get 0 (tsReceived t) k < dispatched) (sorted_list_of_fmap (tsDispatched t))"

definition inTransitOf :: "transfer_state \<Rightarrow> wh_key \<Rightarrow> float64" where
  "inTransitOf t k = (let bare = bareKey (wkSKU k) (wkLotID k)
     in fm_get 0 (tsDispatched t) bare - fm_get 0 (tsReceived t) bare)"

datatype count_status = CountOpen | CountClosedStatus

record count_state =
  csID :: string
  csLocation :: string
  csStatus :: count_status
  csCounted :: "(wh_key, float64) fmap"

record pending_receipt =
  prLine :: movement
  prBufferedAt :: instant

record wh_state =
  sItems :: "(string, item) fmap"
  sLocations :: "(string, string) fmap"
  sLots :: "(string, lot) fmap"
  sLotsBySKU :: "(string, string list) fmap"
  sStock :: "(wh_key, float64) fmap"
  sReservations :: "(string, reservation) fmap"
  sReceipts :: "(string, receipt_state) fmap"
  sTransfers :: "(string, transfer_state) fmap"
  sCounts :: "(string, count_state) fmap"
  sCompensations :: "envelope list"
  sPendingReceipts :: "(string, pending_receipt list) fmap"
  sHome :: node_id
  sApplyAll :: bool

definition newState :: wh_state where
  "newState = \<lparr>sItems = fmempty, sLocations = fmempty, sLots = fmempty, sLotsBySKU = fmempty,
     sStock = fmempty, sReservations = fmempty, sReceipts = fmempty, sTransfers = fmempty,
     sCounts = fmempty, sCompensations = [], sPendingReceipts = fmempty, sHome = [], sApplyAll = False\<rparr>"

definition setHome :: "node_id \<Rightarrow> wh_state \<Rightarrow> wh_state" where
  "setHome i s = s\<lparr>sHome := i\<rparr>"

definition newTestState :: wh_state where
  "newTestState = newState\<lparr>sApplyAll := True\<rparr>"

section \<open>Reads\<close>

definition onHand :: "wh_state \<Rightarrow> wh_key \<Rightarrow> float64" where
  "onHand s k = fm_get 0 (sStock s) k"

text \<open>The loop subtracts float by float in the order Go happens to visit the map in, and that order
  can show in the result; it is the argument \<open>rs\<close>.\<close>

definition available :: "(string \<times> reservation) list \<Rightarrow> wh_state \<Rightarrow> wh_key \<Rightarrow> float64" where
  "available rs s k =
    foldl (\<lambda>avail (_, r). if rsStatus r = ResActive \<and> rsKey r = k then avail - rsQty r else avail)
      (fm_get 0 (sStock s) k) rs"

text \<open>An order Go may visit a map in.\<close>

definition visits :: "('k \<times> 'v) list \<Rightarrow> ('k::linorder, 'v) fmap \<Rightarrow> bool" where
  "visits xs m \<longleftrightarrow> mset xs = mset (sorted_list_of_fmap m)"

definition stalePendingReceipts :: "wh_state \<Rightarrow> instant \<Rightarrow> int \<Rightarrow> string list" where
  "stalePendingReceipts s now maxAge =
    map fst (filter (\<lambda>(_, ls). list_ex (\<lambda>l. maxAge \<le> now - prBufferedAt l) ls)
      (sorted_list_of_fmap (sPendingReceipts s)))"

definition itemOf :: "wh_state \<Rightarrow> string \<Rightarrow> wh_error + item" where
  "itemOf s sku = (case fmlookup (sItems s) sku of
      None \<Rightarrow> Inl (Violation RuleSKUExists)
    | Some it \<Rightarrow> if itDeleted it then Inl (Violation RuleSKUExists) else Inr it)"

section \<open>Applying an event\<close>

text \<open>\<open>s.Stock[k] + delta\<close>, with a key that reaches zero deleted.\<close>

definition addStock :: "wh_key \<Rightarrow> float64 \<Rightarrow> wh_state \<Rightarrow> wh_state" where
  "addStock k delta s = (let v = fm_get 0 (sStock s) k + delta in
     if feq v 0 then s\<lparr>sStock := fmdrop k (sStock s)\<rparr> else s\<lparr>sStock := fmupd k v (sStock s)\<rparr>)"

definition moveStock :: "wh_state \<Rightarrow> movement \<Rightarrow> wh_state" where
  "moveStock s m = addStock (toKey m) (mQty m) (addStock (fromKey m) (- mQty m) s)"

definition registerLot :: "string \<Rightarrow> string \<Rightarrow> instant \<Rightarrow> wh_state \<Rightarrow> wh_state" where
  "registerLot sku lotID t s =
    (if lotID = [] \<or> fmlookup (sLots s) lotID \<noteq> None then s
     else (let expires = (case fmlookup (sItems s) sku of
               Some it \<Rightarrow> if 0 < sint (itShelfLifeDays it) then addDays t (itShelfLifeDays it) else zeroTime
             | None \<Rightarrow> zeroTime)
       in s\<lparr>sLots := fmupd lotID \<lparr>ltID = lotID, ltSKU = sku, ltReceivedAt = t, ltExpiresOn = expires\<rparr> (sLots s),
            sLotsBySKU := fmupd sku (fm_get [] (sLotsBySKU s) sku @ [lotID]) (sLotsBySKU s)\<rparr>))"

definition zeroLot :: lot where
  "zeroLot = \<lparr>ltID = [], ltSKU = [], ltReceivedAt = zeroTime, ltExpiresOn = zeroTime\<rparr>"

definition backfillLotExpiry :: "item \<Rightarrow> wh_state \<Rightarrow> wh_state" where
  "backfillLotExpiry it s =
    (if sint (itShelfLifeDays it) \<le> 0 then s
     else foldl (\<lambda>s i. let l = fm_get zeroLot (sLots s) i in
            if isZeroTime (ltExpiresOn l)
            then s\<lparr>sLots := fmupd i (l\<lparr>ltExpiresOn := addDays (ltReceivedAt l) (itShelfLifeDays it)\<rparr>) (sLots s)\<rparr>
            else s)
          s (fm_get [] (sLotsBySKU s) (itSKU it)))"

definition setResStatus :: "string \<Rightarrow> reservation_status \<Rightarrow> wh_state \<Rightarrow> wh_state" where
  "setResStatus i st s = (case fmlookup (sReservations s) i of None \<Rightarrow> s
     | Some r \<Rightarrow> s\<lparr>sReservations := fmupd i (r\<lparr>rsStatus := st\<rparr>) (sReservations s)\<rparr>)"

text \<open>\<open>m[StockKey{SKU, LotID}] += line.Qty\<close>\<close>

definition addLine :: "(wh_key, float64) fmap \<Rightarrow> movement \<Rightarrow> (wh_key, float64) fmap" where
  "addLine m l = (let k = bareKey (mSKU l) (mLotID l) in fmupd k (fm_get 0 m k + mQty l) m)"

definition completeIf :: "transfer_state \<Rightarrow> transfer_state" where
  "completeIf t = (if tsStatus t = TransferInFlight \<and> fullyReceived t then t\<lparr>tsStatus := TransferComplete\<rparr> else t)"

definition moveAll :: "bool \<Rightarrow> movement list \<Rightarrow> wh_state \<Rightarrow> wh_state" where
  "moveAll mine ls s = (if mine then foldl moveStock s ls else s)"

definition applyDispatched :: "string \<Rightarrow> node_id \<Rightarrow> node_id \<Rightarrow> movement list \<Rightarrow> wh_state \<Rightarrow> wh_state" where
  "applyDispatched tid from to ls s =
    (let t = (case fmlookup (sTransfers s) tid of Some t \<Rightarrow> t
        | None \<Rightarrow> \<lparr>tsID = tid, tsFromNode = from, tsToNode = to, tsDispatched = fmempty, tsReceived = fmempty,
            tsStatus = TransferInFlight\<rparr>);
      s = moveAll (sApplyAll s \<or> sHome s = from) ls s;
      t = t\<lparr>tsDispatched := foldl addLine (tsDispatched t) ls\<rparr>
    in case fmlookup (sPendingReceipts s) tid of
        None \<Rightarrow> s\<lparr>sTransfers := fmupd tid t (sTransfers s)\<rparr>
      | Some pending \<Rightarrow>
          (let s = moveAll (sApplyAll s \<or> sHome s = to) (map prLine pending) s;
             t = completeIf (t\<lparr>tsReceived := foldl addLine (tsReceived t) (map prLine pending)\<rparr>)
           in s\<lparr>sPendingReceipts := fmdrop tid (sPendingReceipts s), sTransfers := fmupd tid t (sTransfers s)\<rparr>))"

definition applyReceived :: "string \<Rightarrow> movement list \<Rightarrow> instant \<Rightarrow> wh_state \<Rightarrow> wh_state" where
  "applyReceived tid ls t0 s =
    (case fmlookup (sTransfers s) tid of
      None \<Rightarrow> (if ls = [] then s else s\<lparr>sPendingReceipts := fmupd tid
          (fm_get [] (sPendingReceipts s) tid @ map (\<lambda>l. \<lparr>prLine = l, prBufferedAt = t0\<rparr>) ls) (sPendingReceipts s)\<rparr>)
    | Some t \<Rightarrow>
        (let s = moveAll (sApplyAll s \<or> sHome s = tsToNode t) ls s;
           t = completeIf (t\<lparr>tsReceived := foldl addLine (tsReceived t) ls\<rparr>)
         in s\<lparr>sTransfers := fmupd tid t (sTransfers s)\<rparr>))"

definition onReceipt :: "string \<Rightarrow> (receipt_state \<Rightarrow> receipt_state) \<Rightarrow> wh_state \<Rightarrow> wh_state" where
  "onReceipt i f s = (case fmlookup (sReceipts s) i of None \<Rightarrow> s
     | Some r \<Rightarrow> s\<lparr>sReceipts := fmupd i (f r) (sReceipts s)\<rparr>)"

definition onCount :: "string \<Rightarrow> (count_state \<Rightarrow> count_state) \<Rightarrow> wh_state \<Rightarrow> wh_state" where
  "onCount i f s = (case fmlookup (sCounts s) i of None \<Rightarrow> s
     | Some c \<Rightarrow> s\<lparr>sCounts := fmupd i (f c) (sCounts s)\<rparr>)"

definition recordLine :: "int64 \<Rightarrow> wh_payload \<Rightarrow> receipt_state \<Rightarrow> receipt_state" where
  "recordLine n l r = (let r = r\<lparr>rpLines := fmupd n l (rpLines r)\<rparr> in
     if sint (rpNextLineNo r) \<le> sint n then r\<lparr>rpNextLineNo := n + 1\<rparr> else r)"

fun applyPayload :: "instant \<Rightarrow> wh_payload \<Rightarrow> wh_state \<Rightarrow> wh_state" where
  "applyPayload t0 (ItemUpserted i) s = backfillLotExpiry i (s\<lparr>sItems := fmupd (itSKU i) i (sItems s)\<rparr>)"
| "applyPayload t0 (LocationRegistered c t) s = s\<lparr>sLocations := fmupd c t (sLocations s)\<rparr>"
| "applyPayload t0 (GoodsReceived _ _ _ m) s = moveStock (registerLot (mSKU m) (mLotID m) t0 s) m"
| "applyPayload t0 (PutAway m) s = moveStock s m"
| "applyPayload t0 (Picked m _) s = moveStock s m"
| "applyPayload t0 (StockAdjusted m _) s = moveStock s m"
| "applyPayload t0 (StockReserved i k q) s =
    s\<lparr>sReservations := fmupd i \<lparr>rsID = i, rsKey = k, rsQty = q, rsStatus = ResActive\<rparr> (sReservations s)\<rparr>"
| "applyPayload t0 (ReservationReleased i) s = setResStatus i ResReleased s"
| "applyPayload t0 (ReservationConsumed i) s = setResStatus i ResConsumed s"
| "applyPayload t0 (ReceiptOpened i n p) s = s\<lparr>sReceipts := fmupd i \<lparr>rpID = i, rpDeliveryNote = n, rpPORef = p,
    rpStatus = ReceiptOpen, rpLines = fmempty, rpNextLineNo = 1\<rparr> (sReceipts s)\<rparr>"
| "applyPayload t0 (ReceiptLineRecorded i n sku l q) s =
    registerLot sku l t0 (onReceipt i (recordLine n (ReceiptLineRecorded i n sku l q)) s)"
| "applyPayload t0 (ReceiptClosed i) s = onReceipt i (rpStatus_update (\<lambda>_. ReceiptClosedStatus)) s"
| "applyPayload t0 (TransferDispatched t f d ls) s = applyDispatched t f d ls s"
| "applyPayload t0 (TransferReceived t ls) s = applyReceived t ls t0 s"
| "applyPayload t0 (CountStarted c l) s = s\<lparr>sCounts := fmupd c \<lparr>csID = c, csLocation = l, csStatus = CountOpen,
    csCounted = fmempty\<rparr> (sCounts s)\<rparr>"
| "applyPayload t0 (CountLineCounted c k q) s = onCount c (\<lambda>r. r\<lparr>csCounted := fmupd k q (csCounted r)\<rparr>) s"
| "applyPayload t0 (CountClosed c) s = onCount c (csStatus_update (\<lambda>_. CountClosedStatus)) s"

text \<open>\<open>State.Apply\<close>: nothing is changed before the payload has been decoded.\<close>

definition applyState :: "wh_state \<Rightarrow> envelope \<Rightarrow> wh_error + wh_state" where
  "applyState s env = (case decodePayload env of Inl e \<Rightarrow> Inl e
     | Inr p \<Rightarrow> Inr (applyPayload (evRecordedAt env) p
         (if evCausation env \<noteq> None then s\<lparr>sCompensations := sCompensations s @ [env]\<rparr> else s)))"

end
