(* ===== verification/WhCommands.thy ===== *)
theory WhCommands
  imports WhState
begin

text \<open>
  The commands of a warehouse node (\<open>warehouse-node/internal/domain/stock.go\<close>, \<open>receipt.go\<close>, \<open>reservation.go\<close>,
  \<open>transfer.go\<close>, \<open>count.go\<close>, \<open>ToBase\<close> of \<open>item.go\<close>): each validates against the state and returns the
  events to append or the rule it violates, and changes nothing itself.
\<close>

section \<open>Lines\<close>

record cmd_line =
  clSKU :: string
  clLotID :: string
  clQty :: float64
  clUoM :: string

definition toBase :: "item \<Rightarrow> float64 \<Rightarrow> string \<Rightarrow> wh_error + float64" where
  "toBase i qty u =
    (if isNaN qty \<or> isInf qty \<or> qty \<le> 0 then Inl (Violation RuleQtyPositive)
     else if u = itBaseUoM i then Inr qty
     else (case fmlookup (itAltUoM i) u of
         None \<Rightarrow> Inl (Violation RuleUoMValid)
       | Some factor \<Rightarrow>
           if isNaN factor \<or> isInf factor \<or> factor \<le> 0 then Inl (Violation RuleUoMValid)
           else (let base = qty * factor in
             if isInf base then Inl (Violation RuleUoMValid) else Inr base)))"

definition resolveLine :: "wh_state \<Rightarrow> cmd_line \<Rightarrow> wh_error + (movement \<times> item)" where
  "resolveLine s l = (case itemOf s (clSKU l) of Inl e \<Rightarrow> Inl e
     | Inr it \<Rightarrow>
         if itLotTracked it \<and> clLotID l = [] then Inl (Violation RuleLotRequired)
         else (case toBase it (clQty l) (clUoM l) of Inl e \<Rightarrow> Inl e
           | Inr base \<Rightarrow> Inr (\<lparr>mSKU = clSKU l, mLotID = clLotID l, mFrom = [], mTo = [], mQty = base\<rparr>, it)))"

text \<open>The guards return the violation, if any.\<close>

definition requireLocation :: "wh_state \<Rightarrow> string \<Rightarrow> wh_error option" where
  "requireLocation s code = (if fmlookup (sLocations s) code = None then Some (Violation RuleLocationExists) else None)"

definition requireOnHand :: "wh_state \<Rightarrow> wh_key \<Rightarrow> float64 \<Rightarrow> wh_error option" where
  "requireOnHand s k qty = (if onHand s k < qty then Some (Violation RuleStockNonNegative) else None)"

definition requireLotUsable :: "wh_state \<Rightarrow> string \<Rightarrow> instant \<Rightarrow> wh_error option" where
  "requireLotUsable s lotID t = (case fmlookup (sLots s) lotID of None \<Rightarrow> None
     | Some l \<Rightarrow> if expiredAt l t then Some (Violation RuleLotNotExpired) else None)"

text \<open>An early return on an error, and the code after it.\<close>

definition guarded :: "wh_error option \<Rightarrow> (wh_error + 'a) \<Rightarrow> wh_error + 'a" where
  "guarded c k = (case c of Some e \<Rightarrow> Inl e | None \<Rightarrow> k)"

definition withMove :: "wh_state \<Rightarrow> cmd_line \<Rightarrow> (movement \<Rightarrow> wh_error + 'a) \<Rightarrow> wh_error + 'a" where
  "withMove s l k = (case resolveLine s l of Inl e \<Rightarrow> Inl e | Inr (m, _) \<Rightarrow> k m)"

abbreviation mkEvent :: "string \<Rightarrow> wh_payload \<Rightarrow> wh_event" where
  "mkEvent agg p \<equiv> \<lparr>weType = payloadType p, weAggregate = agg, wePayload = p\<rparr>"

section \<open>Stock\<close>

definition doPutAway :: "wh_state \<Rightarrow> cmd_line \<Rightarrow> string \<Rightarrow> string \<Rightarrow> wh_error + wh_event list" where
  "doPutAway s l from to =
    withMove s l (\<lambda>m. guarded (requireLocation s from) (guarded (requireLocation s to)
      (let m = m\<lparr>mFrom := from, mTo := to\<rparr> in
       guarded (requireOnHand s (fromKey m) (mQty m)) (Inr [mkEvent (clSKU l) (PutAway m)]))))"

definition doPick :: "wh_state \<Rightarrow> cmd_line \<Rightarrow> string \<Rightarrow> string \<Rightarrow> instant \<Rightarrow> wh_error + wh_event list" where
  "doPick s l from orderRef t =
    withMove s l (\<lambda>m. guarded (requireLocation s from) (guarded (requireLotUsable s (clLotID l) t)
      (let m = m\<lparr>mFrom := from, mTo := External\<rparr> in
       guarded (requireOnHand s (fromKey m) (mQty m)) (Inr [mkEvent (clSKU l) (Picked m orderRef)]))))"

section \<open>Receipts\<close>

definition receiptEvents :: "string \<Rightarrow> string \<Rightarrow> string \<Rightarrow> int64 \<Rightarrow> cmd_line \<Rightarrow> movement \<Rightarrow> wh_event list" where
  "receiptEvents rid note po n l m =
    [mkEvent rid (ReceiptLineRecorded rid n (clSKU l) (clLotID l) (mQty m)), mkEvent rid (GoodsReceived rid note po m)]"

definition doReceive :: "wh_state \<Rightarrow> string \<Rightarrow> string \<Rightarrow> string \<Rightarrow> cmd_line \<Rightarrow> string \<Rightarrow> wh_error + wh_event list" where
  "doReceive s rid note po l to =
    withMove s l (\<lambda>m. guarded (requireLocation s to)
      (let m = m\<lparr>mFrom := External, mTo := to\<rparr> in
       case fmlookup (sReceipts s) rid of
         None \<Rightarrow> (if note = [] \<or> po = [] then Inl (Violation RuleAggregateState)
           else Inr (mkEvent rid (ReceiptOpened rid note po) # receiptEvents rid note po 1 l m))
       | Some r \<Rightarrow> (if rpStatus r \<noteq> ReceiptOpen then Inl (Violation RuleAggregateState)
           else Inr (receiptEvents rid (rpDeliveryNote r) (rpPORef r) (rpNextLineNo r) l m))))"

definition doCloseReceipt :: "wh_state \<Rightarrow> string \<Rightarrow> wh_error + wh_event list" where
  "doCloseReceipt s rid = (case fmlookup (sReceipts s) rid of
      None \<Rightarrow> Inl (Violation RuleAggregateState)
    | Some r \<Rightarrow> if rpStatus r \<noteq> ReceiptOpen then Inl (Violation RuleAggregateState)
        else Inr [mkEvent rid (ReceiptClosed rid)])"

section \<open>Reservations\<close>

definition doReserve :: "(string \<times> reservation) list \<Rightarrow> wh_state \<Rightarrow> string \<Rightarrow> cmd_line \<Rightarrow> string \<Rightarrow> wh_error + wh_event list" where
  "doReserve rs s rid l loc =
    withMove s l (\<lambda>m. guarded (requireLocation s loc)
      (if fmlookup (sReservations s) rid \<noteq> None then Inl (Violation RuleAggregateState)
       else (let k = WhKey (clSKU l) loc (clLotID l) in
         if available rs s k < mQty m then Inl (Violation RuleReservationAvailable)
         else Inr [mkEvent rid (StockReserved rid k (mQty m))])))"

definition requireActiveReservation :: "wh_state \<Rightarrow> string \<Rightarrow> wh_error option" where
  "requireActiveReservation s rid = (case fmlookup (sReservations s) rid of
      None \<Rightarrow> Some (Violation RuleAggregateState)
    | Some r \<Rightarrow> if rsStatus r \<noteq> ResActive then Some (Violation RuleAggregateState) else None)"

definition doReleaseReservation :: "wh_state \<Rightarrow> string \<Rightarrow> wh_error + wh_event list" where
  "doReleaseReservation s rid =
    guarded (requireActiveReservation s rid) (Inr [mkEvent rid (ReservationReleased rid)])"

definition doConsumeReservation :: "wh_state \<Rightarrow> string \<Rightarrow> wh_error + wh_event list" where
  "doConsumeReservation s rid =
    guarded (requireActiveReservation s rid) (Inr [mkEvent rid (ReservationConsumed rid)])"

section \<open>Transfers\<close>

text \<open>The loop over the lines, with the running totals per key.\<close>

fun dispatchLoop :: "wh_state \<Rightarrow> string \<Rightarrow> instant \<Rightarrow> (wh_key, float64) fmap \<Rightarrow> movement list \<Rightarrow> cmd_line list
    \<Rightarrow> wh_error + movement list" where
  "dispatchLoop s from t running moves [] = Inr moves"
| "dispatchLoop s from t running moves (l # ls) =
    withMove s l (\<lambda>m. guarded (requireLotUsable s (clLotID l) t)
      (let m = m\<lparr>mFrom := from, mTo := External\<rparr>;
         sumQty = fm_get 0 running (fromKey m) + mQty m;
         running = fmupd (fromKey m) sumQty running
       in guarded (requireOnHand s (fromKey m) sumQty) (dispatchLoop s from t running (moves @ [m]) ls)))"

definition doDispatchTransfer ::
  "wh_state \<Rightarrow> string \<Rightarrow> node_id \<Rightarrow> node_id \<Rightarrow> string \<Rightarrow> cmd_line list \<Rightarrow> instant \<Rightarrow> wh_error + wh_event list" where
  "doDispatchTransfer s tid fromNode toNode from ls t =
    (if ls = [] then Inl (Violation RuleQtyPositive)
     else if toNode = fromNode then Inl (Violation RuleAggregateState)
     else if fmlookup (sTransfers s) tid \<noteq> None then Inl (Violation RuleAggregateState)
     else guarded (requireLocation s from)
       (case dispatchLoop s from t fmempty [] ls of Inl e \<Rightarrow> Inl e
        | Inr moves \<Rightarrow> Inr [mkEvent tid (TransferDispatched tid fromNode toNode moves)]))"

fun receiveLoop :: "wh_state \<Rightarrow> string \<Rightarrow> movement list \<Rightarrow> cmd_line list \<Rightarrow> wh_error + movement list" where
  "receiveLoop s to moves [] = Inr moves"
| "receiveLoop s to moves (l # ls) =
    withMove s l (\<lambda>m. receiveLoop s to (moves @ [m\<lparr>mFrom := External, mTo := to\<rparr>]) ls)"

definition doReceiveTransfer :: "wh_state \<Rightarrow> string \<Rightarrow> string \<Rightarrow> cmd_line list \<Rightarrow> wh_error + wh_event list" where
  "doReceiveTransfer s tid to ls =
    (if ls = [] then Inl (Violation RuleQtyPositive)
     else (case fmlookup (sTransfers s) tid of
         None \<Rightarrow> Inl (Violation RuleAggregateState)
       | Some t \<Rightarrow> if tsStatus t \<noteq> TransferInFlight then Inl (Violation RuleAggregateState)
           else guarded (requireLocation s to)
             (case receiveLoop s to [] ls of Inl e \<Rightarrow> Inl e
              | Inr moves \<Rightarrow> Inr [mkEvent tid (TransferReceived tid moves)])))"

section \<open>Counts\<close>

definition doStartCount :: "wh_state \<Rightarrow> string \<Rightarrow> string \<Rightarrow> wh_error + wh_event list" where
  "doStartCount s cid loc =
    guarded (requireLocation s loc)
      (if fmlookup (sCounts s) cid \<noteq> None then Inl (Violation RuleAggregateState)
       else Inr [mkEvent cid (CountStarted cid loc)])"

definition requireOpenCount :: "wh_state \<Rightarrow> string \<Rightarrow> wh_error + count_state" where
  "requireOpenCount s cid = (case fmlookup (sCounts s) cid of
      None \<Rightarrow> Inl (Violation RuleAggregateState)
    | Some c \<Rightarrow> if csStatus c \<noteq> CountOpen then Inl (Violation RuleAggregateState) else Inr c)"

definition doCountLine :: "wh_state \<Rightarrow> string \<Rightarrow> cmd_line \<Rightarrow> wh_error + wh_event list" where
  "doCountLine s cid l = (case requireOpenCount s cid of Inl e \<Rightarrow> Inl e
     | Inr c \<Rightarrow> (case itemOf s (clSKU l) of Inl e \<Rightarrow> Inl e
       | Inr it \<Rightarrow>
           if itLotTracked it \<and> clLotID l = [] then Inl (Violation RuleLotRequired)
           else (let qty = (if \<not> feq (clQty l) 0 then toBase it (clQty l) (clUoM l)
                  else (case toBase it (Fin 1) (clUoM l) of Inl e \<Rightarrow> Inl e | Inr _ \<Rightarrow> Inr (clQty l)))
             in case qty of Inl e \<Rightarrow> Inl e
                | Inr q \<Rightarrow> Inr [mkEvent cid (CountLineCounted cid (WhKey (clSKU l) (csLocation c) (clLotID l)) q)])))"

text \<open>The adjustment for one counted key, if its amount differs from the book.\<close>

definition varianceEvents :: "wh_state \<Rightarrow> wh_key \<Rightarrow> float64 \<Rightarrow> wh_event list" where
  "varianceEvents s k counted = (let variance = counted - onHand s k in
     if feq variance 0 then []
     else (let m = (if variance < 0
             then \<lparr>mSKU = wkSKU k, mLotID = wkLotID k, mFrom = wkLocation k, mTo = External, mQty = - variance\<rparr>
             else \<lparr>mSKU = wkSKU k, mLotID = wkLotID k, mFrom = External, mTo = wkLocation k, mQty = variance\<rparr>)
       in [mkEvent (wkSKU k) (StockAdjusted m ReasonCountVariance)]))"

definition doCloseCount :: "wh_state \<Rightarrow> string \<Rightarrow> wh_error + wh_event list" where
  "doCloseCount s cid = (case requireOpenCount s cid of Inl e \<Rightarrow> Inl e
     | Inr c \<Rightarrow> Inr (concat (map (\<lambda>(k, q). varianceEvents s k q) (sorted_list_of_fmap (csCounted c)))
         @ [mkEvent cid (CountClosed cid)]))"

text \<open>\<open>Service.RegisterLocation\<close>'s command.\<close>

definition doRegisterLocation :: "string \<Rightarrow> string \<Rightarrow> wh_error + wh_event list" where
  "doRegisterLocation code ty =
    (if \<not> locValid ty then Inl (Violation RuleLocationExists)
     else Inr [mkEvent code (LocationRegistered code ty)])"

end
