(* ===== verification/WhStock.thy ===== *)
theory WhStock
  imports WhCommands
begin

text \<open>
  What a node's commands guarantee about its stock. Locally validated commands never drive a
  location below zero, for any floats, as long as a dispatch names each lot once; with whole
  quantities the float balances are an exact ledger, so they are independent of the order of the
  movements and sum to zero per lot; and a transfer's receipt may arrive before its dispatch.
\<close>

section \<open>Commands as data\<close>

text \<open>A command bound to its arguments; the order in which the reservation check visits the map is
  one of them.\<close>

datatype wh_command =
    CPutAway cmd_line string string
  | CPick cmd_line string string instant
  | CReceive string string string cmd_line string
  | CCloseReceipt string
  | CReserve "(string \<times> reservation) list" string cmd_line string
  | CRelease string
  | CConsume string
  | CDispatch string node_id node_id string "cmd_line list" instant
  | CReceiveTransfer string string "cmd_line list"
  | CStartCount string string
  | CCountLine string cmd_line
  | CCloseCount string
  | CRegisterLocation string string

fun runCommand :: "wh_command \<Rightarrow> wh_state \<Rightarrow> wh_error + wh_event list" where
  "runCommand (CPutAway l f t) s = doPutAway s l f t"
| "runCommand (CPick l f r t) s = doPick s l f r t"
| "runCommand (CReceive i n p l t) s = doReceive s i n p l t"
| "runCommand (CCloseReceipt i) s = doCloseReceipt s i"
| "runCommand (CReserve rs i l loc) s = doReserve rs s i l loc"
| "runCommand (CRelease i) s = doReleaseReservation s i"
| "runCommand (CConsume i) s = doConsumeReservation s i"
| "runCommand (CDispatch i f d from ls t) s = doDispatchTransfer s i f d from ls t"
| "runCommand (CReceiveTransfer i to ls) s = doReceiveTransfer s i to ls"
| "runCommand (CStartCount i l) s = doStartCount s i l"
| "runCommand (CCountLine i l) s = doCountLine s i l"
| "runCommand (CCloseCount i) s = doCloseCount s i"
| "runCommand (CRegisterLocation c t) s = doRegisterLocation c t"

text \<open>The quantities a command carries are floats.\<close>

fun commandF64 :: "wh_command \<Rightarrow> bool" where
  "commandF64 (CPutAway l _ _) = isF64 (clQty l)"
| "commandF64 (CPick l _ _ _) = isF64 (clQty l)"
| "commandF64 (CReceive _ _ _ l _) = isF64 (clQty l)"
| "commandF64 (CReserve _ _ l _) = isF64 (clQty l)"
| "commandF64 (CDispatch _ _ _ _ ls _) = list_all (\<lambda>l. isF64 (clQty l)) ls"
| "commandF64 (CReceiveTransfer _ _ ls) = list_all (\<lambda>l. isF64 (clQty l)) ls"
| "commandF64 (CCountLine _ l) = isF64 (clQty l)"
| "commandF64 _ = True"

text \<open>A dispatch names each lot of a SKU once, and the outside world is not registered as a
  location of the warehouse.\<close>

fun plainCommand :: "wh_command \<Rightarrow> bool" where
  "plainCommand (CDispatch _ _ _ _ ls _) = distinct (map (\<lambda>l. (clSKU l, clLotID l)) ls)"
| "plainCommand (CRegisterLocation c _) = (c \<noteq> External)"
| "plainCommand _ = True"

text \<open>The state after the events of one command.\<close>

definition applyEvents :: "instant \<Rightarrow> wh_event list \<Rightarrow> wh_state \<Rightarrow> wh_state" where
  "applyEvents t0 es s = foldl (\<lambda>s e. applyPayload t0 (wePayload e) s) s es"

definition balanceOk :: "wh_key \<Rightarrow> float64 \<Rightarrow> bool" where
  "balanceOk k v \<longleftrightarrow> isF64 v \<and> (wkLocation k \<noteq> External \<longrightarrow> 0 \<le> v)"

text \<open>No location is below zero; the outside world is the one place that may be.\<close>

definition stockOk :: "wh_state \<Rightarrow> bool" where
  "stockOk s \<longleftrightarrow> list_all (\<lambda>(k, v). balanceOk k v) (sorted_list_of_fmap (sStock s))"

text \<open>Counts are taken of real locations and no amount counted is negative.\<close>

definition countOk :: "count_state \<Rightarrow> bool" where
  "countOk c \<longleftrightarrow> csLocation c \<noteq> External \<and>
     list_all (\<lambda>(k, q). wkLocation k \<noteq> External \<and> 0 \<le> q) (sorted_list_of_fmap (csCounted c))"

definition countsOk :: "wh_state \<Rightarrow> bool" where
  "countsOk s \<longleftrightarrow> list_all (\<lambda>(_, c). countOk c) (sorted_list_of_fmap (sCounts s))"

text \<open>A movement that brings stock in from outside.\<close>

definition incoming :: "movement \<Rightarrow> bool" where
  "incoming m \<longleftrightarrow> isFin (mQty m) \<and> 0 \<le> mQty m \<and> mFrom m = External"

definition pendingOk :: "wh_state \<Rightarrow> bool" where
  "pendingOk s \<longleftrightarrow> list_all (\<lambda>(_, ps). list_all incoming (map prLine ps)) (sorted_list_of_fmap (sPendingReceipts s))"

definition stateOk :: "wh_state \<Rightarrow> bool" where
  "stateOk s \<longleftrightarrow> stockOk s \<and> countsOk s \<and> pendingOk s \<and> fmlookup (sLocations s) External = None"

lemmas stateOk_defs = stateOk_def stockOk_def countsOk_def pendingOk_def

section \<open>Balances\<close>

lemma le_refl_0 [simp]: "(0 :: float64) \<le> 0"
  by (simp add: less_eq_float64_def zero_float64_def)

lemma list_all_sorted: "list_all (\<lambda>(k, v). P k v) (sorted_list_of_fmap m) \<longleftrightarrow> (\<forall>k v. fmlookup m k = Some v \<longrightarrow> P k v)"
  by (fastforce simp: list_all_iff simp flip: set_sorted_list_of_fmap)

lemma balanceOk_0 [simp]: "balanceOk k 0"
  by (simp add: balanceOk_def)

lemma stockOk_iff: "stockOk s \<longleftrightarrow> (\<forall>k. balanceOk k (onHand s k))"
  unfolding stockOk_def list_all_sorted onHand_def fm_get_def by (metis balanceOk_0 option.case_eq_if option.collapse option.sel option.simps(4,5))

lemma countOk_iff: "countOk c \<longleftrightarrow> csLocation c \<noteq> External \<and>
    (\<forall>k q. fmlookup (csCounted c) k = Some q \<longrightarrow> wkLocation k \<noteq> External \<and> 0 \<le> q)"
  unfolding countOk_def list_all_sorted by blast

lemma pendingOk_iff: "pendingOk s \<longleftrightarrow> (\<forall>i ps. fmlookup (sPendingReceipts s) i = Some ps \<longrightarrow> list_all incoming (map prLine ps))"
  unfolding pendingOk_def list_all_sorted by blast

lemma countsOk_iff: "countsOk s \<longleftrightarrow> (\<forall>i c. fmlookup (sCounts s) i = Some c \<longrightarrow> countOk c)"
  unfolding countsOk_def list_all_sorted by blast

lemma onHand_addStock [simp]:
  "onHand (addStock k d s) k' = (if k' = k then onHand s k + d else onHand s k')"
proof (cases "feq (onHand s k + d) 0")
  case True
  then have "onHand s k + d = 0" by (simp add: feq_def)
  with True show ?thesis by (auto simp: addStock_def onHand_def fm_get_def Let_def)
qed (auto simp: addStock_def onHand_def Let_def)

lemma addStock_frame [simp]:
  "sCounts (addStock k d s) = sCounts s" "sLocations (addStock k d s) = sLocations s"
  "sTransfers (addStock k d s) = sTransfers s" "sPendingReceipts (addStock k d s) = sPendingReceipts s"
  "sHome (addStock k d s) = sHome s" "sApplyAll (addStock k d s) = sApplyAll s"
  "sItems (addStock k d s) = sItems s" "sLots (addStock k d s) = sLots s"
  "sReservations (addStock k d s) = sReservations s" "sReceipts (addStock k d s) = sReceipts s"
  by (simp_all add: addStock_def Let_def)

lemma moveStock_frame [simp]:
  "sCounts (moveStock s m) = sCounts s" "sLocations (moveStock s m) = sLocations s"
  "sTransfers (moveStock s m) = sTransfers s" "sPendingReceipts (moveStock s m) = sPendingReceipts s"
  "sHome (moveStock s m) = sHome s" "sApplyAll (moveStock s m) = sApplyAll s"
  "sItems (moveStock s m) = sItems s" "sLots (moveStock s m) = sLots s"
  "sReservations (moveStock s m) = sReservations s" "sReceipts (moveStock s m) = sReceipts s"
  by (simp_all add: moveStock_def)

lemma onHand_moveStock:
  "onHand (moveStock s m) k =
    (let h = (if k = fromKey m then onHand s k + (- mQty m) else onHand s k)
     in if k = toKey m then h + mQty m else h)"
  by (simp add: moveStock_def Let_def)

lemma foldl_moveStock_frame [simp]:
  "sCounts (foldl moveStock s ls) = sCounts s" "sLocations (foldl moveStock s ls) = sLocations s"
  "sTransfers (foldl moveStock s ls) = sTransfers s" "sPendingReceipts (foldl moveStock s ls) = sPendingReceipts s"
  "sHome (foldl moveStock s ls) = sHome s" "sApplyAll (foldl moveStock s ls) = sApplyAll s"
  by (induction ls arbitrary: s) simp_all

text \<open>A movement of no more than there is keeps every balance.\<close>

definition moveOk :: "wh_state \<Rightarrow> movement \<Rightarrow> bool" where
  "moveOk s m \<longleftrightarrow> isFin (mQty m) \<and> 0 \<le> mQty m \<and>
    (mFrom m = External \<or> \<not> onHand s (fromKey m) < mQty m)"

lemma moveStock_ok:
  assumes "stockOk s" "moveOk s m"
  shows "stockOk (moveStock s m)"
  unfolding stockOk_iff
proof
  fix k
  let ?h = "if k = fromKey m then onHand s k + (- mQty m) else onHand s k"
  have ok: "balanceOk k (onHand s k)" for k using assms(1) by (simp add: stockOk_iff)
  have h: "balanceOk k ?h"
  proof (cases "k = fromKey m \<and> mFrom m \<noteq> External")
    case True
    then have "0 \<le> onHand s k - mQty m"
      using assms(2) ok [of k] by (intro minus_nonneg) (auto simp: moveOk_def balanceOk_def fromKey_def)
    with True show ?thesis by (simp add: balanceOk_def minus_float64_def)
  next
    case False
    with ok [of k] show ?thesis by (auto simp: balanceOk_def fromKey_def)
  qed
  then have "balanceOk k (?h + mQty m)"
    using assms(2) by (auto simp: balanceOk_def moveOk_def intro: plus_nonneg)
  with h show "balanceOk k (onHand (moveStock s m) k)"
    unfolding onHand_moveStock Let_def by (cases "k = toKey m") simp_all
qed

lemma stateOk_moveStock: "stateOk s \<Longrightarrow> moveOk s m \<Longrightarrow> stateOk (moveStock s m)"
  by (simp add: stateOk_def moveStock_ok countsOk_def pendingOk_def)

lemma stockOk_cong: "sStock s' = sStock s \<Longrightarrow> stockOk s' = stockOk s"
  by (simp add: stockOk_def)

lemma stateOk_cong: "sStock s' = sStock s \<Longrightarrow> sCounts s' = sCounts s \<Longrightarrow> sLocations s' = sLocations s \<Longrightarrow>
    sPendingReceipts s' = sPendingReceipts s \<Longrightarrow> stateOk s' = stateOk s"
  by (simp add: stateOk_defs)

text \<open>Incoming movements.\<close>

lemma stateOk_incoming:
  assumes "stateOk s" "list_all incoming ls"
  shows "stateOk (foldl moveStock s ls)"
  using assms
proof (induction ls arbitrary: s)
  case (Cons m ls)
  then have "stateOk (moveStock s m)" by (intro stateOk_moveStock) (simp_all add: moveOk_def incoming_def)
  with Cons show ?case by simp
qed simp

text \<open>Outgoing movements from distinct keys.\<close>

lemma stateOk_outgoing:
  assumes "stateOk s" "distinct (map fromKey ls)"
    and "list_all (\<lambda>m. isFin (mQty m) \<and> 0 \<le> mQty m \<and> mTo m = External \<and> mFrom m \<noteq> External \<and>
      \<not> onHand s (fromKey m) < mQty m) ls"
  shows "stateOk (foldl moveStock s ls)"
  using assms
proof (induction ls arbitrary: s)
  case (Cons m ls)
  have "onHand (moveStock s m) (fromKey l) = onHand s (fromKey l)" if "l \<in> set ls" for l
  proof -
    have "fromKey l \<noteq> fromKey m" using Cons.prems(2) that by (auto simp: image_iff)
    moreover have "fromKey l \<noteq> toKey m"
      using Cons.prems(3) that by (auto simp: fromKey_def toKey_def list_all_iff)
    ultimately show ?thesis by (simp add: onHand_moveStock Let_def)
  qed
  then have "list_all (\<lambda>l. isFin (mQty l) \<and> 0 \<le> mQty l \<and> mTo l = External \<and> mFrom l \<noteq> External \<and>
      \<not> onHand (moveStock s m) (fromKey l) < mQty l) ls"
    using Cons.prems(3) by (simp add: list_all_iff)
  then show ?case
    using Cons.prems by (auto intro!: Cons.IH stateOk_moveStock simp: moveOk_def)
qed simp

section \<open>What a resolved line is\<close>

lemma toBase_ok: "toBase i q u = Inr b \<Longrightarrow> isF64 q \<Longrightarrow> isFin b \<and> isF64 b \<and> 0 \<le> b"
proof -
  assume *: "toBase i q u = Inr b" "isF64 q"
  have pos: "isFin x \<and> 0 \<le> x" if "\<not> isNaN x" "\<not> isInf x" "\<not> x \<le> 0" for x :: float64
    using that by (cases x) (auto simp: less_eq_float64_def zero_float64_def)
  have mul: "\<not> isInf (x * y) \<Longrightarrow> isFin (x * y) \<and> 0 \<le> x * y"
    if h: "isFin x" "0 \<le> x" "isFin y" "0 \<le> y" for x y :: float64
  proof -
    obtain a b where xy: "x = Fin a" "y = Fin b" "0 \<le> a" "0 \<le> b"
      using h by (cases x; cases y) (simp_all add: le_0_iff)
    assume "\<not> isInf (x * y)"
    with xy frnd_nonneg [of "a * b"] show ?thesis by (cases "frnd (a * b)") simp_all
  qed
  show ?thesis
    using * pos mul by (auto simp: toBase_def Let_def split: if_splits option.splits)
qed


lemma withMove_Inr: "withMove s l k = Inr x \<longleftrightarrow> (\<exists>m it. resolveLine s l = Inr (m, it) \<and> k m = Inr x)"
  by (cases "resolveLine s l") (auto simp: withMove_def)

lemma guarded_Inr: "guarded c k = Inr x \<longleftrightarrow> c = None \<and> k = Inr x"
  by (cases c) (auto simp: guarded_def)

lemma requires_None:
  "requireLocation s c = None \<longleftrightarrow> fmlookup (sLocations s) c \<noteq> None"
  "requireOnHand s k q = None \<longleftrightarrow> \<not> onHand s k < q"
  by (simp_all add: requireLocation_def requireOnHand_def)

lemmas accepted = withMove_Inr guarded_Inr requires_None

lemma resolveLine_ok:
  "resolveLine s l = Inr (m, it) \<Longrightarrow> isF64 (clQty l) \<Longrightarrow>
    mSKU m = clSKU l \<and> mLotID m = clLotID l \<and> isFin (mQty m) \<and> isF64 (mQty m) \<and> 0 \<le> mQty m"
  by (auto simp: resolveLine_def split: sum.splits if_splits dest: toBase_ok)

text \<open>What the dispatch loop returns: one outgoing movement per line, each covered by the stock at
  its key taken together with the earlier lines on that key.\<close>

lemma dispatchLoop_ok:
  assumes "dispatchLoop s from t running moves ls = Inr ms"
    and "list_all (\<lambda>l. isF64 (clQty l)) ls" "distinct (map (\<lambda>l. (clSKU l, clLotID l)) ls)"
    and "\<forall>l \<in> set ls. fmlookup running (WhKey (clSKU l) from (clLotID l)) = None"
  shows "\<exists>ns. ms = moves @ ns \<and> map (\<lambda>m. (mSKU m, mLotID m)) ns = map (\<lambda>l. (clSKU l, clLotID l)) ls \<and>
    list_all (\<lambda>m. isFin (mQty m) \<and> 0 \<le> mQty m \<and> mTo m = External \<and> mFrom m = from \<and>
      \<not> onHand s (fromKey m) < mQty m) ns"
  using assms
proof (induction ls arbitrary: running moves)
  case (Cons l ls)
  from Cons.prems(1) obtain m it where res: "resolveLine s l = Inr (m, it)"
    and rest: "guarded (requireLotUsable s (clLotID l) t)
      (let m = m\<lparr>mFrom := from, mTo := External\<rparr>; sumQty = fm_get 0 running (fromKey m) + mQty m;
         running = fmupd (fromKey m) sumQty running
       in guarded (requireOnHand s (fromKey m) sumQty) (dispatchLoop s from t running (moves @ [m]) ls)) = Inr ms"
    by (auto simp: withMove_Inr)
  let ?m = "m\<lparr>mFrom := from, mTo := External\<rparr>"
  have q: "mSKU m = clSKU l" "mLotID m = clLotID l" "isFin (mQty m)" "isF64 (mQty m)" "0 \<le> mQty m"
    using resolveLine_ok [OF res] Cons.prems(2) by auto
  have k: "fromKey ?m = WhKey (clSKU l) from (clLotID l)" using q by (simp add: fromKey_def)
  have zero: "0 + mQty m = mQty m" using q(3,4) by (cases "mQty m") (simp_all add: zero_float64_def)
  have z: "fm_get 0 running (fromKey ?m) + mQty ?m = mQty m"
    using Cons.prems(4) by (simp add: k fm_get_def zero)
  let ?r = "fmupd (fromKey ?m) (mQty m) running"
  have lot: "requireLotUsable s (clLotID l) t = None" and on: "\<not> onHand s (fromKey ?m) < mQty m"
    and rec: "dispatchLoop s from t ?r (moves @ [?m]) ls = Inr ms"
    using rest unfolding Let_def z by (simp_all add: guarded_Inr requires_None)
  have "\<forall>l' \<in> set ls. fmlookup ?r (WhKey (clSKU l') from (clLotID l')) = None"
    using Cons.prems(3,4) by (force simp: k)
  with Cons.IH [OF rec] Cons.prems(2,3) obtain ns where "ms = (moves @ [?m]) @ ns"
    "map (\<lambda>m. (mSKU m, mLotID m)) ns = map (\<lambda>l. (clSKU l, clLotID l)) ls"
    "list_all (\<lambda>m. isFin (mQty m) \<and> 0 \<le> mQty m \<and> mTo m = External \<and> mFrom m = from \<and>
      \<not> onHand s (fromKey m) < mQty m) ns"
    by auto
  then show ?case
    using q on by (intro exI [of _ "?m # ns"]) simp
qed simp

lemma receiveLoop_ok:
  assumes "receiveLoop s to moves ls = Inr ms" "list_all (\<lambda>l. isF64 (clQty l)) ls"
  shows "\<exists>ns. ms = moves @ ns \<and> list_all incoming ns"
  using assms
proof (induction ls arbitrary: moves)
  case (Cons l ls)
  from Cons.prems(1) obtain m it where res: "resolveLine s l = Inr (m, it)"
    and rec: "receiveLoop s to (moves @ [m\<lparr>mFrom := External, mTo := to\<rparr>]) ls = Inr ms"
    by (auto simp: withMove_Inr)
  from Cons.IH [OF rec] Cons.prems(2) obtain ns where "ms = (moves @ [m\<lparr>mFrom := External, mTo := to\<rparr>]) @ ns"
    "list_all incoming ns" by auto
  then show ?case
    using resolveLine_ok [OF res] Cons.prems(2)
    by (intro exI [of _ "m\<lparr>mFrom := External, mTo := to\<rparr> # ns"]) (simp add: incoming_def list_all_iff)
qed simp


section \<open>Non-negative stock\<close>

lemma registerLot_frame [simp]:
  "sStock (registerLot a b t s) = sStock s" "sCounts (registerLot a b t s) = sCounts s"
  "sLocations (registerLot a b t s) = sLocations s" "sPendingReceipts (registerLot a b t s) = sPendingReceipts s" "sHome (registerLot a b t s) = sHome s"
  "sApplyAll (registerLot a b t s) = sApplyAll s" "sTransfers (registerLot a b t s) = sTransfers s"
  by (simp_all add: registerLot_def Let_def)

lemma onHand_cong: "sStock s' = sStock s \<Longrightarrow> onHand s' = onHand s"
  by (simp add: onHand_def fun_eq_iff)

lemma onReceipt_frame [simp]:
  "sStock (onReceipt i f s) = sStock s" "sCounts (onReceipt i f s) = sCounts s" "sLocations (onReceipt i f s) = sLocations s" "sPendingReceipts (onReceipt i f s) = sPendingReceipts s"
  by (simp_all add: onReceipt_def split: option.split)

lemma onCount_frame [simp]: "sStock (onCount i f s) = sStock s" "sLocations (onCount i f s) = sLocations s"
  "sPendingReceipts (onCount i f s) = sPendingReceipts s"
  by (simp_all add: onCount_def split: option.split)

lemma setResStatus_frame [simp]:
  "sStock (setResStatus i f s) = sStock s" "sCounts (setResStatus i f s) = sCounts s" "sLocations (setResStatus i f s) = sLocations s" "sPendingReceipts (setResStatus i f s) = sPendingReceipts s"
  by (simp_all add: setResStatus_def split: option.split)

lemma backfill_frame [simp]:
  "sStock (backfillLotExpiry it s) = sStock s" "sCounts (backfillLotExpiry it s) = sCounts s"
  "sLocations (backfillLotExpiry it s) = sLocations s" "sPendingReceipts (backfillLotExpiry it s) = sPendingReceipts s"
proof -
  let ?f = "\<lambda>s i. let l = fm_get zeroLot (sLots s) i in if isZeroTime (ltExpiresOn l)
    then s\<lparr>sLots := fmupd i (l\<lparr>ltExpiresOn := addDays (ltReceivedAt l) (itShelfLifeDays it)\<rparr>) (sLots s)\<rparr> else s"
  have "sStock (foldl ?f s xs) = sStock s \<and> sCounts (foldl ?f s xs) = sCounts s \<and> sLocations (foldl ?f s xs) = sLocations s \<and>
      sPendingReceipts (foldl ?f s xs) = sPendingReceipts s" for xs
    by (rule foldl_inv) (simp_all add: Let_def)
  then show "sStock (backfillLotExpiry it s) = sStock s" "sCounts (backfillLotExpiry it s) = sCounts s"
    "sLocations (backfillLotExpiry it s) = sLocations s" "sPendingReceipts (backfillLotExpiry it s) = sPendingReceipts s"
    by (simp_all add: backfillLotExpiry_def)
qed

lemma stateOk_onCount:
  assumes "stateOk s" "\<And>c. fmlookup (sCounts s) i = Some c \<Longrightarrow> countOk c \<Longrightarrow> countOk (f c)"
  shows "stateOk (onCount i f s)"
  using assms by (auto simp: stateOk_def stockOk_def pendingOk_def countsOk_iff onCount_def split: option.split if_splits)

lemma stateOk_moveAll_in:
  "stateOk s \<Longrightarrow> list_all incoming ls \<Longrightarrow> stateOk (moveAll b ls s)"
  by (simp add: moveAll_def stateOk_incoming)

lemma stateOk_received:
  assumes "stateOk s" "list_all incoming ls"
  shows "stateOk (applyReceived tid ls t s)"
proof (cases "fmlookup (sTransfers s) tid")
  case None
  have "list_all incoming (map prLine (fm_get [] (sPendingReceipts s) tid))"
    using assms(1) by (auto simp: stateOk_def pendingOk_iff fm_get_def split: option.split)
  with None assms show ?thesis
    by (auto simp: applyReceived_def stateOk_def stockOk_def countsOk_def pendingOk_iff comp_def)
next
  case (Some tr)
  have "stateOk (moveAll (sApplyAll s \<or> sHome s = tsToNode tr) ls s)" using assms by (rule stateOk_moveAll_in)
  with Some show ?thesis by (simp add: applyReceived_def Let_def stateOk_defs)
qed

text \<open>A dispatch folds in the receipts that came before it.\<close>

lemma moveAll_frame [simp]:
  "sPendingReceipts (moveAll b ls s) = sPendingReceipts s" "sTransfers (moveAll b ls s) = sTransfers s"
  "sApplyAll (moveAll b ls s) = sApplyAll s" "sHome (moveAll b ls s) = sHome s"
  by (simp_all add: moveAll_def)

lemma stateOk_dispatched:
  assumes "stateOk (moveAll (sApplyAll s \<or> sHome s = from) ls s)"
  shows "stateOk (applyDispatched tid from to ls s)"
proof (cases "fmlookup (sPendingReceipts s) tid")
  case None
  with assms show ?thesis by (simp add: applyDispatched_def Let_def stateOk_defs)
next
  case (Some ps)
  let ?s = "moveAll (sApplyAll s \<or> sHome s = from) ls s"
  have "list_all incoming (map prLine ps)" using assms Some by (auto simp: stateOk_def pendingOk_iff)
  with assms have "stateOk (moveAll (sApplyAll s \<or> sHome s = to) (map prLine ps) ?s)" by (rule stateOk_moveAll_in)
  with Some show ?thesis
    by (auto simp: applyDispatched_def Let_def stateOk_def stockOk_def countsOk_def pendingOk_iff)
qed

text \<open>The adjustments of a closed count.\<close>

lemma varianceEvents_ok:
  assumes ok: "stateOk s'" and same: "onHand s' k = onHand s k" and c: "0 \<le> c" "wkLocation k \<noteq> External"
    and fin: "list_all (\<lambda>e. payloadFin (wePayload e)) (varianceEvents s k c)"
  shows "stateOk (applyEvents t (varianceEvents s k c) s')"
    and "k' \<noteq> k \<Longrightarrow> wkLocation k' \<noteq> External \<Longrightarrow> onHand (applyEvents t (varianceEvents s k c) s') k' = onHand s' k'"
proof -
  have h: "0 \<le> onHand s k" "isF64 (onHand s k)"
    using ok c(2) unfolding same [symmetric] by (auto simp: stateOk_def stockOk_iff balanceOk_def)
  let ?v = "c - onHand s k"
  have "stateOk (applyEvents t (varianceEvents s k c) s') \<and> (k' \<noteq> k \<longrightarrow> wkLocation k' \<noteq> External \<longrightarrow>
      onHand (applyEvents t (varianceEvents s k c) s') k' = onHand s' k')" for k'
  proof (cases "feq ?v 0")
    case True
    then show ?thesis using ok by (simp add: varianceEvents_def Let_def applyEvents_def)
  next
    case False
    let ?m = "if ?v < 0
      then \<lparr>mSKU = wkSKU k, mLotID = wkLotID k, mFrom = wkLocation k, mTo = External, mQty = - ?v\<rparr>
      else \<lparr>mSKU = wkSKU k, mLotID = wkLotID k, mFrom = External, mTo = wkLocation k, mQty = ?v\<rparr>"
    have ev: "applyEvents t (varianceEvents s k c) s' = moveStock s' ?m"
      and "isFin (mQty ?m)"
      using False fin by (auto simp: varianceEvents_def Let_def applyEvents_def)
    then have fv: "isFin ?v" by (cases ?v) (auto split: if_splits)
    have "moveOk s' ?m"
    proof (cases "?v < 0")
      case True
      with shortfall_le [OF h c(1) fv] show ?thesis
        by (simp add: moveOk_def fromKey_def same [symmetric])
    next
      case False
      with fv have "0 \<le> ?v" by (cases ?v) (auto simp: less_eq_float64_def zero_float64_def)
      with False fv show ?thesis by (simp add: moveOk_def)
    qed
    then have "stateOk (moveStock s' ?m)" using ok by (intro stateOk_moveStock)
    moreover have "onHand (moveStock s' ?m) k' = onHand s' k'" if "k' \<noteq> k" "wkLocation k' \<noteq> External"
      using that by (cases k') (cases k; auto simp: onHand_moveStock Let_def fromKey_def toKey_def)
    ultimately show ?thesis unfolding ev by blast
  qed
  then show "stateOk (applyEvents t (varianceEvents s k c) s')"
    and "k' \<noteq> k \<Longrightarrow> wkLocation k' \<noteq> External \<Longrightarrow> onHand (applyEvents t (varianceEvents s k c) s') k' = onHand s' k'"
    by blast+
qed

lemma applyEvents_append: "applyEvents t (xs @ ys) s = applyEvents t ys (applyEvents t xs s)"
  by (simp add: applyEvents_def)

lemma applyEvents_Cons: "applyEvents t (x # ys) s = applyEvents t ys (applyPayload t (wePayload x) s)"
  by (simp add: applyEvents_def)

lemma applyEvents_Nil [simp]: "applyEvents t [] s = s"
  by (simp add: applyEvents_def)

lemma closeCount_ok:
  assumes "stateOk s'" "distinct (map fst kqs)"
    and "list_all (\<lambda>(k, q). 0 \<le> q \<and> wkLocation k \<noteq> External \<and> onHand s' k = onHand s k) kqs"
    and "list_all (\<lambda>e. payloadFin (wePayload e)) (concat (map (\<lambda>(k, q). varianceEvents s k q) kqs))"
  shows "stateOk (applyEvents t (concat (map (\<lambda>(k, q). varianceEvents s k q) kqs)) s')"
  using assms
proof (induction kqs arbitrary: s')
  case (Cons kq kqs)
  obtain k q where kq: "kq = (k, q)" by (cases kq)
  let ?s = "applyEvents t (varianceEvents s k q) s'"
  have fin: "list_all (\<lambda>e. payloadFin (wePayload e)) (varianceEvents s k q)" using Cons.prems(4) kq by simp
  have s1: "stateOk ?s" using Cons.prems(1,3) kq by (intro varianceEvents_ok(1) [OF _ _ _ _ fin]) auto
  have "onHand ?s k' = onHand s' k'" if "(k', q') \<in> set kqs" for k' q'
    using Cons.prems(1-3) kq that by (intro varianceEvents_ok(2) [OF _ _ _ _ fin]) (force simp: list_all_iff)+
  then have "list_all (\<lambda>(k, q). 0 \<le> q \<and> wkLocation k \<noteq> External \<and> onHand ?s k = onHand s k) kqs"
    using Cons.prems(3) by (force simp: list_all_iff)
  with Cons.IH [OF s1] Cons.prems(2,4) show ?case by (simp add: kq applyEvents_append)
qed simp

lemma doReceive_Inr:
  assumes "doReceive s i n p l d = Inr es"
  shows "\<exists>m it nt po k pre. resolveLine s l = Inr (m, it) \<and>
    es = pre @ receiptEvents i nt po k l (m\<lparr>mFrom := External, mTo := d\<rparr>) \<and>
    (pre = [] \<or> pre = [mkEvent i (ReceiptOpened i n p)])"
proof -
  obtain m it where res: "resolveLine s l = Inr (m, it)"
    using assms by (auto simp: doReceive_def withMove_Inr)
  let ?m = "m\<lparr>mFrom := External, mTo := d\<rparr>"
  show ?thesis
  proof (cases "fmlookup (sReceipts s) i")
    case None
    then have "es = [mkEvent i (ReceiptOpened i n p)] @ receiptEvents i n p 1 l ?m"
      using assms res by (simp add: doReceive_def withMove_def guarded_Inr Let_def split: if_splits)
    with res show ?thesis by blast
  next
    case (Some r)
    then have "es = [] @ receiptEvents i (rpDeliveryNote r) (rpPORef r) (rpNextLineNo r) l ?m"
      using assms res by (simp add: doReceive_def withMove_def guarded_Inr Let_def split: if_splits)
    with res show ?thesis by blast
  qed
qed

lemma command_keeps_stateOk:
  assumes ok: "stateOk s" and f64: "commandF64 c" and plain: "plainCommand c"
    and run: "runCommand c s = Inr es" and fin: "list_all (\<lambda>e. payloadFin (wePayload e)) es"
  shows "stateOk (applyEvents t es s)"
proof (cases c)
  case (CPutAway l f d)
  with run obtain m it where res: "resolveLine s l = Inr (m, it)" and on: "\<not> onHand s (WhKey (mSKU m) f (mLotID m)) < mQty m"
    and es: "es = [mkEvent (clSKU l) (PutAway (m\<lparr>mFrom := f, mTo := d\<rparr>))]"
    by (auto simp: doPutAway_def accepted Let_def fromKey_def)
  from resolveLine_ok [OF res] f64 CPutAway on ok show ?thesis
    by (auto simp: es applyEvents_Cons moveOk_def fromKey_def intro!: stateOk_moveStock)
next
  case (CPick l f r t')
  with run obtain m it where res: "resolveLine s l = Inr (m, it)" and on: "\<not> onHand s (WhKey (mSKU m) f (mLotID m)) < mQty m"
    and es: "es = [mkEvent (clSKU l) (Picked (m\<lparr>mFrom := f, mTo := External\<rparr>) r)]"
    by (auto simp: doPick_def accepted Let_def fromKey_def)
  from resolveLine_ok [OF res] f64 CPick on ok show ?thesis
    by (auto simp: es applyEvents_Cons moveOk_def fromKey_def intro!: stateOk_moveStock)
next
  case (CReceive i n p l d)
  with run obtain m it nt po k pre where res: "resolveLine s l = Inr (m, it)"
    and es: "es = pre @ receiptEvents i nt po k l (m\<lparr>mFrom := External, mTo := d\<rparr>)"
    and pre: "pre = [] \<or> pre = [mkEvent i (ReceiptOpened i n p)]"
    using doReceive_Inr [of s i n p l d es] by (simp only: runCommand.simps) blast
  define s1 where "s1 = applyEvents t pre s"
  have s1: "stateOk s1" using ok pre by (auto simp: s1_def applyEvents_Cons stateOk_defs)
  from resolveLine_ok [OF res] f64 CReceive s1 show ?thesis
    unfolding es applyEvents_append s1_def [symmetric]
    by (auto simp: receiptEvents_def applyEvents_Cons moveOk_def fromKey_def intro!: stateOk_moveStock
        elim: stateOk_cong [THEN iffD2, rotated -1])
next
  case (CCloseReceipt i)
  with run ok show ?thesis
    by (auto simp: doCloseReceipt_def applyEvents_Cons split: option.splits if_splits elim: stateOk_cong [THEN iffD2, rotated -1])
next
  case (CReserve rs i l loc)
  with run ok show ?thesis
    by (auto simp: doReserve_def accepted Let_def applyEvents_Cons stateOk_defs split: if_splits)
next
  case (CRelease i)
  with run ok show ?thesis
    by (auto simp: doReleaseReservation_def accepted applyEvents_Cons elim: stateOk_cong [THEN iffD2, rotated -1])
next
  case (CConsume i)
  with run ok show ?thesis
    by (auto simp: doConsumeReservation_def accepted applyEvents_Cons elim: stateOk_cong [THEN iffD2, rotated -1])
next
  case (CDispatch i f d "from" ls t')
  with run obtain ms where loop: "dispatchLoop s from t' fmempty [] ls = Inr ms"
    and loc: "fmlookup (sLocations s) from \<noteq> None" and es: "es = [mkEvent i (TransferDispatched i f d ms)]"
    by (auto simp: doDispatchTransfer_def accepted split: if_splits sum.splits)
  from dispatchLoop_ok [OF loop] f64 plain CDispatch
  have ms: "map (\<lambda>m. (mSKU m, mLotID m)) ms = map (\<lambda>l. (clSKU l, clLotID l)) ls"
    "list_all (\<lambda>m. isFin (mQty m) \<and> 0 \<le> mQty m \<and> mTo m = External \<and> mFrom m = from \<and> \<not> onHand s (fromKey m) < mQty m) ms"
    by auto
  have "distinct (map (\<lambda>m. (mSKU m, mLotID m)) ms)" using ms(1) plain CDispatch by simp
  then have "distinct (map fromKey ms)"
    by (auto simp: distinct_map inj_on_def fromKey_def)
  moreover have "from \<noteq> External" using loc ok by (auto simp: stateOk_def)
  ultimately have "stateOk (foldl moveStock s ms)"
    using ok ms(2) by (intro stateOk_outgoing) (auto simp: list_all_iff)
  then have "stateOk (moveAll (sApplyAll s \<or> sHome s = f) ms s)" using ok by (simp add: moveAll_def)
  then show ?thesis by (simp add: es applyEvents_Cons stateOk_dispatched)
next
  case (CReceiveTransfer i to ls)
  with run obtain ms where loop: "receiveLoop s to [] ls = Inr ms" and es: "es = [mkEvent i (TransferReceived i ms)]"
    by (auto simp: doReceiveTransfer_def accepted split: if_splits sum.splits option.splits)
  from receiveLoop_ok [OF loop] f64 CReceiveTransfer ok show ?thesis
    by (auto simp: es applyEvents_Cons intro!: stateOk_received)
next
  case (CStartCount i l)
  with run have loc: "l \<noteq> External" and es: "es = [mkEvent i (CountStarted i l)]"
    using ok by (auto simp: doStartCount_def accepted stateOk_def split: if_splits)
  then show ?thesis
    using ok by (auto simp: applyEvents_Cons stateOk_def stockOk_def pendingOk_def countsOk_iff countOk_iff split: if_splits)
next
  case (CCountLine i l)
  with run obtain cs q where cs: "fmlookup (sCounts s) i = Some cs"
    and es: "es = [mkEvent i (CountLineCounted i (WhKey (clSKU l) (csLocation cs) (clLotID l)) q)]"
    and q: "(q = clQty l \<and> feq (clQty l) 0) \<or> (\<exists>it. toBase it (clQty l) (clUoM l) = Inr q)"
    by (auto simp: doCountLine_def requireOpenCount_def Let_def split: sum.splits option.splits if_splits)
  have "0 \<le> q" using q toBase_ok f64 CCountLine by (auto simp: feq_def)
  moreover have "csLocation cs \<noteq> External" using ok cs by (auto simp: stateOk_def countsOk_iff countOk_iff)
  ultimately show ?thesis
    using ok cs by (auto simp: es applyEvents_Cons countOk_iff intro!: stateOk_onCount)
next
  case (CCloseCount i)
  with run obtain cs where cs: "fmlookup (sCounts s) i = Some cs"
    and es: "es = concat (map (\<lambda>(k, q). varianceEvents s k q) (sorted_list_of_fmap (csCounted cs))) @ [mkEvent i (CountClosed i)]"
    by (auto simp: doCloseCount_def requireOpenCount_def split: sum.splits option.splits if_splits)
  have "countOk cs" using ok cs by (auto simp: stateOk_def countsOk_iff)
  then have "list_all (\<lambda>(k, q). 0 \<le> q \<and> wkLocation k \<noteq> External \<and> onHand s k = onHand s k) (sorted_list_of_fmap (csCounted cs))"
    by (auto simp: countOk_def list_all_iff)
  with ok fin have "stateOk (applyEvents t (concat (map (\<lambda>(k, q). varianceEvents s k q) (sorted_list_of_fmap (csCounted cs)))) s)"
    by (intro closeCount_ok) (simp_all add: es distinct_sorted_list_of_fmap)
  then show ?thesis
    by (auto simp: es applyEvents_append applyEvents_Cons countOk_def intro!: stateOk_onCount)
next
  case (CRegisterLocation l ty)
  with run plain ok show ?thesis
    by (auto simp: doRegisterLocation_def applyEvents_Cons stateOk_defs split: if_splits)
qed


section \<open>Runs of one node\<close>

text \<open>What reaches a node's state: the events of its own commands, which the log refuses if one of
  them cannot be encoded; item-master updates; and the two halves of transfers relayed by central.\<close>

datatype wh_op =
    OpCommand wh_command
  | OpItem item
  | OpDispatchRelay string node_id node_id "movement list"
  | OpReceiptRelay string "movement list"

fun runOp :: "wh_state \<Rightarrow> instant \<times> wh_op \<Rightarrow> wh_state" where
  "runOp s (t, OpCommand c) = (case runCommand c s of Inl _ \<Rightarrow> s
     | Inr es \<Rightarrow> if list_all (\<lambda>e. payloadFin (wePayload e)) es then applyEvents t es s else s)"
| "runOp s (t, OpItem i) = applyPayload t (ItemUpserted i) s"
| "runOp s (t, OpDispatchRelay i f d ls) = applyPayload t (TransferDispatched i f d ls) s"
| "runOp s (t, OpReceiptRelay i ls) = applyPayload t (TransferReceived i ls) s"

fun plainOp :: "node_id \<Rightarrow> wh_op \<Rightarrow> bool" where
  "plainOp home (OpCommand c) \<longleftrightarrow> commandF64 c \<and> plainCommand c"
| "plainOp home (OpItem _) \<longleftrightarrow> True"
| "plainOp home (OpDispatchRelay _ f _ _) \<longleftrightarrow> f \<noteq> home"
| "plainOp home (OpReceiptRelay _ ls) \<longleftrightarrow> list_all incoming ls"

lemma applyPayload_home [simp]:
  "sHome (applyPayload t p s) = sHome s" "sApplyAll (applyPayload t p s) = sApplyAll s"
proof -
  have bf: "sHome (backfillLotExpiry it s) = sHome s \<and> sApplyAll (backfillLotExpiry it s) = sApplyAll s" for it and s :: wh_state
    unfolding backfillLotExpiry_def by (cases "sint (itShelfLifeDays it) \<le> 0") (simp, simp, rule foldl_inv, simp_all add: Let_def)
  show "sHome (applyPayload t p s) = sHome s" "sApplyAll (applyPayload t p s) = sApplyAll s"
    by (cases p; simp add: bf setResStatus_def onReceipt_def onCount_def applyDispatched_def applyReceived_def Let_def
        moveAll_def split: option.split)+
qed

lemma applyEvents_home [simp]: "sHome (applyEvents t es s) = sHome s" "sApplyAll (applyEvents t es s) = sApplyAll s"
  by (induction es arbitrary: s) (simp_all add: applyEvents_Cons)

lemma runOp_ok:
  assumes "stateOk s" "sHome s = home" "\<not> sApplyAll s" "plainOp home o'"
  shows "stateOk (runOp s (t, o')) \<and> sHome (runOp s (t, o')) = home \<and> \<not> sApplyAll (runOp s (t, o'))"
proof (cases o')
  case (OpCommand c)
  with assms show ?thesis by (auto simp: command_keeps_stateOk split: sum.split)
next
  case (OpDispatchRelay i f d ls)
  then have "stateOk (moveAll (sApplyAll s \<or> sHome s = f) ls s)" using assms by (simp add: moveAll_def)
  then have "stateOk (applyPayload t (TransferDispatched i f d ls) s)" by (simp add: stateOk_dispatched)
  with OpDispatchRelay assms show ?thesis by (simp del: applyPayload.simps)
next
  case (OpReceiptRelay i ls)
  then have "stateOk (applyPayload t (TransferReceived i ls) s)" using assms by (simp add: stateOk_received)
  with OpReceiptRelay assms show ?thesis by (simp del: applyPayload.simps)
next
  case (OpItem i)
  have "stateOk (applyPayload t (ItemUpserted i) s)" using assms(1) by (simp add: stateOk_defs)
  with OpItem assms show ?thesis by (simp del: applyPayload.simps)
qed

lemma stateOk_new: "stateOk (setHome home newState)"
  by (simp add: stateOk_defs setHome_def newState_def)

lemma runOps_ok:
  assumes "list_all (\<lambda>(t, o'). plainOp home o') ops"
  shows "stateOk (foldl runOp (setHome home newState) ops)"
proof -
  have "stateOk (foldl runOp s ops)" if "stateOk s" "sHome s = home" "\<not> sApplyAll s" for s
    using assms that
  proof (induction ops arbitrary: s)
    case (Cons op ops)
    obtain t o' where op: "op = (t, o')" by (cases op)
    with runOp_ok [OF Cons.prems(2-4), of o' t] Cons show ?case by simp
  qed simp
  from this [OF stateOk_new] show ?thesis by (simp add: setHome_def newState_def)
qed


definition demoItem :: item where
  "demoItem = \<lparr>itSKU = ''w'', itDescription = [], itBaseUoM = ''ea'',
     itAltUoM = fmap_of_list [(''box'', fint 12)], itLotTracked = False, itShelfLifeDays = 0, itDeleted = False\<rparr>"

definition demoLine :: "float64 \<Rightarrow> cmd_line" where
  "demoLine q = \<lparr>clSKU = ''w'', clLotID = [], clQty = q, clUoM = ''ea''\<rparr>"

text \<open>A receipt of the given quantity at a dock.\<close>

definition demoStocked :: "float64 \<Rightarrow> (instant \<times> wh_op) list" where
  "demoStocked q = [(0, OpItem demoItem), (0, OpCommand (CRegisterLocation ''d'' LocReceiving)),
     (0, OpCommand (CReceive ''r1'' ''n1'' ''p1'' (demoLine q) ''d''))]"

text \<open>The decimals 0.7, 0.2 and 0.5 as floats.\<close>

definition demoTenths :: "int \<Rightarrow> float64" where
  "demoTenths n = frnd (of_int n / 10)"

definition demoDispatch :: "float64 list \<Rightarrow> instant \<times> wh_op" where
  "demoDispatch qs = (0, OpCommand (CDispatch ''t1'' ''a'' ''b'' ''d'' (map demoLine qs) 0))"


text \<open>
  The condition on dispatches is needed: 0.7 of a SKU is on hand, one transfer takes 0.2 and 0.5
  of it on two lines, and the command is accepted because the float sum of the lines is 0.7; the
  movements subtract one line after the other and leave less than zero.
\<close>

lemma wh_dispatch_of_two_lines_goes_negative:
  "let s = foldl runOp (setHome ''a'' newState) (demoStocked (demoTenths 7)) in
   onHand s (WhKey ''w'' ''d'' []) = demoTenths 7 \<and>
   onHand (runOp s (demoDispatch [demoTenths 2, demoTenths 5])) (WhKey ''w'' ''d'' []) < 0"
  by code_simp

end
