(* ===== verification/WhHalfway.thy ===== *)
theory WhHalfway
  imports WhRetry WhLedger WhLog
begin

text \<open>
  The states an arbitration may be broken off in before it emits anything, and why the validators reach
  the same verdict in all of them. Quantities are whole and not too large, since a verdict subtracts
  from a float sum what the event itself added to it.
\<close>

section \<open>What an attempt starts from\<close>

definition smallQty :: "float64 \<Rightarrow> bool" where
  "smallQty x \<longleftrightarrow> whole x \<and> \<bar>qtyInt x\<bar> < 2 ^ 50"

text \<open>Entries are under their own key, and central's own numbers are below its counter.\<close>

definition memOk :: "mem_store \<Rightarrow> bool" where
  "memOk s \<longleftrightarrow> list_all (\<lambda>(i, e). evId e = i \<and> (idNode i = CentralNode \<longrightarrow> idSeq i \<le> mmCentralN s)) (sorted_list_of_fmap (mmEvents s)) \<and>
     list_all (\<lambda>(i, f). rfEvent f = i) (sorted_list_of_fmap (mmReceipts s)) \<and>
     uint (mmCentralN s) < 2 ^ 62 \<and> sint (Wall (mmCentralHL s)) < 2 ^ 62"

text \<open>The store knows nothing of the event yet.\<close>

definition unseen :: "envelope \<Rightarrow> wh_payload \<Rightarrow> mem_store \<Rightarrow> bool" where
  "unseen env p s \<longleftrightarrow> fmlookup (mmEvents s) (evId env) = None \<and> fmlookup (mmReceipts s) (evId env) = None \<and>
     fmlookup (mmDecisions s) (evId env) = None \<and>
     list_all (\<lambda>(_, e). evCausation e \<noteq> Some (evId env)) (sorted_list_of_fmap (mmEvents s)) \<and>
     list_all (\<lambda>m. fmlookup (mmFolded s) (eventKey (evId env) (lineKey m)) = None) (movementsOf p)"

definition factsTotal :: "mem_store \<Rightarrow> int" where
  "factsTotal s = sum_list (map (\<lambda>(_, f). \<bar>qtyInt (rfQtyBase f)\<bar>) (sorted_list_of_fmap (mmReceipts s)))"

definition quantitiesOk :: "wh_payload \<Rightarrow> mem_store \<Rightarrow> bool" where
  "quantitiesOk p s \<longleftrightarrow> list_all (\<lambda>m. smallQty (mQty m)) (movementsOf p) \<and> (case p of
      GoodsReceived _ _ po m \<Rightarrow> list_all (\<lambda>(_, f). whole (rfQtyBase f)) (sorted_list_of_fmap (mmReceipts s)) \<and>
        factsTotal s < 2 ^ 50 \<and> (case memPurchaseOrder s po (mSKU m) of None \<Rightarrow> True | Some ordered \<Rightarrow> smallQty ordered)
    | TransferReceived tid ls \<Rightarrow> list_all (\<lambda>m. case memInTransit s tid (lineKey m) of None \<Rightarrow> True
        | Some row \<Rightarrow> smallQty (irDispatched row) \<and> smallQty (irReceived row)) ls
    | _ \<Rightarrow> True)"

definition arbitrable :: "envelope \<Rightarrow> wh_payload \<Rightarrow> mem_store \<Rightarrow> bool" where
  "arbitrable env p s \<longleftrightarrow> decodePayload env = Inr p \<and> idNode (evId env) \<noteq> CentralNode \<and>
     evCausation env \<noteq> Some (evId env) \<and>
     sint (Wall (evHLC env)) < 2 ^ 62 \<and> int (length (movementsOf p)) < 2 ^ 60 \<and>
     linesApart p \<and> memOk s \<and> unseen env p s \<and> quantitiesOk p s"

definition early :: "instant \<Rightarrow> bool" where
  "early now \<longleftrightarrow> sint (toMillis now) < 2 ^ 62"

section \<open>Halfway states\<close>

definition lineHalf :: "envelope \<Rightarrow> string \<Rightarrow> mem_store \<Rightarrow> mem_store \<Rightarrow> movement \<Rightarrow> bool" where
  "lineHalf env tid s0 s m \<longleftrightarrow> (case memInTransit s0 tid (lineKey m) of
      None \<Rightarrow> memInTransit s tid (lineKey m) = None
    | Some row \<Rightarrow>
        memInTransit s tid (lineKey m) = Some row \<and> fmlookup (mmFolded s) (eventKey (evId env) (lineKey m)) = None \<or>
        memInTransit s tid (lineKey m) = Some (row\<lparr>irReceived := irReceived row + acceptedOf row m\<rparr>) \<and>
        fmlookup (mmFolded s) (eventKey (evId env) (lineKey m)) = Some (acceptedOf row m))"

definition booksHalf :: "envelope \<Rightarrow> wh_payload \<Rightarrow> rejection option \<Rightarrow> mem_store \<Rightarrow> mem_store \<Rightarrow> bool" where
  "booksHalf env p rej s0 s \<longleftrightarrow> (case p of
      GoodsReceived _ _ _ _ \<Rightarrow> mmReceipts s = mmReceipts s0 \<or>
        (case factOf env p rej of None \<Rightarrow> False | Some f \<Rightarrow> mmReceipts s = fmupd (evId env) f (mmReceipts s0))
    | TransferReceived tid ls \<Rightarrow> list_all (lineHalf env tid s0 s) ls
    | _ \<Rightarrow> True)"

definition sameReferences :: "mem_store \<Rightarrow> mem_store \<Rightarrow> bool" where
  "sameReferences s0 s \<longleftrightarrow> mmItems s = mmItems s0 \<and> mmOrders s = mmOrders s0 \<and> mmNodes s = mmNodes s0"

definition halfway :: "envelope \<Rightarrow> wh_payload \<Rightarrow> rejection option \<Rightarrow> mem_store \<Rightarrow> mem_store \<Rightarrow> bool" where
  "halfway env p rej s0 s \<longleftrightarrow> sameReferences s0 s \<and> mmDecisions s = mmDecisions s0 \<and> mmCentralN s = mmCentralN s0 \<and>
     mmCentralHL s = mmCentralHL s0 \<and>
     (mmEvents s = mmEvents s0 \<or> mmEvents s = fmupd (evId env) env (mmEvents s0)) \<and> booksHalf env p rej s0 s"

lemma halfway_start: "unseen env p s0 \<Longrightarrow> halfway env p rej s0 s0"
  by (cases p) (auto simp: halfway_def booksHalf_def sameReferences_def lineHalf_def unseen_def list_all_iff split: option.split)

lemma frame_cong:
  assumes "mmReceipts s' = mmReceipts s" "mmTransit s' = mmTransit s" "mmFolded s' = mmFolded s"
  shows "booksHalf env p rej s0 s' \<longleftrightarrow> booksHalf env p rej s0 s"
proof -
  have "lineHalf env tid s0 s' = lineHalf env tid s0 s" for tid
    by (rule ext) (simp only: lineHalf_def memInTransit_def assms)
  then show ?thesis by (simp only: booksHalf_def assms)
qed

lemma lineHalf_received:
  assumes "transitKey tid (lineKey x) \<noteq> transitKey tid (lineKey m) \<or> x = m" "lineHalf env tid s0 s m"
  shows "lineHalf env tid s0 (fst (receivedStep env tid x) s) m"
proof (cases "transitKey tid (lineKey x) \<noteq> transitKey tid (lineKey m)")
  case True
  then have "eventKey (evId env) (lineKey x) \<noteq> eventKey (evId env) (lineKey m)"
    by (simp add: transitKey_eventKey [of tid _ _ "evId env"])
  with True have "memInTransit (fst (receivedStep env tid x) s) tid (lineKey m) = memInTransit s tid (lineKey m)"
    "fmlookup (mmFolded (fst (receivedStep env tid x) s)) (eventKey (evId env) (lineKey m)) = fmlookup (mmFolded s) (eventKey (evId env) (lineKey m))"
    by (auto simp: receivedStep_def memAddReceived_def memInTransit_def Let_def split: option.split)
  then show ?thesis using assms(2) unfolding lineHalf_def by (simp only:)
next
  case False
  then have x: "x = m" using assms(1) by simp
  show ?thesis
  proof (cases "memInTransit s0 tid (lineKey m)")
    case None
    then show ?thesis using assms(2) by (simp add: x lineHalf_def receivedStep_def)
  next
    case (Some row)
    then consider "memInTransit s tid (lineKey m) = Some row" "fmlookup (mmFolded s) (eventKey (evId env) (lineKey m)) = None"
      | "memInTransit s tid (lineKey m) = Some (row\<lparr>irReceived := irReceived row + acceptedOf row m\<rparr>)"
        "fmlookup (mmFolded s) (eventKey (evId env) (lineKey m)) = Some (acceptedOf row m)"
      using assms(2) by (auto simp: lineHalf_def)
    then show ?thesis
      by cases (auto simp: x Some Some [unfolded memInTransit_def] lineHalf_def receivedStep_def memAddReceived_def memInTransit_def Let_def)
  qed
qed

lemma halfway_step:
  assumes "linesApart p" "h \<in> set (stepsOf (trunk env p rej))" "halfway env p rej s0 s"
  shows "halfway env p rej s0 (h s)"
proof -
  consider "h = fst (appendStep env)" | "h \<in> set (stepsOf (fanSteps env p rej))" | "h \<in> set (stepsOf (recordSteps env p rej))"
    using assms(2) by (auto simp: trunk_def)
  then show ?thesis
  proof cases
    case 1
    have "booksHalf env p rej s0 (h s)" using assms(3) frame_cong [of "h s" s]
      by (simp add: 1 appendStep_def memAppend_one halfway_def)
    then show ?thesis using assms(3) by (auto simp: 1 appendStep_def memAppend_one halfway_def sameReferences_def hasEvent_def)
  next
    case 2
    then have "\<exists>n. h s = s \<or> h s = memEnqueue n [env] s"
      by (cases p) (auto simp: fanSteps_def enqueueStep_def fanStep_def split: if_splits option.split)
    then obtain n where "h s = s \<or> h s = memEnqueue n [env] s" by blast
    moreover have "halfway env p rej s0 (memEnqueue n [env] s)"
      using assms(3) frame_cong [of "memEnqueue n [env] s" s] by (simp add: halfway_def sameReferences_def memEnqueue_one)
    ultimately show ?thesis using assms(3) by auto
  next
    case 3
    show ?thesis
    proof (cases p)
      case (GoodsReceived rid dnote po m)
      with 3 have "h \<in> set (stepsOf (case factOf env p rej of None \<Rightarrow> [] | Some f \<Rightarrow> [receiptStep f]))"
        by (simp add: recordSteps_def)
      then obtain f where f: "factOf env p rej = Some f" "h = memRecordReceipt f"
        by (cases "factOf env p rej") (simp_all add: receiptStep_def)
      then have "rfEvent f = evId env" by (auto simp: GoodsReceived factOf_def Let_def split: option.splits if_splits)
      then show ?thesis using assms(3) f
        by (auto simp: GoodsReceived halfway_def sameReferences_def booksHalf_def memRecordReceipt_def)
    next
      case (TransferDispatched tid "from" to ls)
      with 3 have "(\<exists>row. h = memRecordDispatch row) \<or> h = memFailTransfer tid"
        by (auto simp: recordSteps_def dispatchStep_def failStep_def split: if_splits)
      then show ?thesis using assms(3)
        by (auto simp: TransferDispatched halfway_def sameReferences_def booksHalf_def memRecordDispatch_def memFailTransfer_def Let_def
            split: option.split)
    next
      case (TransferReceived tid ls)
      with 3 obtain x where x: "x \<in> set ls" "h = fst (receivedStep env tid x)"
        by (auto simp: recordSteps_def)
      have "lineHalf env tid s0 (h s) m" if "m \<in> set ls" for m
      proof -
        have "transitKey tid (lineKey x) \<noteq> transitKey tid (lineKey m) \<or> x = m"
          using assms(1) that x(1) by (auto simp: linesApart_def TransferReceived distinct_map inj_on_def)
        then show ?thesis
          unfolding x(2) by (rule lineHalf_received) (use assms(3) that in \<open>simp add: halfway_def booksHalf_def TransferReceived list_all_iff\<close>)
      qed
      moreover have "sameReferences s0 (h s) \<and> mmDecisions (h s) = mmDecisions s \<and> mmCentralN (h s) = mmCentralN s \<and>
          mmCentralHL (h s) = mmCentralHL s \<and> mmEvents (h s) = mmEvents s"
        using assms(3) by (auto simp: x(2) halfway_def sameReferences_def receivedStep_def memAddReceived_def Let_def split: option.split)
      ultimately show ?thesis using assms(3) by (simp add: halfway_def booksHalf_def TransferReceived list_all_iff)
    qed (use 3 in \<open>simp_all add: recordSteps_def\<close>)
  qed
qed

lemma halfway_steps:
  assumes "linesApart p" "set hs \<subseteq> set (stepsOf (trunk env p rej))" "halfway env p rej s0 s"
  shows "halfway env p rej s0 (steps hs s)"
proof (rule steps_keep)
  fix h s
  assume "h \<in> set hs" and s: "halfway env p rej s0 s"
  then have "h \<in> set (stepsOf (trunk env p rej))" using assms(2) by blast
  then show "halfway env p rej s0 (h s)" using s by (rule halfway_step [OF assms(1)])
qed (rule assms(3))

section \<open>Sums of receipts\<close>

lemma mset_sorted_upd:
  fixes m :: "('k :: linorder, 'v) fmap"
  assumes "fmlookup m k = None"
  shows "mset (sorted_list_of_fmap (fmupd k v m)) = add_mset (k, v) (mset (sorted_list_of_fmap m))"
proof -
  have dist: "distinct (sorted_list_of_fmap x)" for x :: "('k, 'v) fmap"
    using distinct_sorted_list_of_fmap [of x] by (simp add: distinct_map)
  have "mset (sorted_list_of_fmap (fmupd k v m)) = mset ((k, v) # sorted_list_of_fmap m)"
    using assms dist by (intro mset_eq_of_distinct) (auto simp: set_sorted_list_of_fmap split: if_splits)
  then show ?thesis by simp
qed

definition poQty :: "string \<Rightarrow> string \<Rightarrow> receipt_fact \<Rightarrow> int" where
  "poQty po sku f = (if rfPORef f = po \<and> rfSKU f = sku then qtyInt (rfQtyBase f) else 0)"

definition poSum :: "mem_store \<Rightarrow> string \<Rightarrow> string \<Rightarrow> int" where
  "poSum s po sku = sum_list (map (\<lambda>(_, f). poQty po sku f) (sorted_list_of_fmap (mmReceipts s)))"

definition wholeFacts :: "mem_store \<Rightarrow> bool" where
  "wholeFacts s \<longleftrightarrow> list_all (\<lambda>(_, f). whole (rfQtyBase f)) (sorted_list_of_fmap (mmReceipts s))"

lemma sum_list_mset: "mset xs = mset ys \<Longrightarrow> sum_list (map g xs) = (sum_list (map g ys) :: int)"
  by (metis mset_map sum_mset_sum_list)

lemma foldl_facts:
  "list_all (\<lambda>(_, f). whole (rfQtyBase f)) xs \<Longrightarrow> \<bar>a\<bar> + sum_list (map (\<lambda>(_, f). \<bar>qtyInt (rfQtyBase f)\<bar>) xs) < 2 ^ 53 \<Longrightarrow>
   foldl (\<lambda>sum (_, f). if rfPORef f = po \<and> rfSKU f = sku then sum + rfQtyBase f else sum) (fint a) xs =
   fint (a + sum_list (map (\<lambda>(_, f). poQty po sku f) xs))"
proof (induction xs arbitrary: a)
  case (Cons x xs)
  obtain i f where x: "x = (i, f)" by (cases x)
  obtain n where n: "rfQtyBase f = fint n" using Cons.prems(1) by (auto simp: x whole_def)
  have pos: "0 \<le> sum_list (map (\<lambda>(_, f). \<bar>qtyInt (rfQtyBase f)\<bar>) xs)"
    by (rule sum_list_nonneg) auto
  have "fint a + fint n = fint (a + n)" using Cons.prems(2) pos by (intro fint_plus) (simp add: x n)
  moreover have "list_all (\<lambda>(_, f). whole (rfQtyBase f)) xs" using Cons.prems(1) by simp
  moreover have "\<bar>a\<bar> + sum_list (map (\<lambda>(_, f). \<bar>qtyInt (rfQtyBase f)\<bar>) xs) < 2 ^ 53"
    "\<bar>a + n\<bar> + sum_list (map (\<lambda>(_, f). \<bar>qtyInt (rfQtyBase f)\<bar>) xs) < 2 ^ 53" using Cons.prems(2) by (simp_all add: x n)
  ultimately show ?case using Cons.IH by (auto simp: x n poQty_def algebra_simps)
qed simp

lemma received_poSum:
  assumes "anyOrder vis" "wholeFacts s" "factsTotal s < 2 ^ 53"
  shows "memReceivedAgainstPO vis s po sku = fint (poSum s po sku)"
proof -
  let ?xs = "sorted_list_of_fmap (mmReceipts s)"
  have m: "mset (vis ?xs) = mset ?xs" using assms(1) by (simp add: anyOrder_def)
  have "list_all (\<lambda>(_, f). whole (rfQtyBase f)) (vis ?xs)"
    using assms(2) unfolding wholeFacts_def list_all_iff mset_eq_setD [OF m] .
  moreover have "\<bar>0\<bar> + sum_list (map (\<lambda>(_, f). \<bar>qtyInt (rfQtyBase f)\<bar>) (vis ?xs)) < 2 ^ 53"
    using assms(3) sum_list_mset [OF m] by (simp add: factsTotal_def)
  ultimately have "foldl (\<lambda>sum (_, f). if rfPORef f = po \<and> rfSKU f = sku then sum + rfQtyBase f else sum) (fint 0) (vis ?xs) =
      fint (0 + sum_list (map (\<lambda>(_, f). poQty po sku f) (vis ?xs)))"
    by (rule foldl_facts)
  then show ?thesis using sum_list_mset [OF m] by (simp add: memReceivedAgainstPO_def fint_0 poSum_def)
qed

lemma poSum_bound: "\<bar>poSum s po sku\<bar> \<le> factsTotal s"
proof -
  have "\<bar>sum_list (map (\<lambda>(_, f). poQty po sku f) xs)\<bar> \<le> sum_list (map (\<lambda>(_, f). \<bar>qtyInt (rfQtyBase f)\<bar>) xs)"
    for xs :: "(event_id \<times> receipt_fact) list"
    by (induction xs) (auto simp: poQty_def)
  then show ?thesis by (simp add: poSum_def factsTotal_def)
qed

lemma receipts_extended:
  assumes "mmReceipts s = fmupd i f (mmReceipts s0)" "fmlookup (mmReceipts s0) i = None"
  shows "poSum s po sku = poSum s0 po sku + poQty po sku f" "factsTotal s = factsTotal s0 + \<bar>qtyInt (rfQtyBase f)\<bar>"
    "wholeFacts s \<longleftrightarrow> wholeFacts s0 \<and> whole (rfQtyBase f)"
proof -
  have m: "mset (sorted_list_of_fmap (mmReceipts s)) = mset ((i, f) # sorted_list_of_fmap (mmReceipts s0))"
    using mset_sorted_upd [OF assms(2)] by (simp add: assms(1))
  show "poSum s po sku = poSum s0 po sku + poQty po sku f" "factsTotal s = factsTotal s0 + \<bar>qtyInt (rfQtyBase f)\<bar>"
    unfolding poSum_def factsTotal_def sum_list_mset [OF m] by simp_all
  have "set (sorted_list_of_fmap (mmReceipts s)) = insert (i, f) (set (sorted_list_of_fmap (mmReceipts s0)))"
    using mset_eq_setD [OF m] by simp
  then show "wholeFacts s \<longleftrightarrow> wholeFacts s0 \<and> whole (rfQtyBase f)"
    unfolding wholeFacts_def list_all_iff by auto
qed

lemma smallQty_iff: "smallQty x \<longleftrightarrow> (\<exists>n. x = fint n \<and> \<bar>n\<bar> < 2 ^ 50)"
  by (auto simp: smallQty_def whole_def)

lemma poPure_small:
  assumes "mQty m = fint q" "\<bar>q\<bar> < 2 ^ 50" "\<bar>a\<bar> < 2 ^ 50" "\<bar>n\<bar> < 2 ^ 50"
  shows "poPure [] m rid (fint a) (fint n) = (let e = min q (a + q - n) in
    if a + q - n \<le> 0 then None
    else Some \<lparr>rjReason = ReasonPOOverReceipt, rjEvents = [adjustment (mSKU m) (reverseMove m (fint e)) ReasonPOOverReceipt,
          \<lparr>weType = ''ReceiptLineRecorded'', weAggregate = rid, wePayload = ReceiptLineRecorded rid 0 (mSKU m) (mLotID m) (fint (- e))\<rparr>],
          rjExcess = fint e\<rparr>)"
proof -
  have e: "fint a + fint q - fint n = fint (a + q - n)"
    using assms by (simp add: fint_plus fint_minus)
  have le: "fint k \<le> 0 \<longleftrightarrow> k \<le> 0" for k by (simp add: fint_le flip: fint_0)
  show ?thesis
    unfolding poPure_def assms(1) Let_def e le fint_less by (auto simp: min_def fint_uminus)
qed

section \<open>The verdict does not change on the way\<close>

lemma firstSeen_cases:
  "(memDeliveryNoteFirstSeen s dnote sku = None \<longleftrightarrow>
      (\<forall>i f. fmlookup (mmReceipts s) i = Some f \<longrightarrow> \<not> (rfDeliveryNote f = dnote \<and> rfSKU f = sku))) \<and>
   (\<forall>j. memDeliveryNoteFirstSeen s dnote sku = Some j \<longrightarrow> (\<exists>i f. fmlookup (mmReceipts s) i = Some f \<and> rfEvent f = j))"
proof -
  let ?g = "\<lambda>first (_, f). if rfDeliveryNote f \<noteq> dnote \<or> rfSKU f \<noteq> sku then first
        else (case first of None \<Rightarrow> Some (rfEvent f) | Some i \<Rightarrow> if rfEvent f < i then Some (rfEvent f) else Some i)"
  have some: "\<exists>k. foldl ?g (Some j) xs = Some k \<and> (k = j \<or> (\<exists>x \<in> set xs. rfEvent (snd x) = k))"
    for xs :: "(event_id \<times> receipt_fact) list" and j
  proof (induction xs arbitrary: j)
    case (Cons x xs)
    obtain i f where x: "x = (i, f)" by (cases x)
    show ?case using Cons [of j] Cons [of "rfEvent f"] by (auto simp: x)
  qed simp
  have none: "(foldl ?g None xs = None \<longleftrightarrow> (\<forall>x \<in> set xs. \<not> (rfDeliveryNote (snd x) = dnote \<and> rfSKU (snd x) = sku))) \<and>
      (\<forall>j. foldl ?g None xs = Some j \<longrightarrow> (\<exists>x \<in> set xs. rfEvent (snd x) = j))"
    for xs :: "(event_id \<times> receipt_fact) list"
  proof (induction xs)
    case (Cons x xs)
    obtain i f where x: "x = (i, f)" by (cases x)
    show ?case
    proof (cases "rfDeliveryNote f = dnote \<and> rfSKU f = sku")
      case True
      then have e: "foldl ?g None (x # xs) = foldl ?g (Some (rfEvent f)) xs" by (simp add: x)
      obtain k where k: "foldl ?g (Some (rfEvent f)) xs = Some k" "k = rfEvent f \<or> (\<exists>x \<in> set xs. rfEvent (snd x) = k)"
        using some by blast
      show ?thesis unfolding e k(1) using k(2) True by (auto simp: x)
    next
      case False
      then have "foldl ?g None (x # xs) = foldl ?g None xs" by (simp add: x)
      with False Cons show ?thesis by (simp add: x)
    qed
  qed simp
  have all: "(\<forall>x \<in> set (sorted_list_of_fmap (mmReceipts s)). P (snd x)) \<longleftrightarrow> (\<forall>i f. fmlookup (mmReceipts s) i = Some f \<longrightarrow> P f)"
    and ex: "(\<exists>x \<in> set (sorted_list_of_fmap (mmReceipts s)). P (snd x)) \<longleftrightarrow> (\<exists>i f. fmlookup (mmReceipts s) i = Some f \<and> P f)" for P
    by (metis prod.collapse snd_conv set_sorted_list_of_fmap)+
  show ?thesis
    unfolding memDeliveryNoteFirstSeen_def using none [of "sorted_list_of_fmap (mmReceipts s)"]
    unfolding all [of "\<lambda>f. \<not> (rfDeliveryNote f = dnote \<and> rfSKU f = sku)"] ex [of "\<lambda>f. rfEvent f = _"] .
qed

lemma overPure_cong: "(\<And>m. m \<in> set ls \<Longrightarrow> f m = g m) \<Longrightarrow> overPure f ls es x = overPure g ls es x"
  by (induction ls arbitrary: es x) (simp_all add: Let_def)

lemma remOf_half:
  assumes half: "lineHalf env tid s0 s m" and q: "smallQty (mQty m)"
    and none: "fmlookup (mmFolded s0) (eventKey (evId env) (lineKey m)) = None"
    and row: "case memInTransit s0 tid (lineKey m) of None \<Rightarrow> True | Some row \<Rightarrow> smallQty (irDispatched row) \<and> smallQty (irReceived row)"
  shows "remOf env tid s m = remOf env tid s0 m \<and> smallQty (mQty m) \<and>
    (\<exists>n. remOf env tid s0 m = fint n \<and> \<bar>n\<bar> < 2 ^ 51)"
proof (cases "memInTransit s0 tid (lineKey m)")
  case None
  have "0 = fint 0" by (simp add: fint_0)
  with None half q show ?thesis by (auto simp: lineHalf_def remOf_def intro: exI [of _ 0])
next
  case (Some r0)
  obtain d r n where dr: "irDispatched r0 = fint d" "irReceived r0 = fint r" "mQty m = fint n"
    and b: "\<bar>d\<bar> < 2 ^ 50" "\<bar>r\<bar> < 2 ^ 50" "\<bar>n\<bar> < 2 ^ 50"
    using row q by (auto simp: Some smallQty_iff)
  have z: "fint k - 0 = fint k" if "\<bar>k\<bar> < 2 ^ 53" for k
    using fint_minus [of k 0] that by (simp add: fint_0)
  have own0: "memReceivedFromEvent s0 (evId env) tid (lineKey m) = 0"
    using none by (simp add: memReceivedFromEvent_def fm_get_def)
  have rem0: "remOf env tid s0 m = fint (d - r)"
    using b by (simp add: remOf_def Some own0 dr z fint_minus)
  consider "memInTransit s tid (lineKey m) = Some r0" "fmlookup (mmFolded s) (eventKey (evId env) (lineKey m)) = None"
    | "memInTransit s tid (lineKey m) = Some (r0\<lparr>irReceived := irReceived r0 + acceptedOf r0 m\<rparr>)"
      "fmlookup (mmFolded s) (eventKey (evId env) (lineKey m)) = Some (acceptedOf r0 m)"
    using half by (auto simp: lineHalf_def Some)
  then have "remOf env tid s m = fint (d - r)"
  proof cases
    case 1
    then have "memReceivedFromEvent s (evId env) tid (lineKey m) = 0" by (simp add: memReceivedFromEvent_def fm_get_def)
    with 1 b show ?thesis by (simp add: remOf_def dr z fint_minus)
  next
    case 2
    have a: "acceptedOf r0 m = fint (min n (d - r))"
      using b by (auto simp: acceptedOf_def Let_def dr fint_minus fint_less min_def)
    have own: "memReceivedFromEvent s (evId env) tid (lineKey m) = fint (min n (d - r))"
      using 2(2) by (simp add: memReceivedFromEvent_def fm_get_def a)
    have m: "\<bar>min n (d - r)\<bar> < 2 ^ 51" using b by (auto simp: min_def)
    have "fint r + fint (min n (d - r)) = fint (r + min n (d - r))" using b m by (intro fint_plus) simp
    moreover have "fint (r + min n (d - r)) - fint (min n (d - r)) = fint r" using b by (subst fint_minus) simp_all
    moreover have "fint d - fint r = fint (d - r)" using b by (intro fint_minus) simp
    ultimately show ?thesis by (simp add: remOf_def 2(1) own dr a)
  qed
  moreover have "\<bar>d - r\<bar> < 2 ^ 51" using b by simp
  ultimately show ?thesis using rem0 q by (intro conjI exI [of _ "d - r"]) simp_all
qed

lemma alreadyOf_half:
  assumes "anyOrder vis" "wholeFacts s0" "factsTotal s0 < 2 ^ 50" "fmlookup (mmReceipts s0) (evId env) = None"
    and "mmReceipts s = mmReceipts s0 \<or> (\<exists>f. mmReceipts s = fmupd (evId env) f (mmReceipts s0) \<and>
      rfPORef f = po \<and> rfSKU f = sku \<and> (\<exists>n. rfQtyBase f = fint n \<and> \<bar>n\<bar> < 2 ^ 52))"
  shows "alreadyOf vis env po sku s = fint (poSum s0 po sku)"
  using assms(5)
proof
  assume s: "mmReceipts s = mmReceipts s0"
  then have "poSum s = poSum s0" "factsTotal s = factsTotal s0" "wholeFacts s = wholeFacts s0"
    by (simp_all add: poSum_def factsTotal_def wholeFacts_def fun_eq_iff)
  then show ?thesis using assms s by (simp add: alreadyOf_def memReceipt_def received_poSum)
next
  assume "\<exists>f. mmReceipts s = fmupd (evId env) f (mmReceipts s0) \<and> rfPORef f = po \<and> rfSKU f = sku \<and>
    (\<exists>n. rfQtyBase f = fint n \<and> \<bar>n\<bar> < 2 ^ 52)"
  then obtain f n where s: "mmReceipts s = fmupd (evId env) f (mmReceipts s0)" and f: "rfPORef f = po" "rfSKU f = sku"
    and n: "rfQtyBase f = fint n" "\<bar>n\<bar> < 2 ^ 52" by blast
  note ext = receipts_extended [OF s assms(4)]
  have "memReceivedAgainstPO vis s po sku = fint (poSum s0 po sku + n)"
    using assms(1-3) n by (subst received_poSum) (simp_all add: ext poQty_def f)
  moreover have "fint (poSum s0 po sku + n) - fint n = fint (poSum s0 po sku)"
    using poSum_bound [of s0 po sku] assms(3) by (subst fint_minus) simp_all
  ultimately show ?thesis by (simp add: alreadyOf_def memReceipt_def s n)
qed

lemma orElse_simps [simp]: "orElse None b = b" "orElse (Some x) b = Some x" "orElse a None = a"
  by (simp_all add: orElse_def split: option.split)

lemma arbitrable_receipt:
  assumes "arbitrable env (GoodsReceived rid dnote po m) s0"
  obtains q where "mQty m = fint q" "\<bar>q\<bar> < 2 ^ 50" "wholeFacts s0" "factsTotal s0 < 2 ^ 50"
    "fmlookup (mmReceipts s0) (evId env) = None" "\<And>i f. fmlookup (mmReceipts s0) i = Some f \<Longrightarrow> rfEvent f = i"
    "\<And>x. memPurchaseOrder s0 po (mSKU m) = Some x \<Longrightarrow> \<exists>n. x = fint n \<and> \<bar>n\<bar> < 2 ^ 50"
proof -
  have q: "quantitiesOk (GoodsReceived rid dnote po m) s0" and u: "unseen env (GoodsReceived rid dnote po m) s0" and m: "memOk s0"
    using assms by (simp_all add: arbitrable_def)
  have "smallQty (mQty m)" using q by (simp add: quantitiesOk_def)
  then obtain q0 where q0: "mQty m = fint q0" "\<bar>q0\<bar> < 2 ^ 50" unfolding smallQty_iff by blast
  show thesis
  proof (rule that [OF q0])
    show "wholeFacts s0" "factsTotal s0 < 2 ^ 50" using q by (simp_all add: quantitiesOk_def wholeFacts_def)
    show "fmlookup (mmReceipts s0) (evId env) = None" using u by (simp add: unseen_def)
    show "rfEvent f = i" if "fmlookup (mmReceipts s0) i = Some f" for i f
      using m that unfolding memOk_def list_all_iff by (auto simp flip: set_sorted_list_of_fmap)
    show "\<exists>n. x = fint n \<and> \<bar>n\<bar> < 2 ^ 50" if "memPurchaseOrder s0 po (mSKU m) = Some x" for x
      using q that by (simp add: quantitiesOk_def smallQty_iff)
  qed
qed

text \<open>The verdict on a receipt, with what it is computed from.\<close>

lemma verdict_receipt:
  assumes "arbitrable env (GoodsReceived rid dnote po m) s0" "anyOrder vis" "mQty m = fint q"
  shows "verdict vis env (GoodsReceived rid dnote po m) s0 = orElse (vUnknown (GoodsReceived rid dnote po m) s0)
    (orElse (vDuplicate env dnote m s0) (case memPurchaseOrder s0 po (mSKU m) of None \<Rightarrow> None
       | Some ordered \<Rightarrow> poPure [] m rid (fint (poSum s0 po (mSKU m))) ordered))"
  by (rule arbitrable_receipt [OF assms(1)])
    (use assms(2) in \<open>simp add: verdict_def alreadyOf_half [of vis s0 env s0] split: option.split\<close>)

lemma fact_small:
  assumes arb: "arbitrable env (GoodsReceived rid dnote po m) s0" and vis: "anyOrder vis"
    and rej: "rej = verdict vis env (GoodsReceived rid dnote po m) s0" and f: "factOf env (GoodsReceived rid dnote po m) rej = Some f"
  shows "rfPORef f = po \<and> rfSKU f = mSKU m \<and> rfEvent f = evId env \<and> vUnknown (GoodsReceived rid dnote po m) s0 = None \<and>
    vDuplicate env dnote m s0 = None \<and> (\<exists>n. rfQtyBase f = fint n \<and> \<bar>n\<bar> < 2 ^ 52)"
proof -
  obtain q where q: "mQty m = fint q" "\<bar>q\<bar> < 2 ^ 50" "factsTotal s0 < 2 ^ 50"
    and ord: "\<And>x. memPurchaseOrder s0 po (mSKU m) = Some x \<Longrightarrow> \<exists>n. x = fint n \<and> \<bar>n\<bar> < 2 ^ 50"
    using arbitrable_receipt [OF arb] by metis
  note v = verdict_receipt [OF arb vis q(1), folded rej]
  have fields: "rfPORef f = po \<and> rfSKU f = mSKU m \<and> rfEvent f = evId env"
    using f by (auto simp: factOf_def Let_def split: option.splits if_splits)
  have u: "vUnknown (GoodsReceived rid dnote po m) s0 = None"
  proof (rule ccontr)
    assume "vUnknown (GoodsReceived rid dnote po m) s0 \<noteq> None"
    then obtain r where r: "vUnknown (GoodsReceived rid dnote po m) s0 = Some r" by blast
    then have "rjReason r = ReasonUnknownSKU" by (auto simp: vUnknown_def rejected_def split: prod.splits if_splits)
    with r v f show False by (simp add: factOf_def)
  qed
  have d: "vDuplicate env dnote m s0 = None"
  proof (rule ccontr)
    assume "vDuplicate env dnote m s0 \<noteq> None"
    then obtain r where r: "vDuplicate env dnote m s0 = Some r" by blast
    then have "rjReason r = ReasonDuplicateReceipt" by (auto simp: vDuplicate_def Let_def split: if_splits)
    with r u v f show False by (simp add: factOf_def)
  qed
  have "\<exists>n. rfQtyBase f = fint n \<and> \<bar>n\<bar> < 2 ^ 52"
  proof (cases rej)
    case None
    then have "rfQtyBase f = mQty m" using f by (auto simp: factOf_def Let_def)
    with q show ?thesis by (intro exI [of _ q]) simp
  next
    case (Some r)
    let ?a = "poSum s0 po (mSKU m)"
    have a: "\<bar>?a\<bar> < 2 ^ 50" using poSum_bound [of s0 po "mSKU m"] q(3) by linarith
    from v u d Some obtain x where x: "memPurchaseOrder s0 po (mSKU m) = Some x" "poPure [] m rid (fint ?a) x = Some r"
      by (auto split: option.splits)
    obtain n where n: "x = fint n" "\<bar>n\<bar> < 2 ^ 50" using ord [OF x(1)] by blast
    from x(2) poPure_small [OF q(1,2) a n(2), of rid]
    have e: "rjExcess r = fint (min q (?a + q - n))" "?a + q - n > 0"
      by (auto simp: n(1) Let_def split: if_splits)
    have small: "\<bar>q - min q (?a + q - n)\<bar> < 2 ^ 52" using q(2) a n(2) e(2) by (auto simp: min_def)
    have "rfQtyBase f = mQty m - rjExcess r" using f Some by (auto simp: factOf_def Let_def split: if_splits)
    also have "\<dots> = fint (q - min q (?a + q - n))" unfolding q(1) e(1) using small by (intro fint_minus) simp
    finally show ?thesis using small by blast
  qed
  with fields u d show ?thesis by blast
qed

lemma verdict_half:
  assumes arb: "arbitrable env p s0" and vis0: "anyOrder vis0" and vis: "anyOrder vis" and rej: "rej = verdict vis0 env p s0"
    and refs: "sameReferences s0 s" and books: "booksHalf env p rej s0 s"
  shows "verdict vis env p s = rej"
proof -
  have item: "memItem s = memItem s0" and order: "memPurchaseOrder s = memPurchaseOrder s0" and node: "memNodeConfig s = memNodeConfig s0"
    using refs by (simp_all add: sameReferences_def memItem_def memPurchaseOrder_def memNodeConfig_def fun_eq_iff)
  have u: "vUnknown p s = vUnknown p s0" by (simp add: vUnknown_def item)
  show ?thesis
  proof (cases p)
    case (GoodsReceived rid dnote po m)
    note arb = arb [unfolded GoodsReceived] and rej = rej [unfolded GoodsReceived]
    obtain q where q: "mQty m = fint q" and facts: "wholeFacts s0" "factsTotal s0 < 2 ^ 50" "fmlookup (mmReceipts s0) (evId env) = None"
      and keyed: "\<And>i f. fmlookup (mmReceipts s0) i = Some f \<Longrightarrow> rfEvent f = i"
      using arbitrable_receipt [OF arb] by metis
    have v: "verdict vis env p s = orElse (vUnknown p s0) (orElse (vDuplicate env dnote m s)
        (case memPurchaseOrder s0 po (mSKU m) of None \<Rightarrow> None | Some ordered \<Rightarrow> poPure [] m rid (alreadyOf vis env po (mSKU m) s) ordered))"
      using u by (simp add: verdict_def GoodsReceived order)
    note v0 = verdict_receipt [OF arb vis0 q, folded rej]
    show ?thesis
    proof (cases "factOf env p rej")
      case None
      then have same: "mmReceipts s = mmReceipts s0" using books by (simp add: booksHalf_def GoodsReceived)
      then have "vDuplicate env dnote m s = vDuplicate env dnote m s0"
        by (simp add: vDuplicate_def memDeliveryNoteFirstSeen_def)
      moreover have "alreadyOf vis env po (mSKU m) s = fint (poSum s0 po (mSKU m))"
        using same by (intro alreadyOf_half vis facts) simp
      ultimately show ?thesis using v v0 by (simp add: GoodsReceived split: option.splits)
    next
      case (Some f)
      note fs = fact_small [OF arb vis0 rej Some [unfolded GoodsReceived]]
      have rec: "mmReceipts s = mmReceipts s0 \<or> mmReceipts s = fmupd (evId env) f (mmReceipts s0)"
        using books Some by (simp add: booksHalf_def GoodsReceived)
      have "alreadyOf vis env po (mSKU m) s = fint (poSum s0 po (mSKU m))"
        using rec fs by (intro alreadyOf_half vis facts) blast
      moreover have "vDuplicate env dnote m s = None"
      proof -
        have "memDeliveryNoteFirstSeen s0 dnote (mSKU m) = None"
        proof (rule ccontr)
          assume "memDeliveryNoteFirstSeen s0 dnote (mSKU m) \<noteq> None"
          then obtain j where j: "memDeliveryNoteFirstSeen s0 dnote (mSKU m) = Some j" by blast
          then obtain i f where "fmlookup (mmReceipts s0) i = Some f" "rfEvent f = j" using firstSeen_cases by blast
          with keyed facts(3) have "j \<noteq> evId env" by auto
          with j fs show False by (simp add: vDuplicate_def)
        qed
        then have none: "\<not> (rfDeliveryNote g = dnote \<and> rfSKU g = mSKU m)" if "fmlookup (mmReceipts s0) i = Some g" for i g
          using firstSeen_cases [of s0 dnote "mSKU m"] that by blast
        have "j = evId env" if j: "memDeliveryNoteFirstSeen s dnote (mSKU m) = Some j" for j
        proof -
          have "memDeliveryNoteFirstSeen s dnote (mSKU m) \<noteq> None" using j by simp
          then have "mmReceipts s \<noteq> mmReceipts s0" using none firstSeen_cases [of s dnote "mSKU m"] by metis
          then have ext: "mmReceipts s = fmupd (evId env) f (mmReceipts s0)" using rec by blast
            let ?L = "sorted_list_of_fmap (mmReceipts s)"
            let ?g = "\<lambda>first (_, f). if rfDeliveryNote f \<noteq> dnote \<or> rfSKU f \<noteq> mSKU m then first
               else (case first of None \<Rightarrow> Some (rfEvent f) | Some i \<Rightarrow> if rfEvent f < i then Some (rfEvent f) else Some i)"
            have "foldl ?g None ?L = None \<or> foldl ?g None ?L = Some (evId env)"
            proof (rule foldl_inv [where P = "\<lambda>r. r = None \<or> r = Some (evId env)"])
              fix a x
              assume x: "x \<in> set ?L" and a: "a = None \<or> a = Some (evId env)"
              obtain i g where ig: "x = (i, g)" by (cases x)
              then have look: "fmlookup (mmReceipts s) i = Some g" using x by (simp add: set_sorted_list_of_fmap)
              have "rfEvent g = evId env" if "rfDeliveryNote g = dnote \<and> rfSKU g = mSKU m"
                using look ext none [of i g] that fs by (auto split: if_splits)
              then show "?g a x = None \<or> ?g a x = Some (evId env)" using a by (auto simp: ig)
            qed simp
            with j show ?thesis by (simp add: memDeliveryNoteFirstSeen_def)
        qed
        then show ?thesis by (cases "memDeliveryNoteFirstSeen s dnote (mSKU m)") (simp_all add: vDuplicate_def Let_def)
      qed
      ultimately show ?thesis using v v0 fs by (simp add: GoodsReceived split: option.splits)
    qed
  next
    case (TransferDispatched tid "from" to ls)
    then show ?thesis using u by (simp add: rej verdict_def vDestination_def node)
  next
    case (TransferReceived tid ls)
    have "remOf env tid s m = remOf env tid s0 m" if m: "m \<in> set ls" for m
    proof -
      have "lineHalf env tid s0 s m" using books m by (simp add: booksHalf_def TransferReceived list_all_iff)
      moreover have "fmlookup (mmFolded s0) (eventKey (evId env) (lineKey m)) = None" "smallQty (mQty m)"
        "case memInTransit s0 tid (lineKey m) of None \<Rightarrow> True | Some row \<Rightarrow> smallQty (irDispatched row) \<and> smallQty (irReceived row)"
        using arb m by (simp_all add: arbitrable_def unseen_def quantitiesOk_def TransferReceived list_all_iff)
      ultimately show ?thesis using remOf_half by blast
    qed
    then have "overPure (remOf env tid s) ls [] 0 = overPure (remOf env tid s0) ls [] 0" by (rule overPure_cong)
    then show ?thesis using u by (simp add: rej verdict_def TransferReceived)
  qed (use u in \<open>simp_all add: rej verdict_def\<close>)
qed

end
