(* ===== verification/WhAttempts.thy ===== *)
theory WhAttempts
  imports WhHalfway
begin

text \<open>
  Any number of attempts at an arbitration, broken off anywhere, and then one that is not, come to what a
  single undisturbed attempt comes to: central emits its compensations once, queues each event once and
  records one decision.
\<close>

section \<open>What a rejection emits\<close>

lemma sealable_adjustment: "sealable (adjustment agg (reverseMove m q) reason) \<longleftrightarrow> isFin q"
  by (simp add: sealable_def adjustment_def reverseMove_def)

lemma isFin_fint [simp]: "isFin (fint n)"
  by (simp add: fint_def)

lemma smallQty_fin: "smallQty x \<Longrightarrow> isFin x"
  unfolding smallQty_iff by (elim exE conjE) simp

lemma unknownPure_events:
  "list_all (\<lambda>m. isFin (mQty m)) ms \<Longrightarrow> list_all sealable es \<Longrightarrow>
   list_all sealable (fst (unknownPure it ms es x)) \<and> length (fst (unknownPure it ms es x)) \<le> length es + length ms"
proof (induction ms arbitrary: es x)
  case (Cons m ms)
  let ?es = "es @ [adjustment (mSKU m) (reverseMove m (mQty m)) ReasonUnknownSKU]"
  have "list_all sealable ?es" using Cons.prems by (simp add: sealable_adjustment)
  from Cons.IH [OF _ this, of "x + mQty m"] Cons.IH [of es x] Cons.prems show ?case by simp
qed simp

lemma overPure_events:
  "\<forall>m \<in> set ms. isFin (mQty m - rm m) \<Longrightarrow> list_all sealable es \<Longrightarrow>
   list_all sealable (fst (overPure rm ms es x)) \<and> length (fst (overPure rm ms es x)) \<le> length es + length ms"
proof (induction ms arbitrary: es x)
  case (Cons m ms)
  let ?es = "es @ [adjustment (mSKU m) (reverseMove m (mQty m - rm m)) ReasonTransferOverReceipt]"
  have "list_all sealable ?es" using Cons.prems by (simp add: sealable_adjustment)
  from Cons.IH [OF _ this, of "x + (mQty m - rm m)"] Cons.IH [of es x] Cons.prems show ?case by (simp add: Let_def)
qed simp

definition sealableFor :: "wh_payload \<Rightarrow> rejection option \<Rightarrow> bool" where
  "sealableFor p rej \<longleftrightarrow> (case rej of None \<Rightarrow> True
     | Some r \<Rightarrow> list_all sealable (rjEvents r) \<and> length (rjEvents r) \<le> length (movementsOf p) + 1)"

lemma sealableFor_orElse: "sealableFor p a \<Longrightarrow> sealableFor p b \<Longrightarrow> sealableFor p (orElse a b)"
  by (cases a) simp_all

lemma sealableFor_rejected:
  "list_all sealable (fst er) \<Longrightarrow> length (fst er) \<le> length (movementsOf p) + 1 \<Longrightarrow> sealableFor p (rejected reason er)"
  by (cases er) (simp add: rejected_def sealableFor_def)

lemma verdict_sealable:
  assumes arb: "arbitrable env p s" and vis: "anyOrder vis"
  shows "sealableFor p (verdict vis env p s)"
proof -
  have q: "\<forall>m \<in> set (movementsOf p). smallQty (mQty m)" using arb by (simp add: arbitrable_def quantitiesOk_def list_all_iff)
  then have "list_all (\<lambda>m. isFin (mQty m)) (movementsOf p)" by (auto simp: list_all_iff intro: smallQty_fin)
  from unknownPure_events [OF this, of "[]" "memItem s" 0] have u: "sealableFor p (vUnknown p s)"
    unfolding vUnknown_def by (intro sealableFor_rejected) auto
  show ?thesis
  proof (cases p)
    case (GoodsReceived rid dnote po m)
    note arb = arb [unfolded GoodsReceived]
    obtain n where n: "mQty m = fint n" "\<bar>n\<bar> < 2 ^ 50" and facts: "factsTotal s < 2 ^ 50"
      and ord: "\<And>x. memPurchaseOrder s po (mSKU m) = Some x \<Longrightarrow> \<exists>n. x = fint n \<and> \<bar>n\<bar> < 2 ^ 50"
      using arbitrable_receipt [OF arb] by metis
    have a: "\<bar>poSum s po (mSKU m)\<bar> < 2 ^ 50" using poSum_bound [of s po "mSKU m"] facts by linarith
    have d: "sealableFor p (vDuplicate env dnote m s)"
      by (simp add: vDuplicate_def Let_def sealableFor_def sealable_adjustment n GoodsReceived)
    have po: "sealableFor p (case memPurchaseOrder s po (mSKU m) of None \<Rightarrow> None
       | Some ordered \<Rightarrow> poPure [] m rid (fint (poSum s po (mSKU m))) ordered)"
    proof (cases "memPurchaseOrder s po (mSKU m)")
      case None
      then show ?thesis by (simp add: sealableFor_def)
    next
      case (Some x)
      obtain k where k: "x = fint k" "\<bar>k\<bar> < 2 ^ 50" using ord [OF Some] by blast
      show ?thesis
        by (simp add: Some k(1) poPure_small [OF n a k(2)] sealableFor_def sealable_adjustment Let_def GoodsReceived)
          (simp add: sealable_def)
    qed
    show ?thesis
      using sealableFor_orElse [OF u sealableFor_orElse [OF d po]] verdict_receipt [OF arb vis n(1)]
      by (simp add: GoodsReceived)
  next
    case (TransferDispatched tid "from" to ls)
    have "list_all (\<lambda>m. isFin (mQty m)) ls" using q by (auto simp: TransferDispatched list_all_iff intro: smallQty_fin)
    then have "sealableFor p (vDestination tid to ls s)"
      by (auto simp: vDestination_def sealableFor_def sealable_adjustment TransferDispatched list_all_iff split: prod.split)
    with sealableFor_orElse [OF u] show ?thesis by (simp add: verdict_def TransferDispatched)
  next
    case (TransferReceived tid ls)
    have "isFin (mQty m - remOf env tid s m)" if m: "m \<in> set ls" for m
    proof -
      have start: "lineHalf env tid s s m" and none: "fmlookup (mmFolded s) (eventKey (evId env) (lineKey m)) = None"
        and row: "case memInTransit s tid (lineKey m) of None \<Rightarrow> True | Some row \<Rightarrow> smallQty (irDispatched row) \<and> smallQty (irReceived row)"
        using arb m halfway_start [of env p s None]
        by (simp_all add: arbitrable_def unseen_def quantitiesOk_def TransferReceived list_all_iff halfway_def booksHalf_def)
      obtain k where k: "remOf env tid s m = fint k" "\<bar>k\<bar> < 2 ^ 51"
        using remOf_half [OF start _ none row] q m TransferReceived by auto
      obtain n where "mQty m = fint n" "\<bar>n\<bar> < 2 ^ 50" using q m by (auto simp: TransferReceived smallQty_iff)
      then have "mQty m - remOf env tid s m = fint (n - k)" using k by (simp add: fint_minus)
      then show ?thesis by simp
    qed
    from overPure_events [of ls "remOf env tid s" "[]" 0] this
    have "sealableFor p (rejected ReasonTransferOverReceipt (overPure (remOf env tid s) ls [] 0))"
      by (intro sealableFor_rejected) (auto simp: TransferReceived)
    with sealableFor_orElse [OF u] show ?thesis by (simp add: verdict_def TransferReceived)
  qed (use u in \<open>simp_all add: verdict_def\<close>)
qed

section \<open>Emitting\<close>

definition eventsOf :: "mem_store \<Rightarrow> envelope multiset" where
  "eventsOf s = mset (map snd (sorted_list_of_fmap (mmEvents s)))"

lemma eventsOf_upd:
  "fmlookup (mmEvents s) (evId e) = None \<Longrightarrow> mmEvents s' = fmupd (evId e) e (mmEvents s) \<Longrightarrow> eventsOf s' = add_mset e (eventsOf s)"
  by (simp add: eventsOf_def mset_sorted_upd)

text \<open>Central has not used a number above its counter.\<close>

definition numbersFree :: "mem_store \<Rightarrow> bool" where
  "numbersFree s \<longleftrightarrow> (\<forall>i e. fmlookup (mmEvents s) i = Some e \<longrightarrow> idNode i = CentralNode \<longrightarrow> idSeq i \<le> mmCentralN s)"

lemma next_number: "uint (n :: uint64) < 2 ^ 64 - 1 \<Longrightarrow> uint (n + 1) = uint n + 1"
  by (subst uint_add_lem [THEN iffD1]) auto

lemma emitLoop_ok:
  assumes "list_all sealable es" "sint (Wall causing) \<le> b" "sint (Wall (mmCentralHL s)) \<le> b" "sint (toMillis now) \<le> b"
    and "b + int (length es) < maxInt64" "uint (mmCentralN s) + int (length es) < 2 ^ 63" "numbersFree s"
  shows "\<exists>envs s'. emitLoop (Some c) causing now es s = (Inr envs, s') \<and> length envs = length es \<and>
    eventsOf s' = eventsOf s + mset envs \<and> sorted_wrt (\<lambda>x y. evHLC x < evHLC y) envs \<and>
    (\<forall>e \<in> set envs. mmCentralHL s < evHLC e \<and> causing < evHLC e \<and> evCausation e = Some c) \<and>
    (\<forall>i. hasEvent i s \<longrightarrow> hasEvent i s') \<and>
    s' = s\<lparr>mmEvents := mmEvents s', mmCentralN := mmCentralN s', mmCentralHL := mmCentralHL s'\<rparr>"
  using assms
proof (induction es arbitrary: s b)
  case Nil
  then show ?case by (cases s) simp
next
  case (Cons e es)
  let ?n = "mmCentralN s + 1" and ?h = "whMerge (mmCentralHL s) causing (toMillis now) CentralNode"
  obtain env where env: "newEnvelope (EventID CentralNode ?n) ?h now (Some c) e = Inr env"
    using newEnvelope_iff [of "EventID CentralNode ?n" ?h now "Some c" e] Cons.prems(1) by auto
  note fields = newEnvelope_fields [OF env]
  let ?s = "s\<lparr>mmCentralN := ?n, mmCentralHL := ?h, mmEvents := fmupd (evId env) env (mmEvents s)\<rparr>"
  have n: "uint ?n = uint (mmCentralN s) + 1" using Cons.prems(6) by (intro next_number) simp
  have "bumpable (mmCentralHL s)" "bumpable causing" using Cons.prems by (auto intro!: bumpable_early)
  note above = whMerge_above [OF this, of "toMillis now" CentralNode]
  have fresh: "fmlookup (mmEvents s) (evId env) = None"
    using Cons.prems(7) n unfolding numbersFree_def
    by (cases "fmlookup (mmEvents s) (evId env)") (auto simp: fields word_le_def)
  have free: "numbersFree ?s" using Cons.prems(7) n unfolding numbersFree_def by (auto simp: fields word_le_def)
  have wall: "sint (Wall ?h) \<le> b + 1" using Cons.prems by (intro wall_merge) simp_all
  have "\<exists>envs s'. emitLoop (Some c) causing now es ?s = (Inr envs, s') \<and> length envs = length es \<and>
    eventsOf s' = eventsOf ?s + mset envs \<and> sorted_wrt (\<lambda>x y. evHLC x < evHLC y) envs \<and>
    (\<forall>e \<in> set envs. mmCentralHL ?s < evHLC e \<and> causing < evHLC e \<and> evCausation e = Some c) \<and>
    (\<forall>i. hasEvent i ?s \<longrightarrow> hasEvent i s') \<and>
    s' = ?s\<lparr>mmEvents := mmEvents s', mmCentralN := mmCentralN s', mmCentralHL := mmCentralHL s'\<rparr>"
    by (rule Cons.IH [of "b + 1"]) (use Cons.prems wall n free in simp_all)
  then obtain envs s' where run: "emitLoop (Some c) causing now es ?s = (Inr envs, s')" and len: "length envs = length es"
    and ev: "eventsOf s' = eventsOf ?s + mset envs" and sorted: "sorted_wrt (\<lambda>x y. evHLC x < evHLC y) envs"
    and each: "\<forall>e \<in> set envs. ?h < evHLC e \<and> causing < evHLC e \<and> evCausation e = Some c" and has: "\<forall>i. hasEvent i ?s \<longrightarrow> hasEvent i s'"
    and frame: "s' = ?s\<lparr>mmEvents := mmEvents s', mmCentralN := mmCentralN s', mmCentralHL := mmCentralHL s'\<rparr>"
    by auto
  have "emitLoop (Some c) causing now (e # es) s = (Inr (env # envs), s')"
    using env run by (simp add: Let_def)
  moreover have "eventsOf s' = eventsOf s + mset (env # envs)"
    using ev eventsOf_upd [OF fresh, of ?s] by simp
  moreover have "hasEvent i s'" if "hasEvent i s" for i using has that by (simp add: hasEvent_def)
  moreover have "s' = s\<lparr>mmEvents := mmEvents s', mmCentralN := mmCentralN s', mmCentralHL := mmCentralHL s'\<rparr>"
    by (subst frame) simp
  ultimately show ?case
    using len sorted each above fields by (intro exI [of _ "env # envs"] exI [of _ s']) (auto intro: less_trans)
qed

text \<open>The compensations of an event, as central looks them up.\<close>

lemma eventLess_iff: "eventLess a b \<longleftrightarrow> (evHLC a, idSeq (evId a)) < (evHLC b, idSeq (evId b))"
  by (auto simp: eventLess_def whCompare_iff cmpCompare_def Let_def)

lemma compensations_mset: "mset (memCompensationsOf s i) = filter_mset (\<lambda>e. evCausation e = Some i) (eventsOf s)"
  by (simp add: memCompensationsOf_def sortedEvents_def eventsOf_def)

lemma compensations_cong: "mmEvents s' = mmEvents s \<Longrightarrow> memCompensationsOf s' i = memCompensationsOf s i"
  by (simp add: memCompensationsOf_def sortedEvents_def)

lemma compensations_are:
  assumes "filter_mset (\<lambda>e. evCausation e = Some i) (eventsOf s) = mset envs" "sorted_wrt (\<lambda>x y. evHLC x < evHLC y) envs"
  shows "memCompensationsOf s i = envs"
proof -
  let ?f = "\<lambda>e. (evHLC e, idSeq (evId e))"
  have "sorted (map ?f (sortedEvents s))"
    unfolding sortedEvents_def by (rule sorted_sortSlice) (simp only: eventLess_iff)
  then have sc: "sorted (map ?f (memCompensationsOf s i))" unfolding memCompensationsOf_def by (rule sorted_filter)
  have m: "mset (memCompensationsOf s i) = mset envs" by (simp add: compensations_mset assms(1))
  have se: "sorted_wrt (<) (map ?f envs)"
    using assms(2) by (auto simp: sorted_wrt_map less_prod_def' elim: sorted_wrt_mono_rel [rotated])
  then have "distinct (map ?f envs)" "sorted (map ?f envs)" by (auto simp: strict_sorted_iff)
  then have inj: "inj_on ?f (set envs)" by (simp add: distinct_map)
  have "map ?f (memCompensationsOf s i) = map ?f envs"
  proof -
    have "sort (map ?f envs) = map ?f (memCompensationsOf s i)"
      by (rule properties_for_sort) (simp_all add: sc m)
    moreover have "sort (map ?f envs) = map ?f envs" by (rule sorted_sort_id) fact
    ultimately show ?thesis by (simp only:)
  qed
  moreover have "inj_on ?f (set (memCompensationsOf s i) \<union> set envs)"
    unfolding mset_eq_setD [OF m] Un_absorb by (rule inj)
  ultimately show ?thesis by (rule map_inj_on)
qed

section \<open>Runs\<close>

text \<open>
  The states attempts leave behind, for a rejection \<open>rej\<close>: on the trunk, after the emission at an instant,
  after the queueing of the compensations, after the decision.
\<close>

definition trunkEnd :: "envelope \<Rightarrow> wh_payload \<Rightarrow> rejection option \<Rightarrow> mem_store \<Rightarrow> mem_store" where
  "trunkEnd env p rej s = steps (stepsOf (trunk env p rej)) s"

definition emittedAt :: "envelope \<Rightarrow> wh_payload \<Rightarrow> rejection \<Rightarrow> mem_store \<Rightarrow> instant \<Rightarrow> (wh_error + envelope list) \<times> mem_store" where
  "emittedAt env p r s now = memEmitCentral (rjEvents r) (Some (evId env)) now (trunkEnd env p (Some r) s)"

definition compsAt :: "envelope \<Rightarrow> wh_payload \<Rightarrow> rejection \<Rightarrow> mem_store \<Rightarrow> instant \<Rightarrow> envelope list" where
  "compsAt env p r s now = okOrNil (fst (emittedAt env p r s now))"

definition resultAt :: "envelope \<Rightarrow> wh_payload \<Rightarrow> rejection option \<Rightarrow> mem_store \<Rightarrow> instant \<Rightarrow> decision \<times> envelope list" where
  "resultAt env p rej s now = (case rej of None \<Rightarrow> (acceptedDecision (evId env), [])
     | Some r \<Rightarrow> (rejectedDecision (evId env) (rjReason r) (compsAt env p r s now), compsAt env p r s now))"

definition queuedAt :: "envelope \<Rightarrow> wh_payload \<Rightarrow> rejection option \<Rightarrow> mem_store \<Rightarrow> instant \<Rightarrow> mem_store" where
  "queuedAt env p rej s now = (case rej of None \<Rightarrow> trunkEnd env p rej s
     | Some r \<Rightarrow> memEnqueue (idNode (evId env)) (compsAt env p r s now) (snd (emittedAt env p r s now)))"

definition decidedAt :: "envelope \<Rightarrow> wh_payload \<Rightarrow> rejection option \<Rightarrow> mem_store \<Rightarrow> instant \<Rightarrow> mem_store" where
  "decidedAt env p rej s now = memRecordDecision (fst (resultAt env p rej s now)) (queuedAt env p rej s now)"

definition onTrunk :: "envelope \<Rightarrow> wh_payload \<Rightarrow> rejection option \<Rightarrow> mem_store \<Rightarrow> mem_store set" where
  "onTrunk env p rej s = visited (stepsOf (trunk env p rej)) s"

definition afterEmission :: "envelope \<Rightarrow> wh_payload \<Rightarrow> rejection option \<Rightarrow> mem_store \<Rightarrow> instant \<Rightarrow> mem_store set" where
  "afterEmission env p rej s now = (case rej of None \<Rightarrow> {} | Some r \<Rightarrow> {snd (emittedAt env p r s now)}) \<union>
     {queuedAt env p rej s now, decidedAt env p rej s now}"

lemma trunkEnd_events:
  assumes "arbitrable env p s"
  shows "halfway env p rej s (trunkEnd env p rej s) \<and> mmEvents (trunkEnd env p rej s) = fmupd (evId env) env (mmEvents s) \<and>
    eventsOf (trunkEnd env p rej s) = add_mset env (eventsOf s) \<and>
    {#e \<in># eventsOf (trunkEnd env p rej s). evCausation e = Some (evId env)#} = {#} \<and>
    memCompensationsOf (trunkEnd env p rej s) (evId env) = []"
proof -
  let ?t = "trunkEnd env p rej s" and ?i = "evId env"
  have apart: "linesApart p" and un: "unseen env p s" and self: "evCausation env \<noteq> Some ?i"
    using assms by (simp_all add: arbitrable_def)
  have half: "halfway env p rej s ?t"
    unfolding trunkEnd_def by (rule halfway_steps [OF apart _ halfway_start [OF un]]) simp
  have none: "fmlookup (mmEvents s) ?i = None" using un by (simp add: unseen_def)
  have "hasEvent ?i ?t"
    using settled_marked [OF settled_trunk [OF apart], of env rej s] by (simp add: trunkEnd_def marked_def trunk_def appendStep_def)
  then have ev: "mmEvents ?t = fmupd ?i env (mmEvents s)" using half none by (auto simp: hasEvent_def halfway_def)
  then have evs: "eventsOf ?t = add_mset env (eventsOf s)" using none by (intro eventsOf_upd) simp_all
  have "\<forall>e. e \<in># eventsOf s \<longrightarrow> evCausation e \<noteq> Some ?i"
    using un by (auto simp: unseen_def list_all_iff eventsOf_def)
  then have no: "filter_mset (\<lambda>e. evCausation e = Some ?i) (eventsOf ?t) = {#}"
    using evs self by (auto simp: filter_mset_eq_mempty_iff)
  have "mset (memCompensationsOf ?t ?i) = {#}" unfolding compensations_mset by (rule no)
  then show ?thesis using half ev evs no by simp
qed

lemma emission:
  assumes arb: "arbitrable env p s" and vis: "anyOrder vis" and rej: "verdict vis env p s = Some r" and now: "early now"
  shows "fst (emittedAt env p r s now) = Inr (compsAt env p r s now) \<and> length (compsAt env p r s now) = length (rjEvents r) \<and>
    memCompensationsOf (trunkEnd env p (Some r) s) (evId env) = [] \<and>
    memCompensationsOf (snd (emittedAt env p r s now)) (evId env) = compsAt env p r s now \<and>
    grows (trunkEnd env p (Some r) s) (snd (emittedAt env p r s now)) \<and>
    sameReferences s (snd (emittedAt env p r s now)) \<and> booksHalf env p (Some r) s (snd (emittedAt env p r s now)) \<and>
    mmDecisions (snd (emittedAt env p r s now)) = mmDecisions s \<and>
    eventsOf (snd (emittedAt env p r s now)) = add_mset env (eventsOf s) + mset (compsAt env p r s now) \<and>
    (\<forall>e \<in> set (compsAt env p r s now). evHLC env < evHLC e)"
proof -
  let ?t = "trunkEnd env p (Some r) s" and ?i = "evId env"
  have mem: "memOk s" and un: "unseen env p s" and other: "idNode ?i \<noteq> CentralNode"
    and wall: "sint (Wall (evHLC env)) < 2 ^ 62" and len: "int (length (movementsOf p)) < 2 ^ 60"
    using arb by (simp_all add: arbitrable_def)
  note te = trunkEnd_events [OF arb, of "Some r"]
  have half: "halfway env p (Some r) s ?t" and ev: "mmEvents ?t = fmupd ?i env (mmEvents s)"
    and evs: "eventsOf ?t = add_mset env (eventsOf s)" and before: "memCompensationsOf ?t ?i = []"
    and no: "filter_mset (\<lambda>e. evCausation e = Some ?i) (eventsOf ?t) = {#}" using te by blast+
  have num: "mmCentralN ?t = mmCentralN s" and hl: "mmCentralHL ?t = mmCentralHL s" and dec: "mmDecisions ?t = mmDecisions s"
    and refs: "sameReferences s ?t" and books: "booksHalf env p (Some r) s ?t"
    using half by (simp_all add: halfway_def)
  have "idSeq i \<le> mmCentralN s" if "fmlookup (mmEvents s) i = Some e" "idNode i = CentralNode" for i e
    using mem that unfolding memOk_def list_all_iff by (auto simp flip: set_sorted_list_of_fmap)
  then have free: "numbersFree ?t"
    using ev other unfolding numbersFree_def num by (auto split: if_splits)
  define causing where "causing = (case fmlookup (mmEvents ?t) ?i of None \<Rightarrow> HLC 0 0 [] | Some e \<Rightarrow> evHLC e)"
  have causing: "causing = evHLC env" by (simp add: causing_def ev)
  have cw: "sint (Wall causing) \<le> 2 ^ 62" using wall by (simp add: causing)
  have em: "emittedAt env p r s now = emitLoop (Some ?i) causing now (rjEvents r) ?t"
    by (simp add: emittedAt_def memEmitCentral_def causing_def)
  have ok: "list_all sealable (rjEvents r)" "length (rjEvents r) \<le> length (movementsOf p) + 1"
    using verdict_sealable [OF arb vis] rej by (simp_all add: sealableFor_def)
  obtain envs s' where run: "emitLoop (Some ?i) causing now (rjEvents r) ?t = (Inr envs, s')" and l: "length envs = length (rjEvents r)"
    and ms: "eventsOf s' = eventsOf ?t + mset envs" and sw: "sorted_wrt (\<lambda>x y. evHLC x < evHLC y) envs"
    and each: "\<forall>e \<in> set envs. mmCentralHL ?t < evHLC e \<and> causing < evHLC e \<and> evCausation e = Some ?i" and has: "\<forall>i. hasEvent i ?t \<longrightarrow> hasEvent i s'"
    and frame: "s' = ?t\<lparr>mmEvents := mmEvents s', mmCentralN := mmCentralN s', mmCentralHL := mmCentralHL s'\<rparr>"
    using emitLoop_ok [OF ok(1) cw _ _ _ _ free, of now ?i] mem now ok(2) len unfolding memOk_def early_def num hl by auto
  have comps: "compsAt env p r s now = envs" by (simp add: compsAt_def em run okOrNil_def)
  have "filter_mset (\<lambda>e. evCausation e = Some ?i) (eventsOf s') = mset envs"
  proof -
    have "filter (\<lambda>e. evCausation e = Some ?i) envs = envs" using each by (intro filter_True) simp
    then show ?thesis unfolding ms filter_union_mset no by (simp flip: mset_filter)
  qed
  from compensations_are [OF this sw] have after: "memCompensationsOf s' ?i = envs" .
  obtain m1 m2 m3 where s': "s' = ?t\<lparr>mmEvents := m1, mmCentralN := m2, mmCentralHL := m3\<rparr>" using frame by blast
  have "grows ?t s'" using has by (auto simp: grows_def s')
  moreover have "sameReferences s s'" using refs by (simp add: sameReferences_def s')
  moreover have "booksHalf env p (Some r) s s'" using books frame_cong [of s' ?t] by (simp add: s')
  moreover have "mmDecisions s' = mmDecisions s" using dec by (simp add: s')
  ultimately show ?thesis using before after l ms evs each by (simp add: comps em run flip: causing)
qed

text \<open>Queueing again what is queued.\<close>

lemma memEnqueue_frame:
  "mmEvents (memEnqueue n es s) = mmEvents s \<and> mmItems (memEnqueue n es s) = mmItems s \<and> mmOrders (memEnqueue n es s) = mmOrders s \<and>
   mmNodes (memEnqueue n es s) = mmNodes s \<and> mmDecisions (memEnqueue n es s) = mmDecisions s"
proof (induction es arbitrary: s)
  case (Cons e es)
  have "mmEvents (enqueueOne n s e) = mmEvents s \<and> mmItems (enqueueOne n s e) = mmItems s \<and>
      mmOrders (enqueueOne n s e) = mmOrders s \<and> mmNodes (enqueueOne n s e) = mmNodes s \<and> mmDecisions (enqueueOne n s e) = mmDecisions s"
    by (simp add: enqueueOne_def Let_def)
  with Cons [of "enqueueOne n s e"] show ?case by (simp add: memEnqueue_def)
qed (simp add: memEnqueue_def)

lemma memEnqueue_marks: "e \<in> set es \<Longrightarrow> enqueued n e (memEnqueue n es s)"
proof (induction es arbitrary: s)
  case (Cons x es)
  have step: "memEnqueue n (x # es) s = memEnqueue n es (enqueueOne n s x)" by (simp add: memEnqueue_def)
  have "enqueued n x (enqueueOne n s x)" by (simp add: enqueueOne_def enqueued_def Let_def)
  then have "enqueued n x (memEnqueue n (x # es) s)"
    using memEnqueue_grows [of "enqueueOne n s x" n es] by (simp add: step enqueued_def grows_def)
  with Cons show ?case by (auto simp: step)
qed simp

lemma memEnqueue_marked: "\<forall>e \<in> set es. enqueued n e s \<Longrightarrow> memEnqueue n es s = s"
proof (induction es)
  case (Cons e es)
  then have "enqueueOne n s e = s" by (simp add: enqueueOne_def enqueued_def Let_def)
  with Cons show ?case by (simp add: memEnqueue_def)
qed (simp add: memEnqueue_def)

lemma memEnqueue_again: "memEnqueue n es (memEnqueue n es s) = memEnqueue n es s"
  by (rule memEnqueue_marked) (simp add: memEnqueue_marks)

text \<open>The run of an attempt from a state in which the verdict is \<open>rej\<close>.\<close>

lemma arbitrate_runs:
  assumes dec: "decodePayload env = Inr p" "memDecision t (evId env) = None"
    and trunk: "\<And>j. steps (take j (stepsOf (trunk env p rej))) t \<in> R"
    and v: "verdict vis env p (steps (take 1 (stepsOf (trunk env p rej))) t) = rej"
    and tail: "runs (case rej of None \<Rightarrow> (let d = acceptedDecision (evId env) in andThen (callDo (memRecordDecision d)) (\<lambda>_. ok (d, [])))
      | Some r \<Rightarrow> compensate now (evId env) r) (steps (stepsOf (trunk env p rej)) t) R s' x"
  shows "runs (arbitrate vis now env) t R s' x"
proof -
  let ?t = "snd (memAppend [env] t)" and ?rec = "stepsOf (recordSteps env p rej)" and ?fan = "stepsOf (fanSteps env p rej)"
  have shape: "stepsOf (trunk env p rej) = (\<lambda>s. snd (memAppend [env] s)) # ?rec @ ?fan" by (simp add: trunk_def appendStep_def)
  have t0: "t \<in> R" using trunk [of 0] by simp
  have t1: "?t \<in> R" using trunk [of 1] by (simp add: shape)
  have inR: "visited (?rec @ ?fan) ?t \<subseteq> R"
  proof
    fix u assume "u \<in> visited (?rec @ ?fan) ?t"
    then obtain j where "u = steps (take j (?rec @ ?fan)) ?t" by (auto simp: visited_def)
    then have "u = steps (take (Suc j) (stepsOf (trunk env p rej))) t" by (simp add: shape)
    then show "u \<in> R" using trunk by simp
  qed
  have v': "verdict vis env p ?t = rej" using v unfolding shape by (simp del: memAppend.simps)
  have "runs (runValidators (validators vis env p)) ?t {?t} ?t rej"
    using verdict_reads [of vis env p] unfolding readsOnly_def v' [symmetric] by blast
  then have val: "runs (runValidators (validators vis env p)) ?t R ?t rej" using t1 by (blast intro: runs_mono)
  have rec: "runs (recordEvent env p rej) ?t R (steps ?rec ?t) ()"
    using performs_record [of env p rej] inR unfolding performs_def visited_append by (blast intro: runs_mono)
  have fan: "runs (fanOut env p rej) (steps ?rec ?t) R (steps ?fan (steps ?rec ?t)) ()"
    using performs_fan [of env p rej] inR unfolding performs_def visited_append by (blast intro: runs_mono)
  have fin: "steps (stepsOf (trunk env p rej)) t = steps ?fan (steps ?rec ?t)" by (simp add: shape)
  have main: "runs (andThen (callDo (\<lambda>m. snd (memAppend [env] m))) (\<lambda>_. case decodePayload env of Inl e \<Rightarrow> failWith e
      | Inr p \<Rightarrow>
        andThen (runValidators (validators vis env p)) (\<lambda>rej.
        andThen (recordEvent env p rej) (\<lambda>_.
        andThen (fanOut env p rej) (\<lambda>_. case rej of
          None \<Rightarrow> (let d = acceptedDecision (evId env) in andThen (callDo (memRecordDecision d)) (\<lambda>_. ok (d, [])))
        | Some r \<Rightarrow> compensate now (evId env) r))))) t R s' x"
    unfolding dec(1) sum.case
    by (rule runs_then [OF runs_do], rule t0, rule t1, rule runs_then [OF val], rule runs_then [OF rec], rule runs_then [OF fan])
      (use tail fin in simp)
  show ?thesis
    unfolding arbitrate_def
    by (rule runs_then [OF runs_read], rule t0, unfold dec(2) option.case, rule main)
qed

lemma compensate_runs:
  assumes "memCompensationsOf t i = [] \<and> memEmitCentral (rjEvents r) (Some i) now t = (Inr cs, t') \<or>
      memCompensationsOf t i = cs \<and> cs \<noteq> [] \<and> length cs = length (rjEvents r) \<and> t' = t"
    and "t \<in> R" "t' \<in> R" "memEnqueue (idNode i) cs t' \<in> R"
    and "memRecordDecision (rejectedDecision i (rjReason r) cs) (memEnqueue (idNode i) cs t') \<in> R"
  shows "runs (compensate now i r) t R (memRecordDecision (rejectedDecision i (rjReason r) cs) (memEnqueue (idNode i) cs t'))
    (rejectedDecision i (rjReason r) cs, cs)"
proof -
  have read: "runs (compensationsOf i) t R t (memCompensationsOf t i)"
    unfolding compensationsOf_def using assms(2) by (rule runs_read)
  have emit: "runs (if memCompensationsOf t i = [] then call (memEmitCentral (rjEvents r) (Some i) now)
       else if length (memCompensationsOf t i) \<noteq> length (rjEvents r) then failWith (IncompleteCompensations i)
       else ok (memCompensationsOf t i)) t R t' cs"
    using assms(1-3) by (auto intro: runs_call)
  let ?q = "memEnqueue (idNode i) cs t'" and ?d = "rejectedDecision i (rjReason r) cs"
  have "runs (andThen (callDo (memRecordDecision ?d)) (\<lambda>_. ok (?d, cs))) ?q R (memRecordDecision ?d ?q) (?d, cs)"
    by (rule runs_then [OF runs_do runs_ok]) (use assms in simp_all)
  then have "runs (andThen (callDo (memEnqueue (idNode i) cs)) (\<lambda>_. let d = ?d in andThen (callDo (memRecordDecision d)) (\<lambda>_. ok (d, cs))))
      t' R (memRecordDecision ?d ?q) (?d, cs)"
    unfolding Let_def by (rule runs_then [OF runs_do, rotated 2]) (use assms in simp_all)
  then show ?thesis
    unfolding compensate_def by (intro runs_then [OF read] runs_then [OF emit])
qed

section \<open>Attempts\<close>

text \<open>Where the first verdict is \<open>rej\<close>.\<close>

definition arbitrates :: "envelope \<Rightarrow> wh_payload \<Rightarrow> rejection option \<Rightarrow> mem_store \<Rightarrow> bool" where
  "arbitrates env p rej s \<longleftrightarrow> arbitrable env p s \<and> verdict (\<lambda>xs. xs) env p s = rej"

lemma anyOrder_id: "anyOrder (\<lambda>xs. xs)"
  by (simp add: anyOrder_def)

lemma halfway_verdict:
  "arbitrates env p rej s \<Longrightarrow> anyOrder vis \<Longrightarrow> sameReferences s t \<Longrightarrow> booksHalf env p rej s t \<Longrightarrow> verdict vis env p t = rej"
  unfolding arbitrates_def using verdict_half [of env p s "\<lambda>xs. xs" vis rej t] anyOrder_id by blast

lemma trunk_state:
  assumes "arbitrates env p rej s" "t \<in> onTrunk env p rej s"
  shows "halfway env p rej s t \<and> steps (stepsOf (trunk env p rej)) t = trunkEnd env p rej s \<and>
    (\<forall>j. steps (take j (stepsOf (trunk env p rej))) t \<in> onTrunk env p rej s)"
proof -
  let ?G = "stepsOf (trunk env p rej)"
  have apart: "linesApart p" and un: "unseen env p s" using assms(1) by (simp_all add: arbitrates_def arbitrable_def)
  obtain k where t: "t = steps (take k ?G) s" using assms(2) by (auto simp: onTrunk_def visited_def)
  note again = settled_again [OF settled_trunk [OF apart], of _ env rej k s, folded t]
  have "halfway env p rej s t"
    unfolding t by (rule halfway_steps [OF apart _ halfway_start [OF un]]) (rule set_take_subset)
  moreover have "steps ?G t = trunkEnd env p rej s" using again [of "length ?G"] by (simp add: trunkEnd_def)
  moreover have "steps (take j ?G) t \<in> onTrunk env p rej s" for j
  proof -
    have "take m ?G = take (min m (length ?G)) ?G" for m by (simp add: min_def)
    from this [of "max j k"] show ?thesis unfolding again onTrunk_def visited_def by (intro image_eqI) auto
  qed
  ultimately show ?thesis by blast
qed

lemma trunkEnd_marked: "arbitrates env p rej s \<Longrightarrow> marked (trunk env p rej) (trunkEnd env p rej s)"
  unfolding trunkEnd_def by (rule settled_marked [OF settled_trunk]) (simp add: arbitrates_def arbitrable_def)

lemma trunkEnd_onTrunk: "trunkEnd env p rej s \<in> onTrunk env p rej s"
  unfolding trunkEnd_def onTrunk_def visited_def by (rule image_eqI [of _ _ "length (stepsOf (trunk env p rej))"]) simp_all

text \<open>What is true after the trunk: the trunk is done, the verdict stands.\<close>

definition pastTrunk :: "envelope \<Rightarrow> wh_payload \<Rightarrow> rejection option \<Rightarrow> mem_store \<Rightarrow> mem_store \<Rightarrow> bool" where
  "pastTrunk env p rej s t \<longleftrightarrow> marked (trunk env p rej) t \<and> sameReferences s t \<and> booksHalf env p rej s t \<and> memDecision t (evId env) = None"

lemma pastTrunk_end:
  assumes "arbitrates env p rej s"
  shows "pastTrunk env p rej s (trunkEnd env p rej s)"
  using trunk_state [OF assms trunkEnd_onTrunk] trunkEnd_marked [OF assms] assms
  by (simp add: pastTrunk_def halfway_def arbitrates_def arbitrable_def unseen_def memDecision_def)

lemma pastTrunk_grows:
  assumes "pastTrunk env p rej s t" "grows t t'" "sameReferences s t'" "mmDecisions t' = mmDecisions t"
  shows "pastTrunk env p rej s t'"
proof -
  have "marked (trunk env p rej) t'"
    unfolding marked_def
  proof
    fix F
    assume F: "F \<in> snd ` set (trunk env p rej)"
    then have "F t" using assms(1) unfolding pastTrunk_def marked_def by blast
    with F show "F t'" by (rule trunk_grows [OF _ assms(2)])
  qed
  moreover have "booksHalf env p rej s t'"
    using assms(1) frame_cong [of t' t] assms(2) by (simp add: pastTrunk_def grows_def)
  ultimately show ?thesis using assms by (simp add: pastTrunk_def memDecision_def)
qed

lemma past_runs:
  assumes a: "arbitrates env p rej s" "anyOrder vis" and t: "pastTrunk env p rej s t" "t \<in> R"
    and tail: "runs (case rej of None \<Rightarrow> (let d = acceptedDecision (evId env) in andThen (callDo (memRecordDecision d)) (\<lambda>_. ok (d, [])))
      | Some r \<Rightarrow> compensate now (evId env) r) t R s' x"
  shows "runs (arbitrate vis now env) t R s' x"
proof -
  have same: "steps (take j (stepsOf (trunk env p rej))) t = t" for j
    using marked_done [OF settled_trunk] a(1) t(1) by (simp add: arbitrates_def arbitrable_def pastTrunk_def)
  from this [of "length (trunk env p rej)"] have all: "steps (stepsOf (trunk env p rej)) t = t" by simp
  show ?thesis
  proof (rule arbitrate_runs [where p = p and rej = rej])
    show "decodePayload env = Inr p" using a(1) by (simp add: arbitrates_def arbitrable_def)
    show "memDecision t (evId env) = None" using t(1) by (simp add: pastTrunk_def)
    show "steps (take j (stepsOf (trunk env p rej))) t \<in> R" for j unfolding same by (rule t(2))
    show "verdict vis env p (steps (take 1 (stepsOf (trunk env p rej))) t) = rej"
      unfolding same using t(1) by (intro halfway_verdict [OF a]) (simp_all add: pastTrunk_def)
  qed (use tail in \<open>simp only: all\<close>)
qed

lemma resultAt_event [simp]: "dcEvent (fst (resultAt env p rej s n)) = evId env"
  by (simp add: resultAt_def acceptedDecision_def rejectedDecision_def split: option.split)

lemma queued_compensations:
  assumes "arbitrates env p rej s" "early n"
  shows "memCompensationsOf (queuedAt env p rej s n) (evId env) = snd (resultAt env p rej s n)"
proof (cases rej)
  case None
  then show ?thesis using trunkEnd_events [of env p s rej] assms(1) by (simp add: arbitrates_def resultAt_def queuedAt_def)
next
  case (Some r)
  then show ?thesis
    using emission [OF _ anyOrder_id, of env p s r n] assms
      compensations_cong [of "queuedAt env p rej s n" "snd (emittedAt env p r s n)" "evId env"]
    by (simp add: arbitrates_def resultAt_def queuedAt_def memEnqueue_frame)
qed

lemma decided_runs:
  assumes "arbitrates env p rej s" "early n" "decidedAt env p rej s n \<in> R"
  shows "runs (arbitrate vis now env) (decidedAt env p rej s n) R (decidedAt env p rej s n) (resultAt env p rej s n)"
proof -
  let ?t = "decidedAt env p rej s n" and ?d = "resultAt env p rej s n"
  have dec: "memDecision ?t (evId env) = Some (fst ?d)"
    by (simp add: decidedAt_def memRecordDecision_def memDecision_def)
  have comps: "memCompensationsOf ?t (evId env) = snd ?d"
    using queued_compensations [OF assms(1,2)] compensations_cong [of ?t "queuedAt env p rej s n"]
    by (simp add: decidedAt_def memRecordDecision_def)
  have "runs (andThen (compensationsOf (evId env)) (\<lambda>comps. ok (fst ?d, comps))) ?t R ?t (fst ?d, memCompensationsOf ?t (evId env))"
    unfolding compensationsOf_def by (rule runs_then [OF runs_read runs_ok]) (rule assms(3))
  then show ?thesis
    unfolding arbitrate_def comps prod.collapse
    by (intro runs_then [OF runs_read]) (use assms(3) in \<open>simp_all add: dec\<close>)
qed

lemma pastTrunk_after:
  assumes "arbitrates env p (Some r) s" "early n"
  shows "pastTrunk env p (Some r) s (snd (emittedAt env p r s n))" "pastTrunk env p (Some r) s (queuedAt env p (Some r) s n)"
proof -
  note em = emission [OF _ anyOrder_id, of env p s r n]
  have arb: "arbitrable env p s" "verdict (\<lambda>xs. xs) env p s = Some r" using assms(1) by (simp_all add: arbitrates_def)
  note em = em [OF arb assms(2)]
  show e: "pastTrunk env p (Some r) s (snd (emittedAt env p r s n))"
    using em trunkEnd_events [OF arb(1), of "Some r"]
    by (intro pastTrunk_grows [OF pastTrunk_end [OF assms(1)]]) (simp_all add: halfway_def)
  show "pastTrunk env p (Some r) s (queuedAt env p (Some r) s n)"
    unfolding queuedAt_def option.case
    by (rule pastTrunk_grows [OF e memEnqueue_grows])
      (use em in \<open>simp_all add: sameReferences_def memEnqueue_frame\<close>)
qed

lemma after_runs:
  assumes a: "arbitrates env p rej s" "anyOrder vis" and n: "early n" and t: "t \<in> afterEmission env p rej s n"
  shows "runs (arbitrate vis now env) t (afterEmission env p rej s n) (decidedAt env p rej s n) (resultAt env p rej s n)"
proof (cases "t = decidedAt env p rej s n")
  case True
  then show ?thesis using decided_runs [OF a(1) n] by (simp add: afterEmission_def)
next
  case other: False
  let ?R = "afterEmission env p rej s n"
  show ?thesis
  proof (cases rej)
    case None
    then have "t = trunkEnd env p rej s" using t other by (simp add: afterEmission_def queuedAt_def)
    then have "pastTrunk env p rej s t" using pastTrunk_end [OF a(1)] by simp
    then show ?thesis
    proof (rule past_runs [OF a _ t])
      show "runs (case rej of None \<Rightarrow> (let d = acceptedDecision (evId env) in andThen (callDo (memRecordDecision d)) (\<lambda>_. ok (d, [])))
          | Some r \<Rightarrow> compensate now (evId env) r) t ?R (decidedAt env p rej s n) (resultAt env p rej s n)"
        unfolding None option.case Let_def decidedAt_def resultAt_def fst_conv queuedAt_def
        by (rule runs_then [OF runs_do])
          (use t \<open>t = _\<close> in \<open>auto simp: None afterEmission_def decidedAt_def resultAt_def queuedAt_def\<close>)
    qed
  next
    case (Some r)
    let ?e = "snd (emittedAt env p r s n)" and ?cs = "compsAt env p r s n"
    have arb: "arbitrable env p s" "verdict (\<lambda>xs. xs) env p s = Some r" using a(1) by (simp_all add: arbitrates_def Some)
    note em = emission [OF arb(1) anyOrder_id arb(2) n]
    have te: "t = ?e \<or> t = memEnqueue (idNode (evId env)) ?cs ?e" using t other by (auto simp: Some afterEmission_def queuedAt_def)
    then have past: "pastTrunk env p rej s t" using pastTrunk_after [OF a(1) [unfolded Some] n] by (auto simp: Some queuedAt_def)
    have events: "mmEvents t = mmEvents ?e" using te by (auto simp: memEnqueue_frame)
    have comps: "memCompensationsOf t (evId env) = ?cs" using em compensations_cong [OF events] by simp
    have queue: "memEnqueue (idNode (evId env)) ?cs t = memEnqueue (idNode (evId env)) ?cs ?e"
      using te by (auto simp: memEnqueue_again)
    from past show ?thesis
    proof (rule past_runs [OF a _ t])
      have cases: "memCompensationsOf t (evId env) = [] \<and> memEmitCentral (rjEvents r) (Some (evId env)) now t = (Inr ?cs, t) \<or>
          memCompensationsOf t (evId env) = ?cs \<and> ?cs \<noteq> [] \<and> length ?cs = length (rjEvents r) \<and> t = t"
      proof (cases "?cs = []")
        case True
        then have "rjEvents r = []" using em by simp
        then show ?thesis using True comps by (simp add: memEmitCentral_def)
      qed (use comps em in simp)
      have "runs (compensate now (evId env) r) t ?R
          (memRecordDecision (rejectedDecision (evId env) (rjReason r) ?cs) (memEnqueue (idNode (evId env)) ?cs t))
          (rejectedDecision (evId env) (rjReason r) ?cs, ?cs)"
        by (rule compensate_runs [OF cases t t])
          (unfold queue, simp_all add: Some afterEmission_def queuedAt_def decidedAt_def resultAt_def)
      then show "runs (case rej of None \<Rightarrow> (let d = acceptedDecision (evId env) in andThen (callDo (memRecordDecision d)) (\<lambda>_. ok (d, [])))
          | Some r \<Rightarrow> compensate now (evId env) r) t ?R (decidedAt env p rej s n) (resultAt env p rej s n)"
        unfolding queue by (simp add: Some queuedAt_def decidedAt_def resultAt_def)
    qed
  qed
qed

lemma trunk_runs:
  assumes a: "arbitrates env p rej s" "anyOrder vis" and now: "early now" and t: "t \<in> onTrunk env p rej s"
  shows "runs (arbitrate vis now env) t (onTrunk env p rej s \<union> afterEmission env p rej s now) (decidedAt env p rej s now)
    (resultAt env p rej s now)"
proof (rule arbitrate_runs [where p = p and rej = rej])
  let ?R = "onTrunk env p rej s \<union> afterEmission env p rej s now" and ?e = "trunkEnd env p rej s"
  note tr = trunk_state [OF a(1) t]
  have arb: "arbitrable env p s" using a(1) by (simp add: arbitrates_def)
  show "decodePayload env = Inr p" using arb by (simp add: arbitrable_def)
  show "memDecision t (evId env) = None"
    using tr arb by (simp add: halfway_def memDecision_def arbitrable_def unseen_def)
  show "steps (take j (stepsOf (trunk env p rej))) t \<in> ?R" for j using tr by blast
  have "steps (take 1 (stepsOf (trunk env p rej))) t \<in> onTrunk env p rej s" using tr by blast
  from trunk_state [OF a(1) this] show "verdict vis env p (steps (take 1 (stepsOf (trunk env p rej))) t) = rej"
    by (intro halfway_verdict [OF a]) (simp_all add: halfway_def)
  have e: "?e \<in> ?R" using trunkEnd_onTrunk by blast
  show "runs (case rej of None \<Rightarrow> (let d = acceptedDecision (evId env) in andThen (callDo (memRecordDecision d)) (\<lambda>_. ok (d, [])))
      | Some r \<Rightarrow> compensate now (evId env) r) (steps (stepsOf (trunk env p rej)) t) ?R (decidedAt env p rej s now) (resultAt env p rej s now)"
  proof (cases rej)
    case None
    have "runs (andThen (callDo (memRecordDecision (acceptedDecision (evId env)))) (\<lambda>_. ok (acceptedDecision (evId env), []))) ?e ?R
        (memRecordDecision (acceptedDecision (evId env)) ?e) (acceptedDecision (evId env), [])"
      by (rule runs_then [OF runs_do runs_ok], rule e) (simp add: None afterEmission_def decidedAt_def resultAt_def queuedAt_def)
    then show ?thesis using tr by (simp add: None Let_def decidedAt_def resultAt_def queuedAt_def)
  next
    case (Some r)
    have rej: "verdict (\<lambda>xs. xs) env p s = Some r" using a(1) by (simp add: arbitrates_def Some)
    note em = emission [OF arb anyOrder_id rej now]
    have "memCompensationsOf ?e (evId env) = [] \<and> memEmitCentral (rjEvents r) (Some (evId env)) now ?e =
        (Inr (compsAt env p r s now), snd (emittedAt env p r s now))"
      using em by (cases "emittedAt env p r s now") (simp add: Some emittedAt_def)
    then have "runs (compensate now (evId env) r) ?e ?R (decidedAt env p rej s now) (resultAt env p rej s now)"
      unfolding decidedAt_def resultAt_def queuedAt_def Some option.case fst_conv
      by (intro compensate_runs disjI1) (use e in \<open>simp_all add: Some afterEmission_def decidedAt_def resultAt_def queuedAt_def\<close>)
    then show ?thesis using tr by (simp add: Some)
  qed
qed

section \<open>Any number of them\<close>

type_synonym attempt = "visit_order \<times> instant \<times> call_fault list"

definition attempts :: "envelope \<Rightarrow> attempt list \<Rightarrow> mem_store \<Rightarrow> mem_store" where
  "attempts env as s = foldl (\<lambda>s (vis, now, fs). snd (snd (arbitrate vis now env fs s))) s as"

definition sane :: "attempt \<Rightarrow> bool" where
  "sane = (\<lambda>(vis, now, fs). anyOrder vis \<and> early now)"

definition instants :: "attempt list \<Rightarrow> instant set" where
  "instants as = (\<lambda>(vis, now, fs). now) ` set as"

lemma instants_early: "list_all sane as \<Longrightarrow> \<forall>n \<in> instants as. early n"
  by (auto simp: instants_def sane_def list_all_iff)

lemma runs_end:
  assumes "runs p s R s' x" "s' \<in> R"
  shows "snd (snd (p fs s)) \<in> R"
proof (cases "p fs s")
  case (fields res fs' t)
  then show ?thesis using runsD(1,2) [OF assms(1)] assms(2) by (cases res) auto
qed

definition leftBy :: "envelope \<Rightarrow> wh_payload \<Rightarrow> rejection option \<Rightarrow> mem_store \<Rightarrow> instant set \<Rightarrow> mem_store set" where
  "leftBy env p rej s ns = onTrunk env p rej s \<union> (\<Union>n \<in> ns. afterEmission env p rej s n)"

lemma attempt_runs:
  assumes a: "arbitrates env p rej s" "anyOrder vis" and now: "early now" and ns: "\<forall>n \<in> ns. early n" and t: "t \<in> leftBy env p rej s ns"
  obtains n where "n \<in> insert now ns"
    "runs (arbitrate vis now env) t (leftBy env p rej s (insert now ns)) (decidedAt env p rej s n) (resultAt env p rej s n)"
proof (cases "t \<in> onTrunk env p rej s")
  case True
  have "runs (arbitrate vis now env) t (leftBy env p rej s (insert now ns)) (decidedAt env p rej s now) (resultAt env p rej s now)"
    by (rule runs_mono [OF trunk_runs [OF a now True]]) (auto simp: leftBy_def)
  then show thesis by (intro that [of now]) simp
next
  case False
  then obtain n where n: "n \<in> ns" "t \<in> afterEmission env p rej s n" using t by (auto simp: leftBy_def)
  then have "early n" using ns by blast
  have "runs (arbitrate vis now env) t (leftBy env p rej s (insert now ns)) (decidedAt env p rej s n) (resultAt env p rej s n)"
    by (rule runs_mono [OF after_runs [OF a \<open>early n\<close> n(2)]]) (use n(1) in \<open>auto simp: leftBy_def\<close>)
  then show thesis using n(1) by (intro that [of n]) simp
qed

lemma decided_left: "n \<in> ns \<Longrightarrow> decidedAt env p rej s n \<in> leftBy env p rej s ns"
  by (auto simp: leftBy_def afterEmission_def)

lemma attempts_left:
  assumes a: "arbitrates env p rej s" and sane: "list_all sane as"
  shows "attempts env as s \<in> leftBy env p rej s (instants as)"
  using sane
proof (induction as rule: rev_induct)
  case Nil
  have "s \<in> onTrunk env p rej s" by (simp add: onTrunk_def visited_self)
  then show ?case by (simp add: attempts_def leftBy_def)
next
  case (snoc x as)
  obtain vis now fs where x: "x = (vis, now, fs)" by (cases x)
  have early: "\<forall>n \<in> instants as. early n" using snoc.prems by (intro instants_early) simp
  have v: "anyOrder vis" "early now" using snoc.prems by (simp_all add: x sane_def)
  have "attempts env as s \<in> leftBy env p rej s (instants as)" using snoc by simp
  from attempt_runs [OF a v early this] obtain n where n: "n \<in> insert now (instants as)"
    and run: "runs (arbitrate vis now env) (attempts env as s) (leftBy env p rej s (insert now (instants as)))
      (decidedAt env p rej s n) (resultAt env p rej s n)" .
  have "insert now (instants as) = instants (as @ [x])" by (simp add: instants_def x)
  moreover have "attempts env (as @ [x]) s = snd (snd (arbitrate vis now env fs (attempts env as s)))"
    by (simp add: attempts_def x)
  ultimately show ?case using runs_end [OF run decided_left [OF n], of fs] by simp
qed


text \<open>An order of ten with eight received, and five more arriving elsewhere.\<close>

definition demoOrdered :: mem_store where
  "demoOrdered = memRecordReceipt \<lparr>rfEvent = EventID ''b'' 1, rfNode = ''b'', rfPORef = ''po'', rfDeliveryNote = ''n1'',
     rfSKU = ''w'', rfQtyBase = fint 8\<rparr> (memUpsertPurchaseOrder ''po'' ''w'' (fint 10) (memUpsertItem demoItem newMemory))"

definition demoArrived :: wh_payload where
  "demoArrived = GoodsReceived ''r'' ''n2'' ''po'' (demoMove ''external'' ''dock'' 5)"

definition envOf :: "wh_payload \<Rightarrow> envelope" where
  "envOf p = projr (newEnvelope (EventID ''a'' 1) (HLC 5 0 ''a'') 5000000 None
     \<lparr>weType = payloadType p, weAggregate = ''r'', wePayload = p\<rparr>)"

text \<open>An attempt that learns nothing of its emission, and one that cannot append.\<close>

definition demoTries :: "attempt list" where
  "demoTries = [(\<lambda>xs. xs, 7000000, replicate 9 CallOk @ [CallLost]), (\<lambda>xs. xs, 9000000, [CallOk, CallFails])]"

lemma demo_arbitrable: "arbitrable (envOf demoArrived) demoArrived demoOrdered"
  by code_simp

lemma demo_sane: "list_all sane (demoTries @ [(\<lambda>xs. xs, 11000000, [])])"
proof -
  have "early 7000000" "early 9000000" "early 11000000" by code_simp+
  then show ?thesis by (simp add: demoTries_def sane_def anyOrder_id)
qed


end
