(* ===== verification/WhBooks.thy ===== *)
theory WhBooks
  imports WhAttempts
begin

text \<open>
  What arbitration makes of central's books: the outcome of one event, purchase orders and transfers that
  are never over-received, whatever fails on the way, and what fractions do to a retry.
\<close>

section \<open>The outcome of one event\<close>

lemma eventsOf_cong: "mmEvents s' = mmEvents s \<Longrightarrow> eventsOf s' = eventsOf s"
  by (simp add: eventsOf_def)

lemma decided_outcome:
  assumes "arbitrates env p rej s" "early now"
  shows "memDecision (decidedAt env p rej s now) (evId env) = Some (fst (resultAt env p rej s now)) \<and>
    memCompensationsOf (decidedAt env p rej s now) (evId env) = snd (resultAt env p rej s now) \<and>
    eventsOf (decidedAt env p rej s now) = add_mset env (eventsOf s) + mset (snd (resultAt env p rej s now)) \<and>
    (\<forall>e \<in> set (snd (resultAt env p rej s now)). evHLC env < evHLC e)"
proof -
  let ?t = "decidedAt env p rej s now"
  have dec: "memDecision ?t (evId env) = Some (fst (resultAt env p rej s now))"
    by (simp add: decidedAt_def memRecordDecision_def memDecision_def)
  have ev: "mmEvents ?t = mmEvents (queuedAt env p rej s now)" by (simp add: decidedAt_def memRecordDecision_def)
  note comps = queued_compensations [OF assms] compensations_cong [OF ev, of "evId env"]
  have arb: "arbitrable env p s" using assms(1) by (simp add: arbitrates_def)
  show ?thesis
  proof (cases rej)
    case None
    then show ?thesis
      using dec comps trunkEnd_events [OF arb, of rej] eventsOf_cong [OF ev] by (simp add: resultAt_def queuedAt_def)
  next
    case (Some r)
    have "verdict (\<lambda>xs. xs) env p s = Some r" using assms(1) by (simp add: arbitrates_def Some)
    note em = emission [OF arb anyOrder_id this assms(2)]
    have "mmEvents (queuedAt env p rej s now) = mmEvents (snd (emittedAt env p r s now))"
      by (simp add: Some queuedAt_def memEnqueue_frame)
    with em dec comps eventsOf_cong [OF ev] eventsOf_cong [OF this] show ?thesis by (simp add: Some resultAt_def)
  qed
qed

text \<open>
  C23. An arbitration that is not disturbed succeeds: the log gains the event and its compensations and
  nothing else, each compensation sorts after its cause and is found by it, an accepted event has none,
  and the recorded decision names the first. From then on no attempt at the event, failed or not, changes
  anything, and those that succeed return the same.
\<close>

theorem wh_arbitrate_outcome:
  assumes "arbitrable env p s" "anyOrder vis" "early now"
  shows "\<exists>d comps s'. arbitrate vis now env [] s = (Inr (d, comps), [], s') \<and>
    eventsOf s' = add_mset env (eventsOf s) + mset comps \<and> memCompensationsOf s' (evId env) = comps \<and>
    (\<forall>e \<in> set comps. evHLC env < evHLC e) \<and> (dcVerdict d = VerdictAccepted \<longrightarrow> comps = []) \<and>
    dcCompensating d = (case comps of [] \<Rightarrow> None | c # _ \<Rightarrow> Some (evId c)) \<and> memDecision s' (evId env) = Some d \<and>
    (\<forall>vis' now' fs. snd (snd (arbitrate vis' now' env fs s')) = s' \<and>
       fst (arbitrate vis' now' env fs s') \<in> {Inr (d, comps), Inl StoreFault})"
proof -
  define rej where "rej = verdict (\<lambda>xs. xs) env p s"
  have a: "arbitrates env p rej s" using assms(1) by (simp add: arbitrates_def rej_def)
  let ?t = "decidedAt env p rej s now" and ?d = "resultAt env p rej s now"
  have "s \<in> onTrunk env p rej s" by (simp add: onTrunk_def visited_self)
  then have run: "arbitrate vis now env [] s = (Inr (fst ?d, snd ?d), [], ?t)"
    using runsD(3) [OF trunk_runs [OF a assms(2,3)]] by simp
  note out = decided_outcome [OF a assms(3)]
  have acc: "dcVerdict (fst ?d) = VerdictAccepted \<longrightarrow> snd ?d = []"
    by (simp add: resultAt_def rejectedDecision_def split: option.splits)
  have named: "dcCompensating (fst ?d) = (case snd ?d of [] \<Rightarrow> None | c # _ \<Rightarrow> Some (evId c))"
    by (simp add: resultAt_def acceptedDecision_def rejectedDecision_def split: option.split)
  have again: "snd (snd (arbitrate vis' now' env fs ?t)) = ?t \<and>
      fst (arbitrate vis' now' env fs ?t) \<in> {Inr (fst ?d, snd ?d), Inl StoreFault}" for vis' now' fs
  proof -
    have r: "runs (arbitrate vis' now' env) ?t {?t} ?t ?d" by (rule decided_runs [OF a assms(3)]) simp
    have "fst (arbitrate vis' now' env fs ?t) \<in> {Inr ?d, Inl StoreFault}"
      using out by (auto simp: arbitrate_def andThen_def callRead_def call_def compensationsOf_def ok_def
          split: list.split call_fault.split)
    then show ?thesis using runs_end [OF r, of fs] by simp
  qed
  show ?thesis
    by (intro exI [of _ "fst ?d"] exI [of _ "snd ?d"] exI [of _ ?t] conjI run acc named allI again [THEN conjunct1] again [THEN conjunct2])
      (use out in simp_all)
qed

section \<open>Purchase orders\<close>

lemma leftBy_cases:
  assumes a: "arbitrates env p rej s" and ns: "\<forall>n \<in> ns. early n" and t: "t \<in> leftBy env p rej s ns"
  shows "sameReferences s t \<and> booksHalf env p rej s t \<and> (\<exists>u \<in> onTrunk env p rej s. mmTransit t = mmTransit u \<and> mmReceipts t = mmReceipts u)"
proof -
  have arb: "arbitrable env p s" using a by (simp add: arbitrates_def)
  have trunk: "sameReferences s u \<and> booksHalf env p rej s u" if "u \<in> onTrunk env p rej s" for u
    using trunk_state [OF a that] by (simp add: halfway_def)
  have dec: "sameReferences s (memRecordDecision d u) \<and> booksHalf env p rej s (memRecordDecision d u)"
    if "sameReferences s u \<and> booksHalf env p rej s u" for d u
    using that frame_cong [of "memRecordDecision d u" u] by (simp add: memRecordDecision_def sameReferences_def)
  have enq: "sameReferences s (memEnqueue n cs u) \<and> booksHalf env p rej s (memEnqueue n cs u)"
    if "sameReferences s u \<and> booksHalf env p rej s u" for n cs u
    using that frame_cong [of "memEnqueue n cs u" u] memEnqueue_grows [of u n cs] memEnqueue_frame [of n cs u]
    by (simp add: grows_def sameReferences_def)
  have decT: "mmTransit (memRecordDecision d u) = mmTransit u \<and> mmReceipts (memRecordDecision d u) = mmReceipts u" for d u
    by (simp add: memRecordDecision_def)
  have transit: "mmTransit (memEnqueue n cs u) = mmTransit u \<and> mmReceipts (memEnqueue n cs u) = mmReceipts u" for n cs u using memEnqueue_grows [of u n cs] by (simp add: grows_def)
  show ?thesis
  proof (cases "t \<in> onTrunk env p rej s")
    case True
    then show ?thesis using trunk by blast
  next
    case False
    then obtain n where n: "early n" "t \<in> afterEmission env p rej s n" using t ns by (auto simp: leftBy_def)
    note fin = trunk [OF trunkEnd_onTrunk]
    show ?thesis
    proof (cases rej)
      case None
      then have "t = trunkEnd env p rej s \<or> t = memRecordDecision (fst (resultAt env p rej s n)) (trunkEnd env p rej s)"
        using n by (simp add: afterEmission_def queuedAt_def decidedAt_def)
      then show ?thesis using fin dec [OF fin, of "fst (resultAt env p rej s n)"] trunkEnd_onTrunk [of env p rej s] decT by auto
    next
      case (Some r)
      have "verdict (\<lambda>xs. xs) env p s = Some r" using a by (simp add: arbitrates_def Some)
      note em = emission [OF arb anyOrder_id this n(1)]
      have e: "sameReferences s (snd (emittedAt env p r s n)) \<and> booksHalf env p rej s (snd (emittedAt env p r s n))"
        using em by (simp add: Some)
      have tr: "mmTransit (snd (emittedAt env p r s n)) = mmTransit (trunkEnd env p rej s) \<and>
          mmReceipts (snd (emittedAt env p r s n)) = mmReceipts (trunkEnd env p rej s)"
        using em by (simp add: Some grows_def)
      have "t \<in> {snd (emittedAt env p r s n), queuedAt env p rej s n, decidedAt env p rej s n}"
        using n by (auto simp: afterEmission_def Some)
      then show ?thesis
        using e enq [OF e] dec [OF enq [OF e]] tr transit decT trunkEnd_onTrunk [of env p rej s]
        by (auto simp: Some queuedAt_def decidedAt_def)
    qed
  qed
qed

lemma trunk_keeps:
  assumes "\<And>h u. h \<in> set (stepsOf (trunk env p rej)) \<Longrightarrow> P u \<Longrightarrow> P (h u)" "P s" "u \<in> onTrunk env p rej s"
  shows "P u"
proof -
  obtain k where u: "u = steps (take k (stepsOf (trunk env p rej))) s" using assms(3) by (auto simp: onTrunk_def visited_def)
  show ?thesis unfolding u by (rule steps_keep [where F = P]) (use assms(1,2) in \<open>auto dest: in_set_takeD\<close>)
qed

lemma trunk_receipts:
  assumes "\<forall>rid dnote po m. p \<noteq> GoodsReceived rid dnote po m" "h \<in> set (stepsOf (trunk env p rej))"
  shows "mmReceipts (h u) = mmReceipts u"
  using assms
  by (cases p) (auto simp: trunk_def recordSteps_def fanSteps_def appendStep_def memAppend_one dispatchStep_def failStep_def receivedStep_def
      enqueueStep_def fanStep_def memEnqueue_one memRecordDispatch_def memFailTransfer_def memAddReceived_def Let_def
      split: if_splits option.split)


section \<open>Transfers\<close>

definition transitOk :: "mem_store \<Rightarrow> bool" where
  "transitOk s \<longleftrightarrow> fmpred (\<lambda>_ row. smallQty (irDispatched row) \<and> smallQty (irReceived row) \<and> irReceived row \<le> irDispatched row) (mmTransit s)"

lemma accepted_fits:
  assumes "smallQty (irDispatched row)" "smallQty (irReceived row)" "smallQty (mQty m)" "irReceived row \<le> irDispatched row"
    and "\<not> acceptedOf row m \<le> 0"
  shows "smallQty (irReceived row + acceptedOf row m) \<and> irReceived row + acceptedOf row m \<le> irDispatched row"
proof -
  obtain d r n where e: "irDispatched row = fint d" "irReceived row = fint r" "mQty m = fint n"
    and b: "\<bar>d\<bar> < 2 ^ 50" "\<bar>r\<bar> < 2 ^ 50" "\<bar>n\<bar> < 2 ^ 50"
    using assms(1-3) unfolding smallQty_iff by blast
  have acc: "acceptedOf row m = fint (min n (d - r))"
    using b by (auto simp: acceptedOf_def Let_def e fint_minus fint_less min_def)
  have pos: "0 < min n (d - r)" using assms(5) fint_le [of "min n (d - r)" 0] by (simp add: acc fint_0 not_le)
  have "irReceived row + acceptedOf row m = fint (r + min n (d - r))"
    unfolding acc e(2) using b by (intro fint_plus) (auto simp: min_def)
  moreover have "\<bar>r + min n (d - r)\<bar> < 2 ^ 50" "r + min n (d - r) \<le> d" using b pos by (auto simp: min_def)
  ultimately show ?thesis unfolding smallQty_iff e(1) by (metis fint_le)
qed

lemma trunk_transitOk:
  assumes "\<forall>tid from to ls. p \<noteq> TransferDispatched tid from to ls" "\<forall>m \<in> set (movementsOf p). smallQty (mQty m)"
    and "h \<in> set (stepsOf (trunk env p rej))" "transitOk u"
  shows "transitOk (h u)"
proof -
  consider tid ls m where "p = TransferReceived tid ls" "m \<in> set ls" "h = fst (receivedStep env tid m)" | "mmTransit (h u) = mmTransit u"
    using assms(1,3)
    by (cases p) (auto simp: trunk_def recordSteps_def fanSteps_def appendStep_def memAppend_one receiptStep_def memRecordReceipt_def
      enqueueStep_def fanStep_def memEnqueue_one split: if_splits option.splits)
  then show ?thesis
  proof cases
    case 1
    show ?thesis
    proof (cases "memInTransit u tid (lineKey m)")
      case (Some row)
      then have row: "smallQty (irDispatched row)" "smallQty (irReceived row)" "irReceived row \<le> irDispatched row"
        using assms(4) by (auto simp: transitOk_def memInTransit_def dest: fmpredD)
      have m: "smallQty (mQty m)" using assms(2) 1 by simp
      show ?thesis
        using accepted_fits [OF row(1,2) m row(3)] row assms(4) Some
        by (auto simp: 1(3) receivedStep_def memAddReceived_def memInTransit_def transitOk_def Let_def fmpred_upd)
    qed (use assms(4) in \<open>simp add: 1 receivedStep_def\<close>)
  next
    case 2
    then show ?thesis using assms(4) by (simp add: transitOk_def)
  qed
qed


section \<open>At concrete inputs\<close>

lemma demo_sane_tries: "list_all sane demoTries"
  using demo_sane by simp

theorem wh_arbitrate_outcome_demo:
  "\<exists>d comps s'. arbitrate (\<lambda>xs. xs) 7000000 (envOf demoArrived) [] demoOrdered = (Inr (d, comps), [], s') \<and>
     length comps = 2 \<and> dcVerdict d = VerdictRejected \<and> (\<forall>e \<in> set comps. evHLC (envOf demoArrived) < evHLC e) \<and>
     (\<forall>vis' now' fs. snd (snd (arbitrate vis' now' (envOf demoArrived) fs s')) = s')"
proof -
  have "early 7000000" by code_simp
  from wh_arbitrate_outcome [OF demo_arbitrable anyOrder_id this]
  obtain d comps s' where run: "arbitrate (\<lambda>xs. xs) 7000000 (envOf demoArrived) [] demoOrdered = (Inr (d, comps), [], s')"
    and later: "\<forall>e \<in> set comps. evHLC (envOf demoArrived) < evHLC e"
    and again: "\<forall>vis' now' fs. snd (snd (arbitrate vis' now' (envOf demoArrived) fs s')) = s'" by blast
  have "case arbitrate (\<lambda>xs. xs) 7000000 (envOf demoArrived) [] demoOrdered of (Inr (d, comps), _, _) \<Rightarrow>
      length comps = 2 \<and> dcVerdict d = VerdictRejected | _ \<Rightarrow> False" by code_simp
  then show ?thesis using run later again by auto
qed


text \<open>Ten dispatched, four received, seven more arriving.\<close>

definition demoTruck :: mem_store where
  "demoTruck = memRecordDispatch \<lparr>irTransferID = ''t'', irKey = bareKey ''w'' [], irFromNode = ''b'', irToNode = ''a'', irDispatched = fint 10,
     irReceived = fint 4, irDispatchedAt = 0, irFailed = False\<rparr> (memUpsertItem demoItem newMemory)"

definition demoUnloaded :: wh_payload where
  "demoUnloaded = TransferReceived ''t'' [demoMove ''external'' ''dock'' 7]"


text \<open>A truck of 0.4, 0.3 of it received, and the last 0.1 arriving.\<close>

definition demoTenthsTruck :: mem_store where
  "demoTenthsTruck = memRecordDispatch \<lparr>irTransferID = ''t'', irKey = bareKey ''w'' [], irFromNode = ''b'', irToNode = ''a'',
     irDispatched = demoTenths 4, irReceived = demoTenths 3, irDispatchedAt = 0, irFailed = False\<rparr> (memUpsertItem demoItem newMemory)"

definition demoLastTenth :: wh_payload where
  "demoLastTenth = TransferReceived ''t'' [(demoMove ''external'' ''dock'' 0)\<lparr>mQty := demoTenths 1\<rparr>]"

definition verdictOf :: "(wh_error + decision \<times> envelope list) \<times> call_fault list \<times> mem_store \<Rightarrow> verdict option" where
  "verdictOf r = (case fst r of Inl _ \<Rightarrow> None | Inr (d, _) \<Rightarrow> Some (dcVerdict d))"

text \<open>
  Whole quantities are needed: undisturbed, the receipt of the last tenth of a transfer is accepted; if
  the first attempt breaks off right after the books took it in, the validators of the retry give back the
  event's own share in float arithmetic, find less than a tenth left, and reject a receipt that was right.
\<close>

lemma wh_retry_of_fractions_rejects:
  "verdictOf (arbitrate (\<lambda>xs. xs) 7000000 (envOf demoLastTenth) [] demoTenthsTruck) = Some VerdictAccepted \<and>
   (case fst (runValidators (validators (\<lambda>xs. xs) (envOf demoLastTenth) demoLastTenth) []
       (attempts (envOf demoLastTenth) [(\<lambda>xs. xs, 7000000, replicate 6 CallOk @ [CallLost])] demoTenthsTruck)) of
      Inr (Some r) \<Rightarrow> rjReason r = ReasonTransferOverReceipt | _ \<Rightarrow> False)"
proof (rule conjI)
  show "verdictOf (arbitrate (\<lambda>xs. xs) 7000000 (envOf demoLastTenth) [] demoTenthsTruck) = Some VerdictAccepted"
    by code_simp
  show "case fst (runValidators (validators (\<lambda>xs. xs) (envOf demoLastTenth) demoLastTenth) []
       (attempts (envOf demoLastTenth) [(\<lambda>xs. xs, 7000000, replicate 6 CallOk @ [CallLost])] demoTenthsTruck)) of
      Inr (Some r) \<Rightarrow> rjReason r = ReasonTransferOverReceipt | _ \<Rightarrow> False"
    by code_simp
qed

end
