(* ===== verification/WhProjection.thy ===== *)
theory WhProjection
  imports WhLedger WhLog
begin

text \<open>
  The read models of a warehouse node (\<open>warehouse-node/internal/projection\<close>): six tables beside the
  log, each a finite map from its primary key, into which \<open>Apply\<close> folds one event in one
  transaction. SQLite stores a NaN as NULL, which every \<open>REAL\<close> column here refuses. A time is
  stored as RFC 3339 text; a row holds the instant the text denotes, and where SQL compares two
  times the texts are compared. The fault of a transaction is that of the log's; a failing read is
  not modelled. SQL's \<open>sum\<close> over floats is SQLite's own and a parameter.
\<close>

section \<open>Times as text\<close>

text \<open>The civil date of a day counted from the Unix epoch, as year, month and day.\<close>

definition civilMonth :: "int \<Rightarrow> int \<Rightarrow> int \<Rightarrow> int \<times> int \<times> int" where
  "civilMonth y doy mp = (if mp < 10 then (y, mp + 3, doy - (153 * mp + 2) div 5 + 1)
     else (y + 1, mp - 9, doy - (153 * mp + 2) div 5 + 1))"

definition civilYear :: "int \<Rightarrow> int \<Rightarrow> int \<times> int \<times> int" where
  "civilYear y doy = civilMonth y doy ((5 * doy + 2) div 153)"

definition civilEra :: "int \<Rightarrow> int \<Rightarrow> int \<Rightarrow> int \<times> int \<times> int" where
  "civilEra era doe yoe = civilYear (yoe + era * 400) (doe - (365 * yoe + yoe div 4 - yoe div 100))"

definition yearOfEra :: "int \<Rightarrow> int" where
  "yearOfEra doe = (doe - doe div 1460 + doe div 36524 - doe div 146096) div 365"

definition civilOf :: "int \<Rightarrow> int \<times> int \<times> int" where
  "civilOf days = civilEra ((days + 719468) div 146097) ((days + 719468) mod 146097) (yearOfEra ((days + 719468) mod 146097))"

function intDigits :: "int \<Rightarrow> string" where
  "intDigits n = (if n < 10 then [''0123456789'' ! nat n] else intDigits (n div 10) @ [''0123456789'' ! nat (n mod 10)])"
  by auto

termination by (relation "measure nat") auto

declare intDigits.simps [simp del]

definition padTo :: "nat \<Rightarrow> string \<Rightarrow> string" where
  "padTo w ds = replicate (w - length ds) (CHR ''0'') @ ds"

definition padded :: "nat \<Rightarrow> int \<Rightarrow> string" where
  "padded w n = (if n < 0 then ''-'' else []) @ padTo w (intDigits \<bar>n\<bar>)"

text \<open>The fraction of a second, trailing zeros dropped, and nothing at all when it is zero.\<close>

definition fractionText :: "int \<Rightarrow> string" where
  "fractionText ns = (if ns = 0 then []
     else CHR ''.'' # rev (dropWhile (\<lambda>c. c = CHR ''0'') (rev (padded 9 ns))))"

definition dateText :: "int \<times> int \<times> int \<Rightarrow> string" where
  "dateText = (\<lambda>(y, m, d). padded 4 y @ ''-'' @ padded 2 m @ ''-'' @ padded 2 d)"

definition clockText :: "int \<Rightarrow> int \<Rightarrow> string" where
  "clockText s ns = padded 2 (s div 3600) @ '':'' @ padded 2 (s div 60 mod 60) @ '':'' @ padded 2 (s mod 60) @ fractionText ns"

text \<open>\<open>t.UTC().Format(time.RFC3339Nano)\<close>\<close>

definition rfc3339Nano :: "instant \<Rightarrow> string" where
  "rfc3339Nano t = dateText (civilOf (t div dayNanos)) @ ''T'' @
     clockText (t mod dayNanos div 1000000000) (t mod 1000000000) @ ''Z''"

section \<open>Tables\<close>

record transfer_row =
  twFromNode :: node_id
  twToNode :: node_id
  twDispatched :: float64
  twReceived :: float64
  twStatus :: transfer_status
  twDispatchedAt :: "instant option" \<comment> \<open>\<open>None\<close> is the empty text\<close>

datatype exception_kind = ExceptionCompensation | ExceptionNegativeBalance

record exception_row =
  exKind :: exception_kind
  exReason :: string
  exCausedBy :: string
  exKey :: wh_key
  exQty :: float64
  exRecordedAt :: instant
  exResolved :: bool

record proj_db =
  pjStock :: "(wh_key, float64) fmap"
  pjReservations :: "(string, reservation) fmap"
  pjExceptions :: "(string, exception_row) fmap"
  pjTransfers :: "(string, transfer_row) fmap"
  pjTouched :: "(wh_key, instant) fmap"
  pjApplied :: "event_id fset"

definition projectionSchema :: proj_db where
  "projectionSchema = \<lparr>pjStock = fmempty, pjReservations = fmempty, pjExceptions = fmempty,
     pjTransfers = fmempty, pjTouched = fmempty, pjApplied = {||}\<rparr>"

text \<open>A step of a transaction fails or changes the tables.\<close>

type_synonym proj_step = "proj_db \<Rightarrow> wh_error + proj_db"

definition andNext :: "proj_step \<Rightarrow> proj_step \<Rightarrow> proj_step" where
  "andNext f g p = (case f p of Inl e \<Rightarrow> Inl e | Inr p \<Rightarrow> g p)"

fun inTurn :: "proj_step list \<Rightarrow> proj_step" where
  "inTurn [] p = Inr p"
| "inTurn (f # fs) p = andNext f (inTurn fs) p"

section \<open>Stock\<close>

fun projMovements :: "wh_payload \<Rightarrow> movement list" where
  "projMovements (GoodsReceived _ _ _ m) = [m]"
| "projMovements (PutAway m) = [m]"
| "projMovements (Picked m _) = [m]"
| "projMovements (StockAdjusted m _) = [m]"
| "projMovements (TransferDispatched _ _ _ ls) = ls"
| "projMovements (TransferReceived _ ls) = ls"
| "projMovements _ = []"

text \<open>\<open>abs(qty) < 1e-9\<close>\<close>

definition negligible :: "float64 \<Rightarrow> bool" where
  "negligible q \<longleftrightarrow> (if q < 0 then - q else q) < frnd (1 / 1000000000)"

definition putStock :: "wh_key \<Rightarrow> float64 \<Rightarrow> proj_step" where
  "putStock k q p = (if isNaN q then Inl StoreFault
     else Inr (p\<lparr>pjStock := if negligible q then fmdrop k (pjStock p) else fmupd k q (pjStock p)\<rparr>))"

definition addStockRow :: "wh_key \<Rightarrow> float64 \<Rightarrow> proj_step" where
  "addStockRow k delta p = putStock k (case fmlookup (pjStock p) k of None \<Rightarrow> delta | Some q \<Rightarrow> q + delta) p"

definition transferToNode :: "string \<Rightarrow> proj_db \<Rightarrow> node_id" where
  "transferToNode tid p = (case fmlookup (pjTransfers p) tid of None \<Rightarrow> [] | Some t \<Rightarrow> twToNode t)"

definition movesHere :: "node_id \<Rightarrow> wh_payload \<Rightarrow> proj_db \<Rightarrow> bool" where
  "movesHere home pl p = (case pl of
      TransferDispatched _ from _ _ \<Rightarrow> \<not> (home \<noteq> [] \<and> home \<noteq> from)
    | TransferReceived tid _ \<Rightarrow> (let to = transferToNode tid p in \<not> (home \<noteq> [] \<and> to \<noteq> [] \<and> home \<noteq> to))
    | _ \<Rightarrow> True)"

definition moveRow :: "movement \<Rightarrow> proj_step" where
  "moveRow m = andNext (addStockRow (fromKey m) (- mQty m)) (addStockRow (toKey m) (mQty m))"

definition applyStock :: "node_id \<Rightarrow> wh_payload \<Rightarrow> proj_step" where
  "applyStock home pl p = (if movesHere home pl p then inTurn (map moveRow (projMovements pl)) p else Inr p)"

section \<open>Reservations\<close>

definition setReservationStatus :: "string \<Rightarrow> reservation_status \<Rightarrow> proj_db \<Rightarrow> proj_db" where
  "setReservationStatus i st p = (case fmlookup (pjReservations p) i of None \<Rightarrow> p
     | Some r \<Rightarrow> p\<lparr>pjReservations := fmupd i (r\<lparr>rsStatus := st\<rparr>) (pjReservations p)\<rparr>)"

definition applyReservation :: "wh_payload \<Rightarrow> proj_step" where
  "applyReservation pl p = (case pl of
      StockReserved i k q \<Rightarrow> if isNaN q then Inl StoreFault
        else Inr (p\<lparr>pjReservations := fmupd i \<lparr>rsID = i, rsKey = k, rsQty = q, rsStatus = ResActive\<rparr> (pjReservations p)\<rparr>)
    | ReservationReleased i \<Rightarrow> Inr (setReservationStatus i ResReleased p)
    | ReservationConsumed i \<Rightarrow> Inr (setReservationStatus i ResConsumed p)
    | _ \<Rightarrow> Inr p)"

section \<open>Transfers\<close>

definition totalQty :: "movement list \<Rightarrow> float64" where
  "totalQty ls = foldl (\<lambda>t m. t + mQty m) 0 ls"

definition putTransfer :: "string \<Rightarrow> transfer_row \<Rightarrow> proj_step" where
  "putTransfer tid t p = (if isNaN (twDispatched t) \<or> isNaN (twReceived t) then Inl StoreFault
     else Inr (p\<lparr>pjTransfers := fmupd tid t (pjTransfers p)\<rparr>))"

definition applyTransfer :: "envelope \<Rightarrow> wh_payload \<Rightarrow> proj_step" where
  "applyTransfer env pl p = (case pl of
      TransferDispatched tid from to ls \<Rightarrow>
        (let d = totalQty ls in putTransfer tid
          (case fmlookup (pjTransfers p) tid of
             None \<Rightarrow> \<lparr>twFromNode = from, twToNode = to, twDispatched = d, twReceived = 0, twStatus = TransferInFlight,
               twDispatchedAt = Some (evRecordedAt env)\<rparr>
           | Some t \<Rightarrow> t\<lparr>twFromNode := from, twToNode := to, twDispatched := d, twDispatchedAt := Some (evRecordedAt env),
               twStatus := if d \<le> twReceived t then TransferComplete else twStatus t\<rparr>) p)
    | TransferReceived tid ls \<Rightarrow>
        (let r = totalQty ls in putTransfer tid
          (case fmlookup (pjTransfers p) tid of
             None \<Rightarrow> \<lparr>twFromNode = [], twToNode = [], twDispatched = 0, twReceived = r, twStatus = TransferInFlight,
               twDispatchedAt = None\<rparr>
           | Some t \<Rightarrow> t\<lparr>twReceived := twReceived t + r,
               twStatus := if twDispatched t \<le> twReceived t + r \<and> 0 < twDispatched t then TransferComplete else twStatus t\<rparr>) p)
    | StockAdjusted _ reason \<Rightarrow>
        (if reason \<noteq> ReasonTransferRejected then Inr p
         else (case fmlookup (pjTransfers p) (evAggregate env) of None \<Rightarrow> Inr p
           | Some t \<Rightarrow> Inr (p\<lparr>pjTransfers := fmupd (evAggregate env) (t\<lparr>twStatus := TransferFailed\<rparr>) (pjTransfers p)\<rparr>)))
    | _ \<Rightarrow> Inr p)"

section \<open>Exceptions\<close>

definition negativeID :: "wh_key \<Rightarrow> string" where
  "negativeID k = ''negative:'' @ wkSKU k @ ''|'' @ wkLocation k @ ''|'' @ wkLotID k"

definition compensationRow :: "envelope \<Rightarrow> event_id \<Rightarrow> movement \<Rightarrow> string \<Rightarrow> exception_row" where
  "compensationRow env cause m reason =
     \<lparr>exKind = ExceptionCompensation, exReason = reason, exCausedBy = eventIDString cause,
      exKey = if wkLocation (fromKey m) = External then toKey m else fromKey m,
      exQty = mQty m, exRecordedAt = evRecordedAt env, exResolved = False\<rparr>"

text \<open>\<open>ON CONFLICT (id) DO NOTHING\<close>\<close>

definition insertException :: "string \<Rightarrow> exception_row \<Rightarrow> proj_step" where
  "insertException i x p = (if isNaN (exQty x) then Inl StoreFault
     else Inr (p\<lparr>pjExceptions := if fmlookup (pjExceptions p) i = None then fmupd i x (pjExceptions p) else pjExceptions p\<rparr>))"

definition recordCompensation :: "envelope \<Rightarrow> event_id \<Rightarrow> wh_payload \<Rightarrow> proj_step" where
  "recordCompensation env cause pl p = (case pl of
      StockAdjusted m reason \<Rightarrow> insertException (eventIDString (evId env)) (compensationRow env cause m reason) p
    | _ \<Rightarrow> Inr p)"

definition laterText :: "instant \<Rightarrow> instant \<Rightarrow> instant" where
  "laterText new old = (if rfc3339Nano old < rfc3339Nano new then new else old)"

definition touchAt :: "wh_key \<Rightarrow> instant \<Rightarrow> proj_db \<Rightarrow> instant \<times> proj_db" where
  "touchAt k t p = (t, p\<lparr>pjTouched := fmupd k t (pjTouched p)\<rparr>)"

definition touchKey :: "wh_key \<Rightarrow> instant \<Rightarrow> proj_db \<Rightarrow> instant \<times> proj_db" where
  "touchKey k t0 p = touchAt k (case fmlookup (pjTouched p) k of None \<Rightarrow> t0 | Some old \<Rightarrow> laterText t0 old) p"

definition flagNegative :: "wh_key \<Rightarrow> float64 \<Rightarrow> instant \<times> proj_db \<Rightarrow> proj_db" where
  "flagNegative k qty = (\<lambda>(t, p). let xs = pjExceptions p; i = negativeID k in
     if qty < 0 then p\<lparr>pjExceptions := fmupd i
       (case fmlookup xs i of
          None \<Rightarrow> \<lparr>exKind = ExceptionNegativeBalance, exReason = ''negative_after_compensation'', exCausedBy = [],
            exKey = k, exQty = qty, exRecordedAt = t, exResolved = False\<rparr>
        | Some x \<Rightarrow> x\<lparr>exQty := qty, exRecordedAt := t, exResolved := False\<rparr>) xs\<rparr>
     else (case fmlookup xs i of None \<Rightarrow> p
       | Some x \<Rightarrow> p\<lparr>pjExceptions := fmupd i (x\<lparr>exResolved := True, exQty := qty\<rparr>) xs\<rparr>))"

definition refreshNegative :: "envelope \<Rightarrow> wh_key \<Rightarrow> proj_db \<Rightarrow> proj_db" where
  "refreshNegative env k p = flagNegative k (fm_get 0 (pjStock p) k) (touchKey k (evRecordedAt env) p)"

definition movedKeys :: "wh_payload \<Rightarrow> wh_key list" where
  "movedKeys pl = filter (\<lambda>k. wkLocation k \<noteq> External)
     (concat (map (\<lambda>m. [fromKey m, toKey m]) (projMovements pl)))"

definition refreshNegatives :: "envelope \<Rightarrow> wh_payload \<Rightarrow> proj_db \<Rightarrow> proj_db" where
  "refreshNegatives env pl p = foldl (\<lambda>p k. refreshNegative env k p) p (movedKeys pl)"

definition applyException :: "envelope \<Rightarrow> wh_payload \<Rightarrow> proj_step" where
  "applyException env pl = andNext
     (\<lambda>p. case evCausation env of None \<Rightarrow> Inr p | Some cause \<Rightarrow> recordCompensation env cause pl p)
     (\<lambda>p. Inr (refreshNegatives env pl p))"

section \<open>Applying an event\<close>

definition markApplied :: "event_id \<Rightarrow> proj_db \<Rightarrow> proj_db" where
  "markApplied i p = p\<lparr>pjApplied := finsert i (pjApplied p)\<rparr>"

text \<open>What the transaction does once the payload is decoded.\<close>

definition projectAll :: "node_id \<Rightarrow> envelope \<Rightarrow> wh_payload \<Rightarrow> proj_step" where
  "projectAll home env pl = inTurn [applyStock home pl, applyReservation pl, applyTransfer env pl, applyException env pl,
     \<lambda>p. Inr (markApplied (evId env) p)]"

definition isApplied :: "event_id \<Rightarrow> proj_db \<Rightarrow> wh_error + bool" where
  "isApplied i p = (if \<not> fitsInt64 (idSeq i) then Inl StoreFault else Inr (i |\<in>| pjApplied p))"

definition projApply :: "db_fault \<Rightarrow> node_id \<Rightarrow> envelope \<Rightarrow> proj_step" where
  "projApply f home env p = (case isApplied (evId env) p of Inl e \<Rightarrow> Inl e
     | Inr True \<Rightarrow> Inr p
     | Inr False \<Rightarrow> (case decodePayload env of Inl e \<Rightarrow> Inl e
       | Inr pl \<Rightarrow>
         if f = FailBegin then Inl WhBegin
         else (case projectAll home env pl p of Inl e \<Rightarrow> Inl e
           | Inr p \<Rightarrow> if f = FailInsert then Inl StoreFault else if f = FailCommit then Inl WhCommit else Inr p)))"

text \<open>A loop that applies one envelope after another, with the fault of each event's transaction.
  The transactions before the one that fails stay.\<close>

fun projApplyAll :: "(event_id \<Rightarrow> db_fault) \<Rightarrow> node_id \<Rightarrow> envelope list \<Rightarrow> proj_db \<Rightarrow> wh_error option \<times> proj_db" where
  "projApplyAll ff home [] p = (None, p)"
| "projApplyAll ff home (e # es) p = (case projApply (ff (evId e)) home e p of Inl err \<Rightarrow> (Some err, p)
     | Inr p \<Rightarrow> projApplyAll ff home es p)"

section \<open>Catching up and rebuilding\<close>

definition catchUp :: "(event_id \<Rightarrow> db_fault) \<Rightarrow> wh_log \<Rightarrow> proj_db \<Rightarrow> wh_error option \<times> proj_db" where
  "catchUp ff l p = (case whReadAll l of Inl e \<Rightarrow> (Some e, p) | Inr envs \<Rightarrow> projApplyAll ff (wlNode l) envs p)"

text \<open>Each \<open>DELETE\<close> is a transaction of its own: the first \<open>n\<close> tables of the list are empty.\<close>

definition projectionTables :: "(proj_db \<Rightarrow> proj_db) list" where
  "projectionTables = [pjStock_update (\<lambda>_. fmempty), pjReservations_update (\<lambda>_. fmempty), pjExceptions_update (\<lambda>_. fmempty),
     pjTransfers_update (\<lambda>_. fmempty), pjTouched_update (\<lambda>_. fmempty), pjApplied_update (\<lambda>_. {||})]"

definition clearTables :: "nat \<Rightarrow> proj_db \<Rightarrow> proj_db" where
  "clearTables n p = foldl (\<lambda>p clear. clear p) p (take n projectionTables)"

definition Version :: int64 where
  "Version = 2"

text \<open>What may fail: the deletions after the first \<open>osCleared\<close>, the transactions, and the version's.\<close>

record open_faults =
  osCleared :: nat
  osApply :: "event_id \<Rightarrow> db_fault"
  osVersion :: db_fault

definition rebuild :: "open_faults \<Rightarrow> wh_log \<Rightarrow> proj_db \<Rightarrow> wh_error option \<times> wh_log \<times> proj_db" where
  "rebuild o' l p = (let p = clearTables (osCleared o') p in
     if osCleared o' < length projectionTables then (Some StoreFault, l, p)
     else (case catchUp (osApply o') l p of
         (Some e, p) \<Rightarrow> (Some e, l, p)
       | (None, p) \<Rightarrow> (case whSetProjectionVersion (osVersion o') Version l of
             Inl e \<Rightarrow> (Some e, l, p)
           | Inr l \<Rightarrow> (None, l, p))))"

definition projOpen :: "open_faults \<Rightarrow> wh_log \<Rightarrow> proj_db \<Rightarrow> wh_error option \<times> wh_log \<times> proj_db" where
  "projOpen o' l p = (if whProjectionVersion l \<noteq> Version then rebuild o' l p
     else (case catchUp (osApply o') l p of (e, p) \<Rightarrow> (e, l, p)))"

section \<open>Reading\<close>

record stock_row =
  srKey :: wh_key
  srQty :: float64
  srAvailable :: float64

text \<open>\<open>sum\<close> over the rows it is given, NULL for none; a NULL difference cannot be scanned.\<close>

definition reservedAt :: "(float64 list \<Rightarrow> float64 option) \<Rightarrow> proj_db \<Rightarrow> wh_key \<Rightarrow> float64" where
  "reservedAt sqlSum p k = (case sqlSum (map rsQty (filter (\<lambda>r. rsKey r = k \<and> rsStatus r = ResActive)
     (map snd (sorted_list_of_fmap (pjReservations p))))) of None \<Rightarrow> 0 | Some x \<Rightarrow> x)"

fun stockRows :: "(wh_key \<Rightarrow> float64) \<Rightarrow> (wh_key \<times> float64) list \<Rightarrow> wh_error + stock_row list" where
  "stockRows reserved [] = Inr []"
| "stockRows reserved ((k, q) # kqs) = (let a = q - reserved k in
     if isNaN a then Inl StoreFault
     else (case stockRows reserved kqs of Inl e \<Rightarrow> Inl e
       | Inr rs \<Rightarrow> Inr (\<lparr>srKey = k, srQty = q, srAvailable = a\<rparr> # rs)))"

definition stockOnHand :: "(float64 list \<Rightarrow> float64 option) \<Rightarrow> proj_db \<Rightarrow> string \<Rightarrow> string \<Rightarrow> wh_error + stock_row list" where
  "stockOnHand sqlSum p sku loc = stockRows (reservedAt sqlSum p)
     (sort_key (\<lambda>(k, _). (wkSKU k, wkLocation k, wkLotID k))
       (filter (\<lambda>(k, _). wkLocation k \<noteq> External \<and> (sku = [] \<or> wkSKU k = sku) \<and> (loc = [] \<or> wkLocation k = loc))
         (sorted_list_of_fmap (pjStock p))))"

definition balance :: "proj_db \<Rightarrow> wh_key \<Rightarrow> float64" where
  "balance p k = fm_get 0 (pjStock p) k"

definition reservationRows :: "proj_db \<Rightarrow> reservation list" where
  "reservationRows p = map snd (sorted_list_of_fmap (pjReservations p))"

text \<open>The stored times are parsed back, which a year of more or less than four digits fails.\<close>

fun scanRows :: "('a \<Rightarrow> instant option) \<Rightarrow> (string \<times> 'a) list \<Rightarrow> wh_error + (string \<times> 'a) list" where
  "scanRows timeOf [] = Inr []"
| "scanRows timeOf (r # rs) =
    (if (case timeOf (snd r) of None \<Rightarrow> False | Some t \<Rightarrow> \<not> rfc3339 t) then Inl StoreFault
     else (case scanRows timeOf rs of Inl e \<Rightarrow> Inl e | Inr xs \<Rightarrow> Inr (r # xs)))"

definition transferRows :: "proj_db \<Rightarrow> wh_error + (string \<times> transfer_row) list" where
  "transferRows p = scanRows twDispatchedAt (sorted_list_of_fmap (pjTransfers p))"

definition exceptionRows :: "proj_db \<Rightarrow> wh_error + (string \<times> exception_row) list" where
  "exceptionRows p = scanRows (\<lambda>x. Some (exRecordedAt x))
     (sort_key (\<lambda>(i, x). (exResolved x, i)) (sorted_list_of_fmap (pjExceptions p)))"

end
