(* ===== verification/WhViews.thy ===== *)
theory WhViews
  imports WhProjection
begin

text \<open>
  What the read models hold: the balances are the ledger of the movements projected, and the
  exceptions an operator must see are on the list.
\<close>

section \<open>Steps that succeed\<close>

lemma andNext_Inr: "andNext f g p = Inr p' \<longleftrightarrow> (\<exists>q. f p = Inr q \<and> g q = Inr p')"
  by (auto simp: andNext_def split: sum.splits)

text \<open>The steps that follow the stock leave it and the marks, and the transfers change in theirs.\<close>

lemma setReservationStatus_frame [simp]:
  "pjStock (setReservationStatus i st p) = pjStock p" "pjApplied (setReservationStatus i st p) = pjApplied p"
  "pjTransfers (setReservationStatus i st p) = pjTransfers p" "pjExceptions (setReservationStatus i st p) = pjExceptions p"
  by (simp_all add: setReservationStatus_def split: option.split)

lemma applyReservation_frame:
  "applyReservation pl p = Inr p' \<Longrightarrow> pjStock p' = pjStock p \<and> pjApplied p' = pjApplied p \<and>
     pjTransfers p' = pjTransfers p \<and> pjExceptions p' = pjExceptions p"
  by (auto simp: applyReservation_def split: wh_payload.splits if_splits)

lemma putTransfer_Inr: "putTransfer tid t p = Inr p' \<Longrightarrow> p' = p\<lparr>pjTransfers := fmupd tid t (pjTransfers p)\<rparr>"
  by (simp add: putTransfer_def split: if_splits)

lemma applyTransfer_frame:
  "applyTransfer env pl p = Inr p' \<Longrightarrow> pjStock p' = pjStock p \<and> pjApplied p' = pjApplied p \<and> pjExceptions p' = pjExceptions p"
  by (auto simp: applyTransfer_def Let_def dest!: putTransfer_Inr split: wh_payload.splits if_splits option.splits)

lemma refreshNegative_frame [simp]:
  "pjStock (refreshNegative e k p) = pjStock p" "pjApplied (refreshNegative e k p) = pjApplied p"
  "pjTransfers (refreshNegative e k p) = pjTransfers p"
  by (simp_all add: refreshNegative_def flagNegative_def touchKey_def touchAt_def Let_def split: option.split)

lemma refreshNegatives_frame [simp]:
  "pjStock (refreshNegatives e pl p) = pjStock p" "pjApplied (refreshNegatives e pl p) = pjApplied p"
  "pjTransfers (refreshNegatives e pl p) = pjTransfers p"
proof -
  have "pjStock (foldl (\<lambda>p k. refreshNegative e k p) p ks) = pjStock p \<and>
    pjApplied (foldl (\<lambda>p k. refreshNegative e k p) p ks) = pjApplied p \<and>
    pjTransfers (foldl (\<lambda>p k. refreshNegative e k p) p ks) = pjTransfers p" for ks
    by (induction ks arbitrary: p) simp_all
  then show "pjStock (refreshNegatives e pl p) = pjStock p" "pjApplied (refreshNegatives e pl p) = pjApplied p"
    "pjTransfers (refreshNegatives e pl p) = pjTransfers p" by (simp_all add: refreshNegatives_def)
qed

lemma insertException_Inr:
  "insertException i x p = Inr p' \<longleftrightarrow> \<not> isNaN (exQty x) \<and>
     p' = p\<lparr>pjExceptions := if fmlookup (pjExceptions p) i = None then fmupd i x (pjExceptions p) else pjExceptions p\<rparr>"
  unfolding insertException_def by (cases "isNaN (exQty x)") auto

lemma recordCompensation_frame:
  "recordCompensation e c pl p = Inr p' \<Longrightarrow> pjStock p' = pjStock p \<and> pjApplied p' = pjApplied p \<and> pjTransfers p' = pjTransfers p"
  by (cases pl) (simp_all add: recordCompensation_def insertException_Inr)

lemma applyException_frame:
  "applyException e pl p = Inr p' \<Longrightarrow> pjStock p' = pjStock p \<and> pjApplied p' = pjApplied p \<and> pjTransfers p' = pjTransfers p"
  by (cases "evCausation e") (auto simp: applyException_def andNext_Inr dest: recordCompensation_frame)

lemma addStockRow_frame:
  "addStockRow k d p = Inr p' \<Longrightarrow> pjApplied p' = pjApplied p \<and> pjTransfers p' = pjTransfers p \<and> pjExceptions p' = pjExceptions p"
  by (auto simp: addStockRow_def putStock_def Let_def split: if_splits)

lemma moveRows_frame:
  "inTurn (map moveRow ms) p = Inr p' \<Longrightarrow> pjApplied p' = pjApplied p \<and> pjTransfers p' = pjTransfers p \<and> pjExceptions p' = pjExceptions p"
  by (induction ms arbitrary: p) (auto simp: andNext_Inr moveRow_def dest!: addStockRow_frame)

text \<open>The movements an event makes on these tables.\<close>

definition movesOn :: "node_id \<Rightarrow> proj_db \<Rightarrow> wh_payload \<Rightarrow> movement list" where
  "movesOn home p pl = (if movesHere home pl p then projMovements pl else [])"

lemma applyStock_moves: "applyStock home pl p = inTurn (map moveRow (movesOn home p pl)) p"
  by (simp add: applyStock_def movesOn_def)

lemma applyStock_frame:
  "applyStock home pl p = Inr p' \<Longrightarrow> pjApplied p' = pjApplied p \<and> pjTransfers p' = pjTransfers p \<and> pjExceptions p' = pjExceptions p"
  unfolding applyStock_moves by (rule moveRows_frame)

text \<open>One event, as the steps it takes.\<close>

lemma projectAll_Inr:
  assumes "projectAll home e pl p = Inr p'"
  obtains p1 p2 p3 p4 where "applyStock home pl p = Inr p1" "applyReservation pl p1 = Inr p2"
    "applyTransfer e pl p2 = Inr p3" "applyException e pl p3 = Inr p4" "p' = markApplied (evId e) p4"
  using assms by (auto simp: projectAll_def andNext_Inr)

lemma projectAll_stock:
  assumes "projectAll home e pl p = Inr p'"
  shows "\<exists>p1. inTurn (map moveRow (movesOn home p pl)) p = Inr p1 \<and> pjStock p' = pjStock p1"
    and "pjApplied p' = finsert (evId e) (pjApplied p)"
proof -
  obtain p1 p2 p3 p4 where s: "applyStock home pl p = Inr p1" "applyReservation pl p1 = Inr p2"
    "applyTransfer e pl p2 = Inr p3" "applyException e pl p3 = Inr p4" "p' = markApplied (evId e) p4"
    using assms by (rule projectAll_Inr)
  note frames = applyStock_frame [OF s(1)] applyReservation_frame [OF s(2)] applyTransfer_frame [OF s(3)] applyException_frame [OF s(4)]
  show "\<exists>p1. inTurn (map moveRow (movesOn home p pl)) p = Inr p1 \<and> pjStock p' = pjStock p1"
    using frames s(1) by (auto simp: s(5) markApplied_def applyStock_moves)
  show "pjApplied p' = finsert (evId e) (pjApplied p)"
    using frames by (simp add: s(5) markApplied_def)
qed

section \<open>Replaying\<close>

text \<open>The events of a list folded into the tables, each decoded and projected.\<close>

fun replayProj :: "node_id \<Rightarrow> envelope list \<Rightarrow> proj_step" where
  "replayProj home [] p = Inr p"
| "replayProj home (e # es) p = (case decodePayload e of Inl err \<Rightarrow> Inl err
     | Inr pl \<Rightarrow> andNext (projectAll home e pl) (replayProj home es) p)"

fun projMade :: "node_id \<Rightarrow> envelope list \<Rightarrow> proj_db \<Rightarrow> movement list" where
  "projMade home [] p = []"
| "projMade home (e # es) p = (case decodePayload e of Inl err \<Rightarrow> []
     | Inr pl \<Rightarrow> movesOn home p pl @ (case projectAll home e pl p of Inl err \<Rightarrow> [] | Inr p \<Rightarrow> projMade home es p))"

lemma replayProj_Cons:
  assumes "replayProj home (e # es) p = Inr p'"
  obtains pl q where "decodePayload e = Inr pl" "projectAll home e pl p = Inr q" "replayProj home es q = Inr p'"
  using assms by (auto simp: andNext_Inr split: sum.splits)

lemma replayProj_append: "replayProj home (es @ fs) = andNext (replayProj home es) (replayProj home fs)"
proof (rule ext)
  show "replayProj home (es @ fs) p = andNext (replayProj home es) (replayProj home fs) p" for p
    by (induction es arbitrary: p) (auto simp: andNext_def split: sum.split)
qed

lemma replayProj_applied:
  "replayProj home es p = Inr p' \<Longrightarrow> pjApplied p' = pjApplied p |\<union>| fset_of_list (map evId es)"
proof (induction es arbitrary: p)
  case (Cons e es)
  from Cons.prems obtain pl q where q: "projectAll home e pl p = Inr q" and rest: "replayProj home es q = Inr p'"
    by (rule replayProj_Cons)
  show ?case unfolding Cons.IH [OF rest] projectAll_stock(2) [OF q] by auto
qed simp

lemma inTurn_append: "inTurn (fs @ gs) p = andNext (inTurn fs) (inTurn gs) p"
  by (induction fs arbitrary: p) (auto simp: andNext_def split: sum.split)

lemma moveRows_stock_cong:
  "inTurn (map moveRow ms) p = Inr p' \<Longrightarrow> pjStock q = pjStock p \<Longrightarrow> \<exists>q'. inTurn (map moveRow ms) q = Inr q' \<and> pjStock q' = pjStock p'"
proof (induction ms arbitrary: p q)
  case (Cons m ms)
  have add: "\<exists>q'. addStockRow k d q = Inr q' \<and> pjStock q' = pjStock p'"
    if "addStockRow k d p = Inr p'" "pjStock q = pjStock p" for k d p p' q
    using that by (auto simp: addStockRow_def putStock_def Let_def split: if_splits)
  from Cons.prems(1) obtain p1 where p1: "moveRow m p = Inr p1" "inTurn (map moveRow ms) p1 = Inr p'"
    by (auto simp: andNext_Inr)
  obtain q1 where "moveRow m q = Inr q1" "pjStock q1 = pjStock p1"
    using p1(1) Cons.prems(2) unfolding moveRow_def andNext_Inr by (metis add)
  with Cons.IH [OF p1(2)] show ?case by (auto simp: andNext_Inr)
qed simp

lemma replayProj_stock:
  "replayProj home es p = Inr p' \<Longrightarrow> \<exists>q. inTurn (map moveRow (projMade home es p)) p = Inr q \<and> pjStock p' = pjStock q"
proof (induction es arbitrary: p)
  case (Cons e es)
  from Cons.prems obtain pl p1 where pl: "decodePayload e = Inr pl" and p1: "projectAll home e pl p = Inr p1"
    and rest: "replayProj home es p1 = Inr p'" by (rule replayProj_Cons)
  from projectAll_stock(1) [OF p1] obtain q1 where q1: "inTurn (map moveRow (movesOn home p pl)) p = Inr q1"
    and s1: "pjStock p1 = pjStock q1" by blast
  from Cons.IH [OF rest] obtain q where q: "inTurn (map moveRow (projMade home es p1)) p1 = Inr q" "pjStock p' = pjStock q"
    by blast
  from moveRows_stock_cong [OF q(1) s1 [symmetric]] q1 pl p1 q(2) show ?case
    by (auto simp: inTurn_append andNext_Inr)
qed simp

section \<open>Whole quantities\<close>

lemma negligible_fint: "negligible (fint n) \<longleftrightarrow> n = 0"
proof -
  have "case frnd (1 / 1000000000) of Fin r \<Rightarrow> 0 < r \<and> r < 1 | _ \<Rightarrow> False" by code_simp
  then obtain r where r: "frnd (1 / 1000000000) = Fin r" "0 < r" "r < 1" by (auto split: float64.splits)
  have "(if n < 0 then - fint n else fint n) = fint \<bar>n\<bar>" by (simp add: fint_uminus)
  moreover have "fint n < 0 \<longleftrightarrow> n < 0" by (simp add: fint_less flip: fint_0)
  moreover have "(of_int \<bar>n\<bar> :: rat) < r \<longleftrightarrow> n = 0"
  proof
    assume "(of_int \<bar>n\<bar> :: rat) < r"
    with r(3) have "(of_int \<bar>n\<bar> :: rat) < of_int 1" by simp
    then show "n = 0" by (simp only: of_int_less_iff)
  qed (simp add: r(2))
  ultimately show ?thesis by (simp add: negligible_def r(1)) (simp add: fint_def)
qed


lemma negligible_0 [simp]: "negligible 0"
  using negligible_fint [of 0] by (simp add: fint_0)

text \<open>With whole amounts a row is the exact balance, and no row a balance of zero.\<close>

lemma addStockRow_whole:
  assumes "addStockRow k (fint d) p = Inr p'" "\<And>k. balance p k = fint (f k)" "\<And>k. \<bar>f k + d\<bar> < 2 ^ 53"
  shows "balance p' j = fint (if j = k then f k + d else f j)"
proof -
  have q: "(case fmlookup (pjStock p) k of None \<Rightarrow> fint d | Some q \<Rightarrow> q + fint d) = fint (f k + d)"
    using assms(2) [of k] fint_plus [OF assms(3) [of k]] fint_eq [of 0 "f k"]
    by (auto simp: balance_def fm_get_def fint_0 split: option.splits)
  have "negligible (fint (f k + d)) \<longleftrightarrow> f k + d = 0" by (rule negligible_fint)
  then show ?thesis
    using assms(1) assms(2) [of j] unfolding addStockRow_def putStock_def Let_def q
    by (auto simp: balance_def fm_get_def fint_0 split: if_splits)
qed

lemma moveRows_whole:
  assumes "inTurn (map moveRow ms) p = Inr p'" "pjStock p = fmempty"
    and "list_all (\<lambda>m. whole (mQty m)) ms" "volume ms < 2 ^ 53"
  shows "balance p' k = fint (ledger ms k)"
  using assms
proof (induction ms arbitrary: p' k rule: rev_induct)
  case Nil
  then show ?case by (auto simp: balance_def fint_0)
next
  case (snoc m ms)
  obtain n where q: "mQty m = fint n" using snoc.prems(3) by (auto simp: whole_def)
  have vol: "volume ms + \<bar>n\<bar> < 2 ^ 53" using snoc.prems(4) by (simp add: q)
  obtain p1 p2 where p1: "inTurn (map moveRow ms) p = Inr p1" and p2: "addStockRow (fromKey m) (fint (- n)) p1 = Inr p2"
    and p3: "addStockRow (toKey m) (fint n) p2 = Inr p'"
    using snoc.prems(1) by (auto simp: inTurn_append andNext_Inr moveRow_def [of m] q fint_uminus)
  have IH: "balance p1 k = fint (ledger ms k)" for k
    using snoc.prems vol by (intro snoc.IH [OF p1]) simp_all
  have bound: "\<bar>ledger ms k\<bar> + \<bar>n\<bar> < 2 ^ 53" for k using ledger_volume [of ms k] vol by linarith
  have "\<bar>ledger ms k + - n\<bar> < 2 ^ 53" for k using bound [of k] by linarith
  from addStockRow_whole [OF p2 IH this]
  have b2: "balance p2 j = fint (if j = fromKey m then ledger ms (fromKey m) + - n else ledger ms j)" for j .
  have "\<bar>(if j = fromKey m then ledger ms (fromKey m) + - n else ledger ms j) + n\<bar> < 2 ^ 53" for j
    using bound [of "fromKey m"] bound [of j] by (auto split: if_splits)
  from addStockRow_whole [OF p3 b2 this] show ?case
    by (auto simp: books_def q)
qed

lemma projection_is_ledger:
  assumes "replayProj home es projectionSchema = Inr p"
    and "list_all (\<lambda>m. whole (mQty m)) (projMade home es projectionSchema)"
    and "volume (projMade home es projectionSchema) < 2 ^ 53"
  shows "balance p k = fint (ledger (projMade home es projectionSchema) k)"
proof -
  obtain q where q: "inTurn (map moveRow (projMade home es projectionSchema)) projectionSchema = Inr q" "pjStock p = pjStock q"
    using replayProj_stock [OF assms(1)] by blast
  have "balance q k = fint (ledger (projMade home es projectionSchema) k)"
    using q(1) _ assms(2,3) by (rule moveRows_whole) (simp add: projectionSchema_def)
  then show ?thesis by (simp add: balance_def q(2))
qed

section \<open>Transfers in order\<close>

text \<open>The movements of an event once every transfer's destination is settled: a dispatch moves stock
  at its source and a receipt at its destination.\<close>

definition placed :: "node_id \<Rightarrow> (string \<Rightarrow> node_id) \<Rightarrow> wh_payload \<Rightarrow> movement list" where
  "placed home dest pl = (case pl of
      TransferDispatched _ from _ ls \<Rightarrow> if home = from then ls else []
    | TransferReceived tid ls \<Rightarrow> if home = dest tid then ls else []
    | _ \<Rightarrow> projMovements pl)"

text \<open>Every receipt follows a dispatch of its transfer, and the dispatches agree on the destination.\<close>

fun inOrder :: "(string \<Rightarrow> node_id) \<Rightarrow> string list \<Rightarrow> wh_payload list \<Rightarrow> bool" where
  "inOrder dest seen [] = True"
| "inOrder dest seen (TransferDispatched tid _ to _ # ps) = (dest tid = to \<and> to \<noteq> [] \<and> inOrder dest (tid # seen) ps)"
| "inOrder dest seen (TransferReceived tid _ # ps) = (tid \<in> set seen \<and> inOrder dest seen ps)"
| "inOrder dest seen (_ # ps) = inOrder dest seen ps"

text \<open>What the tables know of the destinations after the dispatches seen.\<close>

definition knowsDest :: "(string \<Rightarrow> node_id) \<Rightarrow> string list \<Rightarrow> proj_db \<Rightarrow> bool" where
  "knowsDest dest seen p \<longleftrightarrow> (\<forall>tid \<in> set seen. dest tid \<noteq> [] \<and> transferToNode tid p = dest tid)"

lemma transferToNode_cong: "pjTransfers q = pjTransfers p \<Longrightarrow> transferToNode tid q = transferToNode tid p"
  by (simp add: transferToNode_def)

lemma applyTransfer_toNode:
  assumes "applyTransfer e pl p = Inr p'"
  shows "transferToNode tid p' = (case pl of TransferDispatched i _ to _ \<Rightarrow> if tid = i then to else transferToNode tid p
    | _ \<Rightarrow> transferToNode tid p)"
proof (cases pl)
  case (TransferDispatched i from' to ls)
  with assms show ?thesis
    by (auto simp: applyTransfer_def Let_def transferToNode_def dest!: putTransfer_Inr split: option.split)
next
  case (TransferReceived i ls)
  with assms show ?thesis
    by (auto simp: applyTransfer_def Let_def transferToNode_def dest!: putTransfer_Inr split: option.splits if_splits)
next
  case (StockAdjusted m r)
  with assms show ?thesis
    by (auto simp: applyTransfer_def transferToNode_def split: option.splits if_splits)
qed (use assms in \<open>simp_all add: applyTransfer_def\<close>)

lemma projectAll_toNode:
  assumes "projectAll home e pl p = Inr p'"
  shows "transferToNode tid p' = (case pl of TransferDispatched i _ to _ \<Rightarrow> if tid = i then to else transferToNode tid p
    | _ \<Rightarrow> transferToNode tid p)"
proof -
  obtain p1 p2 p3 p4 where s: "applyStock home pl p = Inr p1" "applyReservation pl p1 = Inr p2"
    "applyTransfer e pl p2 = Inr p3" "applyException e pl p3 = Inr p4" "p' = markApplied (evId e) p4"
    using assms by (rule projectAll_Inr)
  have "pjTransfers p2 = pjTransfers p" "pjTransfers p' = pjTransfers p3"
    using applyStock_frame [OF s(1)] applyReservation_frame [OF s(2)] applyException_frame [OF s(4)]
    by (simp_all add: s(5) markApplied_def)
  from transferToNode_cong [OF this(1)] transferToNode_cong [OF this(2)] applyTransfer_toNode [OF s(3), of tid]
  show ?thesis by (cases pl) simp_all
qed

text \<open>The payloads of a list of envelopes that all decode.\<close>

definition decodesTo :: "envelope \<Rightarrow> wh_payload \<Rightarrow> bool" where
  "decodesTo e pl \<longleftrightarrow> decodePayload e = Inr pl"

lemma inOrder_Cons:
  "inOrder dest seen (pl # ps) \<Longrightarrow>
   (case pl of TransferDispatched tid f to ls \<Rightarrow> dest tid = to \<and> to \<noteq> [] \<and> inOrder dest (tid # seen) ps
    | TransferReceived tid ls \<Rightarrow> tid \<in> set seen \<and> inOrder dest seen ps
    | _ \<Rightarrow> inOrder dest seen ps)"
  by (cases pl) simp_all

lemma projMade_placed:
  assumes "replayProj home es p = Inr p'" "list_all2 decodesTo es ps" "inOrder dest seen ps"
    and "knowsDest dest seen p" "home \<noteq> []"
  shows "projMade home es p = concat (map (placed home dest) ps)"
  using assms
proof (induction es arbitrary: p ps seen)
  case (Cons e es)
  from Cons.prems(1) obtain pl q where pl: "decodePayload e = Inr pl" and q: "projectAll home e pl p = Inr q"
    and rest: "replayProj home es q = Inr p'" by (rule replayProj_Cons)
  from Cons.prems(2) pl obtain ps' where ps: "ps = pl # ps'" and l2: "list_all2 decodesTo es ps'"
    using decodesTo_def [of e] by (auto simp: list_all2_Cons1)
  define seen' where "seen' = (case pl of TransferDispatched tid _ _ _ \<Rightarrow> tid # seen | _ \<Rightarrow> seen)"
  have order: "inOrder dest seen' ps'"
    using inOrder_Cons [OF Cons.prems(3) [unfolded ps]] by (cases pl) (simp_all add: seen'_def)
  have "knowsDest dest seen' q"
    using Cons.prems(4) inOrder_Cons [OF Cons.prems(3) [unfolded ps]]
    by (cases pl) (auto simp: knowsDest_def projectAll_toNode [OF q] seen'_def)
  from Cons.IH [OF rest l2 order this Cons.prems(5)] have IH: "projMade home es q = concat (map (placed home dest) ps')" .
  have "movesOn home p pl = placed home dest pl"
    using Cons.prems(4,5) inOrder_Cons [OF Cons.prems(3) [unfolded ps]]
    by (cases pl) (auto simp: movesOn_def movesHere_def placed_def knowsDest_def Let_def)
  then show ?case by (simp add: pl q IH ps)
qed simp

text \<open>The state knows exactly the transfers seen, and buffers nothing.\<close>

definition stateKnows :: "(string \<Rightarrow> node_id) \<Rightarrow> string list \<Rightarrow> wh_state \<Rightarrow> bool" where
  "stateKnows dest seen s \<longleftrightarrow> sPendingReceipts s = fmempty \<and>
     (\<forall>tid. map_option tsToNode (fmlookup (sTransfers s) tid) = (if tid \<in> set seen then Some (dest tid) else None))"

lemma stateKnows_cong:
  "stateKnows dest seen s \<Longrightarrow> sPendingReceipts s' = sPendingReceipts s \<Longrightarrow>
   (\<And>tid. map_option tsToNode (fmlookup (sTransfers s') tid) = map_option tsToNode (fmlookup (sTransfers s) tid)) \<Longrightarrow>
   stateKnows dest seen s'"
  by (simp add: stateKnows_def)

lemma completeIf_toNode [simp]: "tsToNode (completeIf t) = tsToNode t"
  by (simp add: completeIf_def)

lemma transfers_frame [simp]:
  "sTransfers (registerLot a b t s) = sTransfers s" "sTransfers (onReceipt i f s) = sTransfers s"
  "sTransfers (onCount i g s) = sTransfers s" "sTransfers (setResStatus i st s) = sTransfers s"
  "sTransfers (moveStock s m) = sTransfers s" "sPendingReceipts (moveStock s m) = sPendingReceipts s"
  by (simp_all add: registerLot_def onReceipt_def onCount_def setResStatus_def moveStock_def addStock_def Let_def split: option.split)

lemma backfill_transfers [simp]: "sTransfers (backfillLotExpiry it s) = sTransfers s"
proof -
  have "sTransfers (foldl (\<lambda>s i. let l = fm_get zeroLot (sLots s) i in
        if isZeroTime (ltExpiresOn l)
        then s\<lparr>sLots := fmupd i (l\<lparr>ltExpiresOn := addDays (ltReceivedAt l) (itShelfLifeDays it)\<rparr>) (sLots s)\<rparr>
        else s) s is) = sTransfers s" for "is"
    by (induction "is" arbitrary: s) (simp_all add: Let_def)
  then show ?thesis by (simp add: backfillLotExpiry_def)
qed

lemma stateKnows_upd:
  assumes "stateKnows dest seen s" "sPendingReceipts s' = fmempty" "sTransfers s' = fmupd i tr (sTransfers s)" "tsToNode tr = dest i"
  shows "stateKnows dest (i # seen) s'"
  unfolding stateKnows_def
proof (intro conjI allI)
  fix tid
  have "map_option tsToNode (fmlookup (sTransfers s) tid) = (if tid \<in> set seen then Some (dest tid) else None)"
    using assms(1) by (simp add: stateKnows_def)
  then show "map_option tsToNode (fmlookup (sTransfers s') tid) = (if tid \<in> set (i # seen) then Some (dest tid) else None)"
    by (cases "tid = i") (simp_all add: assms(3,4))
qed (rule assms(2))

lemma stateKnows_in:
  assumes "stateKnows dest seen s" "i \<in> set seen"
  obtains tr where "fmlookup (sTransfers s) i = Some tr" "tsToNode tr = dest i"
proof -
  have "map_option tsToNode (fmlookup (sTransfers s) i) = Some (dest i)" using assms by (simp add: stateKnows_def)
  with that show thesis by blast
qed

lemma stateKnows_step:
  assumes "stateKnows dest seen s" "inOrder dest seen (pl # ps)"
  shows "stateKnows dest (case pl of TransferDispatched tid _ _ _ \<Rightarrow> tid # seen | _ \<Rightarrow> seen) (applyPayload t pl s)"
proof (cases pl)
  case (TransferDispatched i f d ls)
  have none: "fmlookup (sPendingReceipts s) i = None" using assms(1) by (simp add: stateKnows_def)
  define tr where "tr = (case fmlookup (sTransfers s) i of Some t \<Rightarrow> t
        | None \<Rightarrow> \<lparr>tsID = i, tsFromNode = f, tsToNode = d, tsDispatched = fmempty, tsReceived = fmempty,
            tsStatus = TransferInFlight\<rparr>)"
  have know: "map_option tsToNode (fmlookup (sTransfers s) i) = (if i \<in> set seen then Some (dest i) else None)"
    using assms(1) by (simp add: stateKnows_def)
  have toNode: "tsToNode tr = dest i"
    using assms(2) know by (cases "fmlookup (sTransfers s) i") (simp_all add: tr_def TransferDispatched split: if_splits)
  have "stateKnows dest (i # seen) (applyPayload t pl s)"
    by (rule stateKnows_upd [OF assms(1), where i = i and tr = "tr\<lparr>tsDispatched := foldl addLine (tsDispatched tr) ls\<rparr>"])
      (use assms(1) none toNode in \<open>simp_all add: TransferDispatched applyDispatched_def Let_def stateKnows_def flip: tr_def\<close>)
  then show ?thesis by (simp add: TransferDispatched)
next
  case (TransferReceived i ls)
  with assms(2) have i: "i \<in> set seen" by simp
  with assms(1) obtain tr where tr: "fmlookup (sTransfers s) i = Some tr" "tsToNode tr = dest i" by (rule stateKnows_in)
  have "stateKnows dest (i # seen) (applyPayload t pl s)"
    by (rule stateKnows_upd [OF assms(1), where i = i and tr = "completeIf (tr\<lparr>tsReceived := foldl addLine (tsReceived tr) ls\<rparr>)"])
      (use assms(1) in \<open>simp_all add: TransferReceived applyReceived_def tr Let_def stateKnows_def\<close>)
  then show ?thesis using i by (simp add: TransferReceived stateKnows_def insert_absorb)
qed (use assms in \<open>simp_all add: stateKnows_def\<close>)

lemma movesMade_placed:
  assumes "inOrder dest seen (map snd tps)" "stateKnows dest seen s" "\<not> sApplyAll s" "sHome s = home"
  shows "movesMade s tps = concat (map (placed home dest) (map snd tps))"
  using assms
proof (induction tps arbitrary: s seen)
  case (Cons tp tps)
  obtain t pl where tp: "tp = (t, pl)" by (cases tp)
  note order = Cons.prems(1) [unfolded tp list.map snd_conv]
  have "inOrder dest (case pl of TransferDispatched tid _ _ _ \<Rightarrow> tid # seen | _ \<Rightarrow> seen) (map snd tps)"
    using inOrder_Cons [OF order] by (cases pl) simp_all
  from Cons.IH [OF this stateKnows_step [OF Cons.prems(2) order]] Cons.prems(3,4)
  have IH: "movesMade (applyPayload t pl s) tps = concat (map (placed home dest) (map snd tps))" by simp
  have "movesOf s pl = placed home dest pl"
  proof (cases pl)
    case (TransferReceived i ls)
    with order have "i \<in> set seen" by simp
    with Cons.prems(2) obtain tr where "fmlookup (sTransfers s) i = Some tr" "tsToNode tr = dest i" by (rule stateKnows_in)
    with TransferReceived Cons.prems(3,4) show ?thesis by (simp add: placed_def)
  qed (use Cons.prems(2-4) in \<open>simp_all add: placed_def stateKnows_def\<close>)
  then show ?case by (simp add: tp IH)
qed simp

lemma volume_mset: "mset ms = mset ns \<Longrightarrow> volume ms = volume ns"
  unfolding volume_def by (metis mset_map sum_mset_sum_list)

lemma mset_concat_map: "mset xs = mset ys \<Longrightarrow> mset (concat (map f xs)) = mset (concat (map f ys))"
proof -
  have "mset (concat (map f zs)) = \<Sum>\<^sub># (image_mset (\<lambda>x. mset (f x)) (mset zs))" for zs
    by (induction zs) simp_all
  then show "mset xs = mset ys \<Longrightarrow> mset (concat (map f xs)) = mset (concat (map f ys))" by simp
qed

text \<open>
  C9. With whole quantities of less than two to the 53rd in all, and every transfer's receipts
  after its dispatch, the balance the stock table shows for a key is the balance a command is
  checked against: the tables that applied some events in one order and the state that replayed
  them in another agree on every key, both at the integer sum of the movements.
\<close>

theorem wh_projection_agrees_with_state:
  assumes "replayProj home es projectionSchema = Inr p" "list_all2 decodesTo es ps"
    and "mset (map snd tps) = mset ps" "inOrder dest [] ps" "inOrder dest [] (map snd tps)" "home \<noteq> []"
    and "list_all (\<lambda>m. whole (mQty m)) (concat (map (placed home dest) ps))"
    and "volume (concat (map (placed home dest) ps)) < 2 ^ 53"
  shows "balance p k = onHand (applyLog (setHome home newState) tps) k \<and>
    balance p k = fint (ledger (concat (map (placed home dest) ps)) k)"
proof -
  let ?s = "setHome home newState" and ?ms = "concat (map (placed home dest) ps)"
  have p: "projMade home es projectionSchema = ?ms"
    using assms(1,2,4) by (rule projMade_placed) (simp_all add: knowsDest_def assms(6))
  have "balance p k = fint (ledger ?ms k)"
    using projection_is_ledger [OF assms(1)] assms(7,8) by (simp add: p)
  moreover have s: "movesMade ?s tps = concat (map (placed home dest) (map snd tps))"
    using assms(5) by (rule movesMade_placed) (simp_all add: stateKnows_def setHome_def newState_def)
  moreover have same: "mset (concat (map (placed home dest) (map snd tps))) = mset ?ms"
    by (rule mset_concat_map) (rule assms(3))
  moreover have "onHand (foldl moveStock ?s (movesMade ?s tps)) k = fint (ledger (movesMade ?s tps) k)"
  proof (rule stock_is_ledger)
    show "list_all (\<lambda>m. whole (mQty m)) (movesMade ?s tps)"
      using assms(7) mset_eq_setD [OF same] by (simp add: s list_all_iff)
    have "volume (concat (map (placed home dest) (map snd tps))) = volume ?ms"
      using same by (rule volume_mset)
    then show "volume (movesMade ?s tps) < 2 ^ 53" using assms(8) by (simp add: s)
  qed (simp add: setHome_def newState_def)
  ultimately show ?thesis
    using onHand_cong [OF sStock_applyLog, of ?s tps] ledger_mset [OF same, of k] by simp
qed


definition demoShipping :: "wh_payload list" where
  "demoShipping = [GoodsReceived ''r'' ''n'' ''p'' (demoMove External ''d'' 9),
     TransferDispatched ''t'' ''a'' ''b'' [demoMove ''d'' External 4], TransferReceived ''t'' [demoMove External ''x'' 4]]"

definition envelopeOf :: "uint64 \<Rightarrow> instant \<Rightarrow> wh_payload \<Rightarrow> envelope" where
  "envelopeOf n t pl = \<lparr>evId = EventID ''c'' n, evAggregate = ''g'', evType = payloadType pl, evHLC = HLC (of_int t) 0 ''c'',
     evRecordedAt = t, evCausation = None, evPayload = (case marshalWh pl of None \<Rightarrow> NilBytes | Some j \<Rightarrow> JsonBytes j)\<rparr>"

theorem wh_projection_agrees_with_state_demo:
  "case replayProj ''a'' (map (envelopeOf 1 0) demoShipping) projectionSchema of Inl _ \<Rightarrow> False
   | Inr p \<Rightarrow> balance p (WhKey ''w'' ''d'' []) = onHand (applyLog (setHome ''a'' newState) (map (Pair 0) demoShipping)) (WhKey ''w'' ''d'' [])"
proof -
  let ?es = "map (envelopeOf 1 0) demoShipping" and ?dest = "\<lambda>_. ''b''"
  have "case replayProj ''a'' ?es projectionSchema of Inl _ \<Rightarrow> False | Inr _ \<Rightarrow> True" by code_simp
  then obtain p where p: "replayProj ''a'' ?es projectionSchema = Inr p" by (auto split: sum.splits)
  have same: "map snd (map (Pair (0 :: instant)) demoShipping) = demoShipping" by (simp add: comp_def)
  have "balance p (WhKey ''w'' ''d'' []) = onHand (applyLog (setHome ''a'' newState) (map (Pair 0) demoShipping)) (WhKey ''w'' ''d'' []) \<and>
    balance p (WhKey ''w'' ''d'' []) = fint (ledger (concat (map (placed ''a'' ?dest) demoShipping)) (WhKey ''w'' ''d'' []))"
  proof (rule wh_projection_agrees_with_state [OF p])
    show "list_all2 decodesTo ?es demoShipping" by code_simp
    show "mset (map snd (map (Pair (0 :: instant)) demoShipping)) = mset demoShipping" by (simp only: same)
    show "inOrder ?dest [] demoShipping" by code_simp
    then show "inOrder ?dest [] (map snd (map (Pair (0 :: instant)) demoShipping))" by (simp only: same)
    show "list_all (\<lambda>m. whole (mQty m)) (concat (map (placed ''a'' ?dest) demoShipping))" by code_simp
    show "volume (concat (map (placed ''a'' ?dest) demoShipping)) < 2 ^ 53" by code_simp
  qed simp
  with p show ?thesis by simp
qed

end
