(* ===== verification/WhNode.thy ===== *)
theory WhNode
  imports WhViews
begin

text \<open>
  A warehouse node as one service (\<open>warehouse-node/internal/node/service.go\<close>): its log, its read
  models and its in-memory state, opened from the two sets of tables on disk. The mutex makes every
  call atomic. A run is a list of calls, each with the faults of its transactions; stopping is also
  a crash between two calls, and a crash inside one is a fault followed by a stop.
\<close>

section \<open>The service\<close>

record service =
  svLog :: wh_log
  svSet :: proj_db
  svState :: wh_state

fun replayState :: "envelope list \<Rightarrow> wh_state \<Rightarrow> wh_error + wh_state" where
  "replayState [] st = Inr st"
| "replayState (e # es) st = (case applyState st e of Inl err \<Rightarrow> Inl err | Inr st \<Rightarrow> replayState es st)"

definition rebuildState :: "service \<Rightarrow> wh_error option \<times> service" where
  "rebuildState s = (case whReadAll (svLog s) of Inl e \<Rightarrow> (Some e, s)
     | Inr envs \<Rightarrow> (case replayState envs (setHome (wlNode (svLog s)) newState) of
         Inl e \<Rightarrow> (Some e, s)
       | Inr st \<Rightarrow> (None, s\<lparr>svState := st\<rparr>)))"

text \<open>\<open>Open\<close> on the tables of the log and of the read models, and the tables it leaves.\<close>

definition openNode :: "open_faults \<Rightarrow> node_id \<Rightarrow> wh_db \<Rightarrow> proj_db \<Rightarrow> (wh_error + service) \<times> wh_db \<times> proj_db" where
  "openNode o' i db p = (case projOpen o' (whOpen db i) p of
      (Some e, l, p) \<Rightarrow> (Inl e, wlDb l, p)
    | (None, l, p) \<Rightarrow> (case rebuildState \<lparr>svLog = l, svSet = p, svState = setHome i newState\<rparr> of
          (Some e, s) \<Rightarrow> (Inl e, wlDb l, p)
        | (None, s) \<Rightarrow> (Inr s, wlDb l, p)))"

text \<open>\<open>apply\<close>'s loop asks for each envelope's mark before it applies it.\<close>

fun applyPending :: "(event_id \<Rightarrow> db_fault) \<Rightarrow> node_id \<Rightarrow> envelope list \<Rightarrow> proj_db \<Rightarrow> wh_error option \<times> proj_db" where
  "applyPending ff home [] p = (None, p)"
| "applyPending ff home (e # es) p = (case isApplied (evId e) p of Inl err \<Rightarrow> (Some err, p)
     | Inr True \<Rightarrow> applyPending ff home es p
     | Inr False \<Rightarrow> (case projApply (ff (evId e)) home e p of Inl err \<Rightarrow> (Some err, p)
         | Inr p \<Rightarrow> applyPending ff home es p))"

definition serviceApply :: "(event_id \<Rightarrow> db_fault) \<Rightarrow> envelope list \<Rightarrow> service \<Rightarrow> wh_error option \<times> service" where
  "serviceApply ff envs s = (case applyPending ff (wlNode (svLog s)) envs (svSet s) of
      (Some e, p) \<Rightarrow> (Some e, s\<lparr>svSet := p\<rparr>)
    | (None, p) \<Rightarrow> rebuildState (s\<lparr>svSet := p\<rparr>))"

text \<open>A command reads the state and yields its events or refuses.\<close>

type_synonym command = "wh_state \<Rightarrow> wh_error + wh_event list"

definition execute :: "db_fault \<Rightarrow> (event_id \<Rightarrow> db_fault) \<Rightarrow> int64 \<Rightarrow> command \<Rightarrow> service \<Rightarrow>
    (envelope list \<times> wh_error option) \<times> service" where
  "execute f ff now cmd s = (case cmd (svState s) of Inl e \<Rightarrow> (([], Some e), s)
     | Inr events \<Rightarrow> (case whEmit f now None events (svLog s) of
         (Inl e, l) \<Rightarrow> (([], Some e), s\<lparr>svLog := l\<rparr>)
       | (Inr envs, l) \<Rightarrow> (case serviceApply ff envs (s\<lparr>svLog := l\<rparr>) of (err, s) \<Rightarrow> ((envs, err), s))))"

definition ingest :: "db_fault \<Rightarrow> (event_id \<Rightarrow> db_fault) \<Rightarrow> int64 \<Rightarrow> envelope list \<Rightarrow> service \<Rightarrow>
    (nat \<times> wh_error option) \<times> service" where
  "ingest f ff now envs s = (case whIngest f now envs (svLog s) of
      (Inl e, l) \<Rightarrow> ((0, Some e), s\<lparr>svLog := l\<rparr>)
    | (Inr n, l) \<Rightarrow> (case serviceApply ff envs (s\<lparr>svLog := l\<rparr>) of (err, s) \<Rightarrow> ((n, err), s)))"

definition registerLocation :: "db_fault \<Rightarrow> (event_id \<Rightarrow> db_fault) \<Rightarrow> int64 \<Rightarrow> string \<Rightarrow> string \<Rightarrow> service \<Rightarrow>
    wh_error option \<times> service" where
  "registerLocation f ff now code ty s =
     (case execute f ff now (\<lambda>_. doRegisterLocation code ty) s of ((_, err), s) \<Rightarrow> (err, s))"

section \<open>Runs\<close>

datatype wh_node = Down wh_db proj_db | Up service

datatype node_op =
    NodeOpen open_faults
  | NodeExecute db_fault "event_id \<Rightarrow> db_fault" int64 command
  | NodeIngest db_fault "event_id \<Rightarrow> db_fault" int64 "envelope list"
  | NodeStop

definition onService :: "(service \<Rightarrow> service) \<Rightarrow> wh_node \<Rightarrow> wh_node" where
  "onService g n = (case n of Down db p \<Rightarrow> Down db p | Up s \<Rightarrow> Up (g s))"

fun nodeStep :: "node_id \<Rightarrow> node_op \<Rightarrow> wh_node \<Rightarrow> wh_node" where
  "nodeStep i (NodeOpen o') (Down db p) = (case openNode o' i db p of (Inl e, db, p) \<Rightarrow> Down db p | (Inr s, _) \<Rightarrow> Up s)"
| "nodeStep i (NodeOpen o') (Up s) = Up s"
| "nodeStep i (NodeExecute f ff now cmd) n = onService (\<lambda>s. snd (execute f ff now cmd s)) n"
| "nodeStep i (NodeIngest f ff now envs) n = onService (\<lambda>s. snd (ingest f ff now envs s)) n"
| "nodeStep i NodeStop n = (case n of Down db p \<Rightarrow> Down db p | Up s \<Rightarrow> Down (wlDb (svLog s)) (svSet s))"

definition runNode :: "node_id \<Rightarrow> node_op list \<Rightarrow> wh_node \<Rightarrow> wh_node" where
  "runNode i ops n = foldl (\<lambda>n op. nodeStep i op n) n ops"

abbreviation newDisk :: wh_node where
  "newDisk \<equiv> Down whSchema projectionSchema"

fun nodeRows :: "wh_node \<Rightarrow> wh_rows" where
  "nodeRows (Down db p) = whRows db"
| "nodeRows (Up s) = whRows (wlDb (svLog s))"

fun nodeViews :: "wh_node \<Rightarrow> proj_db" where
  "nodeViews (Down db p) = p"
| "nodeViews (Up s) = svSet s"

fun nodeVersion :: "wh_node \<Rightarrow> int64 option" where
  "nodeVersion (Down db p) = whProjVersion db"
| "nodeVersion (Up s) = whProjVersion (wlDb (svLog s))"

section \<open>What the calls do\<close>

lemma applyPending_all: "applyPending ff home es p = projApplyAll ff home es p"
  by (induction es arbitrary: p) (auto simp: projApply_def split: sum.split bool.split)

definition storedIn :: "wh_rows \<Rightarrow> envelope \<Rightarrow> bool" where
  "storedIn rows e \<longleftrightarrow> fmlookup rows (evId e) = Some (rowOfEnv e)"

text \<open>The read models are what folding some of the stored events, each once, gives.\<close>

definition foldsSome :: "node_id \<Rightarrow> wh_rows \<Rightarrow> proj_db \<Rightarrow> envelope list \<Rightarrow> bool" where
  "foldsSome home rows p es \<longleftrightarrow> replayProj home es projectionSchema = Inr p \<and> distinct (map evId es) \<and> list_all (storedIn rows) es"

definition foldedOnce :: "node_id \<Rightarrow> wh_rows \<Rightarrow> proj_db \<Rightarrow> bool" where
  "foldedOnce home rows p \<longleftrightarrow> (\<exists>es. foldsSome home rows p es)"

lemma schema_applied [simp]: "pjApplied projectionSchema = {||}"
  by (simp add: projectionSchema_def)

lemma foldsSome_applied: "foldsSome home rows p es \<Longrightarrow> pjApplied p = fset_of_list (map evId es)"
  using replayProj_applied [of home es projectionSchema p] by (simp add: foldsSome_def)

lemma foldsSome_schema: "foldsSome home rows projectionSchema []"
  by (simp add: foldsSome_def)

lemma projApply_cases:
  assumes "projApply f home e p = Inr p'"
  obtains "evId e |\<in>| pjApplied p" "p' = p" |
    pl where "evId e |\<notin>| pjApplied p" "decodePayload e = Inr pl" "projectAll home e pl p = Inr p'"
  using assms by (auto simp: projApply_def isApplied_def split: if_splits sum.splits bool.splits)

lemma projApply_folds:
  assumes "projApply f home e p = Inr p'" "foldsSome home rows p es" "storedIn rows e"
  shows "\<exists>es'. foldsSome home rows p' es' \<and> pjApplied p' = finsert (evId e) (pjApplied p)"
  using assms(1)
proof (cases rule: projApply_cases)
  case 1
  with assms(2) show ?thesis by auto
next
  case (2 pl)
  then have "replayProj home (es @ [e]) projectionSchema = Inr p'"
    using assms(2) by (simp add: replayProj_append andNext_def foldsSome_def)
  moreover have "evId e \<notin> set (map evId es)"
    using 2(1) unfolding foldsSome_applied [OF assms(2)] by (simp add: fset_of_list_elem fset_of_list.rep_eq)
  ultimately have "foldsSome home rows p' (es @ [e])"
    using assms(2,3) by (auto simp: foldsSome_def)
  with projectAll_stock(2) [OF 2(3)] show ?thesis by blast
qed

lemma projApplyAll_folds:
  assumes "projApplyAll ff home envs p = (err, p')" "foldedOnce home rows p" "list_all (storedIn rows) envs"
  shows "foldedOnce home rows p' \<and> pjApplied p |\<subseteq>| pjApplied p' \<and>
    pjApplied p' |\<subseteq>| pjApplied p |\<union>| fset_of_list (map evId envs) \<and>
    (err = None \<longrightarrow> fset_of_list (map evId envs) |\<subseteq>| pjApplied p')"
  using assms
proof (induction envs arbitrary: p)
  case (Cons e es)
  show ?case
  proof (cases "projApply (ff (evId e)) home e p")
    case (Inl x)
    with Cons.prems show ?thesis by auto
  next
    case (Inr q)
    with Cons.prems(1) have rest: "projApplyAll ff home es q = (err, p')" by simp
    obtain es0 where "foldsSome home rows p es0" using Cons.prems(2) by (auto simp: foldedOnce_def)
    from projApply_folds [OF Inr this] Cons.prems(3) have q: "foldedOnce home rows q" "pjApplied q = finsert (evId e) (pjApplied p)"
      by (auto simp: foldedOnce_def)
    from Cons.IH [OF rest q(1)] Cons.prems(3) q(2) show ?thesis by auto
  qed
qed simp


text \<open>What \<open>ReadAll\<close> returns is the table's rows, every one of them.\<close>

lemma queryRows_stored:
  assumes "queryRows rs = Inr envs" "\<And>i r. (i, r) \<in> set rs \<Longrightarrow> fmlookup rows i = Some r"
  shows "list_all (storedIn rows) envs \<and> map evId envs = map fst rs"
  using assms
proof (induction rs arbitrary: envs)
  case (Cons x rs)
  obtain i r where x: "x = (i, r)" by (cases x)
  from Cons.prems(1) obtain e es where e: "whScan (i, r) = Inr e" and es: "queryRows rs = Inr es" and envs: "envs = e # es"
    by (auto simp: x split: sum.splits)
  have "evId e = i" "rowOfEnv e = r" using e by (auto simp: whScan_def rowOfEnv_def split: if_splits)
  with Cons.IH [OF es] Cons.prems(2) show ?case by (simp add: envs x storedIn_def)
qed simp

lemma readAll_stored:
  assumes "whReadAll l = Inr envs"
  shows "list_all (storedIn (whRows (wlDb l))) envs \<and> distinct (map evId envs) \<and> set (map evId envs) = fset (fmdom (whRows (wlDb l)))"
proof -
  let ?rows = "whRows (wlDb l)"
  let ?xs = "sort_key rowOrder (sorted_list_of_fmap ?rows)"
  have "list_all (storedIn ?rows) envs \<and> map evId envs = map fst ?xs"
    using assms unfolding whReadAll_def by (rule queryRows_stored) (simp add: set_sorted_list_of_fmap)
  moreover have "mset (map fst ?xs) = mset (map fst (sorted_list_of_fmap ?rows))" by (metis mset_map mset_sort)
  then have "distinct (map fst ?xs)" "set (map fst ?xs) = set (map fst (sorted_list_of_fmap ?rows))"
    using distinct_sorted_list_of_fmap [of ?rows] by (metis mset_eq_imp_distinct_iff, metis mset_eq_setD)
  moreover have "set (map fst (sorted_list_of_fmap ?rows)) = fset (fmdom ?rows)"
  proof (rule set_eqI)
    fix i
    have "i \<in> set (map fst (sorted_list_of_fmap ?rows)) \<longleftrightarrow> (\<exists>r. fmlookup ?rows i = Some r)"
      by (force simp flip: set_sorted_list_of_fmap)
    then show "i \<in> set (map fst (sorted_list_of_fmap ?rows)) \<longleftrightarrow> i |\<in>| fmdom ?rows" by (simp only: fmlookup_dom_iff)
  qed
  ultimately show ?thesis by simp
qed

definition growsTo :: "wh_rows \<Rightarrow> wh_rows \<Rightarrow> bool" where
  "growsTo rows rows' \<longleftrightarrow> (\<forall>i r. fmlookup rows i = Some r \<longrightarrow> fmlookup rows' i = Some r)"

lemma growsTo_store: "growsTo rows (storeEnvs rows es)"
  by (simp add: growsTo_def storeEnvs_lookup)

lemma foldedOnce_grows: "foldedOnce home rows p \<Longrightarrow> growsTo rows rows' \<Longrightarrow> foldedOnce home rows' p"
  unfolding foldedOnce_def foldsSome_def growsTo_def storedIn_def list_all_iff by blast

lemma rebuildState_frame [simp]: "svLog (snd (rebuildState s)) = svLog s" "svSet (snd (rebuildState s)) = svSet s"
  by (simp_all add: rebuildState_def split: sum.split)

text \<open>A node whose views carry the current version has them folded from its log.\<close>

definition nodeOk :: "node_id \<Rightarrow> wh_node \<Rightarrow> bool" where
  "nodeOk home n \<longleftrightarrow> (nodeVersion n = Some Version \<longrightarrow> foldedOnce home (nodeRows n) (nodeViews n)) \<and>
     (case n of Down _ _ \<Rightarrow> True | Up s \<Rightarrow> wlNode (svLog s) = home \<and> nodeVersion n = Some Version)"

text \<open>An ingested batch in which an identity stands for one event, the one the log has if it has one.\<close>

definition oneEventEach :: "wh_rows \<Rightarrow> envelope list \<Rightarrow> bool" where
  "oneEventEach rows envs \<longleftrightarrow> list_all (\<lambda>e. list_all (\<lambda>x. evId x = evId e \<longrightarrow> x = e) envs \<and>
     (case fmlookup rows (evId e) of None \<Rightarrow> True | Some r \<Rightarrow> r = rowOfEnv e)) envs"

fun honestOp :: "wh_node \<Rightarrow> node_op \<Rightarrow> bool" where
  "honestOp n (NodeIngest f ff now envs) = oneEventEach (nodeRows n) envs"
| "honestOp n _ = True"

fun honestRun :: "node_id \<Rightarrow> node_op list \<Rightarrow> wh_node \<Rightarrow> bool" where
  "honestRun home [] n = True"
| "honestRun home (op # ops) n = (honestOp n op \<and> honestRun home ops (nodeStep home op n))"

lemma oneEventEach_stored: "oneEventEach rows envs \<Longrightarrow> list_all (storedIn (storeEnvs rows envs)) envs"
  unfolding list_all_iff
proof
  fix e
  assume one: "oneEventEach rows envs" and e: "e \<in> set envs"
  show "storedIn (storeEnvs rows envs) e"
  proof (cases "fmlookup rows (evId e)")
    case None
    obtain x where x: "find (\<lambda>x. evId x = evId e) envs = Some x"
      using e by (cases "find (\<lambda>x. evId x = evId e) envs") (auto simp: find_None_iff)
    then have "x \<in> set envs" "evId x = evId e" by (auto simp: find_Some_iff)
    with one e have "x = e" by (auto simp: oneEventEach_def list_all_iff)
    with x None show ?thesis by (simp add: storedIn_def storeEnvs_lookup)
  next
    case (Some r)
    with one e have "r = rowOfEnv e" by (auto simp: oneEventEach_def list_all_iff)
    with Some show ?thesis by (simp add: storedIn_def storeEnvs_lookup)
  qed
qed

lemma emit_stored:
  assumes "whEmit f now cause events l = (Inr envs, l')"
  shows "list_all (storedIn (whRows (wlDb l'))) envs" "growsTo (whRows (wlDb l)) (whRows (wlDb l'))" "wlNode l' = wlNode l"
    "whProjVersion (wlDb l') = whProjVersion (wlDb l)" "\<forall>e \<in> set envs. fmlookup (whRows (wlDb l)) (evId e) = None"
proof -
  from whEmit_Inr [OF assms] obtain s clk where
    l': "l' = (setWhRows (storeEnvs (whRows (wlDb l)) envs) l)\<lparr>wlSeq := s, wlClock := clk\<rparr>"
    and dist: "distinct (map evId envs)" and new: "\<forall>e \<in> set envs. fmlookup (whRows (wlDb l)) (evId e) = None" by blast
  have "oneEventEach (whRows (wlDb l)) envs"
    using dist new by (auto simp: oneEventEach_def list_all_iff distinct_map inj_on_def)
  then show "list_all (storedIn (whRows (wlDb l'))) envs" by (simp add: l' oneEventEach_stored)
  show "growsTo (whRows (wlDb l)) (whRows (wlDb l'))" "wlNode l' = wlNode l"
    "whProjVersion (wlDb l') = whProjVersion (wlDb l)" by (simp_all add: l' growsTo_store setWhRows_def)
  show "\<forall>e \<in> set envs. fmlookup (whRows (wlDb l)) (evId e) = None" by (rule new)
qed

lemma ingest_stored:
  assumes "whIngest f now envs l = (r, l')"
  shows "(whRows (wlDb l') = whRows (wlDb l) \<and> (\<exists>e. r = Inl e)) \<or> (whRows (wlDb l') = storeEnvs (whRows (wlDb l)) envs \<and> (\<exists>n. r = Inr n))"
    "wlNode l' = wlNode l" "whProjVersion (wlDb l') = whProjVersion (wlDb l)"
proof -
  have "whInsert f True (whRows (wlDb l)) envs = Inr (m, rows) \<Longrightarrow> rows = storeEnvs (whRows (wlDb l)) envs" for m rows
    using insertLoop_Inr [OF whInsert_Inr] by blast
  then show "(whRows (wlDb l') = whRows (wlDb l) \<and> (\<exists>e. r = Inl e)) \<or> (whRows (wlDb l') = storeEnvs (whRows (wlDb l)) envs \<and> (\<exists>n. r = Inr n))"
    using assms by (auto simp: whIngest_def Let_def split: sum.splits if_splits)
  show "wlNode l' = wlNode l" "whProjVersion (wlDb l') = whProjVersion (wlDb l)"
    using assms by (auto simp: whIngest_def Let_def setWhRows_def split: sum.splits if_splits)
qed

lemma serviceApply_frame [simp]: "svLog (snd (serviceApply ff envs s)) = svLog s"
  by (simp add: serviceApply_def split: prod.split option.split)

lemma serviceApply_folds:
  assumes "foldedOnce (wlNode (svLog s)) rows (svSet s)" "list_all (storedIn rows) envs"
  shows "foldedOnce (wlNode (svLog s)) rows (svSet (snd (serviceApply ff envs s)))"
proof -
  obtain err p where a: "projApplyAll ff (wlNode (svLog s)) envs (svSet s) = (err, p)" by fastforce
  from projApplyAll_folds [OF a assms] show ?thesis
    by (simp add: serviceApply_def applyPending_all a split: option.split)
qed


section \<open>Opening\<close>

lemma clearTables_all: "length projectionTables \<le> n \<Longrightarrow> clearTables n p = projectionSchema"
  by (simp add: clearTables_def projectionTables_def projectionSchema_def)

lemma catchUp_folds:
  assumes "catchUp ff l p = (err, p')" "foldedOnce (wlNode l) (whRows (wlDb l)) p"
  shows "foldedOnce (wlNode l) (whRows (wlDb l)) p' \<and> (err = None \<longrightarrow> fmdom (whRows (wlDb l)) |\<subseteq>| pjApplied p')"
proof (cases "whReadAll l")
  case (Inl e)
  with assms show ?thesis by (auto simp: catchUp_def)
next
  case (Inr envs)
  with assms(1) have a: "projApplyAll ff (wlNode l) envs p = (err, p')" by (simp add: catchUp_def)
  from readAll_stored [OF Inr] have st: "list_all (storedIn (whRows (wlDb l))) envs"
    and ids: "fset_of_list (map evId envs) = fmdom (whRows (wlDb l))"
    by (simp_all add: fset_of_list.rep_eq flip: fset_inject)
  from projApplyAll_folds [OF a assms(2) st] show ?thesis unfolding ids by blast
qed

lemma projOpen_folds:
  assumes "projOpen o' l p = (err, l', p')" "whProjVersion (wlDb l) = Some Version \<longrightarrow> foldedOnce (wlNode l) (whRows (wlDb l)) p"
  shows "whRows (wlDb l') = whRows (wlDb l)" "wlNode l' = wlNode l"
    "whProjVersion (wlDb l') = Some Version \<longrightarrow> foldedOnce (wlNode l) (whRows (wlDb l)) p'"
    "err = None \<longrightarrow> whProjVersion (wlDb l') = Some Version \<and> fmdom (whRows (wlDb l)) |\<subseteq>| pjApplied p'"
proof -
  have "whRows (wlDb l') = whRows (wlDb l) \<and> wlNode l' = wlNode l \<and>
    (whProjVersion (wlDb l') = Some Version \<longrightarrow> foldedOnce (wlNode l) (whRows (wlDb l)) p') \<and>
    (err = None \<longrightarrow> whProjVersion (wlDb l') = Some Version \<and> fmdom (whRows (wlDb l)) |\<subseteq>| pjApplied p')"
  proof (cases "whProjectionVersion l \<noteq> Version")
    case True
    then have old: "whProjVersion (wlDb l) \<noteq> Some Version" by (auto simp: whProjectionVersion_def)
    from True assms(1) have r: "rebuild o' l p = (err, l', p')" by (simp add: projOpen_def)
    show ?thesis
    proof (cases "osCleared o' < length projectionTables")
      case True
      with r old show ?thesis by (auto simp: rebuild_def Let_def)
    next
      case False
      then have "clearTables (osCleared o') p = projectionSchema" by (intro clearTables_all) simp
      moreover obtain err1 p1 where c: "catchUp (osApply o') l projectionSchema = (err1, p1)" by fastforce
      moreover have "foldedOnce (wlNode l) (whRows (wlDb l)) projectionSchema" using foldsSome_schema by (auto simp: foldedOnce_def)
      from catchUp_folds [OF c this] have "foldedOnce (wlNode l) (whRows (wlDb l)) p1"
        "err1 = None \<longrightarrow> fmdom (whRows (wlDb l)) |\<subseteq>| pjApplied p1" by simp_all
      ultimately show ?thesis
        using r False old by (auto simp: rebuild_def Let_def whSetProjectionVersion_def split: option.splits sum.splits if_splits)
    qed
  next
    case False
    show ?thesis
    proof (cases "whProjVersion (wlDb l)")
      case None
      with False show ?thesis by (simp add: whProjectionVersion_def Version_def)
    next
      case (Some v)
      with False have v: "whProjVersion (wlDb l) = Some Version" by (simp add: whProjectionVersion_def)
      from False assms(1) have l': "l' = l" and c: "catchUp (osApply o') l p = (err, p')"
        by (auto simp: projOpen_def split: prod.splits)
      from catchUp_folds [OF c] assms(2) v l' show ?thesis by simp
    qed
  qed
  then show "whRows (wlDb l') = whRows (wlDb l)" "wlNode l' = wlNode l"
    "whProjVersion (wlDb l') = Some Version \<longrightarrow> foldedOnce (wlNode l) (whRows (wlDb l)) p'"
    "err = None \<longrightarrow> whProjVersion (wlDb l') = Some Version \<and> fmdom (whRows (wlDb l)) |\<subseteq>| pjApplied p'" by blast+
qed

lemma whOpen_frame [simp]: "wlDb (whOpen db i) = db" "wlNode (whOpen db i) = i"
  by (simp_all add: whOpen_def)

text \<open>A failed opening leaves tables of which the invariant holds still; a successful one a whole service.\<close>

lemma openNode_Inl:
  assumes "openNode o' i db p = (Inl e, db', p')" "nodeOk i (Down db p)"
  shows "nodeOk i (Down db' p')" "whRows db' = whRows db"
proof -
  obtain err l1 p1 where po: "projOpen o' (whOpen db i) p = (err, l1, p1)" by (cases "projOpen o' (whOpen db i) p")
  have old: "whProjVersion (wlDb (whOpen db i)) = Some Version \<longrightarrow> foldedOnce (wlNode (whOpen db i)) (whRows (wlDb (whOpen db i))) p"
    using assms(2) by (simp add: nodeOk_def)
  note f = projOpen_folds [OF po old]
  have "db' = wlDb l1 \<and> p' = p1"
    using assms(1) by (auto simp: openNode_def po split: option.splits prod.splits)
  with f show "nodeOk i (Down db' p')" "whRows db' = whRows db" by (simp_all add: nodeOk_def)
qed

lemma openNode_Inr:
  assumes "openNode o' i db p = (Inr s, r)" "nodeOk i (Down db p)"
  shows "nodeOk i (Up s)" "whRows (wlDb (svLog s)) = whRows db" "fmdom (whRows db) |\<subseteq>| pjApplied (svSet s)"
    "\<exists>envs. whReadAll (svLog s) = Inr envs \<and> replayState envs (setHome i newState) = Inr (svState s)"
proof -
  obtain err l1 p1 where po: "projOpen o' (whOpen db i) p = (err, l1, p1)" by (cases "projOpen o' (whOpen db i) p")
  have old: "whProjVersion (wlDb (whOpen db i)) = Some Version \<longrightarrow> foldedOnce (wlNode (whOpen db i)) (whRows (wlDb (whOpen db i))) p"
    using assms(2) by (simp add: nodeOk_def)
  note f = projOpen_folds [OF po old]
  have err: "err = None" and rb: "rebuildState \<lparr>svLog = l1, svSet = p1, svState = setHome i newState\<rparr> = (None, s)"
    using assms(1) by (auto simp: openNode_def po split: option.splits prod.splits)
  have s: "svLog s = l1" "svSet s = p1" using rebuildState_frame [of "\<lparr>svLog = l1, svSet = p1, svState = setHome i newState\<rparr>"] rb by simp_all
  show "nodeOk i (Up s)" "whRows (wlDb (svLog s)) = whRows db" "fmdom (whRows db) |\<subseteq>| pjApplied (svSet s)"
    using f err by (simp_all add: nodeOk_def s)
  show "\<exists>envs. whReadAll (svLog s) = Inr envs \<and> replayState envs (setHome i newState) = Inr (svState s)"
    using rb f(2) by (auto simp: rebuildState_def s split: sum.splits)
qed

lemma nodeOk_service:
  assumes "nodeOk home (Up s)" "growsTo (whRows (wlDb (svLog s))) (whRows (wlDb l))" "wlNode l = wlNode (svLog s)"
    "whProjVersion (wlDb l) = whProjVersion (wlDb (svLog s))" "list_all (storedIn (whRows (wlDb l))) envs"
  shows "nodeOk home (Up (s\<lparr>svLog := l\<rparr>))" "nodeOk home (Up (snd (serviceApply ff envs (s\<lparr>svLog := l\<rparr>))))"
proof -
  have ok: "foldedOnce home (whRows (wlDb l)) (svSet s)" "wlNode (svLog s) = home" "whProjVersion (wlDb l) = Some Version"
    using assms(1,4) foldedOnce_grows [OF _ assms(2), of home "svSet s"] by (auto simp: nodeOk_def)
  then show "nodeOk home (Up (s\<lparr>svLog := l\<rparr>))" using assms(3) by (simp add: nodeOk_def)
  show "nodeOk home (Up (snd (serviceApply ff envs (s\<lparr>svLog := l\<rparr>))))"
    using serviceApply_folds [of "s\<lparr>svLog := l\<rparr>" "whRows (wlDb l)" envs ff] ok assms(3,5) by (simp add: nodeOk_def)
qed

lemma execute_ok: "nodeOk home (Up s) \<Longrightarrow> nodeOk home (Up (snd (execute f ff now cmd s)))"
proof (cases "cmd (svState s)")
  case (Inr events)
  assume ok: "nodeOk home (Up s)"
  obtain r l where em: "whEmit f now None events (svLog s) = (r, l)" by fastforce
  show ?thesis
  proof (cases r)
    case (Inl e)
    with em have "l = svLog s" using whEmit_Inl by blast
    with ok show ?thesis by (simp add: execute_def Inr em Inl)
  next
    case r: (Inr envs)
    from emit_stored [OF em [unfolded r]] nodeOk_service(2) [OF ok, of l envs ff] show ?thesis
      by (simp add: execute_def Inr em r split: prod.split) (metis snd_conv)
  qed
qed (simp add: execute_def)

lemma ingest_ok:
  assumes ok: "nodeOk home (Up s)" and one: "oneEventEach (whRows (wlDb (svLog s))) envs"
  shows "nodeOk home (Up (snd (ingest f ff now envs s)))"
proof -
  obtain r l where i: "whIngest f now envs (svLog s) = (r, l)" by fastforce
  note st = ingest_stored [OF i]
  show ?thesis
  proof (cases r)
    case (Inl e)
    with st(1) have "growsTo (whRows (wlDb (svLog s))) (whRows (wlDb l))" by (auto simp: growsTo_def)
    from nodeOk_service(1) [OF ok this st(2,3), of "[]"] show ?thesis by (simp add: ingest_def i Inl)
  next
    case (Inr n)
    with st(1) have rows: "whRows (wlDb l) = storeEnvs (whRows (wlDb (svLog s))) envs" by auto
    from nodeOk_service(2) [OF ok _ st(2,3), of envs ff] oneEventEach_stored [OF one] show ?thesis
      by (simp add: rows growsTo_store ingest_def i Inr split: prod.split) (metis snd_conv)
  qed
qed

lemma nodeStep_ok:
  assumes "nodeOk home n" "honestOp n op"
  shows "nodeOk home (nodeStep home op n)"
proof (cases n)
  case (Down db p)
  show ?thesis
  proof (cases op)
    case (NodeOpen o')
    obtain r db' p' where o: "openNode o' home db p = (r, db', p')" by (cases "openNode o' home db p")
    show ?thesis
      using openNode_Inl(1) openNode_Inr(1) o assms(1) by (cases r) (auto simp: Down NodeOpen)
  qed (use assms(1) in \<open>simp_all add: Down onService_def\<close>)
next
  case (Up s)
  show ?thesis
  proof (cases op)
    case (NodeExecute f ff now cmd)
    with assms(1) Up execute_ok show ?thesis by (simp add: onService_def)
  next
    case (NodeIngest f ff now envs)
    with assms Up ingest_ok show ?thesis by (simp add: onService_def)
  next
    case NodeStop
    with assms(1) Up show ?thesis by (simp add: nodeOk_def)
  qed (use assms(1) in \<open>simp add: Up\<close>)
qed

lemma runNode_ok:
  assumes "honestRun home ops n" "nodeOk home n"
  shows "nodeOk home (runNode home ops n)"
  using assms
proof (induction ops arbitrary: n)
  case (Cons op ops)
  from nodeStep_ok [of home n op] Cons.prems have "nodeOk home (nodeStep home op n)" by simp
  from Cons.IH [OF _ this] Cons.prems(1) show ?case by (simp add: runNode_def)
qed (simp add: runNode_def)

lemma newDisk_ok: "nodeOk home newDisk"
  by (simp add: nodeOk_def whSchema_def)

text \<open>
  C11. Through any sequence of openings, commands, ingested batches, crashes and failed
  transactions, what a running node's read models hold is some of its log's events, each folded in
  exactly once: nothing a transaction left half done shows, no re-delivery counts twice, and no
  event shows that the log does not hold.
\<close>

theorem wh_views_fold_each_event_once:
  assumes "honestRun home ops newDisk" "runNode home ops newDisk = Up s"
  shows "foldedOnce home (whRows (wlDb (svLog s))) (svSet s)"
  using runNode_ok [OF assms(1) newDisk_ok] assms(2) by (simp add: nodeOk_def)

text \<open>Stored events are determined by their identities.\<close>

lemma stored_same: "storedIn rows e \<Longrightarrow> storedIn rows x \<Longrightarrow> evId e = evId x \<Longrightarrow> e = x"
proof -
  assume "storedIn rows e" "storedIn rows x" "evId e = evId x"
  then have "rowOfEnv e = rowOfEnv x" "evId e = evId x" by (simp_all add: storedIn_def)
  then show "e = x" by (cases e; cases x; cases "evHLC e"; cases "evHLC x") (simp add: rowOfEnv_def)
qed

lemma stored_mset:
  assumes "list_all (storedIn rows) es" "list_all (storedIn rows) fs" "distinct (map evId es)" "distinct (map evId fs)"
    and "set (map evId es) = set (map evId fs)"
  shows "mset es = mset fs"
proof (rule mset_eq_of_distinct)
  have "e \<in> set fs" if "e \<in> set es" "set (map evId es) = set (map evId fs)" "list_all (storedIn rows) es" "list_all (storedIn rows) fs"
    for e es fs
  proof -
    have "evId e \<in> set (map evId fs)" using that(1,2) by (metis image_eqI list.set_map)
    then obtain x where x: "x \<in> set fs" "evId x = evId e" by auto
    then have "x = e" using that(1,3,4) by (intro stored_same [of rows]) (simp_all add: list_all_iff)
    with x show ?thesis by simp
  qed
  from this [OF _ assms(5,1,2)] this [OF _ assms(5) [symmetric] assms(2,1)] show "set es = set fs" by blast
qed (use assms(3,4) in \<open>simp_all add: distinct_map\<close>)

text \<open>
  C6. A successful opening, after any history, brings the read models and the state up to the whole
  log: the read models are all of the log's events, each folded in once, in the order they were
  first applied, and the state is the replay of the same events in the order of their clocks. No
  event of the log is lost by the opening itself.
\<close>

theorem wh_open_covers_the_log:
  assumes "honestRun home ops newDisk" "runNode home ops newDisk = Down db p" "openNode o' home db p = (Inr s, r)"
  shows "\<exists>es envs. foldsSome home (whRows db) (svSet s) es \<and> whReadAll (svLog s) = Inr envs \<and> mset es = mset envs \<and>
    set (map evId envs) = fset (fmdom (whRows db)) \<and> replayState envs (setHome home newState) = Inr (svState s)"
proof -
  have "nodeOk home (Down db p)" using runNode_ok [OF assms(1) newDisk_ok] assms(2) by simp
  note o = openNode_Inr [OF assms(3) this]
  from o(4) obtain envs where envs: "whReadAll (svLog s) = Inr envs" "replayState envs (setHome home newState) = Inr (svState s)" by blast
  from o(1,2) obtain es where es: "foldsSome home (whRows db) (svSet s) es" by (auto simp: nodeOk_def foldedOnce_def)
  note st = readAll_stored [OF envs(1), unfolded o(2)]
  have es': "list_all (storedIn (whRows db)) es" "distinct (map evId es)" using es by (simp_all add: foldsSome_def)
  have "set (map evId es) \<subseteq> fset (fmdom (whRows db))" using es'(1) by (auto simp: list_all_iff storedIn_def fmdomI)
  moreover have "fset (fmdom (whRows db)) \<subseteq> set (map evId es)"
    using o(3) unfolding foldsSome_applied [OF es] by (simp add: less_eq_fset.rep_eq fset_of_list.rep_eq)
  ultimately have "mset es = mset envs" using es' st by (intro stored_mset [of "whRows db"]) auto
  with es envs st show ?thesis by blast
qed


section \<open>What a failed projection leaves\<close>

lemma projApplyAll_marks:
  "projApplyAll ff home envs p = (err, p') \<Longrightarrow> pjApplied p' |\<subseteq>| pjApplied p |\<union>| fset_of_list (map evId envs)"
proof (induction envs arbitrary: p)
  case (Cons e es)
  show ?case
  proof (cases "projApply (ff (evId e)) home e p")
    case (Inl x)
    with Cons.prems show ?thesis by auto
  next
    case (Inr q)
    with Cons.prems have rest: "projApplyAll ff home es q = (err, p')" by simp
    have "pjApplied q |\<subseteq>| finsert (evId e) (pjApplied p)"
      using Inr by (cases rule: projApply_cases) (auto dest: projectAll_stock(2))
    with Cons.IH [OF rest] show ?thesis by auto
  qed
qed simp

lemma serviceApply_marks:
  "pjApplied (svSet (snd (serviceApply ff envs s))) |\<subseteq>| pjApplied (svSet s) |\<union>| fset_of_list (map evId envs)"
proof -
  obtain err p where a: "projApplyAll ff (wlNode (svLog s)) envs (svSet s) = (err, p)" by fastforce
  from projApplyAll_marks [OF a] show ?thesis by (simp add: serviceApply_def applyPending_all a split: option.split)
qed

text \<open>A call that is not told of an event by anyone else.\<close>

fun withoutEvent :: "event_id \<Rightarrow> node_op \<Rightarrow> bool" where
  "withoutEvent i (NodeIngest f ff now envs) = (i \<notin> set (map evId envs))"
| "withoutEvent i NodeStop = False"
| "withoutEvent i _ = True"

definition missed :: "event_id \<Rightarrow> service \<Rightarrow> bool" where
  "missed i s \<longleftrightarrow> i |\<in>| fmdom (whRows (wlDb (svLog s))) \<and> i |\<notin>| pjApplied (svSet s)"

lemma missed_call:
  assumes "missed i s" "growsTo (whRows (wlDb (svLog s))) (whRows (wlDb l))" "i \<notin> set (map evId envs)"
  shows "missed i (s\<lparr>svLog := l\<rparr>)" "missed i (snd (serviceApply ff envs (s\<lparr>svLog := l\<rparr>)))"
proof -
  show m: "missed i (s\<lparr>svLog := l\<rparr>)"
    using assms(1,2) unfolding missed_def growsTo_def fmlookup_dom_iff by auto
  have "i |\<notin>| pjApplied (svSet (snd (serviceApply ff envs (s\<lparr>svLog := l\<rparr>))))"
    using serviceApply_marks [of ff envs "s\<lparr>svLog := l\<rparr>"] assms(1,3)
    by (auto simp: missed_def fset_of_list_elem dest!: fsubsetD)
  with m show "missed i (snd (serviceApply ff envs (s\<lparr>svLog := l\<rparr>)))" by (simp add: missed_def)
qed

lemma missed_step:
  assumes "missed i s" "withoutEvent i op"
  shows "\<exists>s'. nodeStep home op (Up s) = Up s' \<and> missed i s'"
proof (cases op)
  case (NodeExecute f ff now cmd)
  have "missed i (snd (execute f ff now cmd s))"
  proof (cases "cmd (svState s)")
    case (Inr events)
    obtain r l where em: "whEmit f now None events (svLog s) = (r, l)" by fastforce
    show ?thesis
    proof (cases r)
      case (Inl e)
      with em have "l = svLog s" using whEmit_Inl by blast
      with assms(1) show ?thesis by (simp add: execute_def Inr em Inl)
    next
      case r: (Inr envs)
      note st = emit_stored [OF em [unfolded r]]
      have "i \<notin> set (map evId envs)"
        using st(5) assms(1) unfolding missed_def fmlookup_dom_iff by auto
      from missed_call(2) [OF assms(1) st(2) this, of ff] show ?thesis
        by (simp add: execute_def Inr em r split: prod.split) (metis snd_conv)
    qed
  qed (use assms(1) in \<open>simp add: execute_def\<close>)
  then show ?thesis by (simp add: NodeExecute onService_def)
next
  case (NodeIngest f ff now envs)
  obtain r l where ing: "whIngest f now envs (svLog s) = (r, l)" by fastforce
  note st = ingest_stored [OF ing]
  have grows: "growsTo (whRows (wlDb (svLog s))) (whRows (wlDb l))"
    using st(1) growsTo_store by (auto simp: growsTo_def)
  have "missed i (snd (ingest f ff now envs s))"
    using missed_call(1) [OF assms(1) grows, of envs] missed_call(2) [OF assms(1) grows, of envs ff] assms(2)
    by (simp add: NodeIngest ingest_def ing split: sum.split prod.split) (metis snd_conv)
  then show ?thesis by (simp add: NodeIngest onService_def)
qed (use assms in simp_all)

text \<open>
  C29. An event whose projection failed after its emission is in the log, and in the state from the
  next successful call on, but stays out of the read models whatever the service does from then
  on: no command and no batch without that event folds it in, only a restart (or central sending
  the event itself) does.
\<close>

theorem wh_missed_event_waits_for_restart:
  assumes "missed i s" "list_all (withoutEvent i) ops"
  shows "\<exists>s'. runNode home ops (Up s) = Up s' \<and> missed i s'"
  using assms
proof (induction ops arbitrary: s)
  case (Cons op ops)
  from missed_step [OF Cons.prems(1), of op home] Cons.prems(2) obtain s1
    where "nodeStep home op (Up s) = Up s1" "missed i s1" by auto
  with Cons.IH [of s1] Cons.prems(2) show ?case by (simp add: runNode_def)
qed (simp add: runNode_def)

section \<open>An event that does not decode\<close>

lemma projOpen_rows: "projOpen o' l p = (err, l', p') \<Longrightarrow> whRows (wlDb l') = whRows (wlDb l)"
  by (auto simp: projOpen_def rebuild_def Let_def whSetProjectionVersion_def
      split: if_splits prod.splits option.splits sum.splits)

lemma replayState_fails: "e \<in> set es \<Longrightarrow> decodePayload e = Inl err \<Longrightarrow> \<exists>err'. replayState es st = Inl err'"
  by (induction es arbitrary: st) (auto simp: applyState_def split: sum.split)

lemma readAll_in:
  assumes "whReadAll l = Inr envs" "storedIn (whRows (wlDb l)) e"
  shows "e \<in> set envs"
proof -
  note r = readAll_stored [OF assms(1)]
  have "evId e \<in> set (map evId envs)" using r assms(2) by (simp add: storedIn_def fmdomI)
  then obtain x where x: "x \<in> set envs" "evId x = evId e" by auto
  with r have "storedIn (whRows (wlDb l)) x" by (simp add: list_all_iff)
  from stored_same [OF this assms(2)] x show ?thesis by simp
qed

lemma openNode_undecodable:
  assumes "storedIn (whRows db) e" "decodePayload e = Inl err"
  shows "\<exists>err' db' p'. openNode o' i db p = (Inl err', db', p') \<and> whRows db' = whRows db"
proof -
  obtain r l1 p1 where po: "projOpen o' (whOpen db i) p = (r, l1, p1)" by (cases "projOpen o' (whOpen db i) p")
  have rows: "whRows (wlDb l1) = whRows db" using projOpen_rows [OF po] by simp
  have "\<exists>err'. fst (rebuildState \<lparr>svLog = l1, svSet = p1, svState = setHome i newState\<rparr>) = Some err'"
  proof (cases "whReadAll l1")
    case (Inr envs)
    with readAll_in [OF Inr] assms rows have "e \<in> set envs" by simp
    from replayState_fails [OF this assms(2), of "setHome (wlNode l1) newState"] Inr show ?thesis
      by (auto simp: rebuildState_def)
  qed (simp add: rebuildState_def)
  with rows show ?thesis by (cases r) (auto simp: openNode_def po split: prod.split)
qed

lemma down_stays:
  "storedIn (whRows db) e \<Longrightarrow> decodePayload e = Inl err \<Longrightarrow> \<exists>db' p'. runNode home ops (Down db p) = Down db' p'"
proof (induction ops arbitrary: db p)
  case (Cons op ops)
  have "\<exists>db' p'. nodeStep home op (Down db p) = Down db' p' \<and> whRows db' = whRows db"
  proof (cases op)
    case (NodeOpen o')
    from openNode_undecodable [OF Cons.prems, of o' home p] show ?thesis by (auto simp: NodeOpen)
  qed (simp_all add: onService_def)
  then obtain db' p' where "nodeStep home op (Down db p) = Down db' p'" "whRows db' = whRows db" by blast
  with Cons.IH [of db' p'] Cons.prems show ?case by (simp add: runNode_def)
qed (simp add: runNode_def)

text \<open>
  C28. An ingested event whose payload does not decode, of a type this version does not know for
  one, is stored before it is decoded: the call reports an error, but once the node stops it never
  opens again, whatever is tried, since every opening replays the log and fails at that event.
\<close>

theorem wh_undecodable_event_bars_the_node:
  assumes "oneEventEach (whRows (wlDb (svLog s))) envs" "list_all (\<lambda>e. \<not> rowRefused e) envs"
    and "e \<in> set envs" "decodePayload e = Inl err"
  shows "\<exists>db p. runNode home (NodeIngest DbOk ff now envs # NodeStop # ops) (Up s) = Down db p"
proof -
  obtain r l where ing: "whIngest DbOk now envs (svLog s) = (r, l)" by fastforce
  obtain m where "insertLoop DbOk True 0 (whRows (wlDb (svLog s))) envs = Inr (m, storeEnvs (whRows (wlDb (svLog s))) envs)"
    using insertLoop_ignore [of DbOk envs] assms(2) by blast
  with ing have "\<exists>n. r = Inr n" by (auto simp: whIngest_def whInsert_def Let_def)
  with ingest_stored(1) [OF ing] have rows: "whRows (wlDb l) = storeEnvs (whRows (wlDb (svLog s))) envs" by auto
  have "storedIn (whRows (wlDb l)) e" unfolding rows using oneEventEach_stored [OF assms(1)] assms(3) by (simp add: list_all_iff)
  moreover obtain err' s' where a: "serviceApply ff envs (s\<lparr>svLog := l\<rparr>) = (err', s')" by fastforce
  moreover have "svLog s' = l" using serviceApply_frame [of ff envs "s\<lparr>svLog := l\<rparr>"] by (simp add: a)
  ultimately have "storedIn (whRows (wlDb l)) e" "svLog (snd (ingest DbOk ff now envs s)) = l"
    using \<open>\<exists>n. r = Inr n\<close> by (auto simp: ingest_def ing)
  then show ?thesis
    using down_stays [of "wlDb l" e err home ops] assms(4) by (simp add: runNode_def onService_def)
qed

section \<open>At concrete inputs\<close>

definition noFaults :: open_faults where
  "noFaults = \<lparr>osCleared = 6, osApply = \<lambda>_. DbOk, osVersion = DbOk\<rparr>"

definition centralEvent :: "uint64 \<Rightarrow> int64 \<Rightarrow> string \<Rightarrow> json \<Rightarrow> envelope" where
  "centralEvent n w ty j = \<lparr>evId = EventID ''central'' n, evAggregate = ''g'', evType = ty, evHLC = HLC w 0 ''central'',
     evRecordedAt = 0, evCausation = None, evPayload = JsonBytes j\<rparr>"

definition demoBatch :: "envelope list" where
  "demoBatch = [centralEvent 1 5 ''ItemUpserted'' (JObj [(''item'', JObj [(''sku'', JStr ''w''), (''base_uom'', JStr ''ea'')])])]"

definition demoOps :: "node_op list" where
  "demoOps = [NodeOpen noFaults, NodeIngest DbOk (\<lambda>_. DbOk) 1 demoBatch,
     NodeExecute DbOk (\<lambda>_. DbOk) 2 (\<lambda>_. doRegisterLocation ''d'' LocReceiving),
     NodeExecute DbOk (\<lambda>i. if idSeq i = 4 then FailCommit else DbOk) 3 (\<lambda>st. doReceive st ''r'' ''n'' ''p'' (demoLine (fint 5)) ''d''),
     NodeExecute DbOk (\<lambda>_. DbOk) 4 (\<lambda>st. doStartCount st ''c'' ''d'')]"

definition balancesOf :: "wh_key \<Rightarrow> wh_node \<Rightarrow> (float64 \<times> float64) option" where
  "balancesOf k n = (case n of Down _ _ \<Rightarrow> None | Up s \<Rightarrow> Some (balance (svSet s) k, onHand (svState s) k))"


text \<open>The receipt's second event fails to be projected: the state counts the stock, the table does not.\<close>

lemma missed_receipt:
  "balancesOf (WhKey ''w'' ''d'' []) (runNode ''n'' demoOps newDisk) = Some (0, fint 5)"
  by code_simp

definition demoMissed :: service where
  "demoMissed = \<lparr>svLog = whOpen (whSchema\<lparr>whRows := storeEnvs fmempty [demoEnv 1 4]\<rparr>) ''n'', svSet = projectionSchema,
     svState = setHome ''n'' newState\<rparr>"

theorem wh_missed_event_waits_for_restart_demo:
  "\<exists>s'. runNode ''n'' [NodeExecute DbOk (\<lambda>_. DbOk) 2 (\<lambda>_. doRegisterLocation ''d'' LocReceiving)] (Up demoMissed) = Up s' \<and>
     missed (EventID ''m'' 1) s'"
proof (rule wh_missed_event_waits_for_restart)
  show "missed (EventID ''m'' 1) demoMissed" by code_simp
qed simp

definition demoUnknown :: envelope where
  "demoUnknown = centralEvent 2 9 ''StockFrozen'' (JObj [])"

theorem wh_undecodable_event_bars_the_node_demo:
  "\<exists>db p. runNode ''n'' (NodeIngest DbOk (\<lambda>_. DbOk) 1 [demoUnknown] # NodeStop # [NodeOpen noFaults]) (Up demoMissed) = Down db p"
proof (rule wh_undecodable_event_bars_the_node)
  show "oneEventEach (whRows (wlDb (svLog demoMissed))) [demoUnknown]" by code_simp
  show "list_all (\<lambda>e. \<not> rowRefused e) [demoUnknown]" by code_simp
  show "decodePayload demoUnknown = Inl (UnknownEventType ''StockFrozen'')"
    by (simp add: decodePayload_def demoUnknown_def centralEvent_def payloadTypes_def)
qed simp

definition nodeUp :: "wh_node \<Rightarrow> bool" where
  "nodeUp n = (case n of Up _ \<Rightarrow> True | Down _ _ \<Rightarrow> False)"

theorem wh_views_fold_each_event_once_demo:
  "case runNode ''n'' (take 3 demoOps) newDisk of Down _ _ \<Rightarrow> False
   | Up s \<Rightarrow> foldedOnce ''n'' (whRows (wlDb (svLog s))) (svSet s)"
proof -
  have "nodeUp (runNode ''n'' (take 3 demoOps) newDisk)" by code_simp
  then obtain s where s: "runNode ''n'' (take 3 demoOps) newDisk = Up s" by (auto simp: nodeUp_def split: wh_node.splits)
  moreover have "honestRun ''n'' (take 3 demoOps) newDisk" by code_simp
  ultimately show ?thesis using wh_views_fold_each_event_once [of "''n''" "take 3 demoOps" s] by simp
qed

definition demoStopped :: "node_op list" where
  "demoStopped = take 3 demoOps @ [NodeStop]"

definition opensFrom :: "wh_node \<Rightarrow> bool" where
  "opensFrom n = (case n of Up _ \<Rightarrow> False | Down db p \<Rightarrow> (case fst (openNode noFaults ''n'' db p) of Inl _ \<Rightarrow> False | Inr _ \<Rightarrow> True))"

theorem wh_open_covers_the_log_demo:
  "case runNode ''n'' demoStopped newDisk of Up _ \<Rightarrow> False
   | Down db p \<Rightarrow> (case fst (openNode noFaults ''n'' db p) of Inl _ \<Rightarrow> False
     | Inr s \<Rightarrow> (\<exists>es envs. foldsSome ''n'' (whRows db) (svSet s) es \<and> whReadAll (svLog s) = Inr envs \<and> mset es = mset envs \<and>
         set (map evId envs) = fset (fmdom (whRows db)) \<and> replayState envs (setHome ''n'' newState) = Inr (svState s)))"
proof -
  have "opensFrom (runNode ''n'' demoStopped newDisk)" by code_simp
  then obtain db p s where d1: "runNode ''n'' demoStopped newDisk = Down db p" "fst (openNode noFaults ''n'' db p) = Inr s"
    by (auto simp: opensFrom_def split: wh_node.splits sum.splits)
  moreover obtain r where "openNode noFaults ''n'' db p = (Inr s, r)"
    using d1(2) by (cases "openNode noFaults ''n'' db p") simp
  moreover have "honestRun ''n'' demoStopped newDisk" by code_simp
  ultimately show ?thesis using wh_open_covers_the_log [of "''n''" demoStopped db p noFaults s r] by simp
qed

end
