(* ===== verification/WhWire.thy ===== *)
theory WhWire
  imports WhEvent LabSync
begin

text \<open>
  The wire form of the warehouse's envelopes and the batches they travel in
  (\<open>warehouse-node/internal/sync/codec.go\<close>). The length of a payload's bytes is a parameter, since a
  payload is a JSON tree here.
\<close>

section \<open>Events\<close>

text \<open>Message-valued fields are pointers, which may be nil.\<close>

record wire_envelope =
  wvId :: "event_id option"
  wvAggregate :: string
  wvType :: string
  wvHlc :: "wh_hlc option"
  wvRecordedAtUnixNano :: int64
  wvPayload :: bytes
  wvCausation :: "event_id option"

definition encodeEnvelope :: "envelope \<Rightarrow> wire_envelope" where
  "encodeEnvelope env = \<lparr>wvId = Some (evId env), wvAggregate = evAggregate env, wvType = evType env, wvHlc = Some (evHLC env),
     wvRecordedAtUnixNano = word_of_int (evRecordedAt env), wvPayload = evPayload env, wvCausation = evCausation env\<rparr>"

datatype undecodable =
    NilFrame | NoIdentity | EmptyType event_id | NoHlc event_id | PartialCausation event_id

definition partialID :: "event_id \<Rightarrow> bool" where
  "partialID i \<longleftrightarrow> idNode i = [] \<or> idSeq i = 0"

definition decodeEnvelope :: "wire_envelope option \<Rightarrow> undecodable + envelope" where
  "decodeEnvelope e = (case e of None \<Rightarrow> Inl NilFrame
    | Some e \<Rightarrow> (case wvId e of None \<Rightarrow> Inl NoIdentity
      | Some i \<Rightarrow>
        if partialID i then Inl NoIdentity
        else if wvType e = [] then Inl (EmptyType i)
        else (case wvHlc e of None \<Rightarrow> Inl (NoHlc i)
          | Some h \<Rightarrow>
            if (case wvCausation e of None \<Rightarrow> False | Some c \<Rightarrow> partialID c) then Inl (PartialCausation i)
            else Inr \<lparr>evId = i, evAggregate = wvAggregate e, evType = wvType e, evHLC = h,
              evRecordedAt = sint (wvRecordedAtUnixNano e), evCausation = wvCausation e, evPayload = wvPayload e\<rparr>)))"

definition encodeBatch :: "envelope list \<Rightarrow> wire_envelope option list" where
  "encodeBatch envs = map (\<lambda>e. Some (encodeEnvelope e)) envs"

fun decodeBatch :: "wire_envelope option list \<Rightarrow> undecodable + envelope list" where
  "decodeBatch [] = Inr []"
| "decodeBatch (e # es) = (case decodeEnvelope e of Inl err \<Rightarrow> Inl err
     | Inr env \<Rightarrow> (case decodeBatch es of Inl err \<Rightarrow> Inl err | Inr envs \<Rightarrow> Inr (env # envs)))"

text \<open>An envelope as this node and central make them: the identities are whole, and the time is
  within the nanoseconds an \<open>int64\<close> counts.\<close>

definition sendable :: "envelope \<Rightarrow> bool" where
  "sendable e \<longleftrightarrow> \<not> partialID (evId e) \<and> evType e \<noteq> [] \<and> (case evCausation e of None \<Rightarrow> True | Some c \<Rightarrow> \<not> partialID c) \<and>
     minInt64 \<le> evRecordedAt e \<and> evRecordedAt e \<le> maxInt64"

text \<open>
  C32. Every envelope with whole identities, a type and a time an \<open>int64\<close> of nanoseconds holds decodes
  to itself from the wire, and whatever decodes is such an envelope and encodes to what was sent: no
  field is lost or defaulted, and nothing incomplete gets in.
\<close>

theorem wh_wire_roundtrip:
  "decodeEnvelope (Some w) = Inr e \<longleftrightarrow> sendable e \<and> encodeEnvelope e = w"
proof
  assume d: "decodeEnvelope (Some w) = Inr e"
  then show "sendable e \<and> encodeEnvelope e = w"
    using sint64_bounds [of "wvRecordedAtUnixNano w"]
    by (cases w) (auto simp: decodeEnvelope_def sendable_def encodeEnvelope_def split: option.splits if_splits)
next
  assume e: "sendable e \<and> encodeEnvelope e = w"
  then have "sint (word_of_int (evRecordedAt e) :: int64) = evRecordedAt e"
    by (intro sint64_of_int) (simp_all add: sendable_def)
  with e show "decodeEnvelope (Some w) = Inr e"
    by (auto simp: decodeEnvelope_def sendable_def encodeEnvelope_def split: option.splits)
qed

lemma decode_sent: "sendable e \<Longrightarrow> decodeEnvelope (Some (encodeEnvelope e)) = Inr e"
proof -
  assume e: "sendable e"
  then have "sint (word_of_int (evRecordedAt e) :: int64) = evRecordedAt e"
    by (intro sint64_of_int) (simp_all add: sendable_def)
  with e show ?thesis by (auto simp: decodeEnvelope_def sendable_def encodeEnvelope_def split: option.splits)
qed

lemma decodeBatch_encode: "list_all sendable es \<Longrightarrow> decodeBatch (encodeBatch es) = Inr es"
  by (induction es) (simp_all add: encodeBatch_def decode_sent)

section \<open>Batches\<close>

definition MaxBatchEvents :: nat where
  "MaxBatchEvents = 200"

definition MaxBatchBytes :: nat where
  "MaxBatchBytes = 1048576"

definition sizeOf :: "(bytes \<Rightarrow> nat) \<Rightarrow> envelope \<Rightarrow> nat" where
  "sizeOf len e = len (evPayload e) + length (evType e) + length (evAggregate e) + 64"

text \<open>The loop with its current batch and that batch's bytes.\<close>

fun chunkLoop :: "(bytes \<Rightarrow> nat) \<Rightarrow> envelope list \<Rightarrow> nat \<Rightarrow> envelope list \<Rightarrow> envelope list list" where
  "chunkLoop len current n [] = (if current = [] then [] else [current])"
| "chunkLoop len current n (e # es) =
    (if current \<noteq> [] \<and> (MaxBatchEvents \<le> length current \<or> MaxBatchBytes < n + sizeOf len e)
     then current # chunkLoop len [e] (sizeOf len e) es
     else chunkLoop len (current @ [e]) (n + sizeOf len e) es)"

definition chunk :: "(bytes \<Rightarrow> nat) \<Rightarrow> envelope list \<Rightarrow> envelope list list" where
  "chunk len envs = chunkLoop len [] 0 envs"

definition withinCaps :: "(bytes \<Rightarrow> nat) \<Rightarrow> envelope list \<Rightarrow> bool" where
  "withinCaps len c \<longleftrightarrow> c \<noteq> [] \<and> length c \<le> MaxBatchEvents \<and> (length c = 1 \<or> sum_list (map (sizeOf len) c) \<le> MaxBatchBytes)"

lemma chunkLoop_chunks:
  assumes "current = [] \<or> withinCaps len current" "n = sum_list (map (sizeOf len) current)"
  shows "concat (chunkLoop len current n es) = current @ es \<and> list_all (withinCaps len) (chunkLoop len current n es)"
  using assms
proof (induction es arbitrary: current n)
  case (Cons e es)
  have one: "withinCaps len [e]" by (simp add: withinCaps_def MaxBatchEvents_def)
  show ?case
  proof (cases "current \<noteq> [] \<and> (MaxBatchEvents \<le> length current \<or> MaxBatchBytes < n + sizeOf len e)")
    case True
    with Cons.IH [of "[e]" "sizeOf len e"] one Cons.prems show ?thesis by simp
  next
    case False
    then have "withinCaps len (current @ [e])" using Cons.prems one by (auto simp: withinCaps_def)
    with Cons.IH [of "current @ [e]" "n + sizeOf len e"] Cons.prems(2) False show ?thesis by auto
  qed
qed auto

text \<open>
  C33. Splitting a backlog loses, repeats and reorders nothing: the batches in sequence are the
  backlog, no batch is empty, none has more than 200 events, and none is above the byte cap unless
  it is a single event.
\<close>

theorem wh_chunks_within_caps:
  "concat (chunk len envs) = envs \<and> list_all (withinCaps len) (chunk len envs)"
  unfolding chunk_def using chunkLoop_chunks [of "[]" len 0 envs] by simp

lemma chunk_concat: "concat (chunk len envs) = envs"
  unfolding chunk_def using chunkLoop_chunks [of "[]" len 0 envs] by simp

lemma chunk_nonempty: "c \<in> set (chunk len envs) \<Longrightarrow> c \<noteq> []"
  unfolding chunk_def using chunkLoop_chunks [of "[]" len 0 envs] by (auto simp: list_all_iff withinCaps_def)

end
