(* ===== verification/WhSync.thy ===== *)
theory WhSync
  imports WhNode WhWire WhArbiter
begin

text \<open>
  Replication between a warehouse node and central (\<open>warehouse-node/internal/sync/server.go\<close>,
  \<open>client.go\<close>). Streams are those of the first program's replication: an end is a function of the
  frames its stream will still deliver and of the sends it can still make. Central's store calls
  take the faults of \<open>WhArbiter\<close>; the node's transactions take one fault each, chosen by the number
  of frames still to come.
\<close>

section \<open>Frames\<close>

datatype node_frame = NHello node_id uint64 | NEvents "wire_envelope option list" bool | NAck uint64 uint64 | NNoBody

datatype central_frame = KWelcome uint64 | KEvents "wire_envelope option list" bool uint64 | KAck uint64 uint64 | KNoBody

datatype wh_sync_error =
    SyStore wh_error | SyStream sync_error | SyNoHello | SyWrongPeer | SyNoBatch | SyUndecodable undecodable
  | SyNoWelcome | SyNoAck | SyCancelled | SyNotOpened

type_synonym server_stream = "(node_frame, central_frame) stream"
type_synonym client_stream = "(central_frame, node_frame) stream"

section \<open>Central's end\<close>

text \<open>What an arbitration takes besides the event: the order it visits the receipts in, and the time.\<close>

type_synonym arb_times = "event_id \<Rightarrow> visit_order \<times> instant"

fun arbitrateAll :: "arb_times \<Rightarrow> envelope list \<Rightarrow> unit central_op" where
  "arbitrateAll cx [] = ok ()"
| "arbitrateAll cx (e # es) = andThen (arbitrate (fst (cx (evId e))) (snd (cx (evId e))) e) (\<lambda>_. arbitrateAll cx es)"

definition highestOwn :: "node_id \<Rightarrow> uint64 \<Rightarrow> envelope list \<Rightarrow> uint64" where
  "highestOwn n h envs = foldl (\<lambda>h e. if idNode (evId e) = n \<and> h < idSeq (evId e) then idSeq (evId e) else h) h envs"

text \<open>One batch: read the cursor, arbitrate every event, write the cursor.\<close>

definition receiveBatch :: "arb_times \<Rightarrow> node_id \<Rightarrow> envelope list \<Rightarrow> uint64 central_op" where
  "receiveBatch cx n envs = andThen (callRead (\<lambda>m. memPushedSeq m n)) (\<lambda>h.
     andThen (arbitrateAll cx envs) (\<lambda>_.
       let h = highestOwn n h envs in andThen (callDo (memSetPushedSeq n h)) (\<lambda>_. ok h)))"

record central_end =
  ceFaults :: "call_fault list"
  ceStore :: mem_store
  ceStream :: server_stream

text \<open>A store call at central's end.\<close>

definition atStore :: "'a central_op \<Rightarrow> central_end \<Rightarrow> (wh_error + 'a) \<times> central_end" where
  "atStore op c = (case op (ceFaults c) (ceStore c) of (r, fs, m) \<Rightarrow> (r, c\<lparr>ceFaults := fs, ceStore := m\<rparr>))"

definition centralSend :: "central_frame \<Rightarrow> central_end \<Rightarrow> wh_sync_error option \<times> central_end" where
  "centralSend f c = (case sendFrame (ceStream c) f of (err, st) \<Rightarrow> (map_option SyStream err, c\<lparr>ceStream := st\<rparr>))"

text \<open>\<open>receive\<close>, over the frames still to come; it leaves those it has not read.\<close>

fun receiveBatches :: "arb_times \<Rightarrow> node_id \<Rightarrow> bool \<Rightarrow> node_frame list \<Rightarrow> central_end \<Rightarrow>
    wh_sync_error option \<times> node_frame list \<times> central_end" where
  "receiveBatches cx n eof [] c = ((if eof then None else Some (SyStream RecvFailed)), [], c)"
| "receiveBatches cx n eof (NEvents es cont # frs) c =
    (case decodeBatch es of Inl e \<Rightarrow> (Some (SyUndecodable e), frs, c)
     | Inr envs \<Rightarrow> (case atStore (receiveBatch cx n envs) c of
         (Inl e, c) \<Rightarrow> (Some (SyStore e), frs, c)
       | (Inr h, c) \<Rightarrow> (case centralSend (KAck h 0) c of
           (Some e, c) \<Rightarrow> (Some e, frs, c)
         | (None, c) \<Rightarrow> if cont then receiveBatches cx n eof frs c else (None, frs, c))))"
| "receiveBatches cx n eof (_ # frs) c = (Some SyNoBatch, frs, c)"

text \<open>The order number of the last row a chunk takes from the page.\<close>

definition chunkOrd :: "outbound list \<Rightarrow> envelope list \<Rightarrow> uint64" where
  "chunkOrd rows ch = obOrd (rows ! (length ch - 1))"

text \<open>The chunks of one page. The result says whether the page's last batch was the last of all.\<close>

fun pushChunks :: "node_id \<Rightarrow> outbound list \<Rightarrow> envelope list list \<Rightarrow> uint64 \<Rightarrow> central_end \<Rightarrow>
    (wh_sync_error + bool \<times> uint64) \<times> central_end" where
  "pushChunks n rows [] cur c = (Inr (False, cur), c)"
| "pushChunks n rows (ch # chs) cur c =
    (let cur = chunkOrd rows ch in
     case (if chs \<noteq> [] then (Inr True, c) else atStore (callRead (\<lambda>m. memOutbound m n cur 1 \<noteq> [])) c) of
       (Inl e, c) \<Rightarrow> (Inl (SyStore e), c)
     | (Inr cont, c) \<Rightarrow> (case centralSend (KEvents (encodeBatch ch) cont cur) c of
         (Some e, c) \<Rightarrow> (Inl e, c)
       | (None, c) \<Rightarrow> if \<not> cont then (Inr (True, cur), c) else pushChunks n (drop (length ch) rows) chs cur c))"

definition pendingAfter :: "mem_store \<Rightarrow> node_id \<Rightarrow> uint64 \<Rightarrow> outbound list" where
  "pendingAfter m n cur = filter (\<lambda>r. \<not> obOrd r \<le> cur) (fm_get [] (mmQueue m) n)"

lemma callRead_Inr: "callRead g fs m = (Inr x, fs', m') \<Longrightarrow> x = g m \<and> m' = m"
  by (auto simp: callRead_def call_def split: list.splits call_fault.splits)

lemma callRead_store: "callRead g fs m = (r, fs', m') \<Longrightarrow> m' = m"
  by (auto simp: callRead_def call_def split: list.splits call_fault.splits)

lemma atStore_read: "atStore (callRead g) c = (r, c') \<Longrightarrow> ceStore c' = ceStore c \<and> ceStream c' = ceStream c"
  by (auto simp: atStore_def split: prod.splits dest!: callRead_store)

lemma centralSend_store: "centralSend f c = (r, c') \<Longrightarrow> ceStore c' = ceStore c"
  by (auto simp: centralSend_def split: prod.splits)

lemma pushChunks_cursor:
  assumes "pushChunks n rows chs cur c = (Inr (d, cur'), c')" "concat chs = map obEnv rows" "\<And>ch. ch \<in> set chs \<Longrightarrow> ch \<noteq> []"
  shows "ceStore c' = ceStore c \<and> (if chs = [] then cur' = cur \<and> \<not> d else (\<exists>r \<in> set rows. cur' = obOrd r))"
  using assms
proof (induction n rows chs cur c rule: pushChunks.induct)
  case (2 n rows ch chs cur c)
  let ?cur = "chunkOrd rows ch"
  obtain r1 c1 where a: "(if chs \<noteq> [] then (Inr True, c) else atStore (callRead (\<lambda>m. memOutbound m n ?cur 1 \<noteq> [])) c) = (r1, c1)"
    by (metis surj_pair)
  have c1: "ceStore c1 = ceStore c" using a atStore_read by (auto split: if_splits)
  obtain cont where r1: "r1 = Inr cont" using "2.prems"(1) a by (cases r1) (auto simp: Let_def)
  obtain e2 c2 where b: "centralSend (KEvents (encodeBatch ch) cont ?cur) c1 = (e2, c2)" by fastforce
  have c2: "ceStore c2 = ceStore c" using centralSend_store [OF b] c1 by simp
  have e2: "e2 = None" using "2.prems"(1) a r1 b by (cases e2) (auto simp: Let_def)
  have len: "length ch \<le> length rows" "0 < length ch"
    using arg_cong [OF "2.prems"(2), of length] "2.prems"(3) [of ch] by auto
  then have cur_in: "\<exists>r \<in> set rows. ?cur = obOrd r" unfolding chunkOrd_def by (metis diff_less less_le_trans nth_mem zero_less_one)
  have cat: "concat chs = map obEnv (drop (length ch) rows)"
    using "2.prems"(2) by (metis append_eq_conv_conj concat.simps(2) drop_map)
  show ?case
  proof (cases cont)
    case False
    then show ?thesis using "2.prems"(1) a r1 b e2 c2 cur_in by (auto simp: Let_def)
  next
    case True
    then have rest: "pushChunks n (drop (length ch) rows) chs ?cur c2 = (Inr (d, cur'), c')"
      using "2.prems"(1) a r1 b e2 by (simp add: Let_def)
    from "2.IH" [OF refl a [symmetric] r1 b [symmetric] e2 _ rest cat] True "2.prems"(3)
    have "ceStore c' = ceStore c2 \<and> (if chs = [] then cur' = ?cur \<and> \<not> d else \<exists>r\<in>set (drop (length ch) rows). cur' = obOrd r)"
      by simp
    with c2 cur_in show ?thesis by (auto split: if_splits dest: in_set_dropD)
  qed
qed simp

lemma memOutbound_take: "memOutbound m n cur limit = take (nat limit) (pendingAfter m n cur)"
  by (simp add: memOutbound_def pendingAfter_def)

lemma pendingAfter_less:
  assumes "r \<in> set (pendingAfter m n cur)"
  shows "length (pendingAfter m n (obOrd r)) < length (pendingAfter m n cur)"
proof -
  have r: "r \<in> set (fm_get [] (mmQueue m) n)" "cur < obOrd r" using assms by (auto simp: pendingAfter_def)
  have "pendingAfter m n (obOrd r) = filter (\<lambda>x. \<not> obOrd x \<le> obOrd r) (pendingAfter m n cur)"
    using r(2) unfolding pendingAfter_def filter_filter by (intro filter_cong) auto
  moreover have "length (filter (\<lambda>x. \<not> obOrd x \<le> obOrd r) (pendingAfter m n cur)) < length (pendingAfter m n cur)"
    using assms by (intro length_filter_less) auto
  ultimately show ?thesis by simp
qed

text \<open>Page after page, until a batch says that nothing remains.\<close>

function push :: "(bytes \<Rightarrow> nat) \<Rightarrow> node_id \<Rightarrow> uint64 \<Rightarrow> central_end \<Rightarrow> wh_sync_error option \<times> central_end" where
  "push len n cur c = (case atStore (callRead (\<lambda>m. memOutbound m n cur (int MaxBatchEvents))) c of
      (Inl e, c) \<Rightarrow> (Some (SyStore e), c)
    | (Inr rows, c) \<Rightarrow>
        if rows = [] then centralSend (KEvents [] False cur) c
        else (case pushChunks n rows (chunk len (map obEnv rows)) cur c of
            (Inl e, c) \<Rightarrow> (Some e, c)
          | (Inr (ended, cur), c) \<Rightarrow> if ended then (None, c) else push len n cur c))"
  by pat_completeness auto
termination
proof (relation "measure (\<lambda>(len, n, cur, c). length (pendingAfter (ceStore c) n cur))", goal_cases)
  case (2 len n cur c x c1 rows p c2 y ended cur')
  have c1: "ceStore c1 = ceStore c" using atStore_read 2(1) by (metis old.prod.inject)
  have rows: "rows = memOutbound (ceStore c) n cur (int MaxBatchEvents)"
    using 2(1,2) by (auto simp: atStore_def split: prod.splits dest!: callRead_Inr)
  have p: "pushChunks n rows (chunk len (map obEnv rows)) cur c1 = (Inr (ended, cur'), c2)" using 2 by simp
  from pushChunks_cursor [OF p chunk_concat chunk_nonempty]
  have "ceStore c2 = ceStore c1" "chunk len (map obEnv rows) \<noteq> [] \<Longrightarrow> \<exists>r \<in> set rows. cur' = obOrd r"
    by (auto split: if_splits)
  moreover have "chunk len (map obEnv rows) \<noteq> []"
    using chunk_concat [of len "map obEnv rows"] 2(3) by auto
  ultimately obtain r where "r \<in> set rows" "cur' = obOrd r" by blast
  then show ?case
    using pendingAfter_less [of r "ceStore c" n cur] \<open>ceStore c2 = ceStore c1\<close> c1
    by (auto simp: rows memOutbound_take dest: in_set_takeD)
qed simp

declare push.simps [simp del]

text \<open>The node a Hello names.\<close>

fun helloNode :: "node_frame \<Rightarrow> node_id option" where
  "helloNode (NHello n _) = (if n = [] then None else Some n)"
| "helloNode _ = None"

definition centralRecv :: "central_end \<Rightarrow> (sync_error + node_frame) \<times> central_end" where
  "centralRecv c = (case recvFrame (ceStream c) of (r, st) \<Rightarrow> (r, c\<lparr>ceStream := st\<rparr>))"

definition receiveAll :: "arb_times \<Rightarrow> node_id \<Rightarrow> central_end \<Rightarrow> wh_sync_error option \<times> central_end" where
  "receiveAll cx n c = (case receiveBatches cx n (stEOF (ceStream c)) (stIn (ceStream c)) c of
     (err, frs, c) \<Rightarrow> (err, c\<lparr>ceStream := (ceStream c)\<lparr>stIn := frs\<rparr>\<rparr>))"

definition pushAll :: "(bytes \<Rightarrow> nat) \<Rightarrow> node_id \<Rightarrow> central_end \<Rightarrow> wh_sync_error option \<times> central_end" where
  "pushAll len n c = (case atStore (callRead (\<lambda>m. memDeliveredOrd m n)) c of
     (Inl e, c) \<Rightarrow> (Some (SyStore e), c) | (Inr cur, c) \<Rightarrow> push len n cur c)"

text \<open>The end of a session: the acknowledgement, or a node that dropped out.\<close>

definition lastAck :: "node_id \<Rightarrow> central_end \<Rightarrow> wh_sync_error option \<times> central_end" where
  "lastAck n c = (case centralRecv c of
      (Inl RecvEOF, c) \<Rightarrow> (None, c)
    | (Inl e, c) \<Rightarrow> (Some (SyStream e), c)
    | (Inr (NAck _ o'), c) \<Rightarrow>
        if 0 < o' then (case atStore (callDo (memSetDeliveredOrd n o')) c of
            (Inl e, c) \<Rightarrow> (Some (SyStore e), c) | (Inr _, c) \<Rightarrow> (None, c))
        else (None, c)
    | (Inr _, c) \<Rightarrow> (None, c))"

text \<open>The part of \<open>Replicate\<close> after the Welcome, and the whole; \<open>auth\<close> is the name in the peer's
  certificate, if there is one.\<close>

definition serveNode :: "(bytes \<Rightarrow> nat) \<Rightarrow> arb_times \<Rightarrow> node_id \<Rightarrow> central_end \<Rightarrow> wh_sync_error option \<times> central_end" where
  "serveNode len cx n c = (case receiveAll cx n c of (Some e, c) \<Rightarrow> (Some e, c)
     | (None, c) \<Rightarrow> (case pushAll len n c of (Some e, c) \<Rightarrow> (Some e, c)
       | (None, c) \<Rightarrow> lastAck n c))"

definition serveSession :: "(bytes \<Rightarrow> nat) \<Rightarrow> arb_times \<Rightarrow> node_id option \<Rightarrow> central_end \<Rightarrow> wh_sync_error option \<times> central_end" where
  "serveSession len cx auth c = (case centralRecv c of
      (Inl e, c) \<Rightarrow> (Some (SyStream e), c)
    | (Inr f, c) \<Rightarrow> (case helloNode f of None \<Rightarrow> (Some SyNoHello, c)
      | Some n \<Rightarrow>
        if (case auth of None \<Rightarrow> False | Some a \<Rightarrow> a \<noteq> n) then (Some SyWrongPeer, c)
        else (case atStore (callRead (\<lambda>m. memPushedSeq m n)) c of
            (Inl e, c) \<Rightarrow> (Some (SyStore e), c)
          | (Inr known, c) \<Rightarrow> (case centralSend (KWelcome known) c of
              (Some e, c) \<Rightarrow> (Some e, c)
            | (None, c) \<Rightarrow> serveNode len cx n c))))"

section \<open>The node's end\<close>

text \<open>The faults of the transactions one received frame leads to, and the wall time.\<close>

record frame_faults =
  ffIngest :: db_fault
  ffApply :: "event_id \<Rightarrow> db_fault"
  ffCursor :: db_fault
  ffNow :: int64

record node_end =
  neFaults :: "nat \<Rightarrow> frame_faults" \<comment> \<open>by the number of frames still to come\<close>
  neService :: service
  neStream :: client_stream

definition nodeSend :: "node_frame \<Rightarrow> node_end \<Rightarrow> wh_sync_error option \<times> node_end" where
  "nodeSend f c = (case sendFrame (neStream c) f of (err, st) \<Rightarrow> (map_option SyStream err, c\<lparr>neStream := st\<rparr>))"

definition nodeSetCursor :: "nat \<Rightarrow> string \<Rightarrow> uint64 \<Rightarrow> node_end \<Rightarrow> wh_sync_error option \<times> node_end" where
  "nodeSetCursor k name v c = (if v = 0 then (None, c)
     else (case whSetCursor (ffCursor (neFaults c k)) name v (svLog (neService c)) of
         Inl e \<Rightarrow> (Some (SyStore e), c)
       | Inr l \<Rightarrow> (None, c\<lparr>neService := (neService c)\<lparr>svLog := l\<rparr>\<rparr>)))"

text \<open>One page of the backlog as chunks; an empty backlog is sent as one empty batch.\<close>

definition pageFrom :: "(bytes \<Rightarrow> nat) \<Rightarrow> uint64 \<Rightarrow> wh_log \<Rightarrow> wh_error + envelope list list" where
  "pageFrom len from l = (case whReadOwnAfter l from (of_nat MaxBatchEvents) of Inl e \<Rightarrow> Inl e
     | Inr envs \<Rightarrow> Inr (if chunk len envs = [] then [[]] else chunk len envs))"

definition lastSent :: "uint64 \<Rightarrow> envelope list \<Rightarrow> uint64" where
  "lastSent from ch = (if ch = [] then from else idSeq (evId (last ch)))"

text \<open>Sends the first of some chunks, and tells whether more follow and what was sent last.\<close>

definition offerBatch :: "envelope list list \<Rightarrow> uint64 \<Rightarrow> node_end \<Rightarrow> (wh_sync_error + bool \<times> uint64) \<times> node_end" where
  "offerBatch chs from c = (let ch = hd chs; from = lastSent from ch in
     case (if tl chs \<noteq> [] then Inr True
        else (case whReadOwnAfter (svLog (neService c)) from 1 of Inl e \<Rightarrow> Inl e | Inr es \<Rightarrow> Inr (es \<noteq> []))) of
       Inl e \<Rightarrow> (Inl (SyStore e), c)
     | Inr cont \<Rightarrow> (case nodeSend (NEvents (encodeBatch ch) cont) c of
         (Some e, c) \<Rightarrow> (Inl e, c) | (None, c) \<Rightarrow> (Inr (cont, from), c)))"

definition recvEnd :: "bool \<Rightarrow> wh_sync_error" where
  "recvEnd eof = SyStream (if eof then RecvEOF else RecvFailed)"

text \<open>\<open>pushBacklog\<close>, over the frames still to come, of which every chunk takes one.\<close>

fun pushBacklog :: "(bytes \<Rightarrow> nat) \<Rightarrow> bool \<Rightarrow> bool \<Rightarrow> envelope list list \<Rightarrow> uint64 \<Rightarrow> central_frame list \<Rightarrow> node_end \<Rightarrow>
    wh_sync_error option \<times> central_frame list \<times> node_end" where
  "pushBacklog len cancelled eof chs from [] c = (case offerBatch chs from c of
      (Inl e, c) \<Rightarrow> (Some e, [], c) | (Inr _, c) \<Rightarrow> (Some (recvEnd eof), [], c))"
| "pushBacklog len cancelled eof chs from (f # frs) c = (case offerBatch chs from c of
      (Inl e, c) \<Rightarrow> (Some e, f # frs, c)
    | (Inr (cont, from), c) \<Rightarrow> (case f of
        KAck seq _ \<Rightarrow> (case nodeSetCursor (length frs) CursorPushed seq c of
            (Some e, c) \<Rightarrow> (Some e, frs, c)
          | (None, c) \<Rightarrow>
              if \<not> cont then ((if cancelled then Some SyCancelled else None), frs, c)
              else (case (if tl chs \<noteq> [] then Inr (tl chs) else pageFrom len from (svLog (neService c))) of
                  Inl e \<Rightarrow> (Some (SyStore e), frs, c)
                | Inr chs \<Rightarrow> pushBacklog len cancelled eof chs from frs c))
      | _ \<Rightarrow> (Some SyNoAck, frs, c)))"

definition finishDown :: "nat \<Rightarrow> uint64 \<Rightarrow> node_end \<Rightarrow> wh_sync_error option \<times> node_end" where
  "finishDown k highest c = (case nodeSetCursor k CursorPulled highest c of (Some e, c) \<Rightarrow> (Some e, c)
     | (None, c) \<Rightarrow> (case nodeSend (NAck 0 highest) c of (Some e, c) \<Rightarrow> (Some e, c)
       | (None, c) \<Rightarrow> ((if stCloseOk (neStream c) then None else Some (SyStream CloseFailed)), c)))"

definition ingestBatch :: "nat \<Rightarrow> envelope list \<Rightarrow> node_end \<Rightarrow> wh_sync_error option \<times> node_end" where
  "ingestBatch k envs c = (if envs = [] then (None, c)
     else (let ff = neFaults c k in
       case ingest (ffIngest ff) (ffApply ff) (ffNow ff) envs (neService c) of
         ((_, err), s) \<Rightarrow> (map_option SyStore err, c\<lparr>neService := s\<rparr>)))"

fun applyDownstream :: "bool \<Rightarrow> uint64 \<Rightarrow> central_frame list \<Rightarrow> node_end \<Rightarrow> wh_sync_error option \<times> node_end" where
  "applyDownstream eof highest [] c = ((if eof then None else Some (recvEnd eof)), c)"
| "applyDownstream eof highest (KEvents es cont o' # frs) c =
    (case decodeBatch es of Inl e \<Rightarrow> (Some (SyUndecodable e), c)
     | Inr envs \<Rightarrow> (case ingestBatch (length frs) envs c of
         (Some e, c) \<Rightarrow> (Some e, c)
       | (None, c) \<Rightarrow> (let highest = max highest o' in
           if cont then applyDownstream eof highest frs c else finishDown (length frs) highest c)))"
| "applyDownstream eof highest (_ # frs) c = (Some SyNoBatch, c)"

definition resumeFrom :: "uint64 \<Rightarrow> wh_log \<Rightarrow> uint64" where
  "resumeFrom known l = (let from = whCursor l CursorPushed in if known < from then known else from)"

text \<open>\<open>Session\<close>, on the stream the transport opened.\<close>

definition clientSession :: "(bytes \<Rightarrow> nat) \<Rightarrow> bool \<Rightarrow> node_end \<Rightarrow> wh_sync_error option \<times> node_end" where
  "clientSession len cancelled c = (let l = svLog (neService c); st = neStream c; eof = stEOF st in
     case nodeSend (NHello (wlNode l) (whCursor l CursorPulled)) c of
       (Some e, c) \<Rightarrow> (Some e, c)
     | (None, c) \<Rightarrow> (case stIn st of
         KWelcome known # frs \<Rightarrow> (let from = resumeFrom known l in
           case pageFrom len from l of Inl e \<Rightarrow> (Some (SyStore e), c)
           | Inr chs \<Rightarrow> (case pushBacklog len cancelled eof chs from frs c of
               (Some e, _, c) \<Rightarrow> (Some e, c)
             | (None, frs, c) \<Rightarrow> applyDownstream eof 0 frs c))
       | [] \<Rightarrow> (Some (recvEnd eof), c)
       | _ \<Rightarrow> (Some SyNoWelcome, c)))"

section \<open>Reconnecting\<close>

text \<open>Durations are nanoseconds in an \<open>int64\<close>. The wait after each session: a success waits \<open>every\<close>,
  a failure the current backoff and a random part of its half, which is given as what \<open>rand.N\<close>
  returned.\<close>

definition whMaxBackoff :: int64 where
  "whMaxBackoff = 300000000000"

fun runWaits :: "int64 \<Rightarrow> int64 \<Rightarrow> int64 \<Rightarrow> int64 option list \<Rightarrow> int64 list" where
  "runWaits every backoff current [] = []"
| "runWaits every backoff current (None # rs) = every # runWaits every backoff backoff rs"
| "runWaits every backoff current (Some r # rs) =
     (current + r) # runWaits every backoff (if sint current < sint whMaxBackoff then current * 2 else current) rs"

text \<open>\<open>Run\<close> starts with the configured backoff; \<open>None\<close> is a session that succeeded.\<close>

definition run :: "int64 \<Rightarrow> int64 \<Rightarrow> int64 option list \<Rightarrow> int64 list" where
  "run every backoff rs = runWaits every backoff backoff rs"

end
