(* ===== verification/WhSyncProps.thy ===== *)
theory WhSyncProps
  imports WhSync WhRetry
begin

text \<open>
  What a session guarantees, whatever fails during it. Central's store only moves in one direction:
  decisions stay, queues only grow at their ends, with growing order numbers. So a cursor that was
  right stays right, and a session only moves it over what has really arrived.
\<close>

section \<open>How central's store moves\<close>

definition queueOf :: "mem_store \<Rightarrow> node_id \<Rightarrow> outbound list" where
  "queueOf s n = fm_get [] (mmQueue s) n"

text \<open>The number of rows ever enqueued; while it is below two to the 64th, order numbers are unique.\<close>

definition enqueuedCount :: "mem_store \<Rightarrow> nat" where
  "enqueuedCount s = fcard (fmdom (mmEnqueued s))"

definition inAscending :: "uint64 \<Rightarrow> outbound list \<Rightarrow> bool" where
  "inAscending hi rows \<longleftrightarrow> sorted_wrt (<) (map obOrd rows) \<and> list_all (\<lambda>r. obOrd r \<le> hi) rows"

definition queueOk :: "mem_store \<Rightarrow> bool" where
  "queueOk s \<longleftrightarrow> (\<forall>k v. fmlookup (mmEnqueued s) k = Some v \<longrightarrow> v) \<and> mmNextOrd s = of_nat (enqueuedCount s) \<and>
     (enqueuedCount s < 2 ^ 64 \<longrightarrow> (\<forall>n. inAscending (mmNextOrd s) (queueOf s n)))"

definition decided :: "mem_store \<Rightarrow> event_id \<Rightarrow> bool" where
  "decided s i \<longleftrightarrow> memDecision s i \<noteq> None"

definition evolves :: "mem_store \<Rightarrow> mem_store \<Rightarrow> bool" where
  "evolves s t \<longleftrightarrow> enqueuedCount s \<le> enqueuedCount t \<and> (queueOk s \<longrightarrow> queueOk t) \<and> mmPushed t = mmPushed s \<and>
     mmDelivered t = mmDelivered s \<and> (\<forall>i. decided s i \<longrightarrow> decided t i) \<and>
     (queueOk s \<and> enqueuedCount t < 2 ^ 64 \<longrightarrow> mmNextOrd s \<le> mmNextOrd t \<and>
        (\<forall>n. \<exists>new. queueOf t n = queueOf s n @ new \<and> list_all (\<lambda>r. mmNextOrd s < obOrd r) new))"

lemma evolves_refl [simp]: "evolves s s"
  by (auto simp: evolves_def)

lemma evolves_trans:
  assumes "evolves s t" "evolves t u"
  shows "evolves s u"
  unfolding evolves_def
proof (intro conjI impI allI; (elim conjE)?)
  assume ok: "queueOk s" and lt: "enqueuedCount u < 2 ^ 64"
  from assms ok lt have t: "queueOk t" "enqueuedCount t < 2 ^ 64" by (auto simp: evolves_def)
  then show "mmNextOrd s \<le> mmNextOrd u" using assms ok lt unfolding evolves_def by (meson order_trans)
  fix n
  obtain xs where xs: "queueOf t n = queueOf s n @ xs" "list_all (\<lambda>r. mmNextOrd s < obOrd r) xs"
    using assms(1) ok t(2) unfolding evolves_def by blast
  obtain ys where ys: "queueOf u n = queueOf t n @ ys" "list_all (\<lambda>r. mmNextOrd t < obOrd r) ys"
    using assms(2) t(1) lt unfolding evolves_def by blast
  have "mmNextOrd s \<le> mmNextOrd t" using assms(1) ok t(2) unfolding evolves_def by blast
  with xs ys have "queueOf u n = queueOf s n @ (xs @ ys) \<and> list_all (\<lambda>r. mmNextOrd s < obOrd r) (xs @ ys)"
    by (auto simp: list_all_iff intro: le_less_trans)
  then show "\<exists>new. queueOf u n = queueOf s n @ new \<and> list_all (\<lambda>r. mmNextOrd s < obOrd r) new" by blast
qed (use assms in \<open>auto simp: evolves_def\<close>)

lemma evolves_quiet:
  assumes "mmEnqueued t = mmEnqueued s" "mmNextOrd t = mmNextOrd s" "mmQueue t = mmQueue s" "mmPushed t = mmPushed s"
    "mmDelivered t = mmDelivered s" "\<And>i. decided s i \<Longrightarrow> decided t i"
  shows "evolves s t"
proof -
  have "queueOk t = queueOk s" unfolding queueOk_def enqueuedCount_def queueOf_def assms(1-3) by (rule refl)
  with assms show ?thesis by (simp add: evolves_def enqueuedCount_def queueOf_def)
qed

lemma evolves_enqueueOne: "evolves s (enqueueOne n s e)"
proof (cases "fm_get False (mmEnqueued s) (enqueueKey n (evId e))")
  case True
  then show ?thesis by (simp add: enqueueOne_def)
next
  case False
  let ?t = "enqueueOne n s e" and ?k = "enqueueKey n (evId e)"
  have eq: "mmEnqueued ?t = fmupd ?k True (mmEnqueued s)" "mmNextOrd ?t = mmNextOrd s + 1" "mmPushed ?t = mmPushed s"
    "mmDelivered ?t = mmDelivered s" "mmDecisions ?t = mmDecisions s"
    "queueOf ?t j = (if j = n then queueOf s n @ [\<lparr>obOrd = mmNextOrd s + 1, obEnv = e\<rparr>] else queueOf s j)" for j
    using False by (simp_all add: enqueueOne_def Let_def queueOf_def)
  have dec: "decided ?t i = decided s i" for i by (simp add: decided_def memDecision_def eq)
  show ?thesis
  proof (cases "queueOk s")
    case ok: True
    then have "fmlookup (mmEnqueued s) ?k = None"
      using False by (auto simp: queueOk_def fm_get_def split: option.splits)
    then have "?k |\<notin>| fmdom (mmEnqueued s)" by (rule fmdom_notI)
    then have count: "enqueuedCount ?t = Suc (enqueuedCount s)"
      by (simp add: enqueuedCount_def eq(1) fcard_finsert_disjoint)
    have next': "mmNextOrd ?t = of_nat (enqueuedCount ?t)" using ok by (simp add: eq(2) queueOk_def count add.commute)
    have step: "mmNextOrd s < mmNextOrd s + 1 \<and> enqueuedCount s < 2 ^ 64" if "enqueuedCount ?t < 2 ^ 64"
    proof -
      have "unat (of_nat (enqueuedCount s) :: uint64) = enqueuedCount s"
        "unat (of_nat (Suc (enqueuedCount s)) :: uint64) = Suc (enqueuedCount s)"
        using that count by (simp_all add: unat_of_nat del: of_nat_Suc)
      then have "(of_nat (enqueuedCount s) :: uint64) < of_nat (Suc (enqueuedCount s))" by (simp add: word_less_nat_alt)
      with ok that count show ?thesis by (simp add: queueOk_def add.commute)
    qed
    have asc: "inAscending (mmNextOrd ?t) (queueOf ?t j)" if "enqueuedCount ?t < 2 ^ 64" for j
    proof -
      have "inAscending (mmNextOrd s) (queueOf s j)" using ok step [OF that] unfolding queueOk_def by blast
      with step [OF that] show ?thesis
        by (auto simp: inAscending_def eq sorted_wrt_append list_all_iff intro: le_less_trans less_imp_le order_trans)
    qed
    have "queueOk ?t"
      using ok next' asc unfolding queueOk_def by (auto simp: eq(1) split: if_splits)
    moreover have "\<exists>new. queueOf ?t j = queueOf s j @ new \<and> list_all (\<lambda>r. mmNextOrd s < obOrd r) new"
      if "enqueuedCount ?t < 2 ^ 64" for j
      using step [OF that] by (cases "j = n") (simp_all add: eq(6))
    ultimately show ?thesis using step dec by (auto simp: evolves_def eq count intro: less_imp_le)
  next
    case False
    have "enqueuedCount s \<le> enqueuedCount ?t"
      unfolding enqueuedCount_def eq(1) by (intro fcard_mono) auto
    with False dec show ?thesis by (simp add: evolves_def eq)
  qed
qed

lemma evolves_enqueue: "evolves s (memEnqueue n es s)"
proof -
  have "evolves t (foldl (enqueueOne n) t es)" for t
    by (induction es arbitrary: t) (auto intro: evolves_trans evolves_enqueueOne)
  then show ?thesis by (simp add: memEnqueue_def)
qed

lemma evolves_same:
  assumes "mmEnqueued t = mmEnqueued s \<and> mmNextOrd t = mmNextOrd s \<and> mmQueue t = mmQueue s \<and> mmPushed t = mmPushed s \<and>
    mmDelivered t = mmDelivered s \<and> mmDecisions t = mmDecisions s"
  shows "evolves s t"
  using assms by (intro evolves_quiet) (simp_all add: decided_def memDecision_def)

lemma memAppend_frame:
  "mmEnqueued (snd (memAppend es s)) = mmEnqueued s \<and> mmNextOrd (snd (memAppend es s)) = mmNextOrd s \<and>
   mmQueue (snd (memAppend es s)) = mmQueue s \<and> mmPushed (snd (memAppend es s)) = mmPushed s \<and>
   mmDelivered (snd (memAppend es s)) = mmDelivered s \<and> mmDecisions (snd (memAppend es s)) = mmDecisions s"
  by (induction es arbitrary: s) (simp_all add: case_prod_beta)

lemma emitLoop_frame:
  "mmEnqueued (snd (emitLoop c h t es s)) = mmEnqueued s \<and> mmNextOrd (snd (emitLoop c h t es s)) = mmNextOrd s \<and>
   mmQueue (snd (emitLoop c h t es s)) = mmQueue s \<and> mmPushed (snd (emitLoop c h t es s)) = mmPushed s \<and>
   mmDelivered (snd (emitLoop c h t es s)) = mmDelivered s \<and> mmDecisions (snd (emitLoop c h t es s)) = mmDecisions s"
proof (induction es arbitrary: s)
  case (Cons e es)
  show ?case
    by (simp add: Let_def split: sum.split prod.split) (use Cons.IH in \<open>fastforce dest: arg_cong [of _ _ snd]\<close>)
qed simp

section \<open>Programs that only move it so\<close>

definition moves :: "'a central_op \<Rightarrow> bool" where
  "moves op \<longleftrightarrow> (\<forall>fs s. evolves s (snd (snd (op fs s))))"

named_theorems moves_intros

lemma moves_ok [moves_intros]: "moves (ok x)"
  by (simp add: moves_def ok_def)

lemma moves_fail [moves_intros]: "moves (failWith e)"
  by (simp add: moves_def failWith_def)

lemma moves_then [moves_intros]: "moves p \<Longrightarrow> (\<And>x. moves (q x)) \<Longrightarrow> moves (andThen p q)"
  unfolding moves_def
proof (intro allI)
  fix fs s
  assume p: "\<forall>fs s. evolves s (snd (snd (p fs s)))" and q: "\<And>x. \<forall>fs s. evolves s (snd (snd (q x fs s)))"
  obtain r fs1 s1 where r: "p fs s = (r, fs1, s1)" by (cases "p fs s")
  with p have "evolves s s1" by (metis snd_conv)
  with q show "evolves s (snd (snd (andThen p q fs s)))"
    by (cases r) (auto simp: andThen_def r intro: evolves_trans)
qed

lemma moves_call: "(\<And>s. evolves s (snd (f s))) \<Longrightarrow> moves (call f)"
  by (auto simp: moves_def call_def split: list.split call_fault.split)

lemma moves_read [moves_intros]: "moves (callRead f)"
  unfolding callRead_def by (rule moves_call) simp

lemma moves_do: "(\<And>s. evolves s (g s)) \<Longrightarrow> moves (callDo g)"
  unfolding callDo_def by (rule moves_call) simp

lemma moves_steps [moves_intros]:
  "moves (callDo (\<lambda>m. snd (memAppend es m)))" "moves (callDo (memEnqueue n es))" "moves (callDo (memRecordReceipt f))"
  "moves (callDo (memRecordDispatch row))" "moves (call (memAddReceived i tid k q))" "moves (callDo (memFailTransfer tid))"
  "moves (callDo (memRecordDecision d))" "moves (call (memEmitCentral evs c t))"
proof -
  show "moves (callDo (\<lambda>m. snd (memAppend es m)))"
    by (intro moves_do evolves_same memAppend_frame)
  show "moves (callDo (memEnqueue n es))" by (intro moves_do evolves_enqueue)
  show "moves (callDo (memRecordReceipt f))"
    by (intro moves_do evolves_quiet) (simp_all add: memRecordReceipt_def decided_def memDecision_def)
  show "moves (callDo (memRecordDispatch row))"
    by (intro moves_do evolves_quiet) (simp_all add: memRecordDispatch_def Let_def decided_def memDecision_def split: option.split)
  show "moves (call (memAddReceived i tid k q))"
    by (intro moves_call evolves_quiet) (simp_all add: memAddReceived_def Let_def decided_def memDecision_def split: option.split)
  show "moves (callDo (memFailTransfer tid))"
    by (intro moves_do evolves_quiet) (simp_all add: memFailTransfer_def decided_def memDecision_def)
  show "moves (callDo (memRecordDecision d))"
    by (intro moves_do evolves_quiet) (auto simp: memRecordDecision_def decided_def memDecision_def)
  show "moves (call (memEmitCentral evs c t))"
    unfolding memEmitCentral_def Let_def by (intro moves_call evolves_same emitLoop_frame)
qed


lemma moves_if [moves_intros]: "moves p \<Longrightarrow> moves q \<Longrightarrow> moves (if b then p else q)"
  by simp

lemma moves_option [moves_intros]: "moves p \<Longrightarrow> (\<And>x. moves (q x)) \<Longrightarrow> moves (case y of None \<Rightarrow> p | Some x \<Rightarrow> q x)"
  by (simp split: option.split)

lemma moves_let [moves_intros]: "moves (q x) \<Longrightarrow> moves (let y = x in q y)"
  by simp

lemma moves_unknownLoop [moves_intros]: "moves (unknownLoop ms es x)"
  by (induction ms arbitrary: es x) (auto intro!: moves_intros)

lemma moves_overLoop [moves_intros]: "moves (overLoop e t ms es x)"
  by (induction ms arbitrary: es x) (auto intro!: moves_intros)

lemma moves_unknownSKU [moves_intros]: "moves (unknownSKU p)"
  unfolding unknownSKU_def by (intro moves_intros)

lemma moves_duplicate [moves_intros]: "moves (duplicateDeliveryNote env p)"
  by (cases p) (simp_all add: duplicateDeliveryNote_def moves_intros)

lemma moves_poOver [moves_intros]: "moves (poOverReceipt vis env p)"
  by (cases p) (auto simp: poOverReceipt_def intro!: moves_intros)

lemma moves_destination [moves_intros]: "moves (transferDestination p)"
  by (cases p) (auto simp: transferDestination_def intro!: moves_intros split: list.split prod.split)

lemma moves_transferOver [moves_intros]: "moves (transferOverReceipt env p)"
  by (cases p) (auto simp: transferOverReceipt_def intro!: moves_intros)

lemma moves_validators [moves_intros]: "moves (runValidators (validators vis env p))"
proof -
  have "moves (runValidators vs)" if "\<forall>v \<in> set vs. moves v" for vs
    using that by (induction vs) (auto intro!: moves_intros)
  then show ?thesis by (simp add: validators_def moves_intros del: runValidators.simps)
qed

lemma moves_dispatches [moves_intros]: "moves (recordDispatches env t f d ms)"
  by (induction ms) (auto intro!: moves_intros)

lemma moves_received [moves_intros]: "moves (recordReceived env t ms)"
  by (induction ms) (auto intro!: moves_intros)

lemma moves_record [moves_intros]: "moves (recordEvent env p rej)"
  by (cases p) (auto simp: recordEvent_def intro!: moves_intros)

lemma moves_fanOut [moves_intros]: "moves (fanOut env p rej)"
proof -
  have "moves (fanOutReceived env t ms)" for t ms by (induction ms) (auto intro!: moves_intros)
  then show ?thesis by (cases p) (auto simp: fanOut_def intro!: moves_intros)
qed

lemma moves_compensate [moves_intros]: "moves (compensate now i r)"
  unfolding compensate_def compensationsOf_def by (intro moves_intros)

lemma moves_arbitrate [moves_intros]: "moves (arbitrate vis now env)"
  unfolding arbitrate_def compensationsOf_def
  by (cases "decodePayload env") (auto simp del: memAppend.simps intro!: moves_intros)

lemma moves_all [moves_intros]: "moves (arbitrateAll cx es)"
  by (induction es) (auto intro!: moves_intros)

text \<open>An arbitration that returns no error leaves a decision.\<close>

lemma callDo_Inr: "callDo g fs s = (Inr x, fs', t) \<Longrightarrow> t = g s"
  by (auto simp: callDo_def call_def split: list.splits call_fault.splits)

lemma arbitrate_decides:
  assumes "arbitrate vis now env fs s = (Inr x, fs', t)"
  shows "decided t (evId env)"
proof -
  from assms obtain ex fs1 s1 where 1: "callRead (\<lambda>m. memDecision m (evId env)) fs s = (Inr ex, fs1, s1)"
    and 2: "(case ex of Some d \<Rightarrow> andThen (compensationsOf (evId env)) (\<lambda>comps. ok (d, comps))
      | None \<Rightarrow> andThen (callDo (\<lambda>m. snd (memAppend [env] m))) (\<lambda>_. case decodePayload env of Inl e \<Rightarrow> failWith e
        | Inr p \<Rightarrow> andThen (runValidators (validators vis env p)) (\<lambda>rej. andThen (recordEvent env p rej) (\<lambda>_.
            andThen (fanOut env p rej) (\<lambda>_. case rej of
              None \<Rightarrow> (let d = acceptedDecision (evId env) in andThen (callDo (memRecordDecision d)) (\<lambda>_. ok (d, [])))
            | Some r \<Rightarrow> compensate now (evId env) r))))) fs1 s1 = (Inr x, fs', t)"
    unfolding arbitrate_def by (cases rule: andThen_cases) auto
  from callRead_Inr [OF 1] have ex: "ex = memDecision s (evId env)" and s1: "s1 = s" by simp_all
  show ?thesis
  proof (cases ex)
    case (Some d)
    then have "andThen (compensationsOf (evId env)) (\<lambda>comps. ok (d, comps)) fs1 s1 = (Inr x, fs', t)" using 2 by simp
    then have "t = s1" by (cases rule: andThen_cases) (auto simp: compensationsOf_def ok_def dest: callRead_Inr)
    with Some ex s1 show ?thesis by (simp add: decided_def)
  next
    case None
    obtain p where p: "decodePayload env = Inr p"
      using 2 None by (cases "decodePayload env") (auto simp: andThen_def failWith_def split: prod.splits sum.splits)
    with 2 None obtain rej fs2 s2 where 3: "(case rej of
              None \<Rightarrow> (let d = acceptedDecision (evId env) in andThen (callDo (memRecordDecision d)) (\<lambda>_. ok (d, [])))
            | Some r \<Rightarrow> compensate now (evId env) r) fs2 s2 = (Inr x, fs', t)"
      by (auto simp: andThen_def split: prod.splits sum.splits)
    have rec: "decided u (evId env)" if "callDo (memRecordDecision d) fs s = (Inr y, fs', u)" "dcEvent d = evId env" for d fs s y fs' u
      using callDo_Inr [OF that(1)] that(2) by (simp add: decided_def memDecision_def memRecordDecision_def)
    show ?thesis
    proof (cases rej)
      case None
      with 3 show ?thesis
        by (auto simp: andThen_def ok_def acceptedDecision_def Let_def split: prod.splits sum.splits intro: rec)
    next
      case (Some r)
      with 3 show ?thesis
        by (auto simp: compensate_def andThen_def ok_def rejectedDecision_def Let_def split: prod.splits sum.splits intro: rec)
    qed
  qed
qed

lemma movesD: "moves op \<Longrightarrow> op fs s = (r, fs', t) \<Longrightarrow> evolves s t"
  unfolding moves_def by (metis snd_conv)

lemma arbitrateAll_decides:
  "arbitrateAll cx es fs s = (Inr x, fs', t) \<Longrightarrow> \<forall>e \<in> set es. decided t (evId e)"
proof (induction es arbitrary: fs s)
  case (Cons e es)
  from Cons.prems obtain y fs1 s1 where 1: "arbitrate (fst (cx (evId e))) (snd (cx (evId e))) e fs s = (Inr y, fs1, s1)"
    and 2: "arbitrateAll cx es fs1 s1 = (Inr x, fs', t)"
    by (auto elim: andThen_cases)
  have "decided s1 (evId e)" by (rule arbitrate_decides [OF 1])
  with movesD [OF moves_all 2] have "decided t (evId e)" by (simp add: evolves_def)
  with Cons.IH [OF 2] show ?case by simp
qed simp

end
