(* ===== verification/WhSession.thy ===== *)
theory WhSession
  imports WhSyncProps "HOL-Library.Sublist"
begin

text \<open>
  A session of a node with central, both ends together. Either end sees a beginning of what the other
  sent, in order, however early the stream breaks.
\<close>

section \<open>Batches that cover a list\<close>

text \<open>Batches in sequence are the list's beginning, each says whether more remains, and one that says
  nothing does is the last. An empty list is covered by one empty batch.\<close>

fun offers :: "'a list \<Rightarrow> ('a list \<times> bool) list \<Rightarrow> bool" where
  "offers xs [] = True"
| "offers xs ((a, cont) # bs) = (prefix a xs \<and> (let b = drop (length a) xs in
     (a = [] \<longrightarrow> xs = []) \<and> cont = (b \<noteq> []) \<and> (if cont then offers b bs else bs = [])))"

lemma offers_Cons:
  "offers xs ((a, cont) # bs) \<longleftrightarrow> (\<exists>b. xs = a @ b \<and> (a = [] \<longrightarrow> b = []) \<and> cont = (b \<noteq> []) \<and> (if cont then offers b bs else bs = []))"
  by (auto simp: prefix_def)

declare offers.simps(2) [simp del] offers_Cons [simp]

lemma offers_prefix: "offers xs bs \<Longrightarrow> prefix (concat (map fst bs)) xs"
proof (induction bs arbitrary: xs)
  case (Cons x bs)
  obtain a cont where x: "x = (a, cont)" by (cases x)
  with Cons.prems obtain b where b: "xs = a @ b" "if cont then offers b bs else bs = []" by auto
  with Cons.IH [of b] show ?case by (cases cont) (auto simp: x)
qed simp

lemma offers_take: "offers xs bs \<Longrightarrow> offers xs (take k bs)"
proof (induction bs arbitrary: xs k)
  case (Cons x bs)
  obtain a cont where x: "x = (a, cont)" by (cases x)
  with Cons.prems obtain b where b: "xs = a @ b" "a = [] \<longrightarrow> b = []" "cont = (b \<noteq> [])" "if cont then offers b bs else bs = []" by auto
  with Cons.IH [of b] show ?case by (cases k) (auto simp: x)
qed simp

lemma offers_ended: "offers xs bs \<Longrightarrow> i < length bs \<Longrightarrow> \<not> snd (bs ! i) \<Longrightarrow> length bs = Suc i \<and> concat (map fst bs) = xs"
proof (induction bs arbitrary: xs i)
  case (Cons x bs)
  obtain a cont where x: "x = (a, cont)" by (cases x)
  with Cons.prems obtain b where b: "xs = a @ b" "cont = (b \<noteq> [])" "if cont then offers b bs else bs = []" by auto
  show ?case
  proof (cases i)
    case 0
    with Cons.prems b show ?thesis by (auto simp: x)
  next
    case (Suc j)
    with Cons.prems b have "cont" by (cases cont) (auto simp: x)
    with Cons.IH [of b j] Cons.prems b Suc show ?thesis by (auto simp: x)
  qed
qed simp

lemma offers_length: "offers xs bs \<Longrightarrow> length bs \<le> max 1 (length xs)"
proof (induction bs arbitrary: xs)
  case (Cons x bs)
  obtain a cont where x: "x = (a, cont)" by (cases x)
  with Cons.prems obtain b where b: "xs = a @ b" "a = [] \<longrightarrow> b = []" "cont = (b \<noteq> [])" "if cont then offers b bs else bs = []" by auto
  show ?case
  proof (cases cont)
    case True
    then have "length bs \<le> length b" "a \<noteq> []" using Cons.IH [of b] b by (cases b; auto)+
    with b show ?thesis by (cases a) (auto simp: x)
  qed (use b in \<open>simp add: x\<close>)
qed simp

lemma offers_nonempty: "offers xs bs \<Longrightarrow> xs \<noteq> [] \<Longrightarrow> (a, cont) \<in> set bs \<Longrightarrow> a \<noteq> []"
proof (induction bs arbitrary: xs)
  case (Cons x bs)
  then show ?case by (cases x) (auto split: if_splits)
qed simp

lemma offers_append:
  assumes "offers xs bs" "list_all snd bs" "offers (drop (length (concat (map fst bs))) xs) cs"
  shows "offers xs (bs @ cs)"
  using assms
proof (induction bs arbitrary: xs)
  case (Cons x bs)
  obtain a cont where x: "x = (a, cont)" by (cases x)
  with Cons.prems obtain b where b: "xs = a @ b" "a = [] \<longrightarrow> b = []" "b \<noteq> []" "offers b bs" "cont" by auto
  with Cons.IH [of b] Cons.prems show ?case by (auto simp: x)
qed simp

lemma offers_unfinished: "offers xs bs \<Longrightarrow> bs \<noteq> [] \<Longrightarrow> snd (last bs) \<Longrightarrow> concat (map fst bs) \<noteq> xs"
proof (induction bs arbitrary: xs)
  case (Cons x bs)
  obtain a cont where x: "x = (a, cont)" by (cases x)
  with Cons.prems obtain b where b: "xs = a @ b" "cont = (b \<noteq> [])" "if cont then offers b bs else bs = []" by auto
  with Cons.IH [of b] Cons.prems show ?case by (cases "bs = []") (auto simp: x split: if_splits)
qed simp

section \<open>What central sends\<close>

definition downFrame :: "uint64 \<Rightarrow> outbound list \<times> bool \<Rightarrow> central_frame" where
  "downFrame cur = (\<lambda>(a, cont). KEvents (encodeBatch (map obEnv a)) cont (if a = [] then cur else obOrd (last a)))"

definition sameEnd :: "central_end \<Rightarrow> central_end \<Rightarrow> bool" where
  "sameEnd c c' \<longleftrightarrow> ceStore c' = ceStore c \<and> stIn (ceStream c') = stIn (ceStream c) \<and> stEOF (ceStream c') = stEOF (ceStream c)"

lemma sameEnd_refl [simp]: "sameEnd c c"
  by (simp add: sameEnd_def)

lemma sameEnd_trans: "sameEnd c d \<Longrightarrow> sameEnd d e \<Longrightarrow> sameEnd c e"
  by (simp add: sameEnd_def)

lemma centralSend_out:
  "centralSend f c = (r, c') \<Longrightarrow> sameEnd c c' \<and> stOut (ceStream c') = stOut (ceStream c) @ (if r = None then [f] else [])"
  by (auto simp: centralSend_def sameEnd_def split: prod.splits if_splits)

lemma atRead_out: "atStore (callRead g) c = (r, c') \<Longrightarrow> sameEnd c c' \<and> stOut (ceStream c') = stOut (ceStream c) \<and> (\<forall>x. r = Inr x \<longrightarrow> x = g (ceStore c))"
  by (auto simp: atStore_def sameEnd_def split: prod.splits dest: callRead_store callRead_Inr)

definition ordered :: "outbound list \<Rightarrow> bool" where
  "ordered rows \<longleftrightarrow> sorted_wrt (<) (map obOrd rows)"

lemma ordered_pending: "ordered (queueOf m n) \<Longrightarrow> ordered (pendingAfter m n cur)"
  unfolding ordered_def pendingAfter_def queueOf_def sorted_wrt_map by (rule sorted_wrt_filter)

lemma pendingAfter_above: "r \<in> set (pendingAfter m n cur) \<Longrightarrow> cur < obOrd r"
  by (auto simp: pendingAfter_def)

lemma pendingAfter_drop:
  assumes "ordered (queueOf m n)" "pendingAfter m n cur = a @ b" "a \<noteq> []"
  shows "pendingAfter m n (obOrd (last a)) = b"
proof -
  let ?l = "obOrd (last a)"
  have "cur < ?l" using pendingAfter_above [of "last a" m n cur] assms by simp
  then have "pendingAfter m n ?l = filter (\<lambda>r. \<not> obOrd r \<le> ?l) (pendingAfter m n cur)"
    unfolding pendingAfter_def filter_filter by (intro filter_cong) auto
  also have eq: "pendingAfter m n cur = butlast a @ last a # b" using assms(2,3) by simp
  also have "filter (\<lambda>r. \<not> obOrd r \<le> ?l) (butlast a @ last a # b) = b"
  proof -
    have "sorted_wrt (<) (map obOrd (butlast a @ last a # b))"
      using ordered_pending [OF assms(1), of cur] unfolding eq ordered_def .
    then have "\<forall>r \<in> set (butlast a). obOrd r \<le> ?l" "\<forall>r \<in> set b. \<not> obOrd r \<le> ?l"
      by (auto simp: sorted_wrt_append)
    then show ?thesis by (simp add: filter_empty_conv filter_id_conv)
  qed
  finally show ?thesis .
qed

lemma memOutbound_one: "memOutbound m n cur 1 \<noteq> [] \<longleftrightarrow> pendingAfter m n cur \<noteq> []"
  by (simp add: memOutbound_take)

lemma pushChunks_offers:
  assumes "pushChunks n rows chs cur c = (r, c')" "concat chs = map obEnv rows" "\<And>ch. ch \<in> set chs \<Longrightarrow> ch \<noteq> []"
    and "pendingAfter (ceStore c) n cur = rows @ rest" "ordered (queueOf (ceStore c) n)"
  shows "\<exists>bs. offers (rows @ rest) bs \<and> stOut (ceStream c') = stOut (ceStream c) @ map (downFrame base) bs \<and> sameEnd c c' \<and>
    (case r of Inl _ \<Rightarrow> True | Inr (True, _) \<Rightarrow> bs \<noteq> [] \<and> \<not> snd (last bs)
     | Inr (False, cur') \<Rightarrow> list_all snd bs \<and> concat (map fst bs) = rows \<and> pendingAfter (ceStore c) n cur' = rest)"
  using assms
proof (induction n rows chs cur c rule: pushChunks.induct)
  case (1 n rows cur c)
  then show ?case by (auto intro: exI [of _ "[]"])
next
  case (2 n rows ch chs cur c)
  let ?cur = "chunkOrd rows ch" and ?a = "take (length ch) rows" and ?b = "drop (length ch) rows @ rest"
  obtain r1 c1 where a: "(if chs \<noteq> [] then (Inr True, c) else atStore (callRead (\<lambda>m. memOutbound m n ?cur 1 \<noteq> [])) c) = (r1, c1)"
    by (metis surj_pair)
  have c1: "sameEnd c c1" "stOut (ceStream c1) = stOut (ceStream c)" using a atRead_out by (auto split: if_splits)
  have ch: "ch \<noteq> []" using "2.prems"(3) by simp
  have len: "length ch \<le> length rows" using arg_cong [OF "2.prems"(2), of length] by simp
  have ab: "rows @ rest = ?a @ ?b" "?a \<noteq> []" "map obEnv ?a = ch"
    using ch len "2.prems"(2) by (auto simp: append_eq_append_conv_if take_map [symmetric] dest: arg_cong [of _ _ "take (length ch)"])
  have cur: "?cur = obOrd (last ?a)" using ab(2) len by (simp add: chunkOrd_def last_conv_nth min_absorb2)
  have pend: "pendingAfter (ceStore c) n ?cur = ?b"
    unfolding cur using "2.prems"(4,5) ab(1,2) by (intro pendingAfter_drop) simp_all
  have cat: "concat chs = map obEnv (drop (length ch) rows)"
    using "2.prems"(2) by (metis append_eq_conv_conj concat.simps(2) drop_map)
  show ?case
  proof (cases r1)
    case (Inl e)
    then have "r = Inl (SyStore e)" "c' = c1" using "2.prems"(1) a by (auto simp: Let_def)
    with c1 show ?thesis by (intro exI [of _ "[]"]) simp
  next
    case (Inr cont)
    have cont: "cont = (?b \<noteq> [])"
    proof (cases "chs = []")
      case True
      then have "cont = (pendingAfter (ceStore c) n ?cur \<noteq> [])" using a atRead_out Inr memOutbound_one by fastforce
      then show ?thesis by (simp add: pend)
    next
      case False
      then have "concat chs \<noteq> []" using "2.prems"(3) by (cases chs) auto
      with cat a False Inr show ?thesis by auto
    qed
    obtain e2 c2 where b: "centralSend (KEvents (encodeBatch ch) cont ?cur) c1 = (e2, c2)" by fastforce
    have frame: "KEvents (encodeBatch ch) cont ?cur = downFrame base (?a, cont)"
      using ab by (simp add: downFrame_def cur)
    note sent = centralSend_out [OF b, unfolded frame]
    have c2: "sameEnd c c2" using sent c1 by (auto intro: sameEnd_trans)
    consider (failed) e where "e2 = Some e" "r = Inl e" "c' = c2" | (ended) "e2 = None" "\<not> cont" "r = Inr (True, ?cur)" "c' = c2"
      | (more) "e2 = None" "cont" "pushChunks n (drop (length ch) rows) chs ?cur c2 = (r, c')"
      using "2.prems"(1) a Inr b by (cases e2; cases cont) (auto simp: Let_def)
    then show ?thesis
    proof cases
      case failed
      with sent c1 c2 show ?thesis by (intro exI [of _ "[]"]) simp
    next
      case ended
      with sent c1 c2 cont ab show ?thesis by (intro exI [of _ "[(?a, cont)]"]) simp
    next
      case more
      have "pendingAfter (ceStore c2) n ?cur = ?b" "ordered (queueOf (ceStore c2) n)" using c2 pend "2.prems"(5) by (simp_all add: sameEnd_def)
      from "2.IH" [OF refl a [symmetric] Inr b [symmetric] more(1) _ more(3) cat _ this] more(2) "2.prems"(3)
      obtain bs where bs: "offers ?b bs" "stOut (ceStream c') = stOut (ceStream c2) @ map (downFrame base) bs" "sameEnd c2 c'"
        "case r of Inl _ \<Rightarrow> True | Inr (True, _) \<Rightarrow> bs \<noteq> [] \<and> \<not> snd (last bs)
         | Inr (False, cur') \<Rightarrow> list_all snd bs \<and> concat (map fst bs) = drop (length ch) rows \<and> pendingAfter (ceStore c2) n cur' = rest"
        by auto
      have "offers (rows @ rest) ((?a, cont) # bs)" unfolding offers_Cons by (rule exI [of _ ?b]) (use bs(1) more(2) cont ab in simp)
      moreover have "sameEnd c c'" using c2 bs(3) by (rule sameEnd_trans)
      moreover have "case r of Inl _ \<Rightarrow> True | Inr (True, _) \<Rightarrow> (?a, cont) # bs \<noteq> [] \<and> \<not> snd (last ((?a, cont) # bs))
         | Inr (False, cur') \<Rightarrow> list_all snd ((?a, cont) # bs) \<and> concat (map fst ((?a, cont) # bs)) = rows \<and> pendingAfter (ceStore c) n cur' = rest"
        using bs(4) more(2) c2 by (auto simp: sameEnd_def split: sum.splits bool.splits)
      ultimately show ?thesis using bs(2) sent more(1) c1(2) by (intro exI [of _ "(?a, cont) # bs"]) simp
    qed
  qed
qed

lemma push_offers:
  assumes "push len n cur c = (err, c')" "ordered (queueOf (ceStore c) n)"
  shows "\<exists>bs. offers (pendingAfter (ceStore c) n cur) bs \<and> stOut (ceStream c') = stOut (ceStream c) @ map (downFrame cur) bs \<and>
    sameEnd c c' \<and> (err = None \<longrightarrow> bs \<noteq> [] \<and> \<not> snd (last bs))"
  using assms
proof (induction len n cur c rule: push.induct)
  case (1 len n cur c)
  let ?pend = "pendingAfter (ceStore c) n cur"
  obtain r1 c1 where a: "atStore (callRead (\<lambda>m. memOutbound m n cur (int MaxBatchEvents))) c = (r1, c1)" by fastforce
  note c1 = atRead_out [OF a]
  show ?case
  proof (cases r1)
    case (Inl e)
    with 1 a c1 show ?thesis by (intro exI [of _ "[]"]) (auto simp: push.simps)
  next
    case (Inr rows)
    have rows: "rows = take MaxBatchEvents ?pend" using c1 Inr by (simp add: memOutbound_take)
    show ?thesis
    proof (cases "rows = []")
      case True
      then have "?pend = []" by (simp add: rows MaxBatchEvents_def)
      moreover have "centralSend (KEvents [] False cur) c1 = (err, c')" using "1.prems"(1) a Inr True by (simp add: push.simps)
      ultimately show ?thesis
        using centralSend_out [of "KEvents [] False cur" c1 err c'] c1
        by (cases err) (auto simp: downFrame_def encodeBatch_def intro: sameEnd_trans exI [of _ "[]"] exI [of _ "[([], False)]"])
    next
      case False
      let ?rest = "drop MaxBatchEvents ?pend"
      obtain r2 c2 where b: "pushChunks n rows (chunk len (map obEnv rows)) cur c1 = (r2, c2)" by fastforce
      have pend: "pendingAfter (ceStore c1) n cur = rows @ ?rest" "ordered (queueOf (ceStore c1) n)"
        using c1 "1.prems"(2) by (simp_all add: rows sameEnd_def)
      have "\<And>ch. ch \<in> set (chunk len (map obEnv rows)) \<Longrightarrow> ch \<noteq> []" by (rule chunk_nonempty)
      from pushChunks_offers [OF b chunk_concat this pend, where base = cur]
      obtain bs where bs: "offers (rows @ ?rest) bs" "stOut (ceStream c2) = stOut (ceStream c1) @ map (downFrame cur) bs" "sameEnd c1 c2"
        "case r2 of Inl _ \<Rightarrow> True | Inr (True, _) \<Rightarrow> bs \<noteq> [] \<and> \<not> snd (last bs)
         | Inr (False, cur') \<Rightarrow> list_all snd bs \<and> concat (map fst bs) = rows \<and> pendingAfter (ceStore c1) n cur' = ?rest"
        by blast
      have off: "offers ?pend bs" using bs(1) by (simp add: rows)
      have c2: "sameEnd c c2" using c1 bs(3) by (auto intro: sameEnd_trans)
      consider (failed) e where "r2 = Inl e" "err = Some e" "c' = c2" | (ended) cur' where "r2 = Inr (True, cur')" "err = None" "c' = c2"
        | (more) cur' where "r2 = Inr (False, cur')" "push len n cur' c2 = (err, c')"
        using "1.prems"(1) a Inr False b by (cases r2) (auto simp: push.simps [of len n cur c] split: if_splits)
      then show ?thesis
      proof cases
        case failed
        with off bs(2) c1 c2 show ?thesis by (intro exI [of _ bs]) simp
      next
        case ended
        with off bs(2,4) c1 c2 show ?thesis by (intro exI [of _ bs]) simp
      next
        case more
        from bs(4) more(1) have b4: "list_all snd bs" "concat (map fst bs) = rows" "pendingAfter (ceStore c2) n cur' = ?rest"
          using bs(3) by (simp_all add: sameEnd_def)
        have "ordered (queueOf (ceStore c2) n)" using c2 "1.prems"(2) by (simp add: sameEnd_def)
        from "1.IH" [OF a [symmetric] Inr False b [symmetric] more(1) refl _ more(2) this] b4(3)
        obtain cs where cs: "offers ?rest cs" "stOut (ceStream c') = stOut (ceStream c2) @ map (downFrame cur') cs" "sameEnd c2 c'"
          "err = None \<longrightarrow> cs \<noteq> [] \<and> \<not> snd (last cs)" by auto
        have "bs \<noteq> []" using b4(2) False by auto
        then have "snd (last bs)" using b4(1) by (simp add: list_all_iff)
        have rest: "?rest \<noteq> []"
        proof
          assume "?rest = []"
          then have "concat (map fst bs) = ?pend" using b4(2) by (simp add: rows)
          with offers_unfinished [OF off \<open>bs \<noteq> []\<close> \<open>snd (last bs)\<close>] show False by simp
        qed
        have "map (downFrame cur') cs = map (downFrame cur) cs"
          using offers_nonempty [OF cs(1) rest] by (auto simp: downFrame_def)
        moreover have split: "drop (length rows) ?pend = ?rest" by (simp add: rows min_def)
        have "offers ?pend (bs @ cs)"
          using off b4(1) cs(1) split by (intro offers_append) (simp_all add: b4(2))
        moreover have "sameEnd c c'" using c2 cs(3) by (rule sameEnd_trans)
        ultimately show ?thesis using bs(2) cs(2,4) c1 by (intro exI [of _ "bs @ cs"]) simp
      qed
    qed
  qed
qed

section \<open>What central receives\<close>

text \<open>Central's store moves as before, and its cursors may be written.\<close>

definition evolvesTo :: "mem_store \<Rightarrow> mem_store \<Rightarrow> bool" where
  "evolvesTo s t \<longleftrightarrow> evolves (s\<lparr>mmPushed := mmPushed t, mmDelivered := mmDelivered t\<rparr>) t"

lemma cursor_updates [simp]:
  "queueOk (mmPushed_update f s) = queueOk s" "queueOk (mmDelivered_update f s) = queueOk s"
  "enqueuedCount (mmPushed_update f s) = enqueuedCount s" "enqueuedCount (mmDelivered_update f s) = enqueuedCount s"
  "queueOf (mmPushed_update f s) n = queueOf s n" "queueOf (mmDelivered_update f s) n = queueOf s n"
  "decided (mmPushed_update f s) i = decided s i" "decided (mmDelivered_update f s) i = decided s i"
  unfolding queueOk_def enqueuedCount_def queueOf_def decided_def memDecision_def by simp_all

lemma evolves_cursors: "evolves s t \<Longrightarrow> evolves (s\<lparr>mmPushed := p, mmDelivered := d\<rparr>) (t\<lparr>mmPushed := p, mmDelivered := d\<rparr>)"
  by (simp add: evolves_def)

lemma evolvesTo_evolves: "evolves s t \<Longrightarrow> evolvesTo s t"
  unfolding evolvesTo_def by (simp add: evolves_def)

lemma evolvesTo_refl [simp]: "evolvesTo s s"
  by (simp add: evolvesTo_evolves)

lemma evolvesTo_trans:
  assumes "evolvesTo s t" "evolvesTo t u"
  shows "evolvesTo s u"
  using evolves_cursors [OF assms(1) [unfolded evolvesTo_def], where p = "mmPushed u" and d = "mmDelivered u"] assms(2)
  unfolding evolvesTo_def by (auto intro: evolves_trans)

lemma evolvesTo_pushed [simp]: "evolvesTo s (memSetPushedSeq n h s)"
  by (simp add: evolvesTo_def memSetPushedSeq_def)

lemma evolvesTo_delivered [simp]: "evolvesTo s (memSetDeliveredOrd n h s)"
  by (simp add: evolvesTo_def memSetDeliveredOrd_def)

lemma evolvesTo_facts:
  assumes "evolvesTo s t"
  shows "enqueuedCount s \<le> enqueuedCount t" "queueOk s \<Longrightarrow> queueOk t" "decided s i \<Longrightarrow> decided t i"
    "queueOk s \<Longrightarrow> enqueuedCount t < 2 ^ 64 \<Longrightarrow> mmNextOrd s \<le> mmNextOrd t"
    "queueOk s \<Longrightarrow> enqueuedCount t < 2 ^ 64 \<Longrightarrow> \<exists>new. queueOf t n = queueOf s n @ new \<and> list_all (\<lambda>r. mmNextOrd s < obOrd r) new"
  using assms by (simp_all add: evolvesTo_def evolves_def)

lemma receiveBatch_effect:
  assumes "receiveBatch cx n envs fs s = (r, fs', t)"
  shows "evolvesTo s t \<and> mmDelivered t = mmDelivered s \<and>
    (memPushedSeq t n = memPushedSeq s n \<and> (\<exists>e. r = Inl e) \<or>
     (\<forall>e \<in> set envs. decided t (evId e)) \<and> memPushedSeq t n = highestOwn n (memPushedSeq s n) envs)"
proof -
  obtain r1 fs1 s1 where 1: "callRead (\<lambda>m. memPushedSeq m n) fs s = (r1, fs1, s1)" by (metis prod_cases3)
  have s1: "s1 = s" using callRead_store [OF 1] .
  show ?thesis
  proof (cases r1)
    case (Inl e)
    with assms 1 s1 show ?thesis by (auto simp: receiveBatch_def andThen_def)
  next
    case (Inr h)
    have h: "h = memPushedSeq s n" using callRead_Inr [OF 1 [unfolded Inr]] by simp
    obtain r2 fs2 s2 where 2: "arbitrateAll cx envs fs1 s = (r2, fs2, s2)" by (metis prod_cases3)
    have ev: "evolves s s2" by (rule movesD [OF moves_all 2])
    then have same: "mmDelivered s2 = mmDelivered s" "memPushedSeq s2 n = memPushedSeq s n" by (simp_all add: evolves_def memPushedSeq_def)
    show ?thesis
    proof (cases r2)
      case (Inl e)
      with assms 1 Inr 2 s1 have "r = Inl e" "t = s2" by (auto simp: receiveBatch_def andThen_def)
      with same evolvesTo_evolves [OF ev] show ?thesis by simp
    next
      case (Inr u)
      let ?h = "highestOwn n (memPushedSeq s n) envs"
      have dec: "\<forall>e \<in> set envs. decided s2 (evId e)" using arbitrateAll_decides 2 Inr by blast
      have "t = s2 \<and> (\<exists>e. r = Inl e) \<or> t = memSetPushedSeq n ?h s2"
        using assms 1 \<open>r1 = Inr h\<close> 2 s1 Inr h
        by (auto simp: receiveBatch_def andThen_def callDo_def call_def ok_def Let_def split: list.splits call_fault.splits)
      then show ?thesis
      proof
        assume "t = s2 \<and> (\<exists>e. r = Inl e)"
        with same evolvesTo_evolves [OF ev] show ?thesis by simp
      next
        assume t: "t = memSetPushedSeq n ?h s2"
        have "evolvesTo s t" unfolding t by (rule evolvesTo_trans [OF evolvesTo_evolves [OF ev] evolvesTo_pushed])
        moreover have "\<forall>e \<in> set envs. decided t (evId e)"
          using dec by (simp add: t memSetPushedSeq_def decided_def memDecision_def)
        moreover have "memPushedSeq t n = ?h" "mmDelivered t = mmDelivered s"
          using same by (simp_all add: t memSetPushedSeq_def memPushedSeq_def fm_get_def)
        ultimately show ?thesis by simp
      qed
    qed
  qed
qed

definition readsAs :: "node_frame \<Rightarrow> envelope list \<Rightarrow> bool" where
  "readsAs f es \<longleftrightarrow> (case f of NEvents ws _ \<Rightarrow> decodeBatch ws = Inr es | _ \<Rightarrow> False)"

definition moreUp :: "node_frame \<Rightarrow> bool" where
  "moreUp f = (case f of NEvents _ cont \<Rightarrow> cont | _ \<Rightarrow> True)"

definition isAck :: "central_frame \<Rightarrow> bool" where
  "isAck f = (case f of KAck _ _ \<Rightarrow> True | _ \<Rightarrow> False)"

lemma isAck_KAck [simp]: "isAck (KAck s o')"
  by (simp add: isAck_def)

text \<open>Some of the frames were taken in: their events are decided, and the cursor covers them.\<close>

definition tookIn :: "node_id \<Rightarrow> node_frame list \<Rightarrow> mem_store \<Rightarrow> envelope list list \<Rightarrow> mem_store \<Rightarrow> bool" where
  "tookIn n frs s dn t \<longleftrightarrow> evolvesTo s t \<and> mmDelivered t = mmDelivered s \<and> length dn \<le> length frs \<and>
     list_all2 readsAs (take (length dn) frs) dn \<and> (\<forall>e \<in> set (concat dn). decided t (evId e)) \<and>
     memPushedSeq t n = highestOwn n (memPushedSeq s n) (concat dn)"

lemma highestOwn_append: "highestOwn n h (xs @ ys) = highestOwn n (highestOwn n h xs) ys"
  by (simp add: highestOwn_def)

lemma highestOwn_Nil [simp]: "highestOwn n h [] = h"
  by (simp add: highestOwn_def)

lemma tookIn_nothing: "evolvesTo s t \<Longrightarrow> mmDelivered t = mmDelivered s \<Longrightarrow> memPushedSeq t n = memPushedSeq s n \<Longrightarrow> tookIn n frs s [] t"
  by (simp add: tookIn_def)

lemma tookIn_self [simp]: "tookIn n frs s [] s"
  by (simp add: tookIn_nothing)

lemma tookIn_Cons:
  assumes "readsAs f es" "evolvesTo s t" "mmDelivered t = mmDelivered s" "\<forall>e \<in> set es. decided t (evId e)"
    "memPushedSeq t n = highestOwn n (memPushedSeq s n) es" "tookIn n frs t dn u"
  shows "tookIn n (f # frs) s (es # dn) u"
  using assms evolvesTo_trans [OF assms(2), of u] evolvesTo_facts(3) [of t u]
  by (auto simp: tookIn_def highestOwn_append)

lemma atStore_op: "atStore op c = (r, c') \<Longrightarrow> \<exists>fs'. op (ceFaults c) (ceStore c) = (r, fs', ceStore c') \<and> ceStream c' = ceStream c"
  by (auto simp: atStore_def split: prod.splits)

lemma receive_takes:
  assumes "receiveBatches cx n eof frs c = (err, rest, c')"
  shows "\<exists>dn acks. tookIn n frs (ceStore c) dn (ceStore c') \<and> stOut (ceStream c') = stOut (ceStream c) @ acks \<and>
    list_all isAck acks \<and> length acks \<le> length dn \<and>
    stIn (ceStream c') = stIn (ceStream c) \<and> stEOF (ceStream c') = stEOF (ceStream c) \<and>
    (err = None \<longrightarrow> length acks = length dn \<and> (eof \<and> rest = [] \<and> length dn = length frs \<or>
       dn \<noteq> [] \<and> \<not> moreUp (frs ! (length dn - 1)) \<and> rest = drop (length dn) frs))"
  using assms
proof (induction cx n eof frs c rule: receiveBatches.induct)
  case (2 cx n eof ws cont frs c)
  show ?case
  proof (cases "decodeBatch ws")
    case (Inl e)
    with "2.prems" show ?thesis by (intro exI [of _ "[]"]) (auto intro: tookIn_nothing)
  next
    case (Inr es)
    obtain r1 c1 where a: "atStore (receiveBatch cx n es) c = (r1, c1)" by fastforce
    from atStore_op [OF a] obtain fs1 where a': "receiveBatch cx n es (ceFaults c) (ceStore c) = (r1, fs1, ceStore c1)"
      and st1: "ceStream c1 = ceStream c" by blast
    note eff = receiveBatch_effect [OF a']
    have reads: "readsAs (NEvents ws cont) es" using Inr by (simp add: readsAs_def)
    consider (none) "tookIn n (NEvents ws cont # frs) (ceStore c) [] (ceStore c1)" "\<exists>e. r1 = Inl e"
      | (took) "\<forall>e \<in> set es. decided (ceStore c1) (evId e)" "memPushedSeq (ceStore c1) n = highestOwn n (memPushedSeq (ceStore c) n) es"
      using eff by (blast intro: tookIn_nothing)
    then show ?thesis
    proof cases
      case none
      with "2.prems" Inr a st1 show ?thesis by (intro exI [of _ "[]"]) auto
    next
      case took
      have step: "tookIn n (NEvents ws cont # frs) (ceStore c) (es # dn) u" if "tookIn n frs (ceStore c1) dn u" for dn u
        using tookIn_Cons [OF reads _ _ took that] eff by simp
      have one: "tookIn n (NEvents ws cont # frs) (ceStore c) [es] (ceStore c1)" by (intro step tookIn_nothing) simp_all
      show ?thesis
      proof (cases r1)
        case (Inl e)
        with "2.prems" Inr a st1 one show ?thesis by (intro exI [of _ "[es]"] exI [of _ "[]"]) auto
      next
        case h: (Inr h)
        obtain r2 c2 where b: "centralSend (KAck h 0) c1 = (r2, c2)" by fastforce
        note sent = centralSend_out [OF b]
        have c2: "ceStore c2 = ceStore c1" "stIn (ceStream c2) = stIn (ceStream c)" "stEOF (ceStream c2) = stEOF (ceStream c)"
          using sent st1 by (simp_all add: sameEnd_def)
        show ?thesis
        proof (cases "r2 = None \<and> cont")
          case False
          with "2.prems" Inr a h b have "rest = frs" "c' = c2" "err = r2" by (auto split: option.splits if_splits)
          with False sent c2 one st1 show ?thesis
            by (intro exI [of _ "[es]"] exI [of _ "if r2 = None then [KAck h 0] else []"]) (auto simp: moreUp_def)
        next
          case True
          with "2.prems" Inr a h b have r: "receiveBatches cx n eof frs c2 = (err, rest, c')" by simp
          from "2.IH" [OF Inr a [symmetric] h b [symmetric] _ _ r] True obtain dn acks where
            ih: "tookIn n frs (ceStore c2) dn (ceStore c')" "stOut (ceStream c') = stOut (ceStream c2) @ acks"
              "list_all isAck acks" "length acks \<le> length dn" "stIn (ceStream c') = stIn (ceStream c2)" "stEOF (ceStream c') = stEOF (ceStream c2)"
              "err = None \<longrightarrow> length acks = length dn \<and> (eof \<and> rest = [] \<and> length dn = length frs \<or>
                dn \<noteq> [] \<and> \<not> moreUp (frs ! (length dn - 1)) \<and> rest = drop (length dn) frs)" by blast
          have "stOut (ceStream c') = stOut (ceStream c) @ KAck h 0 # acks" using ih(2) sent True st1 by simp
          with ih step [OF ih(1) [unfolded c2(1)]] c2 show ?thesis
            by (intro exI [of _ "es # dn"] exI [of _ "KAck h 0 # acks"]) (auto simp: nth_Cons')
        qed
      qed
    qed
  qed
qed (auto intro!: exI [of _ "[]"] split: if_splits)

section \<open>What the node sends\<close>

text \<open>The identities of the node's own rows, in the order of their numbers.\<close>

definition ownAll :: "wh_rows \<Rightarrow> node_id \<Rightarrow> event_id list" where
  "ownAll rows n = map fst (sort_key (\<lambda>(i, _). idSeq i) (filter (\<lambda>(i, _). idNode i = n) (sorted_list_of_fmap rows)))"

definition ownIds :: "wh_rows \<Rightarrow> node_id \<Rightarrow> uint64 \<Rightarrow> event_id list" where
  "ownIds rows n s = filter (\<lambda>i. s < idSeq i) (ownAll rows n)"

lemma ownAll_set: "i \<in> set (ownAll rows n) \<longleftrightarrow> i |\<in>| fmdom rows \<and> idNode i = n"
proof -
  have "i \<in> set (ownAll rows n) \<longleftrightarrow> (\<exists>r. fmlookup rows i = Some r) \<and> idNode i = n"
    by (force simp: ownAll_def simp flip: set_sorted_list_of_fmap)
  then show ?thesis by (simp add: fmlookup_dom_iff)
qed

lemma sort_key_fst: "map fst (sort_key (\<lambda>(i, _). f i) xs) = sort_key f (map fst xs)"
proof -
  have "sort_key f (map fst xs) = map fst (sort_key (\<lambda>x. f (fst x)) xs)" by (rule sort_key_map)
  then show ?thesis by (simp add: case_prod_unfold)
qed

lemma ownAll_ascending: "sorted_wrt (<) (map idSeq (ownAll rows n))"
proof -
  let ?xs = "filter (\<lambda>(i, _). idNode i = n) (sorted_list_of_fmap rows)"
  have "distinct (map fst ?xs)" by (intro distinct_map_filter distinct_sorted_list_of_fmap)
  then have "distinct (sort_key idSeq (map fst ?xs))" by (simp only: distinct_sort)
  then have "distinct (ownAll rows n)" by (simp only: ownAll_def sort_key_fst)
  moreover have "inj_on idSeq (set (ownAll rows n))"
    by (rule inj_onI) (simp add: ownAll_set event_id.expand)
  ultimately have "distinct (map idSeq (ownAll rows n))" by (simp add: distinct_map)
  moreover have "sorted (map idSeq (ownAll rows n))" by (simp add: ownAll_def sort_key_fst)
  ultimately show ?thesis by (simp add: strict_sorted_iff)
qed

lemma ownIds_set: "i \<in> set (ownIds rows n s) \<longleftrightarrow> i |\<in>| fmdom rows \<and> idNode i = n \<and> s < idSeq i"
  by (auto simp: ownIds_def ownAll_set)

lemma ownIds_ascending: "sorted_wrt (<) (map idSeq (ownIds rows n s))"
  using ownAll_ascending [of rows n] unfolding ownIds_def sorted_wrt_map by (rule sorted_wrt_filter)

lemma ownIds_drop:
  assumes "ownIds rows n s = a @ b" "a \<noteq> []"
  shows "ownIds rows n (idSeq (last a)) = b"
proof -
  let ?l = "idSeq (last a)"
  have "s < ?l" using ownIds_set [of "last a" rows n s] assms by simp
  then have "ownIds rows n ?l = filter (\<lambda>i. ?l < idSeq i) (ownIds rows n s)"
    unfolding ownIds_def filter_filter by (intro filter_cong) auto
  also have eq: "ownIds rows n s = butlast a @ last a # b" using assms by simp
  also have "filter (\<lambda>i. ?l < idSeq i) (butlast a @ last a # b) = b"
  proof -
    have "sorted_wrt (<) (map idSeq (butlast a @ last a # b))" using ownIds_ascending [of rows n s] unfolding eq .
    then have "\<forall>i \<in> set (butlast a). \<not> ?l < idSeq i" "\<forall>i \<in> set b. ?l < idSeq i"
      by (auto simp: sorted_wrt_append)
    then show ?thesis by (simp add: filter_empty_conv filter_id_conv)
  qed
  finally show ?thesis .
qed

lemma readOwn_ids:
  assumes "whReadOwnAfter l s limit = Inr envs"
  shows "map evId envs = sqlLimit limit (ownIds (whRows (wlDb l)) (wlNode l) s)"
proof -
  let ?rows = "whRows (wlDb l)" and ?p = "\<lambda>(i, r). idNode i = wlNode l \<and> s < idSeq i"
  let ?xs = "sort_key (\<lambda>(i, _). idSeq i) (filter ?p (sorted_list_of_fmap ?rows))"
  have q: "queryRows (sqlLimit limit ?xs) = Inr envs" using assms by (simp add: whReadOwnAfter_def split: if_splits)
  have "map evId envs = map fst (sqlLimit limit ?xs)"
  proof (rule conjunct2 [OF queryRows_stored [OF q]])
    fix i r
    assume "(i, r) \<in> set (sqlLimit limit ?xs)"
    then have "(i, r) \<in> set ?xs" by (auto simp: sqlLimit_def split: if_splits dest: in_set_takeD)
    then show "fmlookup ?rows i = Some r" by (simp add: set_sorted_list_of_fmap)
  qed
  also have "\<dots> = sqlLimit limit (map fst ?xs)" by (simp add: sqlLimit_def take_map)
  also have "map fst ?xs = ownIds ?rows (wlNode l) s"
  proof -
    have "ownIds ?rows (wlNode l) s = map fst (filter (\<lambda>(i, _). s < idSeq i)
        (sort_key (\<lambda>(i, _). idSeq i) (filter (\<lambda>(i, _). idNode i = wlNode l) (sorted_list_of_fmap ?rows))))"
      by (simp add: ownIds_def ownAll_def filter_map comp_def case_prod_unfold)
    also have "\<dots> = map fst ?xs"
      by (simp add: filter_sort case_prod_unfold conj_commute)
    finally show ?thesis by simp
  qed
  finally show ?thesis .
qed

text \<open>Chunks that are the beginning of what remains, the empty chunk if nothing does.\<close>

definition backlogOf :: "envelope list list \<Rightarrow> event_id list \<Rightarrow> bool" where
  "backlogOf chs own \<longleftrightarrow> chs \<noteq> [] \<and> (if own = [] then chs = [[]] else [] \<notin> set chs \<and> prefix (map evId (concat chs)) own)"

lemma pageFrom_backlog:
  assumes "pageFrom len s l = Inr chs"
  shows "backlogOf chs (ownIds (whRows (wlDb l)) (wlNode l) s)"
proof -
  let ?own = "ownIds (whRows (wlDb l)) (wlNode l) s"
  obtain envs where r: "whReadOwnAfter l s (of_nat MaxBatchEvents) = Inr envs" and chs: "chs = (if chunk len envs = [] then [[]] else chunk len envs)"
    using assms by (auto simp: pageFrom_def split: sum.splits)
  have ids: "map evId envs = take 200 ?own" using readOwn_ids [OF r] by (simp add: sqlLimit_def MaxBatchEvents_def)
  have "chunk len envs = [] \<longleftrightarrow> envs = []" using chunk_concat [of len envs] by (auto simp: chunk_def)
  moreover have "envs = [] \<longleftrightarrow> ?own = []" using ids by (cases envs; cases ?own) simp_all
  moreover have "map evId (concat (chunk len envs)) = take 200 ?own" by (simp only: chunk_concat ids)
  moreover have "[] \<notin> set (chunk len envs)" using chunk_nonempty by blast
  ultimately show ?thesis by (auto simp: backlogOf_def chs take_is_prefix)
qed

definition upFrame :: "event_id list \<times> bool \<Rightarrow> node_frame \<Rightarrow> bool" where
  "upFrame = (\<lambda>(a, cont) f. \<exists>ch. f = NEvents (encodeBatch ch) cont \<and> map evId ch = a)"

text \<open>The node's end but for its stream and its cursors.\<close>

definition sameNode :: "node_end \<Rightarrow> node_end \<Rightarrow> bool" where
  "sameNode c c' \<longleftrightarrow> whRows (wlDb (svLog (neService c'))) = whRows (wlDb (svLog (neService c))) \<and>
     wlNode (svLog (neService c')) = wlNode (svLog (neService c))"

lemma sameNode_refl [simp]: "sameNode c c"
  by (simp add: sameNode_def)

lemma sameNode_trans: "sameNode c d \<Longrightarrow> sameNode d e \<Longrightarrow> sameNode c e"
  by (simp add: sameNode_def)

lemma nodeSend_out:
  "nodeSend f c = (r, c') \<Longrightarrow> sameNode c c' \<and> stOut (neStream c') = stOut (neStream c) @ (if r = None then [f] else [])"
  by (auto simp: nodeSend_def sameNode_def split: prod.splits if_splits)

lemma nodeSetCursor_out: "nodeSetCursor k name v c = (r, c') \<Longrightarrow> sameNode c c' \<and> neStream c' = neStream c"
  by (auto simp: nodeSetCursor_def sameNode_def whSetCursor_def split: sum.splits if_splits)

definition ownOf :: "node_end \<Rightarrow> uint64 \<Rightarrow> event_id list" where
  "ownOf c s = ownIds (whRows (wlDb (svLog (neService c)))) (wlNode (svLog (neService c))) s"

lemma ownOf_same: "sameNode c c' \<Longrightarrow> ownOf c' s = ownOf c s"
  by (simp add: ownOf_def sameNode_def)

lemma offerBatch_offers:
  assumes "offerBatch chs s c = (r, c')" "backlogOf chs (ownOf c s)"
  shows "sameNode c c' \<and> (case r of Inl _ \<Rightarrow> stOut (neStream c') = stOut (neStream c)
    | Inr (cont, s') \<Rightarrow> (\<exists>f a b. stOut (neStream c') = stOut (neStream c) @ [f] \<and> upFrame (a, cont) f \<and> ownOf c s = a @ b \<and>
        (a = [] \<longrightarrow> b = []) \<and> cont = (b \<noteq> []) \<and> ownOf c s' = b \<and> (tl chs \<noteq> [] \<longrightarrow> backlogOf (tl chs) b)))"
proof -
  let ?ch = "hd chs" and ?a = "map evId (hd chs)"
  let ?s = "lastSent s ?ch" and ?l = "svLog (neService c)"
  obtain b where b: "ownOf c s = ?a @ b" "?a = [] \<longrightarrow> b = []" "tl chs \<noteq> [] \<longrightarrow> b \<noteq> [] \<and> backlogOf (tl chs) b"
  proof (cases "ownOf c s = []")
    case True
    with assms(2) show ?thesis by (intro that [of "[]"]) (auto simp: backlogOf_def)
  next
    case False
    with assms(2) obtain ch chs' rest where chs: "chs = ch # chs'" "[] \<notin> set chs" and own: "ownOf c s = map evId (concat chs) @ rest"
      by (cases chs) (auto simp: backlogOf_def prefix_def)
    have "chs' \<noteq> [] \<Longrightarrow> concat chs' \<noteq> []" using chs by (cases chs') auto
    with chs own show ?thesis by (intro that [of "map evId (concat chs') @ rest"]) (auto simp: backlogOf_def)
  qed
  have after: "ownOf c ?s = b"
  proof (cases "?ch = []")
    case True
    with b show ?thesis by (simp add: lastSent_def)
  next
    case False
    with ownIds_drop [of "whRows (wlDb ?l)" "wlNode ?l" s ?a b] b(1) show ?thesis by (simp add: ownOf_def lastSent_def last_map)
  qed
  obtain q where q: "(if tl chs \<noteq> [] then Inr True
      else (case whReadOwnAfter ?l ?s 1 of Inl e \<Rightarrow> Inl e | Inr es \<Rightarrow> Inr (es \<noteq> []))) = (q :: wh_error + bool)" by simp
  have cont: "q = Inr x \<Longrightarrow> x = (b \<noteq> [])" for x
  proof (cases "tl chs = []")
    case True
    assume "q = Inr x"
    with q True obtain es where es: "whReadOwnAfter ?l ?s 1 = Inr es" "x = (es \<noteq> [])" by (auto split: sum.splits)
    then have "map evId es = take 1 b" using readOwn_ids [OF es(1)] after by (simp add: sqlLimit_def ownOf_def)
    then show ?thesis using es(2) by (cases b) auto
  next
    case False
    assume "q = Inr x"
    with q False b(3) show ?thesis by auto
  qed
  show ?thesis
  proof (cases q)
    case (Inl e)
    with assms(1) q have "r = Inl (SyStore e)" "c' = c" by (auto simp: offerBatch_def Let_def)
    then show ?thesis by simp
  next
    case (Inr x)
    obtain e2 c2 where s: "nodeSend (NEvents (encodeBatch ?ch) x) c = (e2, c2)" by fastforce
    from assms(1) q Inr s have r: "c' = c2" "r = (case e2 of None \<Rightarrow> Inr (x, ?s) | Some e \<Rightarrow> Inl e)"
      by (auto simp: offerBatch_def Let_def split: option.splits)
    have "upFrame (?a, x) (NEvents (encodeBatch ?ch) x)" by (auto simp: upFrame_def)
    with r nodeSend_out [OF s] b after cont [OF Inr] show ?thesis by (cases e2) auto
  qed
qed

lemma pushBacklog_offers:
  assumes "pushBacklog len cancelled eof chs s frs c = (err, rest, c')" "backlogOf chs (ownOf c s)"
  shows "\<exists>bs sent. offers (ownOf c s) bs \<and> list_all2 upFrame bs sent \<and> stOut (neStream c') = stOut (neStream c) @ sent \<and> sameNode c c' \<and>
    (err = None \<longrightarrow> bs \<noteq> [] \<and> \<not> snd (last bs) \<and> length bs \<le> length frs \<and> list_all isAck (take (length bs) frs) \<and>
      rest = drop (length bs) frs)"
  using assms
proof (induction len cancelled eof chs s frs c rule: pushBacklog.induct)
  case (1 len cancelled eof chs s c)
  obtain r c1 where a: "offerBatch chs s c = (r, c1)" by fastforce
  note off = offerBatch_offers [OF a "1.prems"(2)]
  show ?case
  proof (cases r)
    case (Inl e)
    with "1.prems"(1) a off show ?thesis by (intro exI [of _ "[]"]) auto
  next
    case (Inr x)
    obtain cont s' where x: "x = (cont, s')" by (cases x)
    with off Inr obtain f a' b where "stOut (neStream c1) = stOut (neStream c) @ [f]" "upFrame (a', cont) f"
      "ownOf c s = a' @ b" "a' = [] \<longrightarrow> b = []" "cont = (b \<noteq> [])" by auto
    with "1.prems"(1) a off Inr x show ?thesis by (intro exI [of _ "[(a', cont)]"] exI [of _ "[f]"]) auto
  qed
next
  case (2 len cancelled eof chs s g frs c)
  obtain r c1 where a: "offerBatch chs s c = (r, c1)" by fastforce
  note off = offerBatch_offers [OF a "2.prems"(2)]
  show ?case
  proof (cases r)
    case (Inl e)
    with "2.prems"(1) a off show ?thesis by (intro exI [of _ "[]"]) auto
  next
    case (Inr x)
    obtain cont s' where x: "x = (cont, s')" by (cases x)
    with off Inr obtain f a' b where f: "stOut (neStream c1) = stOut (neStream c) @ [f]" "upFrame (a', cont) f"
      and b: "ownOf c s = a' @ b" "a' = [] \<longrightarrow> b = []" "cont = (b \<noteq> [])" "ownOf c s' = b" "tl chs \<noteq> [] \<longrightarrow> backlogOf (tl chs) b" by auto
    have one: ?thesis if "stOut (neStream c') = stOut (neStream c1)" "sameNode c1 c'"
      "err = None \<longrightarrow> \<not> cont \<and> isAck g \<and> rest = frs"
      using that f b off by (intro exI [of _ "[(a', cont)]"] exI [of _ "[f]"]) (auto intro: sameNode_trans)
    show ?thesis
    proof (cases "\<exists>q o'. g = KAck q o'")
      case False
      with "2.prems"(1) a Inr x have "c' = c1" "err = Some SyNoAck" by (auto split: central_frame.splits)
      then show ?thesis by (intro one) simp_all
    next
      case True
      then obtain q o' where g: "g = KAck q o'" by blast
      obtain e2 c2 where cur: "nodeSetCursor (length frs) CursorPushed q c1 = (e2, c2)" by fastforce
      note set = nodeSetCursor_out [OF cur]
      show ?thesis
      proof (cases "e2 = None \<and> cont")
        case False
        with "2.prems"(1) a Inr x g cur have "c' = c2" "err = None \<longrightarrow> \<not> cont \<and> rest = frs"
          by (auto split: option.splits if_splits)
        with set g show ?thesis by (intro one) simp_all
      next
        case True
        have same2: "sameNode c c2" using off set by (auto intro: sameNode_trans)
        obtain p where p: "(if tl chs \<noteq> [] then Inr (tl chs) else pageFrom len s' (svLog (neService c2))) = (p :: wh_error + envelope list list)" by simp
        show ?thesis
        proof (cases p)
          case (Inl e)
          with "2.prems"(1) a Inr x g cur True p have "c' = c2" "err \<noteq> None" by auto
          with set show ?thesis by (intro one) auto
        next
          case chs2: (Inr chs2)
          with "2.prems"(1) a Inr x g cur True p have rec: "pushBacklog len cancelled eof chs2 s' frs c2 = (err, rest, c')" by auto
          have own2: "ownOf c2 s' = b" using ownOf_same [OF same2] b(4) by simp
          have "backlogOf chs2 (ownOf c2 s')"
            using p chs2 b(5) own2 pageFrom_backlog [of len s' "svLog (neService c2)" chs2]
            by (auto simp: ownOf_def split: if_splits)
          from "2.IH" [OF a [symmetric] Inr x [symmetric] g cur [symmetric] conjunct1 [OF True] _ p [unfolded chs2] rec this] True
          obtain bs sent where ih: "offers b bs" "list_all2 upFrame bs sent" "stOut (neStream c') = stOut (neStream c2) @ sent" "sameNode c2 c'"
            "err = None \<longrightarrow> bs \<noteq> [] \<and> \<not> snd (last bs) \<and> length bs \<le> length frs \<and> list_all isAck (take (length bs) frs) \<and> rest = drop (length bs) frs"
            unfolding own2 by blast
          have "offers (ownOf c s) ((a', cont) # bs)" using ih(1) b True by auto
          with ih same2 set f g show ?thesis
            by (intro exI [of _ "(a', cont) # bs"] exI [of _ "f # sent"]) (auto intro: sameNode_trans)
        qed
      qed
    qed
  qed
qed

section \<open>What the node applies\<close>

definition rowsOf :: "node_end \<Rightarrow> wh_rows" where
  "rowsOf d = whRows (wlDb (svLog (neService d)))"

definition nameOf :: "node_end \<Rightarrow> node_id" where
  "nameOf d = wlNode (svLog (neService d))"

definition readsDown :: "central_frame \<Rightarrow> envelope list \<Rightarrow> bool" where
  "readsDown f es \<longleftrightarrow> (case f of KEvents ws _ _ \<Rightarrow> decodeBatch ws = Inr es | _ \<Rightarrow> False)"

definition moreDown :: "central_frame \<Rightarrow> bool" where
  "moreDown f = (case f of KEvents _ cont _ \<Rightarrow> cont | _ \<Rightarrow> False)"

definition ordOf :: "central_frame \<Rightarrow> uint64" where
  "ordOf f = (case f of KEvents _ _ o' \<Rightarrow> o' | _ \<Rightarrow> 0)"

lemma down_simps [simp]:
  "readsDown (KEvents ws cont o') es \<longleftrightarrow> decodeBatch ws = Inr es" "moreDown (KEvents ws cont o') = cont" "ordOf (KEvents ws cont o') = o'"
  by (simp_all add: readsDown_def moreDown_def ordOf_def)

text \<open>The rows gained, and nothing lost.\<close>

definition gains :: "wh_rows \<Rightarrow> event_id set \<Rightarrow> wh_rows \<Rightarrow> bool" where
  "gains rows ids rows' \<longleftrightarrow> fset (fmdom rows) \<subseteq> fset (fmdom rows') \<and> fset (fmdom rows') \<subseteq> fset (fmdom rows) \<union> ids"

lemma gains_refl [simp]: "gains rows ids rows"
  by (auto simp: gains_def)

lemma gains_trans: "gains rows A rows1 \<Longrightarrow> gains rows1 B rows2 \<Longrightarrow> A \<union> B \<subseteq> C \<Longrightarrow> gains rows C rows2"
  unfolding gains_def by blast

lemma storeEnvs_dom: "fset (fmdom (storeEnvs rows es)) = fset (fmdom rows) \<union> evId ` set es"
proof (induction es arbitrary: rows)
  case (Cons e es)
  have "fset (fmdom (storeEnv rows e)) = insert (evId e) (fset (fmdom rows))"
    by (auto simp: storeEnv_def fmlookup_dom_iff)
  with Cons show ?case by auto
qed simp

lemma ingestBatch_gains:
  assumes "ingestBatch k envs d = (err, d')"
  shows "gains (rowsOf d) (evId ` set envs) (rowsOf d') \<and> nameOf d' = nameOf d \<and> neStream d' = neStream d \<and>
    (err = None \<longrightarrow> evId ` set envs \<subseteq> fset (fmdom (rowsOf d')))"
proof (cases "envs = []")
  case True
  with assms show ?thesis by (simp add: ingestBatch_def)
next
  case False
  let ?ff = "neFaults d k" and ?l = "svLog (neService d)"
  obtain r l' where i: "whIngest (ffIngest ?ff) (ffNow ?ff) envs ?l = (r, l')" by fastforce
  note ing = ingest_stored [OF i]
  obtain x s' where a: "ingest (ffIngest ?ff) (ffApply ?ff) (ffNow ?ff) envs (neService d) = (x, s')" by fastforce
  have log: "svLog s' = l'" and failed: "snd x = None \<longrightarrow> (\<exists>m. r = Inr m)"
  proof -
    have "svLog (snd (ingest (ffIngest ?ff) (ffApply ?ff) (ffNow ?ff) envs (neService d))) = l'"
      by (simp add: ingest_def i split: sum.split prod.split)
         (metis serviceApply_frame service.select_convs(1) service.surjective service.update_convs(1) snd_conv)
    then show "svLog s' = l'" by (simp add: a)
    show "snd x = None \<longrightarrow> (\<exists>m. r = Inr m)" using a i by (cases r) (auto simp: ingest_def)
  qed
  from assms a False have r: "err = map_option SyStore (snd x)" "d' = d\<lparr>neService := s'\<rparr>"
    by (auto simp: ingestBatch_def Let_def split: prod.splits)
  show ?thesis
    using ing log failed by (auto simp: r rowsOf_def nameOf_def gains_def storeEnvs_dom)
qed

lemma finishDown_out:
  assumes "finishDown k h d = (err, d')"
  shows "rowsOf d' = rowsOf d \<and> nameOf d' = nameOf d \<and>
    (stOut (neStream d') = stOut (neStream d) \<and> err \<noteq> None \<or> stOut (neStream d') = stOut (neStream d) @ [NAck 0 h])"
proof -
  obtain e1 d1 where 1: "nodeSetCursor k CursorPulled h d = (e1, d1)" by fastforce
  obtain e2 d2 where 2: "nodeSend (NAck 0 h) d1 = (e2, d2)" by fastforce
  show ?thesis
    using assms 1 2 nodeSetCursor_out [OF 1] nodeSend_out [OF 2]
    by (auto simp: finishDown_def sameNode_def rowsOf_def nameOf_def split: option.splits if_splits)
qed

lemma applyDownstream_gains:
  assumes "applyDownstream eof h frs d = (err, d')"
  shows "gains (rowsOf d) (\<Union>f \<in> set frs. \<Union>es \<in> Collect (readsDown f). evId ` set es) (rowsOf d') \<and> nameOf d' = nameOf d \<and>
    (stOut (neStream d') = stOut (neStream d) \<and> (err = None \<longrightarrow> eof \<and> list_all moreDown frs) \<or>
     (\<exists>k < length frs. \<not> moreDown (frs ! k) \<and>
       stOut (neStream d') = stOut (neStream d) @ [NAck 0 (foldl max h (map ordOf (take (Suc k) frs)))] \<and>
       (\<forall>f \<in> set (take (Suc k) frs). \<exists>es. readsDown f es \<and> evId ` set es \<subseteq> fset (fmdom (rowsOf d')))))"
  using assms
proof (induction eof h frs d rule: applyDownstream.induct)
  case (2 eof h ws cont o' frs d)
  let ?f = "KEvents ws cont o'"
  show ?case
  proof (cases "decodeBatch ws")
    case (Inl e)
    with "2.prems" show ?thesis by auto
  next
    case (Inr es)
    obtain e1 d1 where a: "ingestBatch (length frs) es d = (e1, d1)" by fastforce
    note g = ingestBatch_gains [OF a]
    have reads: "Collect (readsDown ?f) = {es}" using Inr by auto
    have g1: "gains (rowsOf d) (\<Union>f \<in> set (?f # frs). \<Union>es \<in> Collect (readsDown f). evId ` set es) (rowsOf d1)"
      by (rule gains_trans [OF conjunct1 [OF g] gains_refl [of _ "{}"]]) (auto simp: reads)
    show ?thesis
    proof (cases e1)
      case (Some e)
      with "2.prems" Inr a g g1 show ?thesis by auto
    next
      case None
      show ?thesis
      proof (cases cont)
        case False
        with "2.prems" Inr a None have "finishDown (length frs) (max h o') d1 = (err, d')" by (simp add: Let_def)
        from finishDown_out [OF this] g g1 False None Inr show ?thesis
          by (auto intro!: exI [of _ 0])
      next
        case True
        with "2.prems" Inr a None have "applyDownstream eof (max h o') frs d1 = (err, d')" by (simp add: Let_def)
        note ih = "2.IH" [OF Inr a [symmetric] None refl True this]
        have all: "gains (rowsOf d) (\<Union>f \<in> set (?f # frs). \<Union>es \<in> Collect (readsDown f). evId ` set es) (rowsOf d')"
          by (rule gains_trans [OF conjunct1 [OF g] conjunct1 [OF ih]]) (auto simp: reads)
        have kept: "evId ` set es \<subseteq> fset (fmdom (rowsOf d'))" using g ih None by (auto simp: gains_def)
        from ih consider (stopped) "stOut (neStream d') = stOut (neStream d1)" "err = None \<longrightarrow> eof \<and> list_all moreDown frs"
          | (acked) k where "k < length frs" "\<not> moreDown (frs ! k)"
            "stOut (neStream d') = stOut (neStream d1) @ [NAck 0 (foldl max (max h o') (map ordOf (take (Suc k) frs)))]"
            "\<forall>f \<in> set (take (Suc k) frs). \<exists>es. readsDown f es \<and> evId ` set es \<subseteq> fset (fmdom (rowsOf d'))" by blast
        then show ?thesis
        proof cases
          case stopped
          with all g ih True show ?thesis by auto
        next
          case acked
          then have "Suc k < length (?f # frs)" "\<not> moreDown ((?f # frs) ! Suc k)"
            "stOut (neStream d') = stOut (neStream d) @ [NAck 0 (foldl max h (map ordOf (take (Suc (Suc k)) (?f # frs))))]"
            "\<forall>f \<in> set (take (Suc (Suc k)) (?f # frs)). \<exists>es. readsDown f es \<and> evId ` set es \<subseteq> fset (fmdom (rowsOf d'))"
            using g kept Inr by auto
          with all g ih show ?thesis by metis
        qed
      qed
    qed
  qed
qed (auto split: if_splits)

end
