(* ===== verification/WhCursors.thy ===== *)
theory WhCursors
  imports WhSession
begin

text \<open>
  What a joined session guarantees: a cursor never runs ahead of what it stands for, whatever fails,
  and a session the node ends without an error leaves nothing behind. Also the bounds of the pages
  and of the wait between sessions.
\<close>

section \<open>One end's run\<close>

lemma clientSession_acts:
  assumes "clientSession len cancelled d = (derr, d')" "stOut (neStream d) = []"
  obtains (silent) "stOut (neStream d') = []" "sameNode d d'" "derr \<noteq> None"
  | (hello) p where "stOut (neStream d') = [NHello (nameOf d) p]" "sameNode d d'" "derr \<noteq> None"
  | (sent) p known frs s bs sent d1 where "stIn (neStream d) = KWelcome known # frs" "s \<le> known"
      "offers (ownOf d s) bs" "list_all2 upFrame bs sent" "sameNode d d1" "stOut (neStream d1) = NHello (nameOf d) p # sent"
      "derr \<noteq> None \<and> d' = d1 \<or> bs \<noteq> [] \<and> \<not> snd (last bs) \<and> length bs \<le> length frs \<and> list_all isAck (take (length bs) frs) \<and>
         applyDownstream (stEOF (neStream d)) 0 (drop (length bs) frs) d1 = (derr, d')"
proof -
  let ?l = "svLog (neService d)" and ?st = "neStream d"
  obtain e1 d1 where 1: "nodeSend (NHello (wlNode ?l) (whCursor ?l CursorPulled)) d = (e1, d1)" by fastforce
  note out = nodeSend_out [OF 1]
  show thesis
  proof (cases e1)
    case (Some e)
    with assms 1 out show thesis by (intro silent) (auto simp: clientSession_def Let_def)
  next
    case None
    have hello1: "stOut (neStream d1) = [NHello (nameOf d) (whCursor ?l CursorPulled)]" "sameNode d d1"
      using out None assms(2) by (simp_all add: nameOf_def)
    consider known frs where "stIn ?st = KWelcome known # frs" | "derr \<noteq> None" "d' = d1"
      using assms(1) 1 None by (cases "stIn ?st") (auto simp: clientSession_def Let_def split: central_frame.splits)
    then show thesis
    proof cases
      case 2
      with hello1 show thesis by (intro hello) auto
    next
      case 1
      let ?s = "resumeFrom known ?l"
      have low: "?s \<le> known" by (auto simp: resumeFrom_def Let_def)
      show thesis
      proof (cases "pageFrom len ?s ?l")
        case (Inl e)
        with assms(1) \<open>nodeSend _ _ = _\<close> None 1 have "derr \<noteq> None" "d' = d1" by (auto simp: clientSession_def Let_def)
        with hello1 show thesis by (intro hello) auto
      next
        case (Inr chs)
        obtain e2 rest d2 where p: "pushBacklog len cancelled (stEOF ?st) chs ?s frs d1 = (e2, rest, d2)" by (metis prod_cases3)
        have own: "ownOf d1 ?s = ownOf d ?s" using hello1(2) by (rule ownOf_same)
        have "backlogOf chs (ownOf d1 ?s)" using pageFrom_backlog [OF Inr] unfolding own by (simp add: ownOf_def)
        from pushBacklog_offers [OF p this] obtain bs sent where bs: "offers (ownOf d ?s) bs" "list_all2 upFrame bs sent"
          "stOut (neStream d2) = stOut (neStream d1) @ sent" "sameNode d1 d2"
          "e2 = None \<longrightarrow> bs \<noteq> [] \<and> \<not> snd (last bs) \<and> length bs \<le> length frs \<and> list_all isAck (take (length bs) frs) \<and> rest = drop (length bs) frs"
          unfolding own by blast
        have "derr \<noteq> None \<and> d' = d2 \<or> e2 = None \<and> applyDownstream (stEOF ?st) 0 rest d2 = (derr, d')"
          using assms(1) \<open>nodeSend _ _ = _\<close> None 1 Inr p by (cases e2) (auto simp: clientSession_def Let_def)
        with 1 low bs hello1 show thesis
          by (intro sent [of known frs ?s bs sent d2]) (auto intro: sameNode_trans)
      qed
    qed
  qed
qed

lemma receiveAll_takes:
  assumes "receiveAll cx n c = (err, c')"
  shows "\<exists>dn acks. tookIn n (stIn (ceStream c)) (ceStore c) dn (ceStore c') \<and> stOut (ceStream c') = stOut (ceStream c) @ acks \<and>
    list_all isAck acks \<and> length acks \<le> length dn \<and>
    (err = None \<longrightarrow> length acks = length dn \<and> (stIn (ceStream c') = [] \<or>
       dn \<noteq> [] \<and> \<not> moreUp (stIn (ceStream c) ! (length dn - 1)) \<and> stIn (ceStream c') = drop (length dn) (stIn (ceStream c))))"
proof -
  obtain rest c1 where r: "receiveBatches cx n (stEOF (ceStream c)) (stIn (ceStream c)) c = (err, rest, c1)"
    and c': "c' = c1\<lparr>ceStream := (ceStream c1)\<lparr>stIn := rest\<rparr>\<rparr>"
    using assms by (auto simp: receiveAll_def split: prod.splits)
  from receive_takes [OF r] show ?thesis by (auto simp: c')
qed

lemma pushAll_offers:
  assumes "pushAll len n c = (err, c')" "ordered (queueOf (ceStore c) n)"
  shows "\<exists>bs. offers (pendingAfter (ceStore c) n (memDeliveredOrd (ceStore c) n)) bs \<and>
    stOut (ceStream c') = stOut (ceStream c) @ map (downFrame (memDeliveredOrd (ceStore c) n)) bs \<and>
    sameEnd c c' \<and> (err = None \<longrightarrow> bs \<noteq> [] \<and> \<not> snd (last bs))"
proof -
  obtain r c1 where a: "atStore (callRead (\<lambda>m. memDeliveredOrd m n)) c = (r, c1)" by fastforce
  note c1 = atRead_out [OF a]
  show ?thesis
  proof (cases r)
    case (Inl e)
    with assms a c1 show ?thesis by (intro exI [of _ "[]"]) (auto simp: pushAll_def)
  next
    case (Inr cur)
    then have "push len n cur c1 = (err, c')" using assms(1) a by (simp add: pushAll_def)
    from push_offers [OF this] assms(2) c1 Inr show ?thesis by (auto simp: sameEnd_def)
  qed
qed

lemma lastAck_store:
  assumes "lastAck n c = (err, c')"
  shows "stOut (ceStream c') = stOut (ceStream c) \<and> (ceStore c' = ceStore c \<or>
    (\<exists>q o' frs. stIn (ceStream c) = NAck q o' # frs \<and> 0 < o' \<and> ceStore c' = memSetDeliveredOrd n o' (ceStore c)))"
proof -
  have "atStore (callDo (memSetDeliveredOrd n o')) c1 = (r, c2) \<Longrightarrow>
      ceStream c2 = ceStream c1 \<and> (ceStore c2 = ceStore c1 \<or> ceStore c2 = memSetDeliveredOrd n o' (ceStore c1))" for o' c1 r c2
    by (auto simp: atStore_def callDo_def call_def split: list.splits call_fault.splits)
  with assms show ?thesis
    by (fastforce simp: lastAck_def centralRecv_def split: list.splits node_frame.splits if_splits prod.splits sum.splits)
qed

lemma pushChunks_store: "pushChunks n rows chs cur c = (r, c') \<Longrightarrow> ceStore c' = ceStore c"
proof (induction n rows chs cur c rule: pushChunks.induct)
  case (2 n rows ch chs cur c)
  let ?cur = "chunkOrd rows ch"
  obtain r1 c1 where a: "(if chs \<noteq> [] then (Inr True, c) else atStore (callRead (\<lambda>m. memOutbound m n ?cur 1 \<noteq> [])) c) = (r1, c1)"
    by (metis surj_pair)
  have c1: "ceStore c1 = ceStore c" using a atStore_read by (auto split: if_splits)
  show ?case
  proof (cases r1)
    case (Inr cont)
    obtain e2 c2 where b: "centralSend (KEvents (encodeBatch ch) cont ?cur) c1 = (e2, c2)" by fastforce
    have "ceStore c2 = ceStore c" using centralSend_store [OF b] c1 by simp
    with "2.prems" "2.IH" [OF refl a [symmetric] Inr b [symmetric]] a Inr b show ?thesis
      by (cases e2; cases cont) (auto simp: Let_def)
  qed (use "2.prems" a c1 in \<open>auto simp: Let_def\<close>)
qed simp

lemma push_store: "push len n cur c = (err, c') \<Longrightarrow> ceStore c' = ceStore c"
proof (induction len n cur c rule: push.induct)
  case (1 len n cur c)
  obtain r1 c1 where a: "atStore (callRead (\<lambda>m. memOutbound m n cur (int MaxBatchEvents))) c = (r1, c1)" by fastforce
  have c1: "ceStore c1 = ceStore c" using atStore_read [OF a] by simp
  show ?case
  proof (cases r1)
    case (Inr rows)
    obtain r2 c2 where b: "pushChunks n rows (chunk len (map obEnv rows)) cur c1 = (r2, c2)" by fastforce
    have "ceStore c2 = ceStore c" using pushChunks_store [OF b] c1 by simp
    with "1.prems" "1.IH" [OF a [symmetric] Inr _ b [symmetric]] a Inr b c1 centralSend_store show ?thesis
      by (auto simp: push.simps [of len n cur c] split: if_splits sum.splits)
  qed (use "1.prems" a c1 in \<open>auto simp: push.simps [of len n cur c]\<close>)
qed

lemma queueOk_ordered: "queueOk s \<Longrightarrow> enqueuedCount s < 2 ^ 64 \<Longrightarrow> ordered (queueOf s n)"
  by (simp add: queueOk_def inAscending_def ordered_def)

lemma serveNode_acts:
  assumes "serveNode len cx n c = (err, c')" "queueOk (ceStore c)" "enqueuedCount (ceStore c') < 2 ^ 64"
  shows "\<exists>dn acks bs t. tookIn n (stIn (ceStream c)) (ceStore c) dn t \<and> list_all isAck acks \<and> length acks \<le> length dn \<and>
    offers (pendingAfter t n (memDeliveredOrd (ceStore c) n)) bs \<and>
    stOut (ceStream c') = stOut (ceStream c) @ acks @ map (downFrame (memDeliveredOrd (ceStore c) n)) bs \<and>
    (err = None \<longrightarrow> bs \<noteq> [] \<and> \<not> snd (last bs)) \<and>
    (ceStore c' = t \<or> (\<exists>q o' rest. drop (length dn) (stIn (ceStream c)) = NAck q o' # rest \<and> 0 < o' \<and> ceStore c' = memSetDeliveredOrd n o' t))"
proof -
  obtain e1 c1 where 1: "receiveAll cx n c = (e1, c1)" by fastforce
  from receiveAll_takes [OF 1] obtain dn acks where took: "tookIn n (stIn (ceStream c)) (ceStore c) dn (ceStore c1)"
    and acks: "stOut (ceStream c1) = stOut (ceStream c) @ acks" "list_all isAck acks" "length acks \<le> length dn"
    and rest: "e1 = None \<longrightarrow> stIn (ceStream c1) = [] \<or> stIn (ceStream c1) = drop (length dn) (stIn (ceStream c))" by blast
  show ?thesis
  proof (cases e1)
    case (Some e)
    with assms(1) 1 have "err = Some e" "c' = c1" by (auto simp: serveNode_def)
    with took acks show ?thesis by (intro exI [of _ dn] exI [of _ acks] exI [of _ "[]"] exI [of _ "ceStore c1"]) simp
  next
    case None
    obtain e2 c2 where 2: "pushAll len n c1 = (e2, c2)" by fastforce
    have queue: "queueOk (ceStore c1)" using took assms(2) evolvesTo_facts(2) by (auto simp: tookIn_def)
    have same: "memDeliveredOrd (ceStore c1) n = memDeliveredOrd (ceStore c) n" using took by (simp add: tookIn_def memDeliveredOrd_def)
    have final: "ceStore c' = ceStore c2 \<or> (\<exists>q o' frs. stIn (ceStream c2) = NAck q o' # frs \<and> 0 < o' \<and> ceStore c' = memSetDeliveredOrd n o' (ceStore c2))"
      "stOut (ceStream c') = stOut (ceStream c2)" "err = None \<longrightarrow> e2 = None"
      using assms(1) 1 None 2 lastAck_store [of n c2 err c'] by (auto simp: serveNode_def split: option.splits)
    have c2: "ceStore c2 = ceStore c1"
    proof -
      have "atStore (callRead (\<lambda>m. memDeliveredOrd m n)) c1 = (r, d) \<Longrightarrow> push len n cur d = (e2, c2) \<Longrightarrow> ceStore c2 = ceStore c1" for r d cur
        using atRead_out push_store by (metis sameEnd_def)
      with 2 show ?thesis by (auto simp: pushAll_def split: prod.splits sum.splits dest: atRead_out simp: sameEnd_def)
    qed
    have "enqueuedCount (ceStore c1) < 2 ^ 64"
      using final(1) c2 assms(3) by (auto simp: memSetDeliveredOrd_def)
    from pushAll_offers [OF 2 queueOk_ordered [OF queue this]] obtain bs where
      bs: "offers (pendingAfter (ceStore c1) n (memDeliveredOrd (ceStore c) n)) bs"
        "stOut (ceStream c2) = stOut (ceStream c1) @ map (downFrame (memDeliveredOrd (ceStore c) n)) bs" "sameEnd c1 c2"
        "e2 = None \<longrightarrow> bs \<noteq> [] \<and> \<not> snd (last bs)" unfolding same by blast
    from final(1) bs(3) rest None have "ceStore c' = ceStore c1 \<or>
        (\<exists>q o' frs. drop (length dn) (stIn (ceStream c)) = NAck q o' # frs \<and> 0 < o' \<and> ceStore c' = memSetDeliveredOrd n o' (ceStore c1))"
      by (auto simp: sameEnd_def)
    with took acks bs final(2,3) show ?thesis
      by (intro exI [of _ dn] exI [of _ acks] exI [of _ bs] exI [of _ "ceStore c1"]) simp
  qed
qed

lemma serveSession_acts:
  assumes "serveSession len cx auth c = (err, c')" "stOut (ceStream c) = []" "queueOk (ceStore c)" "enqueuedCount (ceStore c') < 2 ^ 64"
  obtains (silent) "stOut (ceStream c') = []" "ceStore c' = ceStore c" "err \<noteq> None"
  | (served) n p frs dn acks bs t where "stIn (ceStream c) = NHello n p # frs" "tookIn n frs (ceStore c) dn t"
      "list_all isAck acks" "length acks \<le> length dn" "offers (pendingAfter t n (memDeliveredOrd (ceStore c) n)) bs"
      "stOut (ceStream c') = KWelcome (memPushedSeq (ceStore c) n) # acks @ map (downFrame (memDeliveredOrd (ceStore c) n)) bs"
      "err = None \<longrightarrow> bs \<noteq> [] \<and> \<not> snd (last bs)"
      "ceStore c' = t \<or> (\<exists>q o' rest. drop (length dn) frs = NAck q o' # rest \<and> 0 < o' \<and> ceStore c' = memSetDeliveredOrd n o' t)"
proof -
  let ?st = "ceStream c" and ?s = "ceStore c"
  show thesis
  proof (cases "\<exists>n p frs. stIn ?st = NHello n p # frs \<and> n \<noteq> [] \<and> \<not> (case auth of None \<Rightarrow> False | Some a \<Rightarrow> a \<noteq> n)")
    case False
    then have "ceStore c' = ?s \<and> stOut (ceStream c') = [] \<and> err \<noteq> None"
      using assms(1,2) by (cases "stIn ?st"; cases "hd (stIn ?st)") (auto simp: serveSession_def centralRecv_def split: if_splits)
    then show thesis by (intro silent) auto
  next
    case True
    then obtain n p frs where first: "stIn ?st = NHello n p # frs" "n \<noteq> []" and auth: "\<not> (case auth of None \<Rightarrow> False | Some a \<Rightarrow> a \<noteq> n)" by blast
    let ?c = "c\<lparr>ceStream := ?st\<lparr>stIn := frs\<rparr>\<rparr>"
    obtain r1 c1 where 1: "atStore (callRead (\<lambda>m. memPushedSeq m n)) ?c = (r1, c1)" by fastforce
    note a = atRead_out [OF 1]
    show thesis
    proof (cases r1)
      case (Inl e)
      with assms(1,2) first auth 1 a have "stOut (ceStream c') = []" "ceStore c' = ?s" "err \<noteq> None"
        by (auto simp: serveSession_def centralRecv_def sameEnd_def)
      then show thesis by (rule silent)
    next
      case (Inr known)
      obtain e2 c2 where 2: "centralSend (KWelcome known) c1 = (e2, c2)" by fastforce
      note b = centralSend_out [OF 2]
      show thesis
      proof (cases e2)
        case (Some e)
        with assms(1,2) first auth 1 a Inr 2 b have "stOut (ceStream c') = []" "ceStore c' = ?s" "err \<noteq> None"
          by (auto simp: serveSession_def centralRecv_def sameEnd_def)
        then show thesis by (rule silent)
      next
        case None
        with assms(1) first auth 1 Inr 2 have serve: "serveNode len cx n c2 = (err, c')"
          by (auto simp: serveSession_def centralRecv_def)
        have c2: "ceStore c2 = ?s" "stIn (ceStream c2) = frs" "stOut (ceStream c2) = [KWelcome (memPushedSeq ?s n)]"
          using a b None Inr assms(2) by (simp_all add: sameEnd_def)
        from serveNode_acts [OF serve, unfolded c2] assms(3,4) obtain dn acks bs t where
          "tookIn n frs ?s dn t" "list_all isAck acks" "length acks \<le> length dn"
          "offers (pendingAfter t n (memDeliveredOrd ?s n)) bs"
          "stOut (ceStream c') = KWelcome (memPushedSeq ?s n) # acks @ map (downFrame (memDeliveredOrd ?s n)) bs"
          "err = None \<longrightarrow> bs \<noteq> [] \<and> \<not> snd (last bs)"
          "ceStore c' = t \<or> (\<exists>q o' rest. drop (length dn) frs = NAck q o' # rest \<and> 0 < o' \<and> ceStore c' = memSetDeliveredOrd n o' t)"
          by auto
        then show thesis using first(1) by (intro served)
      qed
    qed
  qed
qed

section \<open>Both ends\<close>

text \<open>Each end has received a beginning of what the other sent. The node sees the end of the stream only
  once central has returned without an error, and central only once the node has closed its side.\<close>

definition joinedSession :: "(bytes \<Rightarrow> nat) \<Rightarrow> arb_times \<Rightarrow> node_id option \<Rightarrow> bool \<Rightarrow> central_end \<Rightarrow> node_end \<Rightarrow> bool" where
  "joinedSession len cx auth cancelled c d \<longleftrightarrow>
     (let s = serveSession len cx auth c; n = clientSession len cancelled d;
          up = stOut (neStream (snd n)); down = stOut (ceStream (snd s))
      in stOut (ceStream c) = [] \<and> stOut (neStream d) = [] \<and> prefix (stIn (ceStream c)) up \<and> prefix (stIn (neStream d)) down \<and>
        (stEOF (neStream d) \<longrightarrow> fst s = None \<and> stIn (neStream d) = down) \<and>
        (stEOF (ceStream c) \<longrightarrow> fst n = None \<and> stIn (ceStream c) = up))"

definition idsOf :: "outbound list \<Rightarrow> event_id set" where
  "idsOf rows = (\<lambda>r. evId (obEnv r)) ` set rows"

text \<open>What one session does to the two sides: \<open>dn\<close> are the batches central took in, and the rows of
  \<open>got\<close> are those the node acknowledged.\<close>

definition sessionDid :: "node_id \<Rightarrow> mem_store \<Rightarrow> wh_rows \<Rightarrow> bool \<Rightarrow> mem_store \<Rightarrow> wh_rows \<Rightarrow> bool" where
  "sessionDid n s rows finished t rows' \<longleftrightarrow>
     (\<exists>dn low got. evolvesTo s t \<and> (\<forall>i \<in> set dn. decided t i) \<and>
        (memPushedSeq t n = memPushedSeq s n \<or> memPushedSeq t n \<in> idSeq ` set dn) \<and>
        low \<le> memPushedSeq s n \<and> prefix dn (ownIds rows n low) \<and>
        prefix got (pendingAfter t n (memDeliveredOrd s n)) \<and> idsOf got \<subseteq> fset (fmdom rows') \<and>
        (memDeliveredOrd t n = memDeliveredOrd s n \<or> memDeliveredOrd t n \<in> obOrd ` set got) \<and>
        gains rows (idsOf (pendingAfter t n (memDeliveredOrd s n))) rows' \<and>
        (finished \<longrightarrow> dn = ownIds rows n low \<and> got = pendingAfter t n (memDeliveredOrd s n)))"

lemma encode_ids: "decodeEnvelope (Some (encodeEnvelope e)) = Inr e' \<Longrightarrow> evId e' = evId e"
  by (auto simp: decodeEnvelope_def encodeEnvelope_def split: option.splits if_splits)

lemma decode_ids: "decodeBatch (encodeBatch envs) = Inr es \<Longrightarrow> map evId es = map evId envs"
  by (induction envs arbitrary: es) (auto simp: encodeBatch_def dest: encode_ids split: sum.splits)

lemma reads_up: "list_all2 upFrame bs fs \<Longrightarrow> list_all2 readsAs fs dn \<Longrightarrow> map evId (concat dn) = concat (map fst bs)"
proof (induction bs fs arbitrary: dn rule: list_all2_induct)
  case (Cons b bs f fs)
  obtain a cont where b: "b = (a, cont)" by (cases b)
  with Cons.hyps obtain ch where ch: "f = NEvents (encodeBatch ch) cont" "map evId ch = a" by (auto simp: upFrame_def)
  from Cons.prems obtain es dn' where dn: "dn = es # dn'" "readsAs f es" "list_all2 readsAs fs dn'"
    by (auto simp: list_all2_Cons1)
  have "map evId es = a" using dn(2) ch decode_ids by (simp add: readsAs_def)
  with Cons.IH [OF dn(3)] show ?case by (simp add: b dn(1))
qed simp

lemma reads_events: "list_all2 readsAs fs dn \<Longrightarrow> f \<in> set fs \<Longrightarrow> \<exists>ws cont. f = NEvents ws cont"
  by (induction fs dn rule: list_all2_induct) (auto simp: readsAs_def split: node_frame.splits)

lemma up_events: "list_all2 upFrame bs fs \<Longrightarrow> f \<in> set fs \<Longrightarrow> \<exists>ws cont. f = NEvents ws cont"
  by (induction bs fs rule: list_all2_induct) (auto simp: upFrame_def)

lemma highestOwn_cases: "highestOwn n h es = h \<or> highestOwn n h es \<in> idSeq ` set (map evId es)"
proof (induction es rule: rev_induct)
  case (snoc e es)
  then show ?case by (auto simp: highestOwn_def)
qed simp

lemma foldl_max_pick: "foldl max (h :: uint64) xs = h \<or> foldl max h xs \<in> set xs"
proof (induction xs arbitrary: h)
  case (Cons x xs)
  then show ?case using Cons [of "max h x"] by (auto simp: max_def split: if_splits)
qed simp

lemma takenIn:
  assumes "list_all2 upFrame bs sent" "prefix frs (sent @ out)" "\<forall>f \<in> set out. \<exists>q h. f = NAck q h" "tookIn n frs s dn t"
  shows "length dn \<le> length bs \<and> take (length dn) frs = take (length dn) sent \<and>
    map evId (concat dn) = concat (map fst (take (length dn) bs))"
proof -
  have len: "length sent = length bs" using assms(1) by (simp add: list_all2_lengthD)
  have dn: "length dn \<le> length frs" "list_all2 readsAs (take (length dn) frs) dn" using assms(4) by (simp_all add: tookIn_def)
  obtain z where z: "sent @ out = frs @ z" using assms(2) by (auto simp: prefix_def)
  have le: "length dn \<le> length sent"
  proof (rule ccontr)
    assume "\<not> length dn \<le> length sent"
    then have lt: "length sent < length dn" by simp
    have "take (length dn) frs ! length sent = (sent @ out) ! length sent" using lt dn(1) by (simp add: z nth_append)
    also have "\<dots> \<in> set out"
    proof -
      have "length sent < length (sent @ out)" using lt dn(1) arg_cong [OF z, of length] by simp
      then show ?thesis by (simp add: nth_append)
    qed
    finally have "\<exists>q h. take (length dn) frs ! length sent = NAck q h" using assms(3) by blast
    moreover have "take (length dn) frs ! length sent \<in> set (take (length dn) frs)" using lt dn(1) by (intro nth_mem) simp
    ultimately show False using reads_events [OF dn(2)] by fastforce
  qed
  have tk: "take (length dn) frs = take (length dn) sent"
    using arg_cong [OF z, of "take (length dn)"] dn(1) le by simp
  have "list_all2 upFrame (take (length dn) bs) (take (length dn) sent)" using assms(1) by (rule list_all2_takeI)
  from reads_up [OF this dn(2) [unfolded tk]] tk le len show ?thesis by simp
qed

lemma acks_only:
  assumes "prefix frs (acks @ map (downFrame cur) bs)" "list_all isAck acks" "length acks \<le> m" "m \<le> length frs" "list_all isAck (take m frs)"
  shows "length acks = m \<and> (\<exists>k. drop m frs = map (downFrame cur) (take k bs))"
proof -
  obtain z where z: "acks @ map (downFrame cur) bs = frs @ z" using assms(1) by (auto simp: prefix_def)
  have len: "length acks = m"
  proof (rule ccontr)
    assume "length acks \<noteq> m"
    then have lt: "length acks < m" using assms(3) by simp
    have "length acks + length bs = length frs + length z" using arg_cong [OF z, of length] by simp
    then have some: "0 < length bs" using lt assms(4) by linarith
    from lt have "frs ! length acks = (acks @ map (downFrame cur) bs) ! length acks" using assms(4) by (simp add: z nth_append)
    also have "\<dots> = map (downFrame cur) bs ! 0" by (simp add: nth_append)
    also have "\<dots> = downFrame cur (bs ! 0)" using some by (rule nth_map)
    finally have "\<not> isAck (frs ! length acks)" by (cases "bs ! 0") (simp add: downFrame_def isAck_def)
    moreover have "frs ! length acks \<in> set (take m frs)"
      using lt assms(4) by (metis in_set_conv_nth length_take min_absorb2 nth_take)
    ultimately show False using assms(5) by (auto simp: list_all_iff)
  qed
  have "map (downFrame cur) bs = drop m frs @ z"
    using arg_cong [OF z, of "drop m"] len assms(4) by simp
  then have "drop m frs = take (length (drop m frs)) (map (downFrame cur) bs)" by simp
  then have "drop m frs = map (downFrame cur) (take (length (drop m frs)) bs)" by (simp only: take_map)
  with len show ?thesis by blast
qed

lemma down_ids:
  assumes "\<forall>f \<in> set (map (downFrame cur) bs). \<exists>es. readsDown f es \<and> evId ` set es \<subseteq> S"
  shows "idsOf (concat (map fst bs)) \<subseteq> S"
proof
  fix i
  assume "i \<in> idsOf (concat (map fst bs))"
  then obtain a cont r where b: "(a, cont) \<in> set bs" "r \<in> set a" "i = evId (obEnv r)" by (auto simp: idsOf_def)
  then have "downFrame cur (a, cont) \<in> set (map (downFrame cur) bs)" by simp
  with assms obtain es where es: "readsDown (downFrame cur (a, cont)) es" "evId ` set es \<subseteq> S" by blast
  then have "map evId es = map evId (map obEnv a)" by (intro decode_ids) (simp add: downFrame_def)
  then have "evId ` set es = evId ` set (map obEnv a)" by (metis set_map)
  with es(2) b show "i \<in> S" by auto
qed

lemma down_reads: "(\<Union>f \<in> set (map (downFrame cur) bs). \<Union>es \<in> Collect (readsDown f). evId ` set es) \<subseteq> idsOf (concat (map fst bs))"
proof
  fix i
  assume "i \<in> (\<Union>f \<in> set (map (downFrame cur) bs). \<Union>es \<in> Collect (readsDown f). evId ` set es)"
  then obtain a cont es where b: "(a, cont) \<in> set bs" and es: "decodeBatch (encodeBatch (map obEnv a)) = Inr es" "i \<in> evId ` set es"
    by (auto simp: downFrame_def)
  have "evId ` set es = evId ` set (map obEnv a)" using decode_ids [OF es(1)] by (metis set_map)
  with b es(2) show "i \<in> idsOf (concat (map fst bs))" by (force simp: idsOf_def)
qed

lemma down_highest:
  assumes "h = foldl max 0 (map ordOf (map (downFrame cur) bs))" "0 < h"
  shows "h = cur \<or> h \<in> obOrd ` set (concat (map fst bs))"
proof -
  have "h \<in> set (map ordOf (map (downFrame cur) bs))" 
    using assms(2) foldl_max_pick [of 0 "map ordOf (map (downFrame cur) bs)"] unfolding assms(1) [symmetric] by auto
  then obtain a cont where "(a, cont) \<in> set bs" "h = (if a = [] then cur else obOrd (last a))"
    by (auto simp: downFrame_def split: prod.splits)
  then show ?thesis by (cases "a = []") (auto intro!: image_eqI [of _ _ "last a"] bexI [of _ "(a, cont)"])
qed

lemma gains_mono: "gains rows A rows' \<Longrightarrow> A \<subseteq> B \<Longrightarrow> gains rows B rows'"
  unfolding gains_def by blast

lemma idsOf_mono: "prefix xs ys \<Longrightarrow> idsOf xs \<subseteq> idsOf ys"
  by (auto simp: idsOf_def prefix_def)

lemma down_effect:
  assumes down: "applyDownstream eof 0 (map (downFrame cur) bs) d1 = (derr, d')" and off: "offers pend bs"
    and ended: "eof \<Longrightarrow> bs \<noteq> [] \<and> \<not> snd (last bs)"
  shows "\<exists>got out. stOut (neStream d') = stOut (neStream d1) @ out \<and> prefix got pend \<and> idsOf got \<subseteq> fset (fmdom (rowsOf d')) \<and>
    gains (rowsOf d1) (idsOf pend) (rowsOf d') \<and> (derr = None \<longrightarrow> got = pend) \<and>
    (\<forall>f \<in> set out. \<exists>h. f = NAck 0 h \<and> (0 < h \<longrightarrow> h = cur \<or> h \<in> obOrd ` set got))"
proof -
  note act = applyDownstream_gains [OF down]
  have "idsOf (concat (map fst bs)) \<subseteq> idsOf pend" by (rule idsOf_mono [OF offers_prefix [OF off]])
  then have g: "gains (rowsOf d1) (idsOf pend) (rowsOf d')"
    by (rule gains_mono [OF conjunct1 [OF act] subset_trans [OF down_reads]])
  from act consider (stopped) "stOut (neStream d') = stOut (neStream d1)" "derr = None \<longrightarrow> eof \<and> list_all moreDown (map (downFrame cur) bs)"
    | (acked) k where "k < length bs" "\<not> moreDown (map (downFrame cur) bs ! k)"
      "stOut (neStream d') = stOut (neStream d1) @ [NAck 0 (foldl max 0 (map ordOf (take (Suc k) (map (downFrame cur) bs))))]"
      "\<forall>f \<in> set (take (Suc k) (map (downFrame cur) bs)). \<exists>es. readsDown f es \<and> evId ` set es \<subseteq> fset (fmdom (rowsOf d'))"
    by auto
  then show ?thesis
  proof cases
    case stopped
    have "derr \<noteq> None"
    proof
      assume "derr = None"
      with stopped(2) ended have "bs \<noteq> []" "\<not> snd (last bs)" "moreDown (downFrame cur (last bs))" by (auto simp: list_all_iff)
      then show False by (cases "last bs") (simp add: downFrame_def)
    qed
    with stopped(1) g show ?thesis by (intro exI [of _ "[]"]) (auto simp: idsOf_def)
  next
    case acked
    let ?bs = "take (Suc k) bs"
    let ?got = "concat (map fst ?bs)" and ?h = "foldl max 0 (map ordOf (map (downFrame cur) ?bs))"
    have "\<not> snd (bs ! k)" using acked(1,2) by (cases "bs ! k") (simp add: downFrame_def)
    from offers_ended [OF off acked(1) this] have "?got = pend" by simp
    moreover have "idsOf ?got \<subseteq> fset (fmdom (rowsOf d'))" using acked(4) by (intro down_ids) (simp only: take_map)
    moreover have "0 < ?h \<longrightarrow> ?h = cur \<or> ?h \<in> obOrd ` set ?got" using down_highest [OF refl] by blast
    ultimately show ?thesis using acked(3) g by (intro exI [of _ ?got] exI [of _ "[NAck 0 ?h]"]) (auto simp: take_map)
  qed
qed

text \<open>Both, when central served the node and the node sent events.\<close>

lemma session_effect:
  assumes joined: "joinedSession len cx auth cancelled c d"
    and serve: "serveSession len cx auth c = (cerr, c')" and client: "clientSession len cancelled d = (derr, d')"
    and ok: "queueOk (ceStore c)" "enqueuedCount (ceStore c') < 2 ^ 64"
  shows "nameOf d' = nameOf d \<and> sessionDid (nameOf d) (ceStore c) (rowsOf d) (derr = None) (ceStore c') (rowsOf d')"
proof -
  let ?n = "nameOf d" and ?s = "ceStore c" and ?t = "ceStore c'" and ?rows = "rowsOf d"
  let ?cur = "memDeliveredOrd ?s ?n"
  from joined have j: "stOut (ceStream c) = []" "stOut (neStream d) = []" "prefix (stIn (ceStream c)) (stOut (neStream d'))"
    "prefix (stIn (neStream d)) (stOut (ceStream c'))"
    "stEOF (neStream d) \<Longrightarrow> cerr = None \<and> stIn (neStream d) = stOut (ceStream c')"
    by (simp_all add: joinedSession_def serve client Let_def)
  have idle: ?thesis if "evolvesTo ?s ?t" "memPushedSeq ?t ?n = memPushedSeq ?s ?n" "memDeliveredOrd ?t ?n = memDeliveredOrd ?s ?n"
    "sameNode d d'" "derr \<noteq> None"
    using that unfolding sessionDid_def
    by (auto simp: rowsOf_def nameOf_def sameNode_def idsOf_def intro!: exI [of _ "[]"] exI [of _ 0])
  from serve j(1) ok show ?thesis
  proof (cases rule: serveSession_acts)
    case silent
    then have none: "stIn (neStream d) = []" using j(4) by simp
    have "sameNode d d' \<and> derr \<noteq> None"
      using client j(2) by (cases rule: clientSession_acts) (use none in auto)
    with silent(2) show ?thesis by (intro idle) simp_all
  next
    case (served n p frs dn acks bs2 t)
    from client j(2) show ?thesis
    proof (cases rule: clientSession_acts)
      case silent
      with served(1) j(3) show ?thesis by simp
    next
      case (hello q)
      with served(1) j(3) have n: "n = ?n" "frs = []" by auto
      then have "dn = []" "?t = t" using served(2,8) by (auto simp: tookIn_def)
      with served(2) n hello show ?thesis by (intro idle) (auto simp: tookIn_def memDeliveredOrd_def)
    next
      case (sent q known frs' low bs sent d1)
      have known: "known = memPushedSeq ?s n" and frs': "prefix frs' (acks @ map (downFrame (memDeliveredOrd ?s n)) bs2)"
        using sent(1) served(6) j(4) by auto
      have d1: "rowsOf d1 = ?rows" "nameOf d1 = ?n" using sent(5) by (simp_all add: sameNode_def rowsOf_def nameOf_def)
      obtain out where out: "stOut (neStream d') = NHello ?n q # sent @ out" "\<forall>f \<in> set out. \<exists>q h. f = NAck q h"
        and name: "nameOf d' = ?n"
      proof (cases "derr \<noteq> None \<and> d' = d1")
        case True
        with sent(6) d1 that [of "[]"] show thesis by simp
      next
        case False
        with sent(7) have "applyDownstream (stEOF (neStream d)) 0 (drop (length bs) frs') d1 = (derr, d')" by blast
        from applyDownstream_gains [OF this] show thesis using sent(6) d1 that by auto
      qed
      have n: "n = ?n" and frs: "prefix frs (sent @ out)" using served(1) j(3) out(1) by auto
      note took = takenIn [OF sent(4) frs out(2) served(2)]
      let ?dn = "map evId (concat dn)" and ?pend = "pendingAfter ?t ?n ?cur"
      have tk: "evolvesTo ?s t" "mmDelivered t = mmDelivered ?s" "\<forall>i \<in> set ?dn. decided t i"
        "memPushedSeq t ?n = highestOwn ?n (memPushedSeq ?s ?n) (concat dn)"
        using served(2) by (auto simp: tookIn_def n)
      have t: "?t = t \<or> (\<exists>q h. NAck q h \<in> set out \<and> 0 < h \<and> ?t = memSetDeliveredOrd ?n h t)"
      proof -
        have "NAck q h \<in> set out" if "drop (length dn) frs = NAck q h # rest" for q h rest
        proof -
          have "NAck q h \<in> set frs" using that by (metis in_set_dropD list.set_intros(1))
          moreover have "\<forall>f \<in> set sent. \<exists>ws cont. f = NEvents ws cont"
            using up_events [OF sent(4)] by blast
          ultimately show ?thesis using set_mono_prefix [OF frs] by fastforce
        qed
        with served(8) show ?thesis unfolding n by blast
      qed
      then have queue: "mmQueue ?t = mmQueue t" "memPushedSeq ?t ?n = memPushedSeq t ?n" "evolvesTo t ?t"
        by (auto simp: memSetDeliveredOrd_def memPushedSeq_def) (simp flip: memSetDeliveredOrd_def)
      have pend: "pendingAfter t ?n ?cur = ?pend" by (simp add: pendingAfter_def queue(1))
      have up: "evolvesTo ?s ?t" "\<forall>i \<in> set ?dn. decided ?t i"
        "memPushedSeq ?t ?n = memPushedSeq ?s ?n \<or> memPushedSeq ?t ?n \<in> idSeq ` set ?dn" "low \<le> memPushedSeq ?s ?n"
        "prefix ?dn (ownIds ?rows ?n low)"
      proof -
        show "evolvesTo ?s ?t" using tk(1) queue(3) by (rule evolvesTo_trans)
        show "\<forall>i \<in> set ?dn. decided ?t i" using tk(3) evolvesTo_facts(3) [OF queue(3)] by blast
        show "memPushedSeq ?t ?n = memPushedSeq ?s ?n \<or> memPushedSeq ?t ?n \<in> idSeq ` set ?dn"
          unfolding queue(2) tk(4) by (rule highestOwn_cases)
        show "low \<le> memPushedSeq ?s ?n" using sent(2) known n by simp
        have "prefix (concat (map fst (take (length dn) bs))) (ownOf d low)" by (rule offers_prefix [OF offers_take [OF sent(3)]])
        then show "prefix ?dn (ownIds ?rows ?n low)" using took by (simp add: ownOf_def rowsOf_def nameOf_def)
      qed
      have down: "\<exists>got. prefix got ?pend \<and> idsOf got \<subseteq> fset (fmdom (rowsOf d')) \<and> gains ?rows (idsOf ?pend) (rowsOf d') \<and>
          (derr = None \<longrightarrow> got = ?pend \<and> ?dn = ownIds ?rows ?n low) \<and>
          (\<forall>q h. NAck q h \<in> set out \<longrightarrow> 0 < h \<longrightarrow> h = ?cur \<or> h \<in> obOrd ` set got)"
      proof (cases "derr \<noteq> None \<and> d' = d1")
        case True
        then have "out = []" using out(1) sent(6) by simp
        with True d1 show ?thesis by (intro exI [of _ "[]"]) (auto simp: idsOf_def)
      next
        case False
        with sent(7) have fin: "bs \<noteq> []" "\<not> snd (last bs)" "length bs \<le> length frs'" "list_all isAck (take (length bs) frs')"
          and app: "applyDownstream (stEOF (neStream d)) 0 (drop (length bs) frs') d1 = (derr, d')" by blast+
        have "length acks \<le> length bs" using served(4) took by linarith
        from acks_only [OF frs' served(3) this fin(3,4)] obtain k where
          k: "length acks = length bs" "drop (length bs) frs' = map (downFrame ?cur) (take k bs2)" unfolding n by blast
        have all: "length dn = length bs" using k(1) served(4) took by linarith
        have whole: "?dn = ownIds ?rows ?n low"
        proof -
          have "\<not> snd (bs ! (length bs - 1))" using fin(1,2) by (simp add: last_conv_nth)
          from offers_ended [OF sent(3) _ this] fin(1) have "concat (map fst bs) = ownOf d low" by simp
          then show ?thesis using took all by (simp add: ownOf_def rowsOf_def nameOf_def)
        qed
        have off: "offers ?pend (take k bs2)" using served(5) unfolding n pend by (rule offers_take)
        have eof: "take k bs2 \<noteq> [] \<and> \<not> snd (last (take k bs2))" if "stEOF (neStream d)"
        proof -
          from j(5) [OF that] have "bs2 \<noteq> []" "\<not> snd (last bs2)" "frs' = acks @ map (downFrame ?cur) bs2"
            using served(6,7) sent(1) n by auto
          moreover from this(3) k have "length (take k bs2) = length bs2" by (metis append_eq_conv_conj length_map)
          then have "take k bs2 = bs2" by simp
          ultimately show ?thesis by simp
        qed
        from down_effect [OF app [unfolded k(2)] off eof] obtain got out' where
          g: "stOut (neStream d') = stOut (neStream d1) @ out'" "prefix got ?pend" "idsOf got \<subseteq> fset (fmdom (rowsOf d'))"
          "gains (rowsOf d1) (idsOf ?pend) (rowsOf d')" "derr = None \<longrightarrow> got = ?pend"
          "\<forall>f \<in> set out'. \<exists>h. f = NAck 0 h \<and> (0 < h \<longrightarrow> h = ?cur \<or> h \<in> obOrd ` set got)" by blast
        have "out' = out" using g(1) out(1) sent(6) by simp
        with g(2-6) whole d1(1) show ?thesis by (intro exI [of _ got]) auto
      qed
      from down obtain got where got: "prefix got ?pend" "idsOf got \<subseteq> fset (fmdom (rowsOf d'))" "gains ?rows (idsOf ?pend) (rowsOf d')"
        "derr = None \<longrightarrow> got = ?pend \<and> ?dn = ownIds ?rows ?n low"
        "\<forall>q h. NAck q h \<in> set out \<longrightarrow> 0 < h \<longrightarrow> h = ?cur \<or> h \<in> obOrd ` set got" by blast
      have "memDeliveredOrd ?t ?n = ?cur \<or> memDeliveredOrd ?t ?n \<in> obOrd ` set got"
        using t
      proof
        assume "?t = t"
        then show ?thesis using tk(2) by (simp add: memDeliveredOrd_def)
      next
        assume "\<exists>q h. NAck q h \<in> set out \<and> 0 < h \<and> ?t = memSetDeliveredOrd ?n h t"
        then obtain q h where "NAck q h \<in> set out" "0 < h" "?t = memSetDeliveredOrd ?n h t" by blast
        moreover from this(3) have "memDeliveredOrd ?t ?n = h" by (simp add: memDeliveredOrd_def memSetDeliveredOrd_def fm_get_def)
        ultimately show ?thesis using got(5) by metis
      qed
      with up got(1-4) name show ?thesis unfolding sessionDid_def by blast
    qed
  qed
qed

section \<open>The cursors\<close>

text \<open>Central's two cursors for a node stand for what they claim: the node's own rows up to the one are
  decided, and the queued rows up to the other are in the node's log.\<close>

definition syncInv :: "node_id \<Rightarrow> mem_store \<Rightarrow> wh_rows \<Rightarrow> bool" where
  "syncInv n s rows \<longleftrightarrow> queueOk s \<and> list_all (\<lambda>i. idSeq i \<le> memPushedSeq s n \<longrightarrow> decided s i) (ownAll rows n) \<and>
     memDeliveredOrd s n \<le> mmNextOrd s \<and>
     list_all (\<lambda>r. obOrd r \<le> memDeliveredOrd s n \<longrightarrow> evId (obEnv r) |\<in>| fmdom rows) (queueOf s n)"

lemma syncInv_own: "syncInv n s rows \<Longrightarrow> i |\<in>| fmdom rows \<Longrightarrow> idNode i = n \<Longrightarrow> idSeq i \<le> memPushedSeq s n \<Longrightarrow> decided s i"
  using ownAll_set [of i rows n] by (simp add: syncInv_def list_all_iff)

lemma syncInv_queue: "syncInv n s rows \<Longrightarrow> r \<in> set (queueOf s n) \<Longrightarrow> obOrd r \<le> memDeliveredOrd s n \<Longrightarrow> evId (obEnv r) |\<in>| fmdom rows"
  by (simp add: syncInv_def list_all_iff)

text \<open>No event under the node's own name is queued for it that it does not have.\<close>

definition queuesOwnOnly :: "node_id \<Rightarrow> mem_store \<Rightarrow> wh_rows \<Rightarrow> bool" where
  "queuesOwnOnly n s rows \<longleftrightarrow> list_all (\<lambda>r. idNode (evId (obEnv r)) = n \<longrightarrow> evId (obEnv r) |\<in>| fmdom rows) (queueOf s n)"

lemma ascending_prefix:
  assumes "sorted_wrt (<) (map f xs)" "prefix ys xs" "y \<in> set ys" "x \<in> set xs" "f x \<le> (f y :: 'b :: linorder)"
  shows "x \<in> set ys"
proof -
  obtain zs where xs: "xs = ys @ zs" using assms(2) by (auto simp: prefix_def)
  then have "\<forall>z \<in> set zs. f y < f z" using assms(1,3) by (simp add: sorted_wrt_append)
  with assms(4,5) xs show ?thesis by auto
qed

lemma pendingAfter_set: "r \<in> set (pendingAfter s n cur) \<longleftrightarrow> r \<in> set (queueOf s n) \<and> cur < obOrd r"
  by (auto simp: pendingAfter_def queueOf_def)

lemma sessionDid_queue:
  assumes did: "sessionDid n s rows fin t rows'" and "syncInv n s rows" "enqueuedCount t < 2 ^ 64"
    and r: "r \<in> set (queueOf t n)" "obOrd r \<le> memDeliveredOrd s n"
  shows "evId (obEnv r) |\<in>| fmdom rows'"
proof -
  from did have ev: "evolvesTo s t" and g: "fset (fmdom rows) \<subseteq> fset (fmdom rows')" by (auto simp: sessionDid_def gains_def)
  from assms(2) have ok: "queueOk s" "memDeliveredOrd s n \<le> mmNextOrd s" by (simp_all add: syncInv_def)
  from evolvesTo_facts(5) [OF ev ok(1) assms(3)] obtain new where
    new: "queueOf t n = queueOf s n @ new" "list_all (\<lambda>r. mmNextOrd s < obOrd r) new" by blast
  have "r \<notin> set new" using new(2) r(2) ok(2) by (auto simp: list_all_iff)
  then have "r \<in> set (queueOf s n)" using r(1) new(1) by simp
  from syncInv_queue [OF assms(2) this r(2)] g show ?thesis by blast
qed

lemma sessionDid_inv:
  assumes did: "sessionDid n s rows fin t rows'" and s: "syncInv n s rows" and lt: "enqueuedCount t < 2 ^ 64"
    and own: "queuesOwnOnly n t rows"
  shows "syncInv n t rows'"
proof -
  from did obtain dn low got where ev: "evolvesTo s t" and dn: "\<forall>i \<in> set dn. decided t i"
      "memPushedSeq t n = memPushedSeq s n \<or> memPushedSeq t n \<in> idSeq ` set dn" "low \<le> memPushedSeq s n" "prefix dn (ownIds rows n low)"
    and got: "prefix got (pendingAfter t n (memDeliveredOrd s n))" "idsOf got \<subseteq> fset (fmdom rows')"
      "memDeliveredOrd t n = memDeliveredOrd s n \<or> memDeliveredOrd t n \<in> obOrd ` set got"
    and g: "gains rows (idsOf (pendingAfter t n (memDeliveredOrd s n))) rows'"
    unfolding sessionDid_def by blast
  have ok: "queueOk s" "memDeliveredOrd s n \<le> mmNextOrd s" using s by (simp_all add: syncInv_def)
  have t: "queueOk t" "mmNextOrd s \<le> mmNextOrd t" using evolvesTo_facts(2,4) [OF ev] ok(1) lt by blast+
  have ord: "ordered (queueOf t n)" by (rule queueOk_ordered [OF t(1) lt])
  have decided: "decided t i" if "i |\<in>| fmdom rows'" "idNode i = n" "idSeq i \<le> memPushedSeq t n" for i
  proof -
    have i: "i |\<in>| fmdom rows"
    proof (rule ccontr)
      assume "i |\<notin>| fmdom rows"
      with that(1) g have "i \<in> idsOf (pendingAfter t n (memDeliveredOrd s n))" by (auto simp: gains_def)
      with that(2) own \<open>i |\<notin>| fmdom rows\<close> show False by (auto simp: idsOf_def pendingAfter_set queuesOwnOnly_def list_all_iff)
    qed
    show ?thesis
    proof (cases "idSeq i \<le> memPushedSeq s n")
      case True
      from syncInv_own [OF s i that(2) True] show ?thesis by (rule evolvesTo_facts(3) [OF ev])
    next
      case False
      with dn(2) that(3) obtain j where j: "j \<in> set dn" "idSeq i \<le> idSeq j" by auto
      have "i \<in> set (ownIds rows n low)" using i that(2) False dn(3) by (auto simp: ownIds_set)
      from ascending_prefix [OF ownIds_ascending dn(4) j(1) this j(2)] dn(1) show ?thesis by blast
    qed
  qed
  have held: "evId (obEnv r) |\<in>| fmdom rows'" if "r \<in> set (queueOf t n)" "obOrd r \<le> memDeliveredOrd t n" for r
  proof (cases "obOrd r \<le> memDeliveredOrd s n")
    case True
    from sessionDid_queue [OF did s lt that(1) True] show ?thesis .
  next
    case False
    with got(3) that(2) obtain x where x: "x \<in> set got" "obOrd r \<le> obOrd x" by auto
    have "r \<in> set (pendingAfter t n (memDeliveredOrd s n))" using that(1) False by (simp add: pendingAfter_set)
    from ascending_prefix [OF _ got(1) x(1) this x(2)] ordered_pending [OF ord] have "r \<in> set got" by (simp add: ordered_def)
    with got(2) show ?thesis by (auto simp: idsOf_def)
  qed
  have "memDeliveredOrd t n \<le> mmNextOrd t"
  proof (cases "memDeliveredOrd t n = memDeliveredOrd s n")
    case True
    with ok(2) t(2) show ?thesis by simp
  next
    case False
    with got(3) obtain x where x: "x \<in> set got" "memDeliveredOrd t n = obOrd x" by auto
    then have "x \<in> set (queueOf t n)" using set_mono_prefix [OF got(1)] pendingAfter_set by blast
    with t(1) lt x(2) show ?thesis by (auto simp: queueOk_def inAscending_def list_all_iff)
  qed
  with t(1) decided held show ?thesis by (simp add: syncInv_def list_all_iff ownAll_set)
qed

text \<open>
  C7. A cursor never runs ahead. Take any session between a node and central in which each end sees some
  beginning of what the other sent, with any store call and any node transaction failing or losing its
  reply, and central's numbering not exhausted. If before it every own event of the node up to central's
  push cursor was decided and every row queued for the node up to the delivery cursor was in the node's
  log, the same holds after it.
\<close>

theorem wh_cursors_never_lead:
  assumes "joinedSession len cx auth cancelled c d"
    and "serveSession len cx auth c = (cerr, c')" "clientSession len cancelled d = (derr, d')"
    and "syncInv (nameOf d) (ceStore c) (rowsOf d)" "enqueuedCount (ceStore c') < 2 ^ 64"
    and "queuesOwnOnly (nameOf d) (ceStore c') (rowsOf d)"
  shows "syncInv (nameOf d) (ceStore c') (rowsOf d')"
proof -
  have "queueOk (ceStore c)" using assms(4) by (simp add: syncInv_def)
  from session_effect [OF assms(1,2,3) this assms(5)] show ?thesis
    using sessionDid_inv [OF _ assms(4,5,6)] by blast
qed

text \<open>
  C8. A session that ends without an error on the node's side has caught both sides up: central has
  decided every event the node had recorded itself when it began, and the node's log has every event
  central has queued for it, those the session itself led to included.
\<close>

theorem wh_session_catches_up:
  assumes "joinedSession len cx auth cancelled c d"
    and "serveSession len cx auth c = (cerr, c')" "clientSession len cancelled d = (None, d')"
    and "syncInv (nameOf d) (ceStore c) (rowsOf d)" "enqueuedCount (ceStore c') < 2 ^ 64"
  shows "list_all (decided (ceStore c')) (ownAll (rowsOf d) (nameOf d)) \<and>
    list_all (\<lambda>r. evId (obEnv r) |\<in>| fmdom (rowsOf d')) (queueOf (ceStore c') (nameOf d))"
proof -
  let ?n = "nameOf d" and ?s = "ceStore c" and ?t = "ceStore c'"
  have "queueOk ?s" using assms(4) by (simp add: syncInv_def)
  from session_effect [OF assms(1,2,3) this assms(5)] have did: "sessionDid ?n ?s (rowsOf d) True ?t (rowsOf d')" by simp
  then obtain low where ev: "evolvesTo ?s ?t" and low: "low \<le> memPushedSeq ?s ?n"
    and up: "\<forall>i \<in> set (ownIds (rowsOf d) ?n low). decided ?t i"
    and down: "idsOf (pendingAfter ?t ?n (memDeliveredOrd ?s ?n)) \<subseteq> fset (fmdom (rowsOf d'))"
    unfolding sessionDid_def by auto
  have "decided ?t i" if "i \<in> set (ownAll (rowsOf d) ?n)" for i
  proof (cases "low < idSeq i")
    case True
    with that up show ?thesis by (simp add: ownIds_def)
  next
    case False
    with that low have "decided ?s i" by (intro syncInv_own [OF assms(4)]) (auto simp: ownAll_set)
    then show ?thesis by (rule evolvesTo_facts(3) [OF ev])
  qed
  moreover have "evId (obEnv r) |\<in>| fmdom (rowsOf d')" if "r \<in> set (queueOf ?t ?n)" for r
  proof (cases "obOrd r \<le> memDeliveredOrd ?s ?n")
    case True
    from sessionDid_queue [OF did assms(4,5) that True] show ?thesis .
  next
    case False
    with that down show ?thesis by (auto simp: idsOf_def pendingAfter_set)
  qed
  ultimately show ?thesis by (simp add: list_all_iff)
qed

section \<open>Pages and waits\<close>

text \<open>
  C31. Central's push ends, and sends no more frames than there are rows above the node's delivery
  cursor, or a single one when there are none, whichever calls fail.
\<close>

theorem wh_push_frames_bounded:
  assumes "pushAll len n c = (err, c')" "ordered (queueOf (ceStore c) n)"
  shows "length (stOut (ceStream c')) \<le> length (stOut (ceStream c)) +
    max 1 (length (pendingAfter (ceStore c) n (memDeliveredOrd (ceStore c) n)))"
proof -
  from pushAll_offers [OF assms] obtain bs where
    "offers (pendingAfter (ceStore c) n (memDeliveredOrd (ceStore c) n)) bs"
    "stOut (ceStream c') = stOut (ceStream c) @ map (downFrame (memDeliveredOrd (ceStore c) n)) bs" by blast
  with offers_length [of "pendingAfter (ceStore c) n (memDeliveredOrd (ceStore c) n)" bs] show ?thesis by simp
qed

text \<open>A random part that \<open>rand.N\<close> can return each time: below half the current wait, and one more.\<close>

fun jittered :: "int64 \<Rightarrow> int64 \<Rightarrow> int64 option list \<Rightarrow> bool" where
  "jittered backoff current [] = True"
| "jittered backoff current (None # rs) = jittered backoff backoff rs"
| "jittered backoff current (Some r # rs) = (0 \<le> sint r \<and> sint r \<le> sint current div 2 \<and>
     jittered backoff (if sint current < sint whMaxBackoff then current * 2 else current) rs)"

lemma sint64_add:
  "minInt64 \<le> sint a + sint b \<Longrightarrow> sint a + sint b \<le> maxInt64 \<Longrightarrow> sint (a + b :: int64) = sint a + sint b"
proof -
  assume "minInt64 \<le> sint a + sint b" "sint a + sint b \<le> maxInt64"
  then have "sint (word_of_int (sint a + sint b) :: int64) = sint a + sint b" by (rule sint64_of_int)
  then show ?thesis by simp
qed

lemma runWaits_bounded:
  assumes "jittered backoff current rs" "0 < sint backoff" "sint backoff \<le> sint current" "sint current < 2 * sint whMaxBackoff"
    and "w \<in> set (runWaits every backoff current rs)"
  shows "w = every \<or> sint backoff \<le> sint w \<and> sint w < 3 * sint whMaxBackoff"
  using assms
proof (induction every backoff current rs rule: runWaits.induct)
  case (2 every backoff current rs)
  then show ?case by auto
next
  case (3 every backoff current r rs)
  have m: "sint whMaxBackoff = 300000000000" by (simp add: whMaxBackoff_def)
  have r: "0 \<le> sint r" "2 * sint r \<le> sint current" using 3(2) by auto
  have sum: "sint (current + r) = sint current + sint r" using r 3(3-5) by (intro sint64_add) (simp_all add: m)
  have dbl: "sint (current * 2) = 2 * sint current" if "sint current < sint whMaxBackoff"
  proof -
    have "sint (current + current) = sint current + sint current" using 3(3-5) that by (intro sint64_add) (simp_all add: m)
    then show ?thesis by (simp add: mult.commute)
  qed
  let ?next = "if sint current < sint whMaxBackoff then current * 2 else current"
  have "sint backoff \<le> sint ?next" "sint ?next < 2 * sint whMaxBackoff" using 3(3-5) dbl by (auto simp: m)
  from 3(1) [OF _ 3(3) this] 3(2) have "w \<in> set (runWaits every backoff ?next rs) \<Longrightarrow> ?case" by simp
  moreover have "sint backoff \<le> sint (current + r) \<and> sint (current + r) < 3 * sint whMaxBackoff"
    using r 3(3-5) unfolding sum m by auto
  ultimately show ?case using 3(6) by auto
qed simp



section \<open>At concrete inputs\<close>

text \<open>A node with one event of its own, and central with one event queued for it; the frames the two
  exchange.\<close>

definition demoOwn :: envelope where
  "demoOwn = \<lparr>evId = EventID ''n'' 1, evAggregate = ''d'', evType = ''LocationRegistered'', evHLC = HLC 4 0 ''n'',
     evRecordedAt = 0, evCausation = None, evPayload = JsonBytes (JObj [(''code'', JStr ''d''), (''type'', JStr LocReceiving)])\<rparr>"

definition demoUp :: "node_frame list" where
  "demoUp = [NHello ''n'' 0, NEvents (encodeBatch [demoOwn]) False, NAck 0 1]"

definition demoDown :: "central_frame list" where
  "demoDown = [KWelcome 0, KAck 1 0, KEvents (encodeBatch demoBatch) False 1]"

definition demoStream :: "'i list \<Rightarrow> ('i, 'o) stream" where
  "demoStream frs = \<lparr>stIn = frs, stEOF = False, stOut = [], stCanSend = None, stCloseOk = True\<rparr>"

text \<open>Central's end when the first \<open>k\<close> frames reach it.\<close>

definition demoHub :: "nat \<Rightarrow> central_end" where
  "demoHub k = \<lparr>ceFaults = [], ceStore = memEnqueue ''n'' demoBatch newMemory, ceStream = demoStream (take k demoUp)\<rparr>"

definition demoNode :: node_end where
  "demoNode = \<lparr>neFaults = \<lambda>_. \<lparr>ffIngest = DbOk, ffApply = \<lambda>_. DbOk, ffCursor = DbOk, ffNow = 7\<rparr>,
     neService = \<lparr>svLog = whOpen (whSchema\<lparr>whRows := storeEnvs fmempty [demoOwn]\<rparr>) ''n'', svSet = projectionSchema,
       svState = setHome ''n'' newState\<rparr>,
     neStream = demoStream demoDown\<rparr>"

abbreviation demoServe :: "nat \<Rightarrow> wh_sync_error option \<times> central_end" where
  "demoServe k \<equiv> serveSession (\<lambda>_. 10) (\<lambda>_. (\<lambda>xs. xs, 9)) None (demoHub k)"

abbreviation demoClient :: "wh_sync_error option \<times> node_end" where
  "demoClient \<equiv> clientSession (\<lambda>_. 10) False demoNode"

lemma demo_client: "fst demoClient = None" "stOut (neStream (snd demoClient)) = demoUp"
  by code_simp+

lemma demo_serve: "stOut (ceStream (snd (demoServe 3))) = demoDown" "stOut (ceStream (snd (demoServe 2))) = demoDown"
  by code_simp+

lemma demo_joined: "k \<in> {2, 3} \<Longrightarrow> joinedSession (\<lambda>_. 10) (\<lambda>_. (\<lambda>xs. xs, 9)) None False (demoHub k) demoNode"
proof -
  assume "k \<in> {2, 3}"
  then have "stOut (ceStream (snd (demoServe k))) = demoDown" using demo_serve by auto
  then show ?thesis
    by (simp add: joinedSession_def Let_def demo_client) (simp add: demoHub_def demoNode_def demoStream_def take_is_prefix)
qed

lemma demo_start: "syncInv ''n'' (memEnqueue ''n'' demoBatch newMemory) (rowsOf demoNode)"
proof -
  have "queueOk newMemory" by (simp add: queueOk_def newMemory_def enqueuedCount_def inAscending_def queueOf_def fm_get_def fcard.rep_eq)
  then have "queueOk (memEnqueue ''n'' demoBatch newMemory)" using evolves_enqueue [of newMemory "''n''" demoBatch] by (simp add: evolves_def)
  moreover have "list_all (\<lambda>i. idSeq i \<le> memPushedSeq (memEnqueue ''n'' demoBatch newMemory) ''n'' \<longrightarrow>
      decided (memEnqueue ''n'' demoBatch newMemory) i) (ownAll (rowsOf demoNode) ''n'')"
    by code_simp
  moreover have "memDeliveredOrd (memEnqueue ''n'' demoBatch newMemory) ''n'' \<le> mmNextOrd (memEnqueue ''n'' demoBatch newMemory)" by code_simp
  moreover have "list_all (\<lambda>r. obOrd r \<le> memDeliveredOrd (memEnqueue ''n'' demoBatch newMemory) ''n'' \<longrightarrow> evId (obEnv r) |\<in>| fmdom (rowsOf demoNode))
      (queueOf (memEnqueue ''n'' demoBatch newMemory) ''n'')" by code_simp
  ultimately show ?thesis by (simp add: syncInv_def)
qed

lemma demo_frame: "ceStore (demoHub k) = memEnqueue ''n'' demoBatch newMemory" "nameOf demoNode = ''n''"
  by (simp_all add: demoHub_def demoNode_def nameOf_def whOpen_def)

text \<open>The acknowledgement of what the node applied is lost.\<close>

theorem wh_cursors_never_lead_demo:
  "syncInv ''n'' (ceStore (snd (demoServe 2))) (rowsOf (snd demoClient))"
proof -
  have "queuesOwnOnly ''n'' (ceStore (snd (demoServe 2))) (rowsOf demoNode)" by code_simp
  moreover have "enqueuedCount (ceStore (snd (demoServe 2))) < 2 ^ 64"
  proof -
    have "int (enqueuedCount (ceStore (snd (demoServe 2)))) = 1" by code_simp
    then show ?thesis by simp
  qed
  ultimately show ?thesis
    using wh_cursors_never_lead [OF demo_joined [of 2] prod.collapse [symmetric] prod.collapse [symmetric]] demo_start
    by (simp add: demo_frame)
qed

theorem wh_session_catches_up_demo:
  "list_all (decided (ceStore (snd (demoServe 3)))) (ownAll (rowsOf demoNode) ''n'') \<and>
   list_all (\<lambda>r. evId (obEnv r) |\<in>| fmdom (rowsOf (snd demoClient))) (queueOf (ceStore (snd (demoServe 3))) ''n'') \<and>
   ownAll (rowsOf demoNode) ''n'' \<noteq> [] \<and> queueOf (ceStore (snd (demoServe 3))) ''n'' \<noteq> []"
proof -
  have "enqueuedCount (ceStore (snd (demoServe 3))) < 2 ^ 64"
  proof -
    have "int (enqueuedCount (ceStore (snd (demoServe 3)))) = 1" by code_simp
    then show ?thesis by simp
  qed
  moreover have "demoClient = (None, snd demoClient)" by (simp add: prod_eq_iff demo_client)
  moreover have "ownAll (rowsOf demoNode) ''n'' \<noteq> []" "queueOf (ceStore (snd (demoServe 3))) ''n'' \<noteq> []" by code_simp+
  ultimately show ?thesis
    using wh_session_catches_up [OF demo_joined [of 3] prod.collapse [symmetric]] demo_start
    by (simp add: demo_frame)
qed

theorem wh_push_frames_bounded_demo:
  "length (stOut (ceStream (snd (pushAll (\<lambda>_. 10) ''n'' (demoHub 0))))) \<le> length (stOut (ceStream (demoHub 0))) +
     max 1 (length (pendingAfter (ceStore (demoHub 0)) ''n'' (memDeliveredOrd (ceStore (demoHub 0)) ''n'')))"
proof (rule wh_push_frames_bounded [OF prod.collapse [symmetric]])
  show "ordered (queueOf (ceStore (demoHub 0)) ''n'')" by code_simp
qed

end
