(* ===== verification/WhExceptions.thy ===== *)
theory WhExceptions
  imports WhViews
begin

text \<open>
  The exceptions table (\<open>warehouse-node/internal/projection/exceptions.go\<close>): which rows it holds
  after any log of events has been folded in, and the two ways its keys and times fall short.
\<close>

section \<open>Identities as text\<close>

definition digitsValue :: "string \<Rightarrow> nat" where
  "digitsValue ds = foldl (\<lambda>a c. 10 * a + (of_char c - 48)) 0 ds"

lemma decDigits_value: "digitsValue (decDigits n) = n"
proof (induction n rule: decDigits.induct)
  case (1 n)
  show ?case
  proof (cases "n < 10")
    case True
    then show ?thesis by (simp add: decDigits.simps [of n] digitsValue_def)
  next
    case False
    have "10 * digitsValue (decDigits (n div 10)) + n mod 10 = n" using 1 [OF False] by simp
    then show ?thesis using False by (simp add: decDigits.simps [of n] digitsValue_def)
  qed
qed

lemma decDigits_chars: "c \<in> set (decDigits n) \<Longrightarrow> 48 \<le> (of_char c :: nat) \<and> (of_char c :: nat) < 58"
proof (induction n rule: decDigits.induct)
  case (1 n)
  then show ?case by (cases "n < 10") (auto simp: decDigits.simps [of n])
qed

lemma digits_none: "CHR ''/'' \<notin> set (decDigits n)" "CHR ''|'' \<notin> set (decDigits n)"
  using decDigits_chars [of "CHR ''/''" n] decDigits_chars [of "CHR ''|''" n] by auto

text \<open>A separator that neither part before it holds splits a text in one way.\<close>

lemma split_once: "c \<notin> set a \<Longrightarrow> c \<notin> set a' \<Longrightarrow> a @ c # x = a' @ c # x' \<Longrightarrow> a = a' \<and> x = x'"
proof (induction a arbitrary: a')
  case (Cons b a)
  then show ?case by (cases a') auto
next
  case Nil
  then show ?case by (cases a') auto
qed

lemma split_last: "c \<notin> set x \<Longrightarrow> c \<notin> set x' \<Longrightarrow> a @ c # x = a' @ c # x' \<Longrightarrow> a = a' \<and> x = x'"
  using split_once [of c "rev x" "rev x'" "rev a" "rev a'"] by (metis append.assoc append_Cons append_Nil rev.simps(2) rev_append rev_rev_ident set_rev)

lemma eventIDString_inj: "eventIDString i = eventIDString j \<longleftrightarrow> i = j"
proof
  assume "eventIDString i = eventIDString j"
  then have "idNode i @ CHR ''/'' # formatUint (idSeq i) = idNode j @ CHR ''/'' # formatUint (idSeq j)"
    by (simp add: eventIDString_def)
  then have "idNode i = idNode j \<and> formatUint (idSeq i) = formatUint (idSeq j)"
    by (rule split_last [rotated 2]) (simp_all add: formatUint_def digits_none)
  moreover have "idSeq i = idSeq j" if "formatUint (idSeq i) = formatUint (idSeq j)"
    using that decDigits_value unfolding formatUint_def by (metis word_unat_eq_iff)
  ultimately show "i = j" by (cases i; cases j) auto
qed simp

definition noBar :: "string \<Rightarrow> bool" where
  "noBar s \<longleftrightarrow> CHR ''|'' \<notin> set s"

definition plainKey :: "wh_key \<Rightarrow> bool" where
  "plainKey k \<longleftrightarrow> noBar (wkSKU k) \<and> noBar (wkLocation k) \<and> noBar (wkLotID k)"

lemma negativeID_inj: "plainKey k \<Longrightarrow> plainKey j \<Longrightarrow> negativeID k = negativeID j \<longleftrightarrow> k = j"
proof
  assume plain: "plainKey k" "plainKey j" and "negativeID k = negativeID j"
  then have "wkSKU k @ CHR ''|'' # wkLocation k @ CHR ''|'' # wkLotID k = wkSKU j @ CHR ''|'' # wkLocation j @ CHR ''|'' # wkLotID j"
    by (simp add: negativeID_def)
  from split_once [OF _ _ this] have 1: "wkSKU k = wkSKU j"
    "wkLocation k @ CHR ''|'' # wkLotID k = wkLocation j @ CHR ''|'' # wkLotID j"
    using plain by (simp_all add: plainKey_def noBar_def)
  from split_once [OF _ _ this(2)] have "wkLocation k = wkLocation j" "wkLotID k = wkLotID j"
    using plain by (simp_all add: plainKey_def noBar_def)
  with 1(1) show "k = j" by (cases k; cases j) simp
qed simp

lemma eventID_not_negative: "noBar (idNode i) \<Longrightarrow> eventIDString i \<noteq> negativeID k"
proof
  assume "noBar (idNode i)" "eventIDString i = negativeID k"
  moreover have "CHR ''|'' \<in> set (negativeID k)" by (simp add: negativeID_def)
  ultimately have "CHR ''|'' \<in> set (eventIDString i)" by simp
  with \<open>noBar (idNode i)\<close> show False by (simp add: eventIDString_def noBar_def formatUint_def digits_none)
qed

section \<open>One refresh\<close>

text \<open>The row of a key, if there is one, is the key's own; and it shows the balance.\<close>

definition ownRow :: "proj_db \<Rightarrow> wh_key \<Rightarrow> bool" where
  "ownRow p k \<longleftrightarrow> (case fmlookup (pjExceptions p) (negativeID k) of None \<Rightarrow> True
     | Some x \<Rightarrow> exKind x = ExceptionNegativeBalance \<and> exKey x = k)"

definition showsBalance :: "proj_db \<Rightarrow> wh_key \<Rightarrow> bool" where
  "showsBalance p k \<longleftrightarrow> (case fmlookup (pjExceptions p) (negativeID k) of None \<Rightarrow> \<not> balance p k < 0
     | Some x \<Rightarrow> exKind x = ExceptionNegativeBalance \<and> exKey x = k \<and> exQty x = balance p k \<and>
         (exResolved x \<longleftrightarrow> \<not> balance p k < 0))"

lemma shows_own: "showsBalance p k \<Longrightarrow> ownRow p k"
  by (auto simp: showsBalance_def ownRow_def split: option.splits)

lemma refreshNegative_other:
  "i \<noteq> negativeID k \<Longrightarrow> fmlookup (pjExceptions (refreshNegative e k p)) i = fmlookup (pjExceptions p) i"
  by (simp add: refreshNegative_def flagNegative_def touchKey_def touchAt_def Let_def split: option.split)

lemma balance_cong: "pjStock q = pjStock p \<Longrightarrow> balance q k = balance p k"
  by (simp add: balance_def)

lemma shows_cong:
  "fmlookup (pjExceptions q) (negativeID k) = fmlookup (pjExceptions p) (negativeID k) \<Longrightarrow> balance q k = balance p k \<Longrightarrow>
   showsBalance q k = showsBalance p k"
  by (simp add: showsBalance_def split: option.split)

lemma own_cong:
  "fmlookup (pjExceptions q) (negativeID k) = fmlookup (pjExceptions p) (negativeID k) \<Longrightarrow> ownRow q k = ownRow p k"
  by (simp add: ownRow_def)

lemma refreshNegative_shows:
  assumes "ownRow p k"
  shows "showsBalance (refreshNegative e k p) k"
proof -
  have b: "balance (refreshNegative e k p) k = fm_get 0 (pjStock p) k" by (simp add: balance_def)
  show ?thesis
    using assms unfolding showsBalance_def b
    by (auto simp: ownRow_def refreshNegative_def flagNegative_def touchKey_def touchAt_def Let_def split: option.splits)
qed

lemma refreshes_show:
  assumes "\<And>k. k \<in> K \<Longrightarrow> plainKey k \<and> ownRow p k" "set ks \<subseteq> K" "k \<in> K" "k \<in> set ks \<or> showsBalance p k"
  shows "showsBalance (foldl (\<lambda>p k. refreshNegative e k p) p ks) k"
  using assms(1,2,4)
proof (induction ks arbitrary: p)
  case (Cons j ks)
  have plain: "plainKey j" "plainKey i" if "i \<in> K" for i using Cons.prems(1,2) that by auto
  have same: "fmlookup (pjExceptions (refreshNegative e j p)) (negativeID i) = fmlookup (pjExceptions p) (negativeID i)"
    if "i \<in> K" "i \<noteq> j" for i
    using plain [OF that(1)] that(2) by (intro refreshNegative_other) (simp add: negativeID_inj)
  have fresh: "showsBalance (refreshNegative e j p) j"
    using Cons.prems(1,2) by (intro refreshNegative_shows) simp
  have own: "plainKey i \<and> ownRow (refreshNegative e j p) i" if "i \<in> K" for i
  proof (cases "i = j")
    case True
    then show ?thesis using Cons.prems(1) [OF that] shows_own [OF fresh] by simp
  next
    case False
    from own_cong [OF same [OF that False]] Cons.prems(1) [OF that] show ?thesis by simp
  qed
  have "k \<in> set ks \<or> showsBalance (refreshNegative e j p) k"
  proof (cases "k = j")
    case False
    have "showsBalance (refreshNegative e j p) k = showsBalance p k"
      by (rule shows_cong [OF same [OF assms(3) False]]) (rule balance_cong, simp)
    with False Cons.prems(3) show ?thesis by auto
  qed (use fresh in simp)
  with Cons.IH [OF own, simplified] Cons.prems(2) show ?case by simp
qed simp

lemma refreshes_other:
  "i \<notin> negativeID ` set ks \<Longrightarrow> fmlookup (pjExceptions (foldl (\<lambda>p k. refreshNegative e k p) p ks)) i = fmlookup (pjExceptions p) i"
  by (induction ks arbitrary: p) (simp_all add: refreshNegative_other)

section \<open>One event\<close>

definition plainPayload :: "wh_payload \<Rightarrow> bool" where
  "plainPayload pl \<longleftrightarrow> list_all (\<lambda>m. plainKey (fromKey m) \<and> plainKey (toKey m)) (projMovements pl)"

lemma touched_plain: "plainPayload pl \<Longrightarrow> k \<in> set (movedKeys pl) \<Longrightarrow> plainKey k"
  by (auto simp: plainPayload_def movedKeys_def list_all_iff)

lemma addStockRow_balance: "addStockRow j d p = Inr p' \<Longrightarrow> k \<noteq> j \<Longrightarrow> balance p' k = balance p k"
  by (auto simp: addStockRow_def putStock_def Let_def balance_def fm_get_def split: if_splits)

lemma moveRows_balance:
  "inTurn (map moveRow ms) p = Inr p' \<Longrightarrow> (\<forall>m \<in> set ms. k \<noteq> fromKey m \<and> k \<noteq> toKey m) \<Longrightarrow> balance p' k = balance p k"
proof (induction ms arbitrary: p)
  case (Cons m ms)
  then obtain p1 p2 where "addStockRow (fromKey m) (- mQty m) p = Inr p1" "addStockRow (toKey m) (mQty m) p1 = Inr p2"
    "inTurn (map moveRow ms) p2 = Inr p'" by (auto simp: andNext_Inr moveRow_def [of m])
  with Cons show ?case by (simp add: addStockRow_balance)
qed simp

lemma applyStock_untouched:
  assumes "applyStock home pl p = Inr p'" "k \<notin> set (movedKeys pl)" "wkLocation k \<noteq> External"
  shows "balance p' k = balance p k"
  using assms(1) unfolding applyStock_moves
  by (rule moveRows_balance) (use assms(2,3) in \<open>auto simp: movesOn_def movedKeys_def\<close>)

lemma projectAll_exceptions:
  assumes step: "projectAll home e pl p = Inr p'" and plain: "plainPayload pl" "noBar (idNode (evId e))"
    and k: "plainKey k" "wkLocation k \<noteq> External" and all: "\<And>j. plainKey j \<Longrightarrow> wkLocation j \<noteq> External \<Longrightarrow> showsBalance p j"
  shows "showsBalance p' k"
proof -
  obtain p1 p2 p3 p4 where s: "applyStock home pl p = Inr p1" "applyReservation pl p1 = Inr p2"
    "applyTransfer e pl p2 = Inr p3" "applyException e pl p3 = Inr p4" "p' = markApplied (evId e) p4"
    using step by (rule projectAll_Inr)
  obtain q where q: "(case evCausation e of None \<Rightarrow> Inr p3 | Some c \<Rightarrow> recordCompensation e c pl p3) = Inr q"
    and p4: "p4 = refreshNegatives e pl q" using s(4) by (auto simp: applyException_def andNext_Inr)
  have ex3: "pjExceptions p3 = pjExceptions p" and st3: "pjStock p3 = pjStock p1"
    using applyStock_frame [OF s(1)] applyReservation_frame [OF s(2)] applyTransfer_frame [OF s(3)] by simp_all
  have row: "fmlookup (pjExceptions q) (negativeID j) = fmlookup (pjExceptions p) (negativeID j)"
    and stock: "pjStock q = pjStock p1" for j
  proof -
    have "pjStock q = pjStock p3 \<and> (pjExceptions q = pjExceptions p3 \<or>
        (\<exists>x. pjExceptions q = fmupd (eventIDString (evId e)) x (pjExceptions p3)))"
    proof (cases "evCausation e")
      case (Some c)
      with q show ?thesis by (cases pl) (auto simp: recordCompensation_def insertException_Inr)
    qed (use q in simp)
    with ex3 st3 eventID_not_negative [OF plain(2), of j] show "pjStock q = pjStock p1"
      "fmlookup (pjExceptions q) (negativeID j) = fmlookup (pjExceptions p) (negativeID j)" by auto
  qed
  let ?K = "{j. plainKey j \<and> wkLocation j \<noteq> External}"
  have "showsBalance (foldl (\<lambda>p k. refreshNegative e k p) q (movedKeys pl)) k"
  proof (rule refreshes_show)
    show "plainKey j \<and> ownRow q j" if "j \<in> ?K" for j
      using that shows_own [OF all [of j]] own_cong [OF row] by simp
    show "set (movedKeys pl) \<subseteq> ?K" using touched_plain [OF plain(1)] by (auto simp: movedKeys_def)
    show "k \<in> set (movedKeys pl) \<or> showsBalance q k"
    proof (cases "k \<in> set (movedKeys pl)")
      case False
      from applyStock_untouched [OF s(1) this k(2)] have "balance q k = balance p k" by (simp only: balance_cong [OF stock])
      with shows_cong [OF row] all [OF k] show ?thesis by simp
    qed simp
  qed (use k in simp)
  moreover have "showsBalance p' k = showsBalance (foldl (\<lambda>p k. refreshNegative e k p) q (movedKeys pl)) k"
    by (rule shows_cong) (simp_all add: p4 s(5) refreshNegatives_def markApplied_def balance_def)
  ultimately show ?thesis by simp
qed


lemma projectAll_eventRow:
  assumes step: "projectAll home e pl p = Inr p'" and i: "noBar (idNode i)"
  shows "fmlookup (pjExceptions p') (eventIDString i) = (case fmlookup (pjExceptions p) (eventIDString i) of Some x \<Rightarrow> Some x
    | None \<Rightarrow> if i \<noteq> evId e then None else (case (evCausation e, pl) of
        (Some c, StockAdjusted m r) \<Rightarrow> Some (compensationRow e c m r) | _ \<Rightarrow> None))"
proof -
  obtain p1 p2 p3 p4 where s: "applyStock home pl p = Inr p1" "applyReservation pl p1 = Inr p2"
    "applyTransfer e pl p2 = Inr p3" "applyException e pl p3 = Inr p4" "p' = markApplied (evId e) p4"
    using step by (rule projectAll_Inr)
  obtain q where q: "(case evCausation e of None \<Rightarrow> Inr p3 | Some c \<Rightarrow> recordCompensation e c pl p3) = Inr q"
    and p4: "p4 = refreshNegatives e pl q" using s(4) by (auto simp: applyException_def andNext_Inr)
  have ex3: "pjExceptions p3 = pjExceptions p"
    using applyStock_frame [OF s(1)] applyReservation_frame [OF s(2)] applyTransfer_frame [OF s(3)] by simp
  have "eventIDString i \<notin> negativeID ` set (movedKeys pl)" using eventID_not_negative [OF i] by auto
  then have "fmlookup (pjExceptions p') (eventIDString i) = fmlookup (pjExceptions q) (eventIDString i)"
    by (simp add: s(5) markApplied_def p4 refreshNegatives_def refreshes_other)
  also have "\<dots> = (case fmlookup (pjExceptions p) (eventIDString i) of Some x \<Rightarrow> Some x
    | None \<Rightarrow> if i \<noteq> evId e then None else (case (evCausation e, pl) of
        (Some c, StockAdjusted m r) \<Rightarrow> Some (compensationRow e c m r) | _ \<Rightarrow> None))"
  proof (cases "evCausation e")
    case None
    with q ex3 show ?thesis by (simp split: option.split)
  next
    case (Some c)
    with q ex3 show ?thesis
      by (cases pl) (auto simp: recordCompensation_def insertException_Inr eventIDString_inj split: option.split)
  qed
  finally show ?thesis .
qed

section \<open>All events\<close>

definition compensationShown :: "proj_db \<Rightarrow> envelope \<Rightarrow> wh_payload \<Rightarrow> bool" where
  "compensationShown p e pl \<longleftrightarrow> (case (evCausation e, pl) of
     (Some c, StockAdjusted m r) \<Rightarrow> fmlookup (pjExceptions p) (eventIDString (evId e)) = Some (compensationRow e c m r)
   | _ \<Rightarrow> True)"

lemma replay_keeps_row:
  "replayProj home es p = Inr p' \<Longrightarrow> noBar (idNode i) \<Longrightarrow> fmlookup (pjExceptions p) (eventIDString i) = Some x \<Longrightarrow>
   fmlookup (pjExceptions p') (eventIDString i) = Some x"
proof (induction es arbitrary: p)
  case (Cons e es)
  from Cons.prems(1) obtain pl q where q: "projectAll home e pl p = Inr q" and rest: "replayProj home es q = Inr p'"
    by (rule replayProj_Cons)
  have "fmlookup (pjExceptions q) (eventIDString i) = Some x"
    using projectAll_eventRow [OF q Cons.prems(2)] Cons.prems(3) by simp
  with Cons.IH [OF rest Cons.prems(2)] show ?case .
qed simp

lemma replay_shows:
  assumes "replayProj home es p = Inr p'" "list_all2 decodesTo es ps" "list_all plainPayload ps"
    and "list_all (\<lambda>e. noBar (idNode (evId e))) es"
    and "plainKey k" "wkLocation k \<noteq> External" "\<And>j. plainKey j \<Longrightarrow> wkLocation j \<noteq> External \<Longrightarrow> showsBalance p j"
  shows "showsBalance p' k"
  using assms(1-4,7)
proof (induction es arbitrary: p ps)
  case Nil
  then show ?case using assms(5,6) by simp
next
  case (Cons e es)
  from Cons.prems(1) obtain pl q where pl: "decodePayload e = Inr pl" and q: "projectAll home e pl p = Inr q"
    and rest: "replayProj home es q = Inr p'" by (rule replayProj_Cons)
  from Cons.prems(2) pl obtain ps' where ps: "ps = pl # ps'" "list_all2 decodesTo es ps'"
    using decodesTo_def [of e] by (auto simp: list_all2_Cons1)
  have "showsBalance q j" if "plainKey j" "wkLocation j \<noteq> External" for j
    using q by (rule projectAll_exceptions) (use Cons.prems(3-5) that ps(1) in simp_all)
  with Cons.IH [OF rest ps(2)] Cons.prems(3,4) ps(1) show ?case by simp
qed

lemma replay_compensations:
  assumes "replayProj home es p = Inr p'" "list_all2 decodesTo es ps" "distinct (map evId es)"
    and "list_all (\<lambda>e. noBar (idNode (evId e))) es"
    and "\<And>e. e \<in> set es \<Longrightarrow> fmlookup (pjExceptions p) (eventIDString (evId e)) = None"
  shows "list_all2 (compensationShown p') es ps"
  using assms
proof (induction es arbitrary: p ps)
  case (Cons e es)
  from Cons.prems(1) obtain pl q where pl: "decodePayload e = Inr pl" and q: "projectAll home e pl p = Inr q"
    and rest: "replayProj home es q = Inr p'" by (rule replayProj_Cons)
  from Cons.prems(2) pl obtain ps' where ps: "ps = pl # ps'" "list_all2 decodesTo es ps'"
    using decodesTo_def [of e] by (auto simp: list_all2_Cons1)
  have bar: "noBar (idNode (evId x))" if "x \<in> set (e # es)" for x using Cons.prems(4) that by (auto simp: list_all_iff)
  have "fmlookup (pjExceptions q) (eventIDString (evId x)) = None" if "x \<in> set es" for x
    using projectAll_eventRow [OF q bar [of x]] Cons.prems(3,5) that by (auto simp: image_iff)
  with Cons.IH [OF rest ps(2)] Cons.prems(3,4) have later: "list_all2 (compensationShown p') es ps'" by simp
  have row: "fmlookup (pjExceptions q) (eventIDString (evId e)) = (case (evCausation e, pl) of
        (Some c, StockAdjusted m r) \<Rightarrow> Some (compensationRow e c m r) | _ \<Rightarrow> None)"
    using projectAll_eventRow [OF q bar [of e]] Cons.prems(5) [of e] by simp
  have "compensationShown p' e pl"
    unfolding compensationShown_def
    using row replay_keeps_row [OF rest bar [of e]] by (auto split: option.split wh_payload.split)
  with later show ?case by (simp add: ps(1))
qed simp

lemma schema_lookup [simp]: "fmlookup (pjExceptions projectionSchema) i = None"
  by (simp add: projectionSchema_def)


section \<open>Keys and times that collide\<close>

definition adjustmentAt :: "string \<Rightarrow> string \<Rightarrow> bool \<Rightarrow> int \<Rightarrow> wh_payload" where
  "adjustmentAt sku loc up n = StockAdjusted \<lparr>mSKU = sku, mLotID = [], mFrom = if up then External else loc,
     mTo = if up then loc else External, mQty = fint n\<rparr> ReasonCountVariance"

definition shownAt :: "wh_error + proj_db \<Rightarrow> wh_key \<Rightarrow> (float64 \<times> bool option) option" where
  "shownAt r k = (case r of Inl _ \<Rightarrow> None
     | Inr p \<Rightarrow> Some (balance p k, map_option exResolved (fmlookup (pjExceptions p) (negativeID k))))"

text \<open>Identifiers with a bar: the receipt of another key resolves the row of one still below zero.\<close>

lemma barred_keys_share_a_row:
  "shownAt (replayProj ''n'' [envelopeOf 1 0 (adjustmentAt ''a'' ''b|c'' False 2), envelopeOf 2 0 (adjustmentAt ''a|b'' ''c'' True 5)]
     projectionSchema) (WhKey ''a'' ''b|c'' []) = Some (fint (- 2), Some True)"
  by code_simp

text \<open>\<open>touchKey\<close> compares texts, where the later of two instants of one second can be the smaller.\<close>

lemma touched_keeps_the_earlier:
  "laterText 500000000 0 = 0" "laterText 120000000 100000000 = 100000000"
  by code_simp+


end
