(* ===== verification/WhApi.thy ===== *)
theory WhApi
  imports WhNode
begin

text \<open>
  The operator's interface of a warehouse node (\<open>warehouse-node/internal/transport/grpc/node_api.go\<close>):
  requests become commands of the domain, errors become status codes, rows become messages. The
  wall time is an argument, and so is the order in which the reservations are summed.
\<close>

section \<open>Requests\<close>

record api_line =
  alSku :: string
  alLotId :: string
  alQty :: float64
  alUom :: string

text \<open>The getters of a nil message return zero values.\<close>

definition toLine :: "api_line option \<Rightarrow> cmd_line" where
  "toLine l = (case l of None \<Rightarrow> \<lparr>clSKU = [], clLotID = [], clQty = 0, clUoM = []\<rparr>
     | Some l \<Rightarrow> \<lparr>clSKU = alSku l, clLotID = alLotId l, clQty = alQty l, clUoM = alUom l\<rparr>)"

definition toLines :: "api_line option list \<Rightarrow> cmd_line list" where
  "toLines ls = map toLine ls"

datatype api_request =
    ApiReceive string string string "api_line option" string
  | ApiPutAway "api_line option" string string
  | ApiPick "api_line option" string string
  | ApiReserve string "api_line option" string
  | ApiReleaseReservation string
  | ApiStartCount string string
  | ApiCountLine string "api_line option"
  | ApiCloseCount string
  | ApiDispatchTransfer string node_id string "api_line option list"
  | ApiReceiveTransfer string string "api_line option list"

type_synonym reservation_order = "wh_state \<Rightarrow> (string \<times> reservation) list"

fun apiCommand :: "reservation_order \<Rightarrow> instant \<Rightarrow> node_id \<Rightarrow> api_request \<Rightarrow> command" where
  "apiCommand rs t n (ApiReceive rid dn po l to) = (\<lambda>s. doReceive s rid dn po (toLine l) to)"
| "apiCommand rs t n (ApiPutAway l src to) = (\<lambda>s. doPutAway s (toLine l) src to)"
| "apiCommand rs t n (ApiPick l src orderRef) = (\<lambda>s. doPick s (toLine l) src orderRef t)"
| "apiCommand rs t n (ApiReserve rid l loc) = (\<lambda>s. doReserve (rs s) s rid (toLine l) loc)"
| "apiCommand rs t n (ApiReleaseReservation rid) = (\<lambda>s. doReleaseReservation s rid)"
| "apiCommand rs t n (ApiStartCount cid loc) = (\<lambda>s. doStartCount s cid loc)"
| "apiCommand rs t n (ApiCountLine cid l) = (\<lambda>s. doCountLine s cid (toLine l))"
| "apiCommand rs t n (ApiCloseCount cid) = (\<lambda>s. doCloseCount s cid)"
| "apiCommand rs t n (ApiDispatchTransfer tid to src ls) = (\<lambda>s. doDispatchTransfer s tid n to src (toLines ls) t)"
| "apiCommand rs t n (ApiReceiveTransfer tid to ls) = (\<lambda>s. doReceiveTransfer s tid to (toLines ls))"

section \<open>Answers\<close>

datatype api_status = FailedPrecondition string | InternalError wh_error

fun statusError :: "wh_error \<Rightarrow> api_status" where
  "statusError (Violation rule) = FailedPrecondition rule"
| "statusError e = InternalError e"

definition runApi :: "db_fault \<Rightarrow> (event_id \<Rightarrow> db_fault) \<Rightarrow> int64 \<Rightarrow> command \<Rightarrow> service \<Rightarrow> (api_status + string list) \<times> service" where
  "runApi f ff now cmd s = (case execute f ff now cmd s of
      ((_, Some e), s) \<Rightarrow> (Inl (statusError e), s)
    | ((envs, None), s) \<Rightarrow> (Inr (map (\<lambda>env. eventIDString (evId env)) envs), s))"

definition apiCall :: "reservation_order \<Rightarrow> instant \<Rightarrow> db_fault \<Rightarrow> (event_id \<Rightarrow> db_fault) \<Rightarrow> int64 \<Rightarrow> api_request \<Rightarrow> service \<Rightarrow>
    (api_status + string list) \<times> service" where
  "apiCall rs t f ff now r s = runApi f ff now (apiCommand rs t (wlNode (svLog s)) r) s"

record api_stock =
  asSku :: string
  asLocation :: string
  asLotId :: string
  asQty :: float64
  asAvailable :: float64

definition apiStockOnHand :: "(float64 list \<Rightarrow> float64 option) \<Rightarrow> string \<Rightarrow> string \<Rightarrow> service \<Rightarrow> api_status + api_stock list" where
  "apiStockOnHand sqlSum sku loc s = (case stockOnHand sqlSum (svSet s) sku loc of Inl e \<Rightarrow> Inl (statusError e)
     | Inr rows \<Rightarrow> Inr (map (\<lambda>r. \<lparr>asSku = wkSKU (srKey r), asLocation = wkLocation (srKey r), asLotId = wkLotID (srKey r),
         asQty = srQty r, asAvailable = srAvailable r\<rparr>) rows))"

record api_exception =
  aeId :: string
  aeKind :: string
  aeReason :: string
  aeCausedBy :: string
  aeSku :: string
  aeLocation :: string
  aeLotId :: string
  aeQty :: float64
  aeRecordedAt :: instant
  aeResolved :: bool

fun kindText :: "exception_kind \<Rightarrow> string" where
  "kindText ExceptionCompensation = ''compensation''"
| "kindText ExceptionNegativeBalance = ''negative_balance''"

definition apiExceptions :: "service \<Rightarrow> api_status + api_exception list" where
  "apiExceptions s = (case exceptionRows (svSet s) of Inl e \<Rightarrow> Inl (statusError e)
     | Inr rows \<Rightarrow> Inr (map (\<lambda>(i, x). \<lparr>aeId = i, aeKind = kindText (exKind x), aeReason = exReason x, aeCausedBy = exCausedBy x,
         aeSku = wkSKU (exKey x), aeLocation = wkLocation (exKey x), aeLotId = wkLotID (exKey x), aeQty = exQty x,
         aeRecordedAt = exRecordedAt x, aeResolved = exResolved x\<rparr>) rows))"

record api_transfer =
  atId :: string
  atFromNode :: node_id
  atToNode :: node_id
  atDispatched :: float64
  atReceived :: float64
  atStatus :: transfer_status
  atDispatchedAt :: "instant option"

text \<open>The first instant of year one is Go's zero time, which is not sent.\<close>

definition apiTransfers :: "service \<Rightarrow> api_status + api_transfer list" where
  "apiTransfers s = (case transferRows (svSet s) of Inl e \<Rightarrow> Inl (statusError e)
     | Inr rows \<Rightarrow> Inr (map (\<lambda>(i, x). \<lparr>atId = i, atFromNode = twFromNode x, atToNode = twToNode x,
         atDispatched = twDispatched x, atReceived = twReceived x, atStatus = twStatus x,
         atDispatchedAt = (if twDispatchedAt x = Some zeroTime then None else twDispatchedAt x)\<rparr>) rows))"

section \<open>Errors\<close>

definition ruleOnly :: "(wh_error + 'a) \<Rightarrow> bool" where
  "ruleOnly r \<longleftrightarrow> (\<forall>e. r = Inl e \<longrightarrow> (\<exists>rule. e = Violation rule))"

named_theorems rule_only

lemma ruleOnly_base [rule_only]: "ruleOnly (Inr x)" "ruleOnly (Inl (Violation rule))"
  by (simp_all add: ruleOnly_def)

lemma ruleOnly_toBase [rule_only]: "ruleOnly (toBase i q u)"
  by (simp add: toBase_def Let_def ruleOnly_def split: option.split)

lemma ruleOnly_item [rule_only]: "ruleOnly (itemOf s sku)"
  by (simp add: itemOf_def ruleOnly_def split: option.split)

lemma ruleOnly_line [rule_only]: "ruleOnly (resolveLine s l)"
  using ruleOnly_item [of s "clSKU l"] ruleOnly_toBase
  by (simp add: resolveLine_def ruleOnly_def split: sum.split)

lemma ruleOnly_withMove [rule_only]: "(\<And>m. ruleOnly (k m)) \<Longrightarrow> ruleOnly (withMove s l k)"
  using ruleOnly_line [of s l] by (auto simp: withMove_def ruleOnly_def split: sum.splits)

definition violationOnly :: "wh_error option \<Rightarrow> bool" where
  "violationOnly c \<longleftrightarrow> (\<forall>e. c = Some e \<longrightarrow> (\<exists>rule. e = Violation rule))"

lemma ruleOnly_guarded [rule_only]: "violationOnly c \<Longrightarrow> ruleOnly k \<Longrightarrow> ruleOnly (guarded c k)"
  by (simp add: guarded_def ruleOnly_def violationOnly_def split: option.split)

lemma guard_violations [rule_only]:
  "violationOnly (requireLocation s code)" "violationOnly (requireOnHand s key q)" "violationOnly (requireLotUsable s lot t)"
  "violationOnly (requireActiveReservation s rid)"
  by (simp_all add: violationOnly_def requireLocation_def requireOnHand_def requireLotUsable_def requireActiveReservation_def
      split: option.split)

lemma ruleOnly_loops [rule_only]:
  "ruleOnly (dispatchLoop s src t running moves ls)" "ruleOnly (receiveLoop s to moves ls)"
  by (induction ls arbitrary: running moves) (auto simp: Let_def intro!: rule_only)

lemma ruleOnly_count [rule_only]: "ruleOnly (requireOpenCount s cid)"
  by (simp add: requireOpenCount_def ruleOnly_def split: option.split)

lemma ruleOnly_sum [rule_only]: "ruleOnly r \<Longrightarrow> (\<And>x. ruleOnly (k x)) \<Longrightarrow> ruleOnly (case r of Inl e \<Rightarrow> Inl e | Inr x \<Rightarrow> k x)"
  by (auto simp: ruleOnly_def split: sum.splits)

lemma ruleOnly_command: "ruleOnly (apiCommand rs t n r s)"
  by (cases r)
    (auto simp: doReceive_def doPutAway_def doPick_def doReserve_def doReleaseReservation_def doStartCount_def doCountLine_def
      doCloseCount_def doDispatchTransfer_def doReceiveTransfer_def Let_def intro!: rule_only split: option.split)


lemma emit_no_violation: "whEmit f now cause events l = (Inl e, l') \<Longrightarrow> \<not> (\<exists>rule. e = Violation rule)"
proof -
  have seal: "seal n now cause s clk es = Inl e \<Longrightarrow> e \<noteq> Violation rule" for n s clk es e rule
    by (induction es arbitrary: s clk) (auto simp: Let_def newEnvelope_def split: sum.splits option.splits if_splits)
  have ins: "insertLoop f ig a rows es = Inl e \<Longrightarrow> e \<noteq> Violation rule" for ig a rows es e rule
    by (induction es arbitrary: a rows) (auto split: if_splits)
  show "whEmit f now cause events l = (Inl e, l') \<Longrightarrow> ?thesis"
    using seal ins by (auto simp: whEmit_def whInsert_def split: sum.splits if_splits) blast+
qed

text \<open>What fails while storing and projecting is never a rule.\<close>

definition noRule :: "(proj_db \<Rightarrow> wh_error + proj_db) \<Rightarrow> bool" where
  "noRule f \<longleftrightarrow> (\<forall>p rule. f p \<noteq> Inl (Violation rule))"

named_theorems no_rule

lemma noRule_next [no_rule]: "noRule f \<Longrightarrow> noRule g \<Longrightarrow> noRule (andNext f g)"
  by (auto simp: noRule_def andNext_def split: sum.splits)

lemma noRule_turn [no_rule]: "(\<And>f. f \<in> set fs \<Longrightarrow> noRule f) \<Longrightarrow> noRule (inTurn fs)"
proof (induction fs)
  case (Cons f fs)
  then have "noRule (andNext f (inTurn fs))" by (intro noRule_next) simp_all
  then show ?case by (simp add: noRule_def)
qed (simp add: noRule_def)

lemma noRule_steps [no_rule]:
  "noRule (addStockRow k q)" "noRule (applyReservation pl)" "noRule (applyTransfer env pl)" "noRule (recordCompensation env c pl)"
  "noRule (\<lambda>p. Inr (g p))"
  by (auto simp: noRule_def addStockRow_def putStock_def applyReservation_def applyTransfer_def putTransfer_def
      recordCompensation_def insertException_def Let_def split: wh_payload.splits option.splits)

lemma noRule_stock [no_rule]: "noRule (applyStock home pl)"
proof -
  have "noRule (inTurn (map moveRow (projMovements pl)))"
    by (rule noRule_turn) (auto simp: moveRow_def intro!: no_rule)
  then show ?thesis by (simp add: noRule_def applyStock_def)
qed

lemma noRule_exception [no_rule]: "noRule (applyException env pl)"
  unfolding applyException_def by (cases "evCausation env") (auto intro!: no_rule)

lemma noRule_all: "noRule (projectAll home env pl)"
  unfolding projectAll_def by (rule noRule_turn) (auto intro!: no_rule)

lemma decode_no_rule: "decodePayload env \<noteq> Inl (Violation rule)"
  by (auto simp: decodePayload_def split: option.splits)

lemma apply_no_rule: "projApply f home env p \<noteq> Inl (Violation rule)"
  using noRule_all [of home env] decode_no_rule [of env rule]
  by (auto simp: projApply_def isApplied_def noRule_def split: sum.splits bool.splits)

lemma pending_no_rule: "applyPending ff home es p = (Some e, p') \<Longrightarrow> e \<noteq> Violation rule"
proof (induction es arbitrary: p)
  case (Cons x es)
  then show ?case using apply_no_rule [of "ff (evId x)" home x p rule]
    by (auto simp: isApplied_def split: sum.splits bool.splits if_splits)
qed simp

lemma rebuild_no_rule: "rebuildState s = (Some e, s') \<Longrightarrow> e \<noteq> Violation rule"
proof -
  have "queryRows rs \<noteq> Inl (Violation rule)" for rs
    by (induction rs) (auto simp: whScan_def split: sum.splits if_splits)
  moreover have "replayState es st \<noteq> Inl (Violation rule)" for es st
    using decode_no_rule by (induction es arbitrary: st) (auto simp: applyState_def split: sum.splits)
  ultimately show "rebuildState s = (Some e, s') \<Longrightarrow> e \<noteq> Violation rule"
    by (auto simp: rebuildState_def whReadAll_def split: sum.splits)
qed

lemma serviceApply_no_rule: "serviceApply ff envs s = (Some e, s') \<Longrightarrow> e \<noteq> Violation rule"
  by (auto simp: serviceApply_def split: prod.splits option.splits dest: pending_no_rule rebuild_no_rule)

lemma statusError_rule: "statusError e = FailedPrecondition rule \<longleftrightarrow> e = Violation rule"
  by (cases e) auto

text \<open>
  C27. The status of a call says what it did. \<open>FailedPrecondition\<close> means that the command broke the named
  rule and nothing changed; an internal error means that the command was valid, and the events may be
  in the log or not, but nothing that was there is gone; identities mean that exactly these events
  are new in the log.
\<close>

theorem wh_api_status_is_truthful:
  "case apiCall rs t f ff now r s of (res, s') \<Rightarrow>
     (case res of
        Inl (FailedPrecondition rule) \<Rightarrow> s' = s \<and> apiCommand rs t (wlNode (svLog s)) r (svState s) = Inl (Violation rule)
      | Inl (InternalError e) \<Rightarrow> (\<exists>events. apiCommand rs t (wlNode (svLog s)) r (svState s) = Inr events) \<and>
          growsTo (whRows (wlDb (svLog s))) (whRows (wlDb (svLog s')))
      | Inr ids \<Rightarrow> (\<exists>events envs. apiCommand rs t (wlNode (svLog s)) r (svState s) = Inr events \<and>
          ids = map (\<lambda>e. eventIDString (evId e)) envs \<and> length envs = length events \<and> distinct (map evId envs) \<and>
          list_all (\<lambda>e. fmlookup (whRows (wlDb (svLog s))) (evId e) = None) envs \<and>
          whRows (wlDb (svLog s')) = storeEnvs (whRows (wlDb (svLog s))) envs))"
proof -
  let ?cmd = "apiCommand rs t (wlNode (svLog s)) r" and ?rows = "whRows (wlDb (svLog s))"
  have rule: "ruleOnly (?cmd (svState s))" by (rule ruleOnly_command)
  show ?thesis
  proof (cases "?cmd (svState s)")
    case (Inl e)
    with rule obtain rl where "e = Violation rl" by (auto simp: ruleOnly_def)
    with Inl show ?thesis by (simp add: apiCall_def runApi_def execute_def)
  next
    case (Inr events)
    obtain x l where em: "whEmit f now None events (svLog s) = (x, l)" by fastforce
    show ?thesis
    proof (cases x)
      case (Inl e)
      with em have "l = svLog s" "\<And>rule. e \<noteq> Violation rule" using whEmit_Inl emit_no_violation by blast+
      moreover from this(2) have "statusError e = InternalError e" by (cases e) auto
      ultimately show ?thesis using Inr em Inl by (simp add: apiCall_def runApi_def execute_def growsTo_def)
    next
      case envs: (Inr envs)
      obtain err s' where ap: "serviceApply ff envs (s\<lparr>svLog := l\<rparr>) = (err, s')" by fastforce
      have log: "svLog s' = l" using serviceApply_frame [of ff envs "s\<lparr>svLog := l\<rparr>"] by (simp add: ap)
      from whEmit_Inr [OF em [unfolded envs]] obtain sq clk where
        seal: "seal (wlNode (svLog s)) now None (wlSeq (svLog s)) (wlClock (svLog s)) events = Inr (envs, sq, clk)"
        and l: "l = (setWhRows (storeEnvs ?rows envs) (svLog s))\<lparr>wlSeq := sq, wlClock := clk\<rparr>"
        and new: "distinct (map evId envs)" "\<forall>e \<in> set envs. fmlookup ?rows (evId e) = None" by blast
      have rows: "whRows (wlDb l) = storeEnvs ?rows envs" by (simp add: l)
      have len: "length envs = length events" using seal_ids [OF seal] by simp
      show ?thesis
      proof (cases err)
        case None
        with Inr em envs ap log rows new len show ?thesis
          by (auto simp: apiCall_def runApi_def execute_def list_all_iff)
      next
        case (Some e)
        with ap have "\<And>rule. e \<noteq> Violation rule" using serviceApply_no_rule by blast
        then have "statusError e = InternalError e" by (cases e) auto
        with Inr em envs ap Some log rows show ?thesis
          by (simp add: apiCall_def runApi_def execute_def growsTo_store)
      qed
    qed
  qed
qed

end
