(* ===== verification/Spec2Isabelle.thy ===== *)
theory Spec2Isabelle
  imports LabSync LfSyncRuns WhBooks WhCursors WhExceptions WhNode WhApi
begin

text \<open>
  The repository holds three programs that replicate a log between nodes which keep working
  while disconnected. This library models them and proves what makes them correct.

  \<^bold>\<open>eventlog-lab.\<close> A node keeps an append-only log of stock events in SQLite (the central store in
  Postgres), derives each item by folding a CRDT over the log, snapshots and compacts it, and
  replicates by exchanging version vectors and missing events.
    \<^item> \<open>Prelude\<close>, \<open>GoJson\<close>: Go's integers, strings, maps, \<open>encoding/json\<close>, shared lemmas.
    \<^item> \<open>ClockSpec\<close> (locale \<open>hybrid_clock\<close>), \<open>ConvergenceSpec\<close> (locale \<open>commuting_fold\<close>): the two
      contracts several components share, with what follows from them.
    \<^item> \<open>LabClock\<close>: \<open>clock/clock.go\<close>. \<open>LabEvent\<close>: \<open>eventlog/event.go\<close>. \<open>LabCrdt\<close>: \<open>crdt/lww.go\<close>,
      \<open>crdt/item.go\<close>. \<open>LabLog\<close>: \<open>eventlog/sqlite.go\<close>, its tables as finite maps, each
      method as the statements it runs. \<open>LabProjector\<close>: \<open>crdt/projector.go\<close>. \<open>LabPostgres\<close>:
      \<open>eventlog/postgres.go\<close>, shown to be the SQLite log on the same tables.
    \<^item> \<open>LabReplica\<close>, \<open>LabRuns\<close>: the abstract state of a log is the list of all events it has taken in
      (compaction deletes rows, so the tables alone do not say); \<open>represents\<close> relates the two, each
      operation preserves it, and the readers are shown to answer from the whole history.
    \<^item> \<open>LabNode\<close>: \<open>node/node.go\<close>. \<open>LabCluster\<close>: any number of nodes as an inductive step relation, with
      loss, duplication, reordering and restarts; unique stamps, durability, convergence.
      \<open>LabCentral\<close>: the reporting table of central.
    \<^item> \<open>LabSync\<close>: \<open>sync/codec.go\<close>, \<open>sync/client.go\<close>, \<open>sync/server.go\<close>, \<open>sync/memory.go\<close>: one end of a
      session is a function of the frames its stream delivers and of the sends that fail, so what
      is proved holds for every peer and every fault; one fault-free session is run end to end.

  \<^bold>\<open>localfirst-go.\<close> A domain-agnostic log with a validator and a projector supplied by the domain, an
  inventory domain with node-owned locations, and the same kind of replication.
    \<^item> \<open>LfClock\<close>: \<open>clock/hlc.go\<close>. \<open>LfLog\<close>: \<open>eventlog/record.go\<close>, \<open>eventlog/store.go\<close>; every transaction takes a
      \<open>db_fault\<close> saying whether the database fails it and where. \<open>LfStore\<close>: the invariant of the store
      and a case rule per transaction. \<open>LfProjection\<close>: \<open>projection/fold.go\<close> with the locales \<open>reducer\<close>
      and \<open>live_projection\<close>.
    \<^item> \<open>LfDomain\<close>: \<open>domain/events.go\<close>, \<open>domain/reducer.go\<close>. \<open>LfInventory\<close>: \<open>domain/inventory.go\<close>,
      \<open>transport/grpc/node.go\<close>. \<open>LfRuns\<close>: runs of commands, merges, failures and restarts of one
      node, all-or-nothing, non-negative owned stock, status codes.
    \<^item> \<open>LfCentral\<close>: \<open>central/pgstore.go\<close>. \<open>LfSync\<close>: \<open>sync/convert.go\<close>, \<open>sync/session.go\<close>, \<open>sync/client.go\<close>,
      \<open>sync/server.go\<close> over a record of storage operations. \<open>LfSyncProps\<close> (locales \<open>sync_log\<close>, \<open>peers\<close>)
      and \<open>LfSyncRuns\<close>: what an exchange guarantees, with and without faults.

  \<^bold>\<open>warehouse-node.\<close> The largest program: a warehouse domain with commands validated against local
  state, and a central arbiter that accepts or compensates what it is sent.
    \<^item> \<open>WhFloat\<close>: Go's \<open>float64\<close> as the rationals IEEE rounds to, with infinities and NaN (one zero only).
      \<open>WhClock\<close>: \<open>domain/hlc.go\<close>. \<open>WhEvent\<close>: \<open>domain/ids.go\<close>, \<open>event.go\<close>, \<open>item.go\<close>, \<open>errors.go\<close>, every payload
      with its JSON form. \<open>WhState\<close>: \<open>domain/state.go\<close>. \<open>WhCommands\<close>: the commands of \<open>stock.go\<close>,
      \<open>receipt.go\<close>, \<open>reservation.go\<close>, \<open>transfer.go\<close>, \<open>count.go\<close>. \<open>WhStock\<close> shows that commands keep stock
      from going negative, \<open>WhLedger\<close> that whole quantities are an exact ledger of the movements.
    \<^item> \<open>WhLog\<close>: \<open>eventlog/log.go\<close>, \<open>schema.go\<close>: sequence numbers and readings over emissions, ingestions,
      failures and restarts; replay.
    \<^item> \<open>WhProjection\<close>: \<open>projection/registry.go\<close>, \<open>stock.go\<close>, \<open>reservation.go\<close>, \<open>transfer.go\<close>,
      \<open>exceptions.go\<close>, the read models as tables. \<open>WhViews\<close>: their balances against the state's;
      \<open>WhExceptions\<close>: the exceptions they list. \<open>WhNode\<close>: \<open>node/service.go\<close>, the log, the read models and
      the state as one service over any run of openings, commands, batches, faults and crashes.
    \<^item> \<open>WhCentral\<close>: \<open>central/memory.go\<close> and the types of \<open>store.go\<close>. \<open>WhArbiter\<close>: \<open>arbiter/arbiter.go\<close>,
      \<open>validators.go\<close>, as programs of store calls each of which may fail before or after its effect.
      \<open>WhRetry\<close> gives the calls as marked steps and the verdict as a function of the store, \<open>WhHalfway\<close>
      shows the verdict to be the same in every state an attempt can break off in, \<open>WhAttempts\<close> runs any
      number of attempts, \<open>WhBooks\<close> keeps purchase orders and transfers from being over-received.
    \<^item> \<open>WhWire\<close>: \<open>sync/codec.go\<close>. \<open>WhSync\<close>: \<open>sync/server.go\<close>, \<open>client.go\<close>, the two ends of a session over
      any frames, with failing sends, store calls and transactions, and the waits between sessions.
      \<open>WhSyncProps\<close> shows that central's store only moves one way (decisions stay, queues grow at the end),
      \<open>WhSession\<close> what each end sends and takes in, \<open>WhCursors\<close> joins the two and shows that the cursors
      never lead and that a session without an error leaves nothing behind.
    \<^item> \<open>WhApi\<close>: \<open>transport/grpc/node_api.go\<close>, the operator's requests and queries, and what a status means.

  \<^bold>\<open>Conventions.\<close> A method with a receiver takes and returns the receiver's record; a Go error is the
  left side of a sum, or the option beside the result where the code returns both. A wall clock is
  the sequence of its readings. A mutex or a database transaction makes an operation one step.
  Loops are structural recursions or functions with a proved measure; no fuel is used. Bounds on
  run lengths appear only where a clock component or a sequence number could leave its
  type: the stamps of a run are bounded by the walls plus the number of clock operations, so the
  hypotheses hold while that sum is an \<open>int64\<close>.

  \<^bold>\<open>Not modelled.\<close> The gRPC transports and generated protobuf code, the commands' flag parsing and
  process set-up, the fault-injection harness \<open>jepsenlite\<close> (its faults are subsumed by the arbitrary
  steps of \<open>LabCluster\<close> and the arbitrary streams of \<open>LabSync\<close>), the second implementation of the warehouse's
  central store in SQL (\<open>central/postgres.go\<close>), driver failures
  of read queries, goroutine scheduling inside one session, and logging.
\<close>

end
